(* ===== verification/Prelude.thy ===== *)
theory Prelude
  imports Main "HOL-Library.Word"
begin

text \<open>
  The vocabulary the components share: the machine types of the source on the
  platform its makefiles build for (x86, little endian, LP64), byte strings, the
  reading and writing of multi-byte integers in either byte order, block copies
  into a buffer, and the results of fallible operations.

  C arrays and \<^verbatim>\<open>std::string\<close> values are lists of bytes or words.  A copy
  into a buffer is \<open>mem_write\<close>, which keeps the length of the buffer and is
  only meant for copies that fit; a definition that may be asked for more states what
  the code does then.
\<close>

unbundle bit_operations_syntax

type_synonym u8 = "8 word"
type_synonym u16 = "16 word"
type_synonym u32 = "32 word"
type_synonym u64 = "64 word"
type_synonym bytes = "u8 list"

named_theorems byte_simps "conversion between integers and byte strings"

section \<open>Lists used as C arrays\<close>

definition mem_write :: "'a list \<Rightarrow> nat \<Rightarrow> 'a list \<Rightarrow> 'a list" where
  "mem_write buf off xs = take off buf @ xs @ drop (off + length xs) buf"

definition mem_read :: "'a list \<Rightarrow> nat \<Rightarrow> nat \<Rightarrow> 'a list" where
  "mem_read buf off n = take n (drop off buf)"

lemma length_mem_write [simp]:
  "off + length xs \<le> length buf \<Longrightarrow> length (mem_write buf off xs) = length buf"
  by (simp add: mem_write_def)

lemma length_mem_read [simp]:
  "off + n \<le> length buf \<Longrightarrow> length (mem_read buf off n) = n"
  by (simp add: mem_read_def)

lemma mem_read_write_same [simp]:
  "off + length xs \<le> length buf \<Longrightarrow> mem_read (mem_write buf off xs) off (length xs) = xs"
  by (simp add: mem_read_def mem_write_def)

lemma take_mem_write:
  "off + length xs \<le> length buf \<Longrightarrow>
   take (off + length xs) (mem_write buf off xs) = take off buf @ xs"
  by (simp add: mem_write_def)

lemma take_mem_write_before [simp]:
  "n \<le> off \<Longrightarrow> off \<le> length buf \<Longrightarrow> take n (mem_write buf off xs) = take n buf"
  by (simp add: mem_write_def min_def)

lemma drop_mem_write [simp]:
  "off + length xs \<le> n \<Longrightarrow> off + length xs \<le> length buf \<Longrightarrow>
   drop n (mem_write buf off xs) = drop n buf"
  by (simp add: mem_write_def add.commute)

lemma mem_read_append_left [simp]:
  "mem_read (xs @ ys) 0 (length xs) = xs"
  by (simp add: mem_read_def)

section \<open>Integers as bytes\<close>

text \<open>
  \<open>le_bytes n w\<close> are the \<open>n\<close> bytes at which an x86 machine stores the low
  \<open>8 * n\<close> bits of \<open>w\<close>, \<open>le_word\<close> reads them back; \<open>be_bytes\<close> and
  \<open>be_word\<close> are network order.
\<close>

fun le_bytes :: "nat \<Rightarrow> 'a::len word \<Rightarrow> bytes" where
  "le_bytes 0 w = []"
| "le_bytes (Suc n) w = ucast w # le_bytes n (drop_bit 8 w)"

fun le_word :: "bytes \<Rightarrow> 'a::len word" where
  "le_word [] = 0"
| "le_word (b # bs) = ucast b OR push_bit 8 (le_word bs)"

definition be_bytes :: "nat \<Rightarrow> 'a::len word \<Rightarrow> bytes" where
  "be_bytes n w = rev (le_bytes n w)"

definition be_word :: "bytes \<Rightarrow> 'a::len word" where
  "be_word bs = le_word (rev bs)"

lemma length_le_bytes [simp]: "length (le_bytes n w) = n"
  by (induction n w rule: le_bytes.induct) auto

lemma length_be_bytes [simp]: "length (be_bytes n w) = n"
  by (simp add: be_bytes_def)

lemma ucast_u8_or_shift:
  "(ucast (ucast w :: u8) :: 'a::len word) OR push_bit 8 (take_bit n (drop_bit 8 w)) =
   take_bit (8 + n) w"
  by (rule bit_word_eqI) (auto simp: bit_simps)

lemma le_word_le_bytes: "le_word (le_bytes n w) = take_bit (8 * n) (w :: 'a::len word)"
proof (induction n w rule: le_bytes.induct)
  case (1 w)
  then show ?case by simp
next
  case (2 n w)
  then show ?case
    by (simp only: le_bytes.simps le_word.simps ucast_u8_or_shift) (simp add: mult.commute)
qed

lemma le_word_le_bytes_id [byte_simps]:
  "LENGTH('a::len) \<le> 8 * n \<Longrightarrow> le_word (le_bytes n w) = (w :: 'a word)"
  by (simp add: le_word_le_bytes)
     (metis take_bit_length_eq take_bit_take_bit min.absorb2)

lemma be_word_be_bytes_id [byte_simps]:
  "LENGTH('a::len) \<le> 8 * n \<Longrightarrow> be_word (be_bytes n w) = (w :: 'a word)"
  by (simp add: be_word_def be_bytes_def byte_simps)

lemma ucast_or_shift_u8:
  "8 \<le> LENGTH('a::len) \<Longrightarrow> ucast ((ucast b :: 'a word) OR push_bit 8 v) = (b :: u8)"
  by (rule bit_word_eqI) (auto simp: bit_simps)

lemma drop_or_shift_u8:
  "drop_bit 8 ((ucast (b :: u8) :: 'a::len word) OR push_bit 8 v) = take_bit (LENGTH('a) - 8) v"
  by (rule bit_word_eqI) (auto simp: bit_simps dest: bit_imp_le_length)

lemma le_bytes_take_bit:
  "8 * n \<le> m \<Longrightarrow> le_bytes n (take_bit m w) = le_bytes n w"
proof (induction n arbitrary: m w)
  case 0
  then show ?case by simp
next
  case (Suc n)
  have "ucast (take_bit m w) = (ucast w :: u8)"
    using Suc.prems by (intro bit_word_eqI) (auto simp: bit_simps)
  moreover have "drop_bit 8 (take_bit m w) = take_bit (m - 8) (drop_bit 8 w)"
    by (simp add: drop_bit_take_bit)
  moreover have "8 * n \<le> m - 8" using Suc.prems by simp
  ultimately show ?case using Suc.IH by simp
qed

lemma le_bytes_le_word [byte_simps]:
  "8 * length bs \<le> LENGTH('a::len) \<Longrightarrow> le_bytes (length bs) (le_word bs :: 'a word) = bs"
proof (induction bs)
  case Nil
  then show ?case by simp
next
  case (Cons b bs)
  then have "8 * length bs \<le> LENGTH('a) - 8" and "8 \<le> LENGTH('a)" by auto
  with Cons show ?case
    by (simp add: ucast_or_shift_u8 drop_or_shift_u8 le_bytes_take_bit del: drop_bit_or)
qed

lemma be_bytes_be_word [byte_simps]:
  "8 * length bs \<le> LENGTH('a::len) \<Longrightarrow> be_bytes (length bs) (be_word bs :: 'a word) = bs"
  using le_bytes_le_word [of "rev bs", where 'a = 'a] by (simp add: be_bytes_def be_word_def)

text \<open>The natural number a byte string stands for, in either order.\<close>

fun le_val :: "bytes \<Rightarrow> nat" where
  "le_val [] = 0"
| "le_val (b # bs) = unat b + 256 * le_val bs"

definition be_val :: "bytes \<Rightarrow> nat" where
  "be_val bs = le_val (rev bs)"

lemma unat_u8_less: "unat (b :: u8) < 256"
  using unsigned_less [of b] by simp

lemma le_val_less: "le_val bs < 256 ^ length bs"
proof (induction bs)
  case Nil
  then show ?case by simp
next
  case (Cons b bs)
  then have "le_val bs + 1 \<le> 256 ^ length bs" by simp
  from mult_le_mono2 [OF this, of 256] unat_u8_less [of b] show ?case by simp
qed

lemma le_val_append: "le_val (xs @ ys) = le_val xs + 256 ^ length xs * le_val ys"
  by (induction xs) (auto simp: algebra_simps)

lemma le_val_zeros [simp]: "le_val (replicate n 0) = 0"
  by (induction n) auto

lemma be_val_less: "be_val bs < 256 ^ length bs"
  using le_val_less [of "rev bs"] by (simp add: be_val_def)

lemma le_val_inj: "length xs = length ys \<Longrightarrow> le_val xs = le_val ys \<Longrightarrow> xs = ys"
proof (induction xs ys rule: list_induct2)
  case Nil
  then show ?case by simp
next
  case (Cons x xs y ys)
  from Cons.prems have "(unat x + 256 * le_val xs) mod 256 = (unat y + 256 * le_val ys) mod 256"
    and "(unat x + 256 * le_val xs) div 256 = (unat y + 256 * le_val ys) div 256"
    by simp_all
  with Cons.IH unat_u8_less [of x] unat_u8_less [of y] show ?case
    by (simp add: word_unat_eq_iff)
qed

lemma unat_byte_cons:
  assumes "8 \<le> LENGTH('a::len)" "unat w < 2 ^ (LENGTH('a) - 8)"
  shows "unat ((ucast (b :: u8) :: 'a word) OR push_bit 8 w) = unat b + 256 * unat w"
proof -
  have "unat ((ucast b :: 'a word) OR push_bit 8 w) = unat (ucast b :: 'a word) + unat (push_bit 8 w)"
    by (simp add: unsigned_or_eq, subst disjunctive_add_eq_or [symmetric])
       (auto simp: bit_eq_iff bit_simps dest: bit_imp_le_length)
  moreover have "unat (ucast b :: 'a word) = unat b"
    using assms(1) unat_u8_less [of b] power_increasing [OF assms(1), of "2 :: nat"]
    by (simp add: unsigned_ucast_eq take_bit_eq_mod)
  moreover have "256 * unat w < 2 ^ LENGTH('a)"
    using assms mult_strict_left_mono [OF assms(2), of 256]
    by (simp add: power_diff flip: power_add) 
  then have "unat (push_bit 8 w) = 256 * unat w"
    by (simp only: unsigned_push_bit_eq) (simp add: push_bit_eq_mult take_bit_eq_mod mult.commute)
  ultimately show ?thesis by (simp only:)
qed

lemma unat_le_word:
  "8 * length bs \<le> LENGTH('a::len) \<Longrightarrow> unat (le_word bs :: 'a word) = le_val bs"
proof (induction bs)
  case Nil
  then show ?case by simp
next
  case (Cons b bs)
  have "le_val bs < 2 ^ (8 * length bs)"
    using le_val_less [of bs] by (simp add: power_mult)
  also have "\<dots> \<le> 2 ^ (LENGTH('a) - 8)"
    using Cons.prems by (intro power_increasing) auto
  finally show ?case
    using Cons by (simp add: unat_byte_cons)
qed

lemma le_val_le_bytes: "le_val (le_bytes n w) = unat w mod 256 ^ n"
proof (induction n w rule: le_bytes.induct)
  case (1 w)
  then show ?case by simp
next
  case (2 n w)
  have "unat w mod 256 ^ Suc n = 256 * (unat w div 256 mod 256 ^ n) + unat w mod 256"
    using mod_mult2_eq [of "unat w" 256 "256 ^ n"] by simp
  moreover have "unat (ucast w :: u8) = unat w mod 256"
    by (simp add: unsigned_ucast_eq take_bit_eq_mod)
  moreover have "unat (drop_bit 8 w) = unat w div 256"
    by (simp only: unat_drop_bit_eq) (simp add: drop_bit_eq_div)
  ultimately show ?case
    by (simp only: le_bytes.simps le_val.simps 2)
qed

lemma be_val_be_bytes: "be_val (be_bytes n w) = unat w mod 256 ^ n"
  by (simp add: be_val_def be_bytes_def le_val_le_bytes)

text \<open>
  \<open>htons\<close>/\<open>ntohs\<close> and \<open>htonl\<close>/\<open>ntohl\<close> of a little-endian host: the
  bytes of the word in the other order.
\<close>

definition ntohs :: "u16 \<Rightarrow> u16" where
  "ntohs w = be_word (le_bytes 2 w)"

definition ntohl :: "u32 \<Rightarrow> u32" where
  "ntohl w = be_word (le_bytes 4 w)"

lemma le_bytes_ntohs [byte_simps]: "le_bytes 2 (ntohs w) = be_bytes 2 w"
  using le_bytes_le_word [of "rev (le_bytes 2 w)", where 'a = 16]
  by (simp add: ntohs_def be_word_def be_bytes_def)

lemma le_bytes_ntohl [byte_simps]: "le_bytes 4 (ntohl w) = be_bytes 4 w"
  using le_bytes_le_word [of "rev (le_bytes 4 w)", where 'a = 32]
  by (simp add: ntohl_def be_word_def be_bytes_def)

lemma ntohs_le_word [byte_simps]: "length bs = 2 \<Longrightarrow> ntohs (le_word bs) = be_word bs"
  using le_bytes_le_word [of bs, where 'a = 16] by (simp add: ntohs_def)

lemma ntohl_le_word [byte_simps]: "length bs = 4 \<Longrightarrow> ntohl (le_word bs) = be_word bs"
  using le_bytes_le_word [of bs, where 'a = 32] by (simp add: ntohl_def)

lemma ntohs_ntohs [simp]: "ntohs (ntohs w) = w"
  by (simp add: ntohs_def [of "ntohs w"] byte_simps)

lemma ntohl_ntohl [simp]: "ntohl (ntohl w) = w"
  by (simp add: ntohl_def [of "ntohl w"] byte_simps)

section \<open>32-bit words as natural numbers\<close>

lemma unat_u16_less: "unat (x :: u16) < 65536"
  using unsigned_less [of x, where 'a = nat] by simp

lemma unat_u32_less: "unat (a :: u32) < 4294967296"
  using unsigned_less [of a] by simp

lemma u32_add: "unat (a + b :: u32) =
    (if unat a + unat b < 2 ^ 32 then unat a + unat b else unat a + unat b - 2 ^ 32)"
  by (simp add: unat_plus_if')

lemma u32_sub: "unat (a - b :: u32) =
    (if unat b \<le> unat a then unat a - unat b else unat a + 2 ^ 32 - unat b)"
  by (simp add: unat_sub_if')

lemma u32_drop: "unat (drop_bit n w :: u32) = unat w div 2 ^ n"
  by (simp only: unat_drop_bit_eq) (simp add: drop_bit_eq_div)

lemma u32_push: "n \<le> 32 \<Longrightarrow> unat (push_bit n w :: u32) = (unat w mod 2 ^ (32 - n)) * 2 ^ n"
  using mult_mod_left [of "unat w" "2 ^ (32 - n)" "2 ^ n"]
  by (simp only: unsigned_push_bit_eq) (simp add: push_bit_eq_mult take_bit_eq_mod flip: power_add)

end
