(* ===== verification/Fifo.thy ===== *)
theory Fifo
  imports Prelude
begin

text \<open>
  The contract every message queue of the framework offers to its users: values go
  in at one end, come out of the other in the same order, and taking from an empty
  queue yields nothing (the code's \<^verbatim>\<open>NULL\<close>).  A client only relies on the laws
  of the locale; the components prove them for their own operations.
\<close>

datatype 'a fifo_op = Put 'a | Get

text \<open>
  A run of operations: the values that were accepted, the values that were handed
  out, and the final state.
\<close>

fun fifo_run ::
  "('q \<Rightarrow> 'a \<Rightarrow> bool \<times> 'q) \<Rightarrow> ('q \<Rightarrow> 'a option \<times> 'q) \<Rightarrow> 'a fifo_op list \<Rightarrow> 'q
    \<Rightarrow> 'a list \<times> 'a list \<times> 'q" where
  "fifo_run put get [] q = ([], [], q)"
| "fifo_run put get (Put x # ops) q =
     (let (ok, q1) = put q x; (acc, out, q2) = fifo_run put get ops q1
      in (if ok then x # acc else acc, out, q2))"
| "fifo_run put get (Get # ops) q =
     (let (r, q1) = get q; (acc, out, q2) = fifo_run put get ops q1
      in (acc, (case r of None \<Rightarrow> out | Some x \<Rightarrow> x # out), q2))"

locale fifo =
  fixes put :: "'q \<Rightarrow> 'a \<Rightarrow> bool \<times> 'q"
    and get :: "'q \<Rightarrow> 'a option \<times> 'q"
    and content :: "'q \<Rightarrow> 'a list"
    and inv :: "'q \<Rightarrow> bool"
  assumes put_accept: "inv q \<Longrightarrow> put q x = (True, q') \<Longrightarrow> inv q' \<and> content q' = content q @ [x]"
    and put_refuse: "inv q \<Longrightarrow> put q x = (False, q') \<Longrightarrow> q' = q"
    and get_empty: "inv q \<Longrightarrow> content q = [] \<Longrightarrow> get q = (None, q)"
    and get_first: "inv q \<Longrightarrow> content q = x # xs \<Longrightarrow>
                      \<exists>q'. get q = (Some x, q') \<and> inv q' \<and> content q' = xs"
begin

lemma get_cases:
  assumes "inv q" "get q = (r, q')"
  shows "inv q' \<and> content q = (case r of None \<Rightarrow> [] | Some x \<Rightarrow> [x]) @ content q'"
proof (cases "content q")
  case Nil
  with get_empty [OF assms(1)] assms show ?thesis by auto
next
  case (Cons x xs)
  with get_first [OF assms(1) Cons] assms show ?thesis by auto
qed

lemma put_cases:
  assumes "inv q" "put q x = (ok, q')"
  shows "inv q' \<and> content q' = content q @ (if ok then [x] else [])"
  using assms put_accept [of q x q'] put_refuse [of q x q'] by (cases ok) auto

lemma run_order:
  assumes "inv q" "fifo_run put get ops q = (acc, out, q')"
  shows "inv q' \<and> out @ content q' = content q @ acc"
  using assms
proof (induction ops arbitrary: q acc out q')
  case Nil
  then show ?case by simp
next
  case (Cons op ops)
  show ?case
  proof (cases op)
    case (Put x)
    obtain ok q1 where p: "put q x = (ok, q1)" by force
    obtain acc1 out1 q2 where r: "fifo_run put get ops q1 = (acc1, out1, q2)"
      by (cases "fifo_run put get ops q1")
    from put_cases [OF Cons.prems(1) p] Cons.IH [OF _ r] Cons.prems(2) show ?thesis
      by (auto simp: Put p r)
  next
    case Get
    obtain x q1 where g: "get q = (x, q1)" by force
    obtain acc1 out1 q2 where r: "fifo_run put get ops q1 = (acc1, out1, q2)"
      by (cases "fifo_run put get ops q1")
    from get_cases [OF Cons.prems(1) g] Cons.IH [OF _ r] Cons.prems(2) show ?thesis
      by (auto simp: Get g r split: option.splits)
  qed
qed

end

text \<open>A queue with a fixed capacity refuses a value exactly when it is full.\<close>

locale bounded_fifo = fifo +
  fixes capacity :: "'a \<Rightarrow> nat"
  assumes put_iff: "inv q \<Longrightarrow> fst (put q x) \<longleftrightarrow> length (content q) < capacity q"
    and bounded: "inv q \<Longrightarrow> length (content q) \<le> capacity q"
    and put_capacity: "inv q \<Longrightarrow> capacity (snd (put q x)) = capacity q"
    and get_capacity: "inv q \<Longrightarrow> capacity (snd (get q)) = capacity q"
begin

lemma run_bounded:
  assumes "inv q" "fifo_run put get ops q = (acc, out, q')"
  shows "length acc \<le> length out + (capacity q - length (content q)) \<and> capacity q' = capacity q"
proof -
  have cap: "capacity q' = capacity q"
    using assms
  proof (induction ops arbitrary: q acc out q')
    case Nil
    then show ?case by simp
  next
    case (Cons op ops)
    show ?case
    proof (cases op)
      case (Put x)
      obtain ok q1 where p: "put q x = (ok, q1)" by force
      obtain acc1 out1 q2 where r: "fifo_run put get ops q1 = (acc1, out1, q2)"
        by (cases "fifo_run put get ops q1")
      have "inv q1" using put_cases [OF Cons.prems(1) p] by simp
      from Cons.IH [OF this r] put_capacity [OF Cons.prems(1), of x] Cons.prems(2) show ?thesis
        by (auto simp: Put p r)
    next
      case Get
      obtain x q1 where g: "get q = (x, q1)" by force
      obtain acc1 out1 q2 where r: "fifo_run put get ops q1 = (acc1, out1, q2)"
        by (cases "fifo_run put get ops q1")
      have "inv q1" using get_cases [OF Cons.prems(1) g] by simp
      from Cons.IH [OF this r] get_capacity [OF Cons.prems(1)] Cons.prems(2) show ?thesis
        by (auto simp: Get g r)
    qed
  qed
  from run_order [OF assms] have "inv q'" and eq: "out @ content q' = content q @ acc" by auto
  from arg_cong [OF eq, of length] bounded [OF \<open>inv q'\<close>] cap bounded [OF assms(1)]
  show ?thesis by simp
qed

end

end
