(* ===== verification/Cir_Queue.thy ===== *)
theory Cir_Queue
  imports Fifo
begin

text \<open>
  \<^verbatim>\<open>HBase/CirQueue.h\<close>: the circular queue of \<^verbatim>\<open>void*\<close>.  A pointer is an
  \<open>'a option\<close> with \<open>None\<close> for \<^verbatim>\<open>NULL\<close>; the sizes are the C++ \<^verbatim>\<open>int\<close>s of the
  class.  The slots of a fresh queue hold what \<^verbatim>\<open>malloc\<close> returned, the argument
  \<open>mem\<close> of the constructor; \<open>None\<close> of the constructor is the failed assertion.
\<close>

record 'a cirqueue =
  m_iSize :: int
  m_iNext :: int
  m_iCapacity :: int
  m_pData :: "'a option list"

definition H_ONEK :: int where
  "H_ONEK = 1024"

definition CCirQueue :: "int \<Rightarrow> 'a option list option \<Rightarrow> 'a cirqueue option" where
  "CCirQueue iCapacity mem =
     (case mem of
        None \<Rightarrow> None
      | Some d \<Rightarrow> Some \<lparr>m_iSize = 0, m_iNext = 0, m_iCapacity = iCapacity, m_pData = d\<rparr>)"

definition CCirQueue_default :: "'a option list option \<Rightarrow> 'a cirqueue option" where
  "CCirQueue_default mem = CCirQueue H_ONEK mem"

definition Empty :: "'a cirqueue \<Rightarrow> bool" where
  "Empty q \<longleftrightarrow> 0 = m_iSize q"

definition Full :: "'a cirqueue \<Rightarrow> bool" where
  "Full q \<longleftrightarrow> m_iSize q \<ge> m_iCapacity q"

definition Push :: "'a cirqueue \<Rightarrow> 'a option \<Rightarrow> bool \<times> 'a cirqueue" where
  "Push q pValue =
     (if Full q then (False, q)
      else
        let iPos = m_iNext q + m_iSize q;
            iPos = (if iPos \<ge> m_iCapacity q then iPos - m_iCapacity q else iPos)
        in (True, q\<lparr>m_pData := (m_pData q)[nat iPos := pValue], m_iSize := m_iSize q + 1\<rparr>))"

definition Pop :: "'a cirqueue \<Rightarrow> 'a option \<times> 'a cirqueue" where
  "Pop q =
     (if m_iSize q > 0 then
        let pValue = m_pData q ! nat (m_iNext q);
            next = m_iNext q + 1;
            next = (if next \<ge> m_iCapacity q then next - m_iCapacity q else next)
        in (pValue, q\<lparr>m_iNext := next, m_iSize := m_iSize q - 1\<rparr>)
      else (None, q))"

definition Peek :: "'a cirqueue \<Rightarrow> 'a option" where
  "Peek q = (if m_iSize q > 0 then m_pData q ! nat (m_iNext q) else None)"

section \<open>The invariant and the abstract queue\<close>

definition cq_wf :: "'a cirqueue \<Rightarrow> bool" where
  "cq_wf q \<longleftrightarrow>
     0 \<le> m_iSize q \<and> m_iSize q \<le> m_iCapacity q \<and> 0 < m_iCapacity q \<and>
     0 \<le> m_iNext q \<and> m_iNext q < m_iCapacity q \<and>
     int (length (m_pData q)) = m_iCapacity q"

definition slot :: "'a cirqueue \<Rightarrow> nat \<Rightarrow> nat" where
  "slot q i = nat ((m_iNext q + int i) mod m_iCapacity q)"

definition cq_list :: "'a cirqueue \<Rightarrow> 'a option list" where
  "cq_list q = map (\<lambda>i. m_pData q ! slot q i) [0..<nat (m_iSize q)]"

lemma length_cq_list [simp]: "length (cq_list q) = nat (m_iSize q)"
  by (simp add: cq_list_def)

lemma mod_one_sub:
  fixes a c :: int
  assumes "0 \<le> a" "a < 2 * c"
  shows "(if a \<ge> c then a - c else a) = a mod c"
proof (cases "a \<ge> c")
  case True
  with assms mod_pos_pos_trivial [of "a - c" c] have "a mod c = a - c" by simp
  with True show ?thesis by simp
next
  case False
  with assms show ?thesis by (simp add: mod_pos_pos_trivial)
qed

lemma slot_inj:
  assumes "cq_wf q" "i < nat (m_iCapacity q)" "j < nat (m_iCapacity q)" "slot q i = slot q j"
  shows "i = j"
proof -
  let ?c = "m_iCapacity q" and ?n = "m_iNext q"
  from assms(1) have c: "0 < ?c" and n: "0 \<le> ?n" "?n < ?c" by (auto simp: cq_wf_def)
  from assms(4) c have "(?n + int i) mod ?c = (?n + int j) mod ?c"
    by (simp add: slot_def eq_nat_nat_iff)
  then have "(int i - int j) mod ?c = 0"
    by (metis add_diff_cancel_left mod_eq_dvd_iff mod_0_imp_dvd dvd_imp_mod_0)
  moreover have "\<bar>int i - int j\<bar> < ?c" using assms(2,3) c by linarith
  ultimately have "int i - int j = 0"
    using c by (metis dvd_imp_le_int abs_of_pos linorder_not_less mod_0_imp_dvd)
  then show ?thesis by simp
qed

lemma slot_less: "cq_wf q \<Longrightarrow> slot q i < length (m_pData q)"
  by (auto simp: cq_wf_def slot_def nat_less_iff)

lemma Push_pos:
  assumes "cq_wf q" "\<not> Full q"
  shows "Push q p =
    (True, q\<lparr>m_pData := (m_pData q)[slot q (nat (m_iSize q)) := p], m_iSize := m_iSize q + 1\<rparr>)"
  using assms mod_one_sub [of "m_iNext q + m_iSize q" "m_iCapacity q"]
  by (simp add: Push_def Full_def cq_wf_def slot_def Let_def)

lemma Push_list:
  assumes "cq_wf q" "\<not> Full q"
  shows "cq_wf (snd (Push q p)) \<and> cq_list (snd (Push q p)) = cq_list q @ [p]"
proof -
  let ?k = "slot q (nat (m_iSize q))"
  let ?q = "q\<lparr>m_pData := (m_pData q)[?k := p], m_iSize := m_iSize q + 1\<rparr>"
  have s: "0 \<le> m_iSize q" "m_iSize q < m_iCapacity q"
    using assms by (auto simp: cq_wf_def Full_def)
  have sl: "slot ?q i = slot q i" for i by (simp add: slot_def)
  have old: "(m_pData q)[?k := p] ! slot q i = m_pData q ! slot q i" if "i < nat (m_iSize q)" for i
    using slot_inj [OF assms(1), of i "nat (m_iSize q)"] that s by (auto intro: nth_list_update_neq)
  have new: "(m_pData q)[?k := p] ! ?k = p"
    using slot_less [OF assms(1)] by simp
  have up: "[0..<nat (m_iSize q + 1)] = [0..<nat (m_iSize q)] @ [nat (m_iSize q)]"
    using s by (simp add: nat_add_distrib)
  have "cq_list ?q = cq_list q @ [p]"
    using old new by (simp add: cq_list_def sl up)
  moreover have "cq_wf ?q"
    using assms s by (auto simp: cq_wf_def)
  ultimately show ?thesis
    by (simp add: Push_pos [OF assms])
qed

lemma Pop_list:
  assumes "cq_wf q" "cq_list q = p # ps"
  shows "fst (Pop q) = p \<and> cq_wf (snd (Pop q)) \<and> cq_list (snd (Pop q)) = ps"
proof -
  let ?n = "(m_iNext q + 1) mod m_iCapacity q"
  let ?q = "q\<lparr>m_iNext := ?n, m_iSize := m_iSize q - 1\<rparr>"
  have pos: "0 < m_iSize q"
    using arg_cong [OF assms(2), of length] by simp
  have wf: "0 < m_iCapacity q" "0 \<le> m_iNext q" "m_iNext q < m_iCapacity q"
    using assms(1) by (auto simp: cq_wf_def)
  have pop: "Pop q = (m_pData q ! nat (m_iNext q), ?q)"
    using pos wf mod_one_sub [of "m_iNext q + 1" "m_iCapacity q"] by (simp add: Pop_def Let_def)
  have sl: "slot ?q i = slot q (Suc i)" for i
    using mod_add_left_eq [of "m_iNext q + 1" "m_iCapacity q" "int i"]
    by (simp add: slot_def add.assoc)
  have up: "[0..<nat (m_iSize q)] = 0 # map Suc [0..<nat (m_iSize q - 1)]"
    using pos by (simp add: map_Suc_upt upt_conv_Cons nat_diff_distrib)
  have z: "slot q 0 = nat (m_iNext q)"
    using wf by (simp add: slot_def)
  have "cq_list q = m_pData q ! nat (m_iNext q) # cq_list ?q"
    by (simp only: cq_list_def up z [symmetric]) (simp add: sl comp_def)
  moreover have "cq_wf ?q"
    using assms(1) pos by (auto simp: cq_wf_def)
  ultimately show ?thesis
    using assms(2) by (simp add: pop)
qed

section \<open>The queue offers the interface\<close>

text \<open>
  The users of the class push non-null pointers: \<open>NULL\<close> is what \<^verbatim>\<open>Pop\<close> returns
  for the empty queue.
\<close>

definition cq_put :: "'a cirqueue \<Rightarrow> 'a \<Rightarrow> bool \<times> 'a cirqueue" where
  "cq_put q x = Push q (Some x)"

definition cq_inv :: "'a cirqueue \<Rightarrow> bool" where
  "cq_inv q \<longleftrightarrow> cq_wf q \<and> None \<notin> set (cq_list q)"

definition cq_content :: "'a cirqueue \<Rightarrow> 'a list" where
  "cq_content q = map the (cq_list q)"

lemma cq_list_content: "cq_inv q \<Longrightarrow> cq_list q = map Some (cq_content q)"
  unfolding cq_content_def map_map
  by (rule map_idI [symmetric]) (metis comp_apply cq_inv_def option.collapse)

interpretation cq: bounded_fifo cq_put Pop cq_content cq_inv "\<lambda>q. nat (m_iCapacity q)"
proof unfold_locales
  fix q :: "'a cirqueue" and x q'
  assume q: "cq_inv q" and p: "cq_put q x = (True, q')"
  then have "\<not> Full q" by (auto simp: cq_put_def Push_def)
  with q Push_list [of q "Some x"] p show "cq_inv q' \<and> cq_content q' = cq_content q @ [x]"
    by (auto simp: cq_inv_def cq_content_def cq_put_def)
next
  fix q :: "'a cirqueue" and x q'
  assume "cq_inv q" and "cq_put q x = (False, q')"
  then show "q' = q" by (auto simp: cq_put_def Push_def Let_def split: if_splits)
next
  fix q :: "'a cirqueue"
  assume "cq_inv q" and "cq_content q = []"
  then show "Pop q = (None, q)"
    by (auto simp: cq_content_def cq_list_def Pop_def)
next
  fix q :: "'a cirqueue" and x xs
  assume q: "cq_inv q" and c: "cq_content q = x # xs"
  then have "cq_list q = Some x # map Some xs" by (simp add: cq_list_content)
  from Pop_list [OF _ this] q this show "\<exists>q'. Pop q = (Some x, q') \<and> cq_inv q' \<and> cq_content q' = xs"
    by (cases "Pop q") (auto simp: cq_inv_def cq_content_def comp_def)
next
  fix q :: "'a cirqueue" and x
  assume "cq_inv q"
  then show "fst (cq_put q x) = (length (cq_content q) < nat (m_iCapacity q))"
    by (auto simp: cq_put_def Push_def Full_def cq_inv_def cq_wf_def cq_content_def Let_def)
next
  fix q :: "'a cirqueue"
  assume "cq_inv q"
  then show "length (cq_content q) \<le> nat (m_iCapacity q)"
    by (auto simp: cq_inv_def cq_wf_def cq_content_def)
next
  fix q :: "'a cirqueue" and x
  show "nat (m_iCapacity (snd (cq_put q x))) = nat (m_iCapacity q)"
    by (simp add: cq_put_def Push_def Let_def)
next
  fix q :: "'a cirqueue"
  show "nat (m_iCapacity (snd (Pop q))) = nat (m_iCapacity q)"
    by (simp add: Pop_def Let_def)
qed

end
