(* ===== verification/Cir_Props.thy ===== *)
theory Cir_Props
  imports Cir_Queue
begin

text \<open>The properties of the circular queue of \<^verbatim>\<open>HBase/CirQueue.h\<close>.\<close>



text \<open>A run never accepts more than what it hands out and the free slots of the start,
  and it keeps the capacity.\<close>

theorem cirqueue_bounded:
  assumes "cq_inv q" "fifo_run cq_put Pop ops q = (acc, out, q')"
  shows "length acc \<le> length out + (nat (m_iCapacity q) - length (cq_content q)) \<and>
         nat (m_iCapacity q') = nat (m_iCapacity q)"
  by (rule cq.run_bounded [OF assms])

theorem cirqueue_bounded_witness:
  "\<exists>q'. fifo_run cq_put Pop [Put 1, Put 2, Put (3 :: nat)]
          \<lparr>m_iSize = 0, m_iNext = 0, m_iCapacity = 2, m_pData = [None, None]\<rparr> = ([1, 2], [], q') \<and>
        nat (m_iCapacity q') = 2"
proof -
  let ?q = "\<lparr>m_iSize = 0, m_iNext = 0, m_iCapacity = 2, m_pData = [None, None :: nat option]\<rparr>"
  let ?ops = "[Put 1, Put 2, Put (3 :: nat)]"
  have "cq_inv ?q" by (simp add: cq_inv_def cq_wf_def cq_list_def)
  moreover obtain acc out q' where r: "fifo_run cq_put Pop ?ops ?q = (acc, out, q')"
    by (cases "fifo_run cq_put Pop ?ops ?q")
  ultimately have c: "nat (m_iCapacity q') = nat (m_iCapacity ?q)"
    by (rule cirqueue_bounded [THEN conjunct2])
  have "acc = [1, 2] \<and> out = []"
    using r by (auto simp: cq_put_def Push_def Pop_def Full_def Let_def)
  with r c show ?thesis by (metis cirqueue.select_convs(3) nat_numeral)
qed

end
