(* ===== verification/NN.thy ===== *)
theory NN
  imports Prelude
begin

text \<open>
  \<^verbatim>\<open>HBase/RSAEuro/nn.c\<close>, first part: the multi-precision natural numbers the RSA
  code computes with.  A number is a list of 32-bit digits, least significant first, as
  in the C arrays; \<open>nn_val\<close> is the natural number it stands for.  A function that
  fills an array of \<open>digits\<close> digits returns the list of the digits it writes.  The
  loops read digit \<open>i\<close> of every operand before they write digit \<open>i\<close> of the
  result, so the calls of the source in which result and operand are the same array are
  covered.
\<close>

type_synonym nn = "u32 list"

definition MAX_NN_DIGIT :: u32 where
  "MAX_NN_DIGIT = 0xffffffff"

definition MAX_NN_DIGITS :: nat where
  "MAX_NN_DIGITS = (((1024 + 7) div 8) + 4 - 1) div 4 + 1"

fun nn_val :: "nn \<Rightarrow> nat" where
  "nn_val [] = 0"
| "nn_val (d # ds) = unat d + 2 ^ 32 * nn_val ds"

section \<open>Conversion from and to byte strings\<close>

text \<open>
  The byte strings are most significant byte first; the loops of both functions walk
  them from the end, so the recursion takes the reversed string.
\<close>

fun nn_decode_loop :: "nat \<Rightarrow> bytes \<Rightarrow> nn" where
  "nn_decode_loop 0 rb = []"
| "nn_decode_loop (Suc n) rb = le_word (take 4 rb) # nn_decode_loop n (drop 4 rb)"

definition NN_Decode :: "nat \<Rightarrow> bytes \<Rightarrow> nn" where
  "NN_Decode digits b = nn_decode_loop digits (rev b)"

fun nn_encode_loop :: "nat \<Rightarrow> nn \<Rightarrow> bytes" where
  "nn_encode_loop len [] = replicate len 0"
| "nn_encode_loop len (d # ds) = take len (le_bytes 4 d) @ nn_encode_loop (len - 4) ds"

definition NN_Encode :: "nat \<Rightarrow> nn \<Rightarrow> nat \<Rightarrow> bytes" where
  "NN_Encode len b digits = rev (nn_encode_loop len (take digits b))"

section \<open>Assignment, comparison, length\<close>

definition NN_Assign :: "nn \<Rightarrow> nat \<Rightarrow> nn" where
  "NN_Assign b digits = take digits b"

definition NN_AssignZero :: "nat \<Rightarrow> nn" where
  "NN_AssignZero digits = replicate digits 0"

definition NN_ASSIGN_DIGIT :: "u32 \<Rightarrow> nat \<Rightarrow> nn" where
  "NN_ASSIGN_DIGIT b digits = (NN_AssignZero digits)[0 := b]"

definition NN_Assign2Exp :: "nat \<Rightarrow> nat \<Rightarrow> nn" where
  "NN_Assign2Exp b digits =
     (if b \<ge> digits * 32 then NN_AssignZero digits
      else (NN_AssignZero digits)[b div 32 := push_bit (b mod 32) 1])"

text \<open>The comparison runs from the most significant digit down.\<close>

fun nn_cmp :: "nn \<Rightarrow> nn \<Rightarrow> int" where
  "nn_cmp (a # as) (b # bs) =
     (let r = nn_cmp as bs
      in if r \<noteq> 0 then r else if a > b then 1 else if a < b then -1 else 0)"
| "nn_cmp _ _ = 0"

definition NN_Cmp :: "nn \<Rightarrow> nn \<Rightarrow> nat \<Rightarrow> int" where
  "NN_Cmp a b digits = nn_cmp (take digits a) (take digits b)"

definition NN_EQUAL :: "nn \<Rightarrow> nn \<Rightarrow> nat \<Rightarrow> bool" where
  "NN_EQUAL a b digits \<longleftrightarrow> NN_Cmp a b digits = 0"

definition NN_EVEN :: "nn \<Rightarrow> nat \<Rightarrow> bool" where
  "NN_EVEN a digits \<longleftrightarrow> digits = 0 \<or> (a ! 0) AND 1 = 0"

definition NN_Zero :: "nn \<Rightarrow> nat \<Rightarrow> bool" where
  "NN_Zero a digits \<longleftrightarrow> (\<forall>d \<in> set (take digits a). d = 0)"

fun NN_Digits :: "nn \<Rightarrow> nat \<Rightarrow> nat" where
  "NN_Digits a 0 = 0"
| "NN_Digits a (Suc d) = (if a ! d \<noteq> 0 then Suc d else NN_Digits a d)"

text \<open>The loop over \<open>i < NN_DIGIT_BITS\<close>; \<open>n\<close> counts the remaining rounds.\<close>

fun digit_bits_loop :: "nat \<Rightarrow> nat \<Rightarrow> u32 \<Rightarrow> nat" where
  "digit_bits_loop 0 i a = i"
| "digit_bits_loop (Suc n) i a =
     (if a = 0 then i else digit_bits_loop n (Suc i) (drop_bit 1 a))"

definition NN_DigitBits :: "u32 \<Rightarrow> nat" where
  "NN_DigitBits a = digit_bits_loop 32 0 a"

definition NN_Bits :: "nn \<Rightarrow> nat \<Rightarrow> nat" where
  "NN_Bits a digits =
     (let digits = NN_Digits a digits
      in if digits = 0 then 0 else (digits - 1) * 32 + NN_DigitBits (a ! (digits - 1)))"

section \<open>Addition, subtraction, shifts\<close>

definition add_digit :: "u32 \<Rightarrow> u32 \<Rightarrow> u32 \<Rightarrow> u32 \<times> u32" where
  "add_digit carry b c =
     (let temp = b + carry
      in if temp < carry then (c, carry)
         else let temp = temp + c in (temp, if temp < c then 1 else 0))"

fun nn_add :: "u32 \<Rightarrow> nn \<Rightarrow> nn \<Rightarrow> nn \<times> u32" where
  "nn_add carry (b # bs) (c # cs) =
     (let (temp, carry) = add_digit carry b c; (as, carry) = nn_add carry bs cs
      in (temp # as, carry))"
| "nn_add carry _ _ = ([], carry)"

definition NN_Add :: "nn \<Rightarrow> nn \<Rightarrow> nat \<Rightarrow> nn \<times> u32" where
  "NN_Add b c digits = nn_add 0 (take digits b) (take digits c)"

definition sub_digit :: "u32 \<Rightarrow> u32 \<Rightarrow> u32 \<Rightarrow> u32 \<times> u32" where
  "sub_digit borrow b c =
     (let temp = b - borrow
      in if temp = MAX_NN_DIGIT then (MAX_NN_DIGIT - c, borrow)
         else let temp = temp - c in (temp, if temp > MAX_NN_DIGIT - c then 1 else 0))"

fun nn_sub :: "u32 \<Rightarrow> nn \<Rightarrow> nn \<Rightarrow> nn \<times> u32" where
  "nn_sub borrow (b # bs) (c # cs) =
     (let (temp, borrow) = sub_digit borrow b c; (as, borrow) = nn_sub borrow bs cs
      in (temp # as, borrow))"
| "nn_sub borrow _ _ = ([], borrow)"

definition NN_Sub :: "nn \<Rightarrow> nn \<Rightarrow> nat \<Rightarrow> nn \<times> u32" where
  "NN_Sub b c digits = nn_sub 0 (take digits b) (take digits c)"

fun nn_lshift :: "nat \<Rightarrow> u32 \<Rightarrow> nn \<Rightarrow> nn \<times> u32" where
  "nn_lshift c carry [] = ([], carry)"
| "nn_lshift c carry (temp # bs) =
     (let (as, co) = nn_lshift c (if c \<noteq> 0 then drop_bit (32 - c) temp else 0) bs
      in ((push_bit c temp OR carry) # as, co))"

text \<open>For \<open>c \<ge> 32\<close> the array \<open>a\<close> is left as it was.\<close>

definition NN_LShift :: "nn \<Rightarrow> nn \<Rightarrow> nat \<Rightarrow> nat \<Rightarrow> nn \<times> u32" where
  "NN_LShift a b c digits =
     (if c < 32 then nn_lshift c 0 (take digits b) else (take digits a, 0))"

text \<open>The right shift runs from the most significant digit down.\<close>

fun nn_rshift :: "nat \<Rightarrow> nn \<Rightarrow> nn \<times> u32" where
  "nn_rshift c [] = ([], 0)"
| "nn_rshift c (temp # bs) =
     (let (as, carry) = nn_rshift c bs
      in ((drop_bit c temp OR carry) # as, if c \<noteq> 0 then push_bit (32 - c) temp else 0))"

definition NN_RShift :: "nn \<Rightarrow> nn \<Rightarrow> nat \<Rightarrow> nat \<Rightarrow> nn \<times> u32" where
  "NN_RShift a b c digits =
     (if c < 32 then nn_rshift c (take digits b) else (take digits a, 0))"

section \<open>Multiplication\<close>

definition LOW_HALF :: "u32 \<Rightarrow> u16" where
  "LOW_HALF x = ucast (x AND 0xffff)"

definition HIGH_HALF :: "u32 \<Rightarrow> u16" where
  "HIGH_HALF x = ucast (drop_bit 16 x AND 0xffff)"

definition TO_HIGH_HALF :: "u32 \<Rightarrow> u32" where
  "TO_HIGH_HALF x = push_bit 16 x"

definition dmult :: "u32 \<Rightarrow> u32 \<Rightarrow> u32 \<times> u32" where
  "dmult a b =
     (let al = ucast (LOW_HALF a) :: u32; ah = ucast (HIGH_HALF a);
          bl = ucast (LOW_HALF b); bh = ucast (HIGH_HALF b);
          low = al * bl; high = ah * bh;
          m1 = al * bh; m2 = ah * bl; m = m1 + m2;
          carry = (if m < m1 then push_bit 16 1 else 0);
          ml = push_bit 16 (m AND 0xffff); mh = drop_bit 16 m;
          low = low + ml;
          carry = (if low < ml then carry + 1 else carry)
      in (high + (carry + mh), low))"

definition mult_digit :: "u32 \<Rightarrow> u32 \<Rightarrow> u32 \<Rightarrow> u32 \<Rightarrow> u32 \<times> u32" where
  "mult_digit bi carry t cj =
     (let (dhigh, dlow) = dmult bi cj;
          t = t + carry; carry = (if t < carry then 1 else 0);
          t = t + dlow; carry = (if t < dlow then carry + 1 else carry)
      in (t, carry + dhigh))"

text \<open>
  One row of the schoolbook product: \<open>ts\<close> is the part of the accumulator \<open>t\<close> that
  starts at index \<open>i\<close>.
\<close>

fun mult_row :: "u32 \<Rightarrow> u32 \<Rightarrow> nn \<Rightarrow> nn \<Rightarrow> nn" where
  "mult_row bi carry (t # ts) (c # cs) =
     (let (t, carry) = mult_digit bi carry t c in t # mult_row bi carry ts cs)"
| "mult_row bi carry (t # ts) [] = (t + carry) # ts"
| "mult_row bi carry [] cs = []"

fun mult_rows :: "nn \<Rightarrow> nn \<Rightarrow> nn \<Rightarrow> nn" where
  "mult_rows [] c t = t"
| "mult_rows (b # bs) c t =
     (let t = (if b \<noteq> 0 then mult_row b 0 t c else t)
      in case t of [] \<Rightarrow> [] | t0 # ts \<Rightarrow> t0 # mult_rows bs c ts)"

definition NN_Mult :: "nn \<Rightarrow> nn \<Rightarrow> nat \<Rightarrow> nn" where
  "NN_Mult b c digits =
     (let t = NN_AssignZero (2 * digits);
          bDigits = NN_Digits b digits;
          cDigits = NN_Digits c digits
      in mult_rows (take bDigits b) (take cDigits c) t)"

definition submult_digit :: "u32 \<Rightarrow> u32 \<Rightarrow> u32 \<Rightarrow> u32 \<Rightarrow> u32 \<times> u32" where
  "submult_digit c borrow b d =
     (let (thigh, tlow) = dmult c d;
          a = b - borrow; k = (if a > MAX_NN_DIGIT - borrow then 1 else 0);
          a = a - tlow; k = (if a > MAX_NN_DIGIT - tlow then k + 1 else k)
      in (a, k + thigh))"

fun nn_submult :: "u32 \<Rightarrow> u32 \<Rightarrow> nn \<Rightarrow> nn \<Rightarrow> nn \<times> u32" where
  "nn_submult c borrow (b # bs) (d # ds) =
     (let (a, borrow) = submult_digit c borrow b d; (as, borrow) = nn_submult c borrow bs ds
      in (a # as, borrow))"
| "nn_submult c borrow _ _ = ([], borrow)"

text \<open>With \<open>c = 0\<close> nothing is stored; the source calls it with \<open>a = b\<close>.\<close>

definition subdigitmult :: "nn \<Rightarrow> u32 \<Rightarrow> nn \<Rightarrow> nat \<Rightarrow> nn \<times> u32" where
  "subdigitmult b c d digits =
     (if c \<noteq> 0 then nn_submult c 0 (take digits b) (take digits d)
      else (take digits b, 0))"

end
