(* ===== verification/NN_Arith.thy ===== *)
theory NN_Arith
  imports NN
begin

lemma unat_MAX_NN_DIGIT [simp]: "unat MAX_NN_DIGIT = 4294967295"
  by (simp add: MAX_NN_DIGIT_def)

lemmas u32_arith = u32_add u32_sub word_less_nat_alt word_le_nat_alt word_unat_eq_iff

lemma add_digit_val:
  assumes "unat carry \<le> 1" "add_digit carry b c = (t, carry')"
  shows "unat t + 2 ^ 32 * unat carry' = unat b + unat c + unat carry \<and> unat carry' \<le> 1"
  using assms unat_u32_less [of b] unat_u32_less [of c]
  by (auto simp: add_digit_def Let_def u32_arith split: if_splits)

lemma nn_add_val:
  assumes "length b = length c" "unat carry \<le> 1" "nn_add carry b c = (a, carry')"
  shows "nn_val a + 2 ^ (32 * length b) * unat carry' = nn_val b + nn_val c + unat carry \<and>
         unat carry' \<le> 1 \<and> length a = length b"
  using assms
proof (induction carry b c arbitrary: a carry' rule: nn_add.induct)
  case (1 carry b bs c cs)
  obtain t k where d: "add_digit carry b c = (t, k)" by force
  obtain as k' where r: "nn_add k bs cs = (as, k')" by force
  from add_digit_val [OF 1(3) d] have t: "unat t + 2 ^ 32 * unat k = unat b + unat c + unat carry"
    and k: "unat k \<le> 1" by auto
  from 1(1) [OF d [symmetric] refl _ k r] 1(2) have
    ih: "nn_val as + 2 ^ (32 * length bs) * unat k' = nn_val bs + nn_val cs + unat k"
    "unat k' \<le> 1" "length as = length bs" by auto
  from 1(4) have a: "a = t # as" "carry' = k'" by (auto simp: d r)
  have "2 ^ (32 * length (b # bs)) = 2 ^ 32 * (2 ^ (32 * length bs) :: nat)"
    by (simp add: power_add)
  with t arg_cong [OF ih(1), of "\<lambda>x. 2 ^ 32 * x"] ih(2,3) show ?case
    by (simp add: a algebra_simps)
qed auto

lemma sub_digit_val:
  assumes "unat borrow \<le> 1" "sub_digit borrow b c = (t, borrow')"
  shows "unat b + 2 ^ 32 * unat borrow' = unat t + unat c + unat borrow \<and> unat borrow' \<le> 1"
  using assms unat_u32_less [of b] unat_u32_less [of c]
  by (auto simp: sub_digit_def Let_def u32_arith split: if_splits)

lemma nn_sub_val:
  assumes "length b = length c" "unat borrow \<le> 1" "nn_sub borrow b c = (a, borrow')"
  shows "nn_val b + 2 ^ (32 * length b) * unat borrow' = nn_val a + nn_val c + unat borrow \<and>
         unat borrow' \<le> 1 \<and> length a = length b"
  using assms
proof (induction borrow b c arbitrary: a borrow' rule: nn_sub.induct)
  case (1 borrow b bs c cs)
  obtain t k where d: "sub_digit borrow b c = (t, k)" by force
  obtain as k' where r: "nn_sub k bs cs = (as, k')" by force
  from sub_digit_val [OF 1(3) d] have t: "unat b + 2 ^ 32 * unat k = unat t + unat c + unat borrow"
    and k: "unat k \<le> 1" by auto
  from 1(1) [OF d [symmetric] refl _ k r] 1(2) have
    ih: "nn_val bs + 2 ^ (32 * length bs) * unat k' = nn_val as + nn_val cs + unat k"
    "unat k' \<le> 1" "length as = length bs" by auto
  from 1(4) have a: "a = t # as" "borrow' = k'" by (auto simp: d r)
  have "2 ^ (32 * length (b # bs)) = 2 ^ 32 * (2 ^ (32 * length bs) :: nat)"
    by (simp add: power_add)
  with t arg_cong [OF ih(1), of "\<lambda>x. 2 ^ 32 * x"] ih(2,3) show ?case
    by (simp add: a algebra_simps)
qed auto

lemma nn_val_less: "nn_val a < 2 ^ (32 * length a)"
proof (induction a)
  case Nil
  then show ?case by simp
next
  case (Cons d ds)
  have "nn_val ds + 1 \<le> 2 ^ (32 * length ds)" using Cons by simp
  from mult_le_mono2 [OF this, of "2 ^ 32"] unat_u32_less [of d] show ?case
    by (simp add: power_add)
qed

lemma nn_val_append: "nn_val (a @ b) = nn_val a + 2 ^ (32 * length a) * nn_val b"
  by (induction a) (auto simp: power_add algebra_simps)

lemma nn_val_replicate_0 [simp]: "nn_val (replicate n 0) = 0"
  by (induction n) auto

lemma nn_val_take_drop:
  "n \<le> length a \<Longrightarrow> nn_val a = nn_val (take n a) + 2 ^ (32 * n) * nn_val (drop n a)"
  using nn_val_append [of "take n a" "drop n a"] by (simp add: min_def)

lemma nn_val_take: "n \<le> length a \<Longrightarrow> nn_val (take n a) = nn_val a mod 2 ^ (32 * n)"
  using nn_val_take_drop [of n a] nn_val_less [of "take n a"] by (simp add: min_absorb2)

lemma nn_val_inj: "length a = length b \<Longrightarrow> nn_val a = nn_val b \<Longrightarrow> a = b"
proof (induction a b rule: list_induct2)
  case Nil
  then show ?case by simp
next
  case (Cons x xs y ys)
  from Cons.prems have "(unat x + 2 ^ 32 * nn_val xs) mod 2 ^ 32 = (unat y + 2 ^ 32 * nn_val ys) mod 2 ^ 32"
    and "(unat x + 2 ^ 32 * nn_val xs) div 2 ^ 32 = (unat y + 2 ^ 32 * nn_val ys) div 2 ^ 32"
    by simp_all
  with Cons.IH unat_u32_less [of x] unat_u32_less [of y] show ?case
    by (simp add: word_unat_eq_iff)
qed

lemma nn_cmp_range: "nn_cmp a b \<in> {-1, 0, 1}"
  by (induction a b rule: nn_cmp.induct) (auto simp: Let_def)

lemma nn_cmp_val:
  "length a = length b \<Longrightarrow> nn_cmp a b =
    (if nn_val a < nn_val b then -1 else if nn_val a = nn_val b then 0 else 1)"
proof (induction a b rule: list_induct2)
  case Nil
  then show ?case by simp
next
  case (Cons x xs y ys)
  have x: "unat x < 2 ^ 32" and y: "unat y < 2 ^ 32"
    using unat_u32_less [of x] unat_u32_less [of y] by simp_all
  consider "nn_val xs < nn_val ys" | "nn_val xs = nn_val ys" | "nn_val xs > nn_val ys"
    by linarith
  then show ?case
  proof cases
    case 1
    then have "nn_val xs + 1 \<le> nn_val ys" by simp
    from mult_le_mono2 [OF this, of "2 ^ 32"] x y have "nn_val (x # xs) < nn_val (y # ys)" by simp
    with 1 Cons.IH show ?thesis by (simp add: Let_def)
  next
    case 2
    with Cons.IH show ?thesis by (auto simp: Let_def word_less_nat_alt word_unat_eq_iff)
  next
    case 3
    then have "nn_val ys + 1 \<le> nn_val xs" by simp
    from mult_le_mono2 [OF this, of "2 ^ 32"] x y have "nn_val (x # xs) > nn_val (y # ys)" by simp
    with 3 Cons.IH show ?thesis by (simp add: Let_def)
  qed
qed

lemma and_0xffff: "(x :: u32) AND 65535 = take_bit 16 x"
  by (simp add: take_bit_eq_mask mask_eq_exp_minus_1)

lemma unat_LOW_HALF [simp]: "unat (ucast (LOW_HALF a) :: u32) = unat a mod 2 ^ 16"
proof -
  have "(ucast (LOW_HALF a) :: u32) = take_bit 16 a"
    by (rule bit_word_eqI) (auto simp: LOW_HALF_def and_0xffff bit_simps)
  then show ?thesis by (simp add: unat_mod take_bit_eq_mod)
qed

lemma unat_HIGH_HALF [simp]: "unat (ucast (HIGH_HALF a) :: u32) = unat a div 2 ^ 16"
proof -
  have "(ucast (HIGH_HALF a) :: u32) = drop_bit 16 a"
    by (rule bit_word_eqI) (auto simp: HIGH_HALF_def and_0xffff bit_simps dest: bit_imp_le_length)
  then show ?thesis by (simp add: unat_div drop_bit_eq_div)
qed

lemma half_product: "(x::nat) < 2 ^ 16 \<Longrightarrow> y < 2 ^ 16 \<Longrightarrow> x * y \<le> 4294836225"
  using mult_mono [of x 65535 y 65535] by simp

lemma u32_mult: "unat a * unat b < 4294967296 \<Longrightarrow> unat (a * b :: u32) = unat a * unat b"
  by (simp add: unat_mult_lem [symmetric])

lemma u32_low_shift: "unat (push_bit 16 (m AND 0xffff) :: u32) = (unat m mod 2 ^ 16) * 2 ^ 16"
proof -
  have "unat m mod 65536 * 65536 < 4294967296"
    using mod_less_divisor [of 65536 "unat m"] by linarith
  then show ?thesis
    by (simp only: and_0xffff unsigned_push_bit_eq unsigned_take_bit_eq)
       (simp add: take_bit_eq_mod push_bit_eq_mult)
qed

lemma unat_drop_16 [simp]: "unat (drop_bit 16 m :: u32) = unat m div 2 ^ 16"
  by (simp add: unat_div drop_bit_eq_div)

lemma u32_add_carry:
  "unat x + unat y = unat (x + y :: u32) + 2 ^ 32 * of_bool (x + y < y)"
  "unat x + unat y = unat (x + y :: u32) + 2 ^ 32 * of_bool (x + y < x)"
  using unat_u32_less [of x] unat_u32_less [of y] by (auto simp: u32_arith)

lemma half_powers: "(2 :: nat) ^ 16 = 65536" "(2 :: nat) ^ 32 = 4294967296"
  by simp_all

lemma add_digit_mod_half: "(x + 2 ^ 32 * k) mod 2 ^ 16 = x mod (2 ^ 16 :: nat)"
  using mod_mult_self2 [of x "2 ^ 16" "2 ^ 16 * k"] by simp

lemma add_digit_div_half: "(x + 2 ^ 32 * k) div 2 ^ 16 = x div (2 ^ 16 :: nat) + 2 ^ 16 * k"
  using div_mult_self2 [of "2 ^ 16" x "2 ^ 16 * k"] by simp

lemma u32_add3: "unat x + (unat y + unat z) < 2 ^ 32 \<Longrightarrow> unat (x + (y + z) :: u32) = unat x + (unat y + unat z)"
  by (simp add: u32_add)

text \<open>The half-digit products, in the naturals.\<close>

lemma dmult_nat:
  fixes al ah bl bh m :: nat
  assumes "m = al * bh + ah * bl"
  shows "(al + 2 ^ 16 * ah) * (bl + 2 ^ 16 * bh) =
     al * bl + (m mod 2 ^ 16) * 2 ^ 16 + 2 ^ 32 * (ah * bh + m div 2 ^ 16)"
proof -
  have "(al + 2 ^ 16 * ah) * (bl + 2 ^ 16 * bh) = al * bl + 2 ^ 16 * m + 2 ^ 32 * (ah * bh)"
    by (simp add: assms algebra_simps)
  moreover have "2 ^ 16 * m = (m mod 2 ^ 16) * 2 ^ 16 + 2 ^ 32 * (m div 2 ^ 16)"
  proof -
    define q r where "q = m div 2 ^ 16" and "r = m mod 2 ^ 16"
    have "m = q * 2 ^ 16 + r" by (simp only: q_def r_def div_mult_mod_eq)
    then show ?thesis unfolding q_def [symmetric] r_def [symmetric] by simp
  qed
  ultimately show ?thesis
    by (simp add: add_mult_distrib2)
qed

lemma dmult_val:
  assumes "dmult a b = (hi, lo)"
  shows "unat lo + 2 ^ 32 * unat hi = unat a * unat b"
proof -
  define al ah bl bh where "al = unat a mod 2 ^ 16" and "ah = unat a div 2 ^ 16"
    and "bl = unat b mod 2 ^ 16" and "bh = unat b div 2 ^ 16"
  note defs = al_def ah_def bl_def bh_def
  have bounds: "al < 2 ^ 16" "ah < 2 ^ 16" "bl < 2 ^ 16" "bh < 2 ^ 16"
    using unat_u32_less [of a] unat_u32_less [of b] by (auto simp: defs less_mult_imp_div_less)
  note prods = half_product [OF bounds(1) bounds(3)] half_product [OF bounds(2) bounds(4)]
    half_product [OF bounds(1) bounds(4)] half_product [OF bounds(2) bounds(3)]
  let ?al = "ucast (LOW_HALF a) :: u32" and ?ah = "ucast (HIGH_HALF a) :: u32"
  let ?bl = "ucast (LOW_HALF b) :: u32" and ?bh = "ucast (HIGH_HALF b) :: u32"
  have p: "unat (?al * ?bl) = al * bl" "unat (?ah * ?bh) = ah * bh"
    "unat (?al * ?bh) = al * bh" "unat (?ah * ?bl) = ah * bl"
    using prods by (auto simp: defs u32_mult)
  define m ml low c1 c2 where "m = ?al * ?bh + ?ah * ?bl"
    and "ml = push_bit 16 (m AND 0xffff)" and "low = ?al * ?bl + ml"
    and "c1 = (if m < ?al * ?bh then push_bit 16 1 else 0 :: u32)"
    and "c2 = (if low < ml then c1 + 1 else c1)"
  have dm: "(hi, lo) = (?ah * ?bh + (c2 + drop_bit 16 m), low)"
    by (simp only: assms [symmetric] dmult_def Let_def m_def ml_def low_def c1_def c2_def)
  have lo: "lo = low" and hi: "hi = ?ah * ?bh + (c2 + drop_bit 16 m)"
    using dm by simp_all
  define M o1 o2 where "M = al * bh + ah * bl" and "o1 = (of_bool (m < ?al * ?bh) :: nat)"
    and "o2 = (of_bool (low < ml) :: nat)"
  have M: "M = unat m + 2 ^ 32 * o1"
    using u32_add_carry(2) [of "?al * ?bh" "?ah * ?bl"] by (simp only: M_def o1_def p m_def)
  have Mmod: "M mod 2 ^ 16 = unat m mod 2 ^ 16" and Mdiv: "M div 2 ^ 16 = unat m div 2 ^ 16 + 2 ^ 16 * o1"
    unfolding M by (simp_all only: add_digit_mod_half add_digit_div_half)
  have L: "unat low + 2 ^ 32 * o2 = al * bl + (M mod 2 ^ 16) * 2 ^ 16"
    using u32_add_carry(1) [of "?al * ?bl" ml]
    by (simp only: o2_def p Mmod ml_def u32_low_shift low_def)
  have ab: "unat a = al + 2 ^ 16 * ah" "unat b = bl + 2 ^ 16 * bh"
    by (simp_all add: defs)
  have T: "unat a * unat b = unat low + 2 ^ 32 * (o2 + ah * bh + M div 2 ^ 16)"
    unfolding ab dmult_nat [OF M_def] using L by simp
  have "unat a * unat b \<le> (2 ^ 32 - 1) * (2 ^ 32 - 1)"
    using unat_u32_less [of a] unat_u32_less [of b] by (intro mult_mono) auto
  with T have H: "o2 + ah * bh + M div 2 ^ 16 < 2 ^ 32" by simp
  have c1: "unat c1 = 2 ^ 16 * o1" by (simp add: o1_def c1_def)
  have "o1 \<le> 1" by (simp add: o1_def)
  with c1 have c2: "unat c2 = 2 ^ 16 * o1 + o2" unfolding o2_def c2_def
    by (cases "low < ml") (simp_all only: if_True if_False of_bool_eq u32_add unat_1, simp_all)
  have "unat hi = ah * bh + (2 ^ 16 * o1 + o2 + unat m div 2 ^ 16)"
    unfolding hi using H [unfolded Mdiv] by (subst u32_add3) (simp_all add: p c2)
  then show ?thesis
    unfolding T lo Mdiv by (simp add: algebra_simps)
qed

lemma digit_product_le: "unat (a :: u32) * unat (b :: u32) \<le> (2 ^ 32 - 1) * (2 ^ 32 - 1)"
  using unat_u32_less [of a] unat_u32_less [of b] by (intro mult_mono) auto

lemma mult_digit_val:
  assumes "mult_digit bi carry t cj = (t', carry')"
  shows "unat t' + 2 ^ 32 * unat carry' = unat t + unat bi * unat cj + unat carry"
proof -
  obtain hi lo where d: "dmult bi cj = (hi, lo)" by force
  let ?t1 = "t + carry"
  let ?k1 = "of_bool (?t1 < carry) :: nat"
  let ?k2 = "of_bool (?t1 + lo < lo) :: nat"
  have t: "t' = ?t1 + lo"
    using assms by (auto simp: mult_digit_def d Let_def)
  have c: "carry' = of_nat (?k1 + ?k2) + hi"
    using assms by (auto simp: mult_digit_def d Let_def split: if_splits)
  have s: "unat t + unat carry + unat lo = unat t' + 2 ^ 32 * (?k1 + ?k2)"
    using u32_add_carry(1) [of t carry] u32_add_carry(1) [of ?t1 lo] by (simp add: t)
  have e: "unat t + unat bi * unat cj + unat carry = unat t' + 2 ^ 32 * (?k1 + ?k2 + unat hi)"
    using s dmult_val [OF d] by simp
  moreover have "unat t + unat bi * unat cj + unat carry < 2 ^ 64"
    using digit_product_le [of bi cj] unat_u32_less [of t] unat_u32_less [of carry] by simp
  ultimately have "?k1 + ?k2 + unat hi < 2 ^ 32" by simp
  then have "unat carry' = ?k1 + ?k2 + unat hi"
    by (simp only: c unat_word_ariths unat_of_nat) (simp add: mod_less)
  then show ?thesis using e by simp
qed

lemma u32_sub_borrow:
  "unat x + 2 ^ 32 * of_bool (x - y > MAX_NN_DIGIT - y) = unat (x - y :: u32) + unat y"
  using unat_u32_less [of x] unat_u32_less [of y] by (auto simp: u32_arith)

lemma submult_digit_val:
  assumes "submult_digit c borrow b d = (a, borrow')"
  shows "unat b + 2 ^ 32 * unat borrow' = unat a + unat c * unat d + unat borrow"
proof -
  obtain hi lo where m: "dmult c d = (hi, lo)" by force
  let ?a1 = "b - borrow"
  let ?k1 = "of_bool (?a1 > MAX_NN_DIGIT - borrow) :: nat"
  let ?k2 = "of_bool (?a1 - lo > MAX_NN_DIGIT - lo) :: nat"
  have a: "a = ?a1 - lo"
    using assms by (auto simp: submult_digit_def m Let_def)
  have c: "borrow' = of_nat (?k1 + ?k2) + hi"
    using assms by (auto simp: submult_digit_def m Let_def split: if_splits)
  have s: "unat b + 2 ^ 32 * (?k1 + ?k2) = unat a + unat lo + unat borrow"
    using u32_sub_borrow [of b borrow] u32_sub_borrow [of ?a1 lo] by (simp add: a)
  have e: "unat b + 2 ^ 32 * (?k1 + ?k2 + unat hi) = unat a + unat c * unat d + unat borrow"
    using s dmult_val [OF m] by simp
  moreover have "unat a + unat c * unat d + unat borrow < 2 ^ 64"
    using digit_product_le [of c d] unat_u32_less [of a] unat_u32_less [of borrow] by simp
  ultimately have "?k1 + ?k2 + unat hi < 2 ^ 32" by simp
  then have "unat borrow' = ?k1 + ?k2 + unat hi"
    by (simp only: c unat_word_ariths unat_of_nat) (simp add: mod_less)
  then show ?thesis using e by simp
qed

section \<open>Rows, products\<close>

lemma mult_row_val:
  assumes "length t1 = length c"
  shows "\<exists>t1' co. mult_row bi carry (t1 @ x # t2) c = t1' @ (x + co) # t2 \<and> length t1' = length t1 \<and>
    nn_val t1' + 2 ^ (32 * length c) * unat co = nn_val t1 + unat bi * nn_val c + unat carry"
  using assms
proof (induction t1 c arbitrary: carry rule: list_induct2)
  case Nil
  then show ?case by (intro exI [of _ "[]"] exI [of _ carry]) simp
next
  case (Cons t ts c cs)
  obtain t' k where d: "mult_digit bi carry t c = (t', k)" by force
  from Cons.IH [of k] obtain ts' co where
    r: "mult_row bi k (ts @ x # t2) cs = ts' @ (x + co) # t2" "length ts' = length ts" and
    v: "nn_val ts' + 2 ^ (32 * length cs) * unat co = nn_val ts + unat bi * nn_val cs + unat k"
    by blast
  have "nn_val (t' # ts') + 2 ^ (32 * length (c # cs)) * unat co =
      unat t' + 2 ^ 32 * (nn_val ts' + 2 ^ (32 * length cs) * unat co)"
    by (simp add: power_add algebra_simps)
  also have "\<dots> = unat t' + 2 ^ 32 * unat k + 2 ^ 32 * (nn_val ts + unat bi * nn_val cs)"
    unfolding v by (simp add: algebra_simps)
  also have "\<dots> = nn_val (t # ts) + unat bi * nn_val (c # cs) + unat carry"
    unfolding mult_digit_val [OF d] by (simp add: algebra_simps)
  finally show ?case
    using r by (intro exI [of _ "t' # ts'"] exI [of _ co]) (simp add: d)
qed

lemma mult_rows_val:
  assumes "length t1 = length c" "length bs \<le> k"
  shows "nn_val (mult_rows bs c (t1 @ replicate k 0)) = nn_val t1 + nn_val bs * nn_val c \<and>
         length (mult_rows bs c (t1 @ replicate k 0)) = length t1 + k"
  using assms
proof (induction bs arbitrary: t1 k)
  case Nil
  then show ?case by (simp add: nn_val_append)
next
  case (Cons b bs)
  then obtain k' where k: "k = Suc k'" and k': "length bs \<le> k'" by (cases k) auto
  obtain t1' co where
    r: "mult_row b 0 (t1 @ 0 # replicate k' 0) c = t1' @ co # replicate k' 0" "length t1' = length t1"
    and v: "nn_val t1' + 2 ^ (32 * length c) * unat co = nn_val t1 + unat b * nn_val c"
    using mult_row_val [OF Cons.prems(1), of b 0 0 "replicate k' 0"] by auto
  let ?u = "t1' @ [co]"
  obtain u0 us where u: "(if b \<noteq> 0 then t1' @ [co] else t1 @ [0]) = u0 # us"
    by (metis list.exhaust snoc_eq_iff_butlast)
  have row: "(if b \<noteq> 0 then mult_row b 0 (t1 @ replicate k 0) c else t1 @ replicate k 0) =
      u0 # us @ replicate k' 0"
    using r u by (cases "b = 0") (auto simp: k)
  have us: "length us = length c" "length us = length t1"
    using arg_cong [OF u, of length] r(2) Cons.prems(1) by (auto split: if_splits)
  have uv: "unat u0 + 2 ^ 32 * nn_val us = nn_val t1 + unat b * nn_val c"
    using arg_cong [OF u, of nn_val] v r(2) Cons.prems(1)
    by (cases "b = 0") (auto simp: nn_val_append)
  from Cons.IH [OF us(1) k'] have
    ih: "nn_val (mult_rows bs c (us @ replicate k' 0)) = nn_val us + nn_val bs * nn_val c"
    "length (mult_rows bs c (us @ replicate k' 0)) = length us + k'" by auto
  have "mult_rows (b # bs) c (t1 @ replicate k 0) = u0 # mult_rows bs c (us @ replicate k' 0)"
    by (simp add: row del: if_split)
  with ih uv us show ?case by (simp add: k algebra_simps)
qed

lemma NN_Digits_le: "NN_Digits a d \<le> d"
  by (induction d) auto

lemma NN_Digits_val:
  "d \<le> length a \<Longrightarrow> nn_val (take (NN_Digits a d) a) = nn_val (take d a)"
  by (induction d) (auto simp: take_Suc_conv_app_nth nn_val_append)

lemma NN_Digits_top: "NN_Digits a d \<noteq> 0 \<Longrightarrow> a ! (NN_Digits a d - 1) \<noteq> 0"
  by (induction d) auto

lemma NN_Digits_0: "d \<le> length a \<Longrightarrow> NN_Digits a d = 0 \<longleftrightarrow> nn_val (take d a) = 0"
  by (induction d) (auto simp: take_Suc_conv_app_nth nn_val_append unat_0_iff split: if_splits)

lemma NN_Mult_val:
  assumes "digits \<le> length b" "digits \<le> length c"
  shows "nn_val (NN_Mult b c digits) = nn_val (take digits b) * nn_val (take digits c)"
    and "length (NN_Mult b c digits) = 2 * digits"
proof -
  let ?b = "take (NN_Digits b digits) b" and ?c = "take (NN_Digits c digits) c"
  have l: "length ?b \<le> digits" "length ?c \<le> digits"
    using NN_Digits_le [of b digits] NN_Digits_le [of c digits] by auto
  have "replicate (2 * digits) (0 :: u32) = replicate (length ?c) 0 @ replicate (2 * digits - length ?c) 0"
    using l by (simp flip: replicate_add)
  then have t: "NN_Mult b c digits =
      mult_rows ?b ?c (replicate (length ?c) 0 @ replicate (2 * digits - length ?c) 0)"
    by (simp only: NN_Mult_def NN_AssignZero_def Let_def)
  have "length ?b \<le> 2 * digits - length ?c" using l by simp
  from mult_rows_val [OF _ this, of "replicate (length ?c) 0" ?c] l
  show "nn_val (NN_Mult b c digits) = nn_val (take digits b) * nn_val (take digits c)"
    and "length (NN_Mult b c digits) = 2 * digits"
    unfolding t by (simp_all add: NN_Digits_val assms)
qed

lemma nn_submult_val:
  assumes "length b = length d" "nn_submult c borrow b d = (a, borrow')"
  shows "nn_val b + 2 ^ (32 * length b) * unat borrow' = nn_val a + unat c * nn_val d + unat borrow \<and>
         length a = length b"
  using assms
proof (induction b d arbitrary: borrow a rule: list_induct2)
  case Nil
  then show ?case by simp
next
  case (Cons b bs d ds)
  obtain x k where s: "submult_digit c borrow b d = (x, k)" by force
  obtain as k' where r: "nn_submult c k bs ds = (as, k')" by force
  from Cons.prems have a: "a = x # as" "borrow' = k'" by (auto simp: s r)
  from Cons.IH [of k as] r a have
    ih: "nn_val bs + 2 ^ (32 * length bs) * unat k' = nn_val as + unat c * nn_val ds + unat k"
    "length as = length bs" by auto
  have "nn_val (b # bs) + 2 ^ (32 * length (b # bs)) * unat k' =
      unat b + 2 ^ 32 * (nn_val bs + 2 ^ (32 * length bs) * unat k')"
    by (simp add: power_add algebra_simps)
  also have "\<dots> = unat b + 2 ^ 32 * unat k + 2 ^ 32 * (nn_val as + unat c * nn_val ds)"
    unfolding ih by (simp add: algebra_simps)
  also have "\<dots> = nn_val (x # as) + unat c * nn_val (d # ds) + unat borrow"
    unfolding submult_digit_val [OF s] by (simp add: algebra_simps)
  finally show ?case using ih by (simp add: a)
qed

section \<open>Shifts and bit lengths\<close>

lemma u32_push_or:
  assumes "n \<le> 32" "unat k < 2 ^ n"
  shows "unat (push_bit n w OR k :: u32) = (unat w mod 2 ^ (32 - n)) * 2 ^ n + unat k"
proof -
  have k: "take_bit n k = k"
    using assms(2) by (simp only: word_unat_eq_iff unsigned_take_bit_eq) (simp add: take_bit_eq_mod)
  have "push_bit n w AND take_bit n k = 0"
    by (intro bit_word_eqI) (auto simp: bit_simps)
  then have "unat (push_bit n w OR k) = unat (push_bit n w) + unat k"
    unfolding k by (metis disjunctive_add_eq_or unsigned_or_eq unsigned_and_eq unsigned_0)
  then show ?thesis by (simp add: u32_push assms)
qed

lemma nn_lshift_val:
  assumes "c < 32" "unat carry < 2 ^ c" "nn_lshift c carry b = (a, co)"
  shows "nn_val a + 2 ^ (32 * length b) * unat co = nn_val b * 2 ^ c + unat carry \<and>
         unat co < 2 ^ c \<and> length a = length b"
  using assms
proof (induction b arbitrary: carry a co)
  case Nil
  then show ?case by simp
next
  case (Cons x xs)
  let ?k = "if c \<noteq> 0 then drop_bit (32 - c) x else 0"
  obtain as co' where r: "nn_lshift c ?k xs = (as, co')" by force
  have k: "unat ?k = unat x div 2 ^ (32 - c)"
    using unat_u32_less [of x] by (simp add: u32_drop)
  have kl: "unat ?k < 2 ^ c"
    using unat_u32_less [of x] Cons.prems(1)
    by (simp only: k less_mult_imp_div_less) (simp add: less_mult_imp_div_less flip: power_add)
  from Cons.prems(3) r have a: "a = (push_bit c x OR carry) # as" "co = co'" by (auto simp: Let_def)
  from Cons.IH [OF Cons.prems(1) kl r] have
    ih: "nn_val as + 2 ^ (32 * length xs) * unat co' = nn_val xs * 2 ^ c + unat ?k"
    "unat co' < 2 ^ c" "length as = length xs" by auto
  have p: "2 ^ 32 = 2 ^ (32 - c) * (2 ^ c :: nat)"
    using Cons.prems(1) by (simp flip: power_add)
  have "nn_val a + 2 ^ (32 * length (x # xs)) * unat co =
      unat (push_bit c x OR carry) + 2 ^ 32 * (nn_val as + 2 ^ (32 * length xs) * unat co')"
    by (simp add: a power_add algebra_simps)
  also have "\<dots> = (unat x mod 2 ^ (32 - c)) * 2 ^ c + unat carry + 2 ^ 32 * (nn_val xs * 2 ^ c)
      + 2 ^ 32 * (unat x div 2 ^ (32 - c))"
    unfolding ih k using Cons.prems(1,2) by (simp add: u32_push_or add_mult_distrib2)
  also have "\<dots> = (unat x mod 2 ^ (32 - c) + 2 ^ (32 - c) * (unat x div 2 ^ (32 - c))) * 2 ^ c
      + unat carry + 2 ^ 32 * (nn_val xs * 2 ^ c)"
    unfolding p by (simp only: algebra_simps)
  also have "\<dots> = nn_val (x # xs) * 2 ^ c + unat carry"
    by (simp only: mod_mult_div_eq nn_val.simps) (simp add: algebra_simps)
  finally show ?case using ih by (simp add: a)
qed

lemma nn_rshift_carry: "nn_rshift c b = (a, k) \<Longrightarrow> c < 32 \<Longrightarrow> \<exists>w. k = push_bit (32 - c) w"
  by (cases b) (auto split: prod.splits if_splits intro: exI [of _ 0])

lemma u32_drop_or_push:
  assumes "c < 32"
  shows "unat (drop_bit c x OR push_bit (32 - c) w :: u32) = unat (drop_bit c x) + unat (push_bit (32 - c) w)"
proof -
  have "drop_bit c x AND push_bit (32 - c) w = 0"
    using assms by (intro bit_word_eqI) (auto simp: bit_simps dest: bit_imp_le_length)
  then show ?thesis
    by (metis disjunctive_add_eq_or unsigned_or_eq unsigned_and_eq unsigned_0)
qed

lemma nn_rshift_val:
  assumes "c < 32" "nn_rshift c b = (a, k)"
  shows "nn_val a = nn_val b div 2 ^ c \<and> unat k = (nn_val b mod 2 ^ c) * 2 ^ (32 - c) \<and>
         length a = length b"
  using assms
proof (induction b arbitrary: a k)
  case Nil
  then show ?case by simp
next
  case (Cons x xs)
  obtain as k' where r: "nn_rshift c xs = (as, k')" by force
  from Cons.prems(2) r have a: "a = (drop_bit c x OR k') # as"
    "k = (if c \<noteq> 0 then push_bit (32 - c) x else 0)" by auto
  let ?V = "nn_val xs"
  have p: "2 ^ 32 = 2 ^ c * (2 ^ (32 - c) :: nat)"
    using Cons.prems(1) by (simp flip: power_add)
  from Cons.IH [OF Cons.prems(1) r] have ih: "nn_val as = ?V div 2 ^ c" "length as = length xs"
    and k': "unat k' = (?V mod 2 ^ c) * 2 ^ (32 - c)" by auto
  have d: "unat (drop_bit c x OR k') = unat x div 2 ^ c + (?V mod 2 ^ c) * 2 ^ (32 - c)"
    using nn_rshift_carry [OF r Cons.prems(1)] u32_drop_or_push [OF Cons.prems(1), of x]
    by (auto simp only: k' [symmetric] u32_drop)
  have v: "unat x + 2 ^ 32 * ?V = unat x + 2 ^ c * (2 ^ (32 - c) * ?V)"
    unfolding p by simp
  have "(unat x + 2 ^ 32 * ?V) div 2 ^ c = unat x div 2 ^ c + 2 ^ (32 - c) * ?V"
    unfolding v by simp
  also have "\<dots> = unat x div 2 ^ c + 2 ^ (32 - c) * (?V mod 2 ^ c + 2 ^ c * (?V div 2 ^ c))"
    by simp
  also have "\<dots> = unat x div 2 ^ c + (?V mod 2 ^ c) * 2 ^ (32 - c) + 2 ^ 32 * (?V div 2 ^ c)"
    unfolding p by (simp only: algebra_simps)
  finally have "nn_val a = nn_val (x # xs) div 2 ^ c"
    by (simp add: a d ih)
  moreover have "nn_val (x # xs) mod 2 ^ c = unat x mod 2 ^ c"
    unfolding nn_val.simps v by simp
  then have "unat k = (nn_val (x # xs) mod 2 ^ c) * 2 ^ (32 - c)"
    using Cons.prems(1) by (simp add: a u32_push)
  ultimately show ?case using ih by (simp add: a)
qed

lemma digit_bits_loop_val:
  assumes "unat a < 2 ^ n"
  shows "\<exists>k. digit_bits_loop n i a = i + k \<and> k \<le> n \<and> unat a < 2 ^ k \<and> (k \<noteq> 0 \<longrightarrow> 2 ^ (k - 1) \<le> unat a)"
  using assms
proof (induction n i a rule: digit_bits_loop.induct)
  case (1 i a)
  then show ?case by simp
next
  case (2 n i a)
  show ?case
  proof (cases "a = 0")
    case True
    then show ?thesis by (intro exI [of _ 0]) simp
  next
    case False
    have h: "unat (drop_bit 1 a) = unat a div 2" by (simp only: u32_drop) simp
    with 2(2) have "unat (drop_bit 1 a) < 2 ^ n" by (simp add: less_mult_imp_div_less)
    from 2(1) [OF False this] obtain k where
      k: "digit_bits_loop n (Suc i) (drop_bit 1 a) = Suc i + k" "k \<le> n" "unat a div 2 < 2 ^ k"
      "k \<noteq> 0 \<longrightarrow> 2 ^ (k - 1) \<le> unat a div 2" unfolding h by blast
    have lower: "2 ^ k \<le> unat a"
    proof (cases k)
      case 0
      with False show ?thesis by (simp add: unat_gt_0 Suc_leI)
    next
      case (Suc m)
      with k(4) show ?thesis by simp
    qed
    have upper: "unat a < 2 ^ Suc k" using k(3) by (simp add: div_less_iff_less_mult mult.commute)
    show ?thesis
      by (rule exI [of _ "Suc k"]) (use k lower upper False in simp)
  qed
qed

lemma NN_DigitBits_val:
  "NN_DigitBits a \<le> 32" "unat a < 2 ^ NN_DigitBits a"
  "a \<noteq> 0 \<Longrightarrow> 2 ^ (NN_DigitBits a - 1) \<le> unat a" "a \<noteq> 0 \<Longrightarrow> 0 < NN_DigitBits a"
proof -
  from unat_u32_less [of a] have "unat a < 2 ^ 32" by simp
  from digit_bits_loop_val [OF this, of 0] obtain k where
    k: "NN_DigitBits a = k" "k \<le> 32" "unat a < 2 ^ k" "k \<noteq> 0 \<longrightarrow> 2 ^ (k - 1) \<le> unat a"
    unfolding NN_DigitBits_def by auto
  then show "NN_DigitBits a \<le> 32" "unat a < 2 ^ NN_DigitBits a" by auto
  assume "a \<noteq> 0"
  with k show "0 < NN_DigitBits a" by (cases k) (auto simp: unat_0_iff)
  with k show "2 ^ (NN_DigitBits a - 1) \<le> unat a" by simp
qed

section \<open>Conversions\<close>

lemma nn_decode_loop_val: "nn_val (nn_decode_loop n rb) = le_val rb mod 2 ^ (32 * n)"
proof (induction n rb rule: nn_decode_loop.induct)
  case (1 rb)
  then show ?case by simp
next
  case (2 n rb)
  have "le_val rb = le_val (take 4 rb) + 2 ^ 32 * le_val (drop 4 rb)"
  proof (cases "4 \<le> length rb")
    case True
    then show ?thesis using le_val_append [of "take 4 rb" "drop 4 rb"] by (simp add: min_absorb2)
  qed simp
  moreover have "le_val (take 4 rb) < 2 ^ 32"
  proof -
    have "(256 :: nat) ^ length (take 4 rb) \<le> 256 ^ 4" by (intro power_increasing) auto
    with le_val_less [of "take 4 rb"] show ?thesis by simp
  qed
  moreover have "le_val rb mod 2 ^ (32 * Suc n) = 2 ^ 32 * (le_val rb div 2 ^ 32 mod 2 ^ (32 * n)) + le_val rb mod 2 ^ 32"
    using mod_mult2_eq [of "le_val rb" "2 ^ 32" "2 ^ (32 * n)"] by (simp add: power_add)
  ultimately show ?case
    using 2 by (simp add: unat_le_word)
qed

lemma length_nn_decode_loop [simp]: "length (nn_decode_loop n rb) = n"
  by (induction n rb rule: nn_decode_loop.induct) auto

lemma length_NN_Decode [simp]: "length (NN_Decode n b) = n"
  by (simp add: NN_Decode_def)

lemma NN_Decode_val: "nn_val (NN_Decode n b) = be_val b mod 2 ^ (32 * n)"
  by (simp add: NN_Decode_def be_val_def nn_decode_loop_val)

lemma take_le_bytes: "k \<le> n \<Longrightarrow> take k (le_bytes n w) = le_bytes k w"
proof (induction n w arbitrary: k rule: le_bytes.induct)
  case (2 n w)
  then show ?case by (cases k) auto
qed simp

lemma length_nn_encode_loop [simp]: "length (nn_encode_loop len b) = len"
  by (induction len b rule: nn_encode_loop.induct) auto

lemma nn_encode_loop_val: "le_val (nn_encode_loop len b) = nn_val b mod 256 ^ len"
proof (induction len b rule: nn_encode_loop.induct)
  case (1 len)
  then show ?case by simp
next
  case (2 len d ds)
  show ?case
  proof (cases "4 \<le> len")
    case True
    have "nn_val (d # ds) mod (256 ^ 4 * 256 ^ (len - 4)) =
        256 ^ 4 * (nn_val (d # ds) div 256 ^ 4 mod 256 ^ (len - 4)) + nn_val (d # ds) mod 256 ^ 4"
      by (rule mod_mult2_eq)
    moreover have "256 ^ 4 * 256 ^ (len - 4) = (256 :: nat) ^ len"
      using True power_add [of "256 :: nat" 4 "len - 4"] by simp
    ultimately show ?thesis
      using 2 True unat_u32_less [of d] by (simp add: le_val_append le_val_le_bytes)
  next
    case False
    then have "256 ^ 4 = 256 ^ len * (256 :: nat) ^ (4 - len)" by (simp flip: power_add)
    then have "nn_val (d # ds) = unat d + 256 ^ len * (256 ^ (4 - len) * nn_val ds)"
      by (simp flip: mult.assoc)
    then have "nn_val (d # ds) mod 256 ^ len = unat d mod 256 ^ len"
      by (simp only: mod_mult_self2)
    with False show ?thesis using nn_encode_loop.simps
      by (simp add: take_le_bytes le_val_append le_val_le_bytes) (metis length_0_conv length_nn_encode_loop le_val.simps(1))
  qed
qed

lemma length_NN_Encode [simp]: "length (NN_Encode len b digits) = len"
  by (simp add: NN_Encode_def)

lemma NN_Encode_val: "be_val (NN_Encode len b digits) = nn_val (take digits b) mod 256 ^ len"
  by (simp add: NN_Encode_def be_val_def nn_encode_loop_val)

end
