(* ===== verification/NN_Div.thy ===== *)
theory NN_Div
  imports NN_Arith
begin

text \<open>
  \<^verbatim>\<open>HBase/RSAEuro/nn.c\<close>, \<^verbatim>\<open>NN_Div\<close>: long division with an estimate of each
  quotient digit by two half-digit estimates, each corrected by a \<^verbatim>\<open>while\<close> loop.
  The loops are \<open>partial_function\<close>s into \<open>option\<close>: \<open>None\<close> is a loop that does
  not end, and the correctness theorems state that \<open>Some\<close> result is returned.
\<close>

text \<open>The two-digit local array \<open>t\<close> is a pair, least significant digit first.\<close>

type_synonym pair = "u32 \<times> u32"

definition sub_pair :: "u32 \<Rightarrow> pair \<Rightarrow> pair" where
  "sub_pair x t =
     (let t0 = fst t - x
      in (t0, if t0 > MAX_NN_DIGIT - x then snd t - 1 else snd t))"

definition sub_high :: "u32 \<Rightarrow> pair \<Rightarrow> pair" where
  "sub_high x t = (fst t, snd t - x)"

partial_function (option) fix_high :: "u16 \<Rightarrow> u16 \<Rightarrow> u16 \<Rightarrow> pair \<Rightarrow> (u16 \<times> pair) option" where
  "fix_high cHigh cLow aHigh t =
     (if snd t > ucast cHigh \<or> (snd t = ucast cHigh \<and> fst t \<ge> TO_HIGH_HALF (ucast cLow))
      then fix_high cHigh cLow (aHigh + 1)
             (sub_high (ucast cHigh) (sub_pair (TO_HIGH_HALF (ucast cLow)) t))
      else Some (aHigh, t))"

partial_function (option) fix_low :: "u32 \<Rightarrow> u16 \<Rightarrow> pair \<Rightarrow> (u16 \<times> pair) option" where
  "fix_low s aLow t =
     (if snd t > 0 \<or> (snd t = 0 \<and> fst t \<ge> s)
      then fix_low s (aLow + 1) (sub_pair s t)
      else Some (aLow, t))"

text \<open>The estimate of a quotient digit; \<open>s\<close> is the incremented leading digit.\<close>

definition div_est :: "u32 \<Rightarrow> pair \<Rightarrow> u32 option" where
  "div_est s t =
     (let cHigh = HIGH_HALF s; cLow = LOW_HALF s;
          aHigh = (if cHigh = 0xffff then HIGH_HALF (snd t)
                   else ucast (snd t div (ucast cHigh + 1)));
          u = ucast aHigh * ucast cLow; v = ucast aHigh * ucast cHigh;
          t = sub_high v (sub_high (ucast (HIGH_HALF u)) (sub_pair (TO_HIGH_HALF u) t))
      in case fix_high cHigh cLow aHigh t of
           None \<Rightarrow> None
         | Some (aHigh, t) \<Rightarrow>
             (let aLow = (if cHigh = 0xffff then LOW_HALF (snd t)
                          else ucast ((TO_HIGH_HALF (snd t) + ucast (HIGH_HALF (fst t)))
                                      div (ucast cHigh + 1)));
                  u = ucast aLow * ucast cLow; v = ucast aLow * ucast cHigh;
                  t = sub_high (ucast (HIGH_HALF v)) (sub_pair (TO_HIGH_HALF v) (sub_pair u t))
              in case fix_low s aLow t of
                   None \<Rightarrow> None
                 | Some (aLow, t) \<Rightarrow> Some (TO_HIGH_HALF (ucast aHigh) + ucast aLow)))"

text \<open>
  The last correction, on the window \<open>w\<close> of the digits \<open>cc[i..]\<close> and the digit
  \<open>tp\<close> above it.
\<close>

partial_function (option) div_fix ::
  "nn \<Rightarrow> nat \<Rightarrow> u32 \<Rightarrow> nn \<Rightarrow> u32 \<Rightarrow> (u32 \<times> nn \<times> u32) option" where
  "div_fix dd ddDigits ai w tp =
     (if tp \<noteq> 0 \<or> NN_Cmp w dd ddDigits \<ge> 0
      then div_fix dd ddDigits (ai + 1) (fst (NN_Sub w dd ddDigits))
             (tp - snd (NN_Sub w dd ddDigits))
      else Some (ai, w, tp))"

definition div_step :: "u32 \<Rightarrow> nn \<Rightarrow> nat \<Rightarrow> nat \<Rightarrow> nn \<Rightarrow> (u32 \<times> nn) option" where
  "div_step s dd ddDigits i cc =
     (case (if s = MAX_NN_DIGIT then Some (cc ! (i + ddDigits))
            else div_est (s + 1) (cc ! (i + ddDigits - 1), cc ! (i + ddDigits))) of
        None \<Rightarrow> None
      | Some ai \<Rightarrow>
          (let (w, borrow) = subdigitmult (drop i cc) ai dd ddDigits
           in case div_fix dd ddDigits ai w (cc ! (i + ddDigits) - borrow) of
                None \<Rightarrow> None
              | Some (ai, w, tp) \<Rightarrow> Some (ai, mem_write cc i (w @ [tp]))))"

text \<open>The loop \<open>for (i = cDigits-ddDigits; i >= 0; i--)\<close>; the count is \<open>i + 1\<close>.\<close>

fun div_loop :: "nat \<Rightarrow> u32 \<Rightarrow> nn \<Rightarrow> nat \<Rightarrow> nn \<Rightarrow> nn \<Rightarrow> (nn \<times> nn) option" where
  "div_loop 0 s dd ddDigits cc a = Some (a, cc)"
| "div_loop (Suc i) s dd ddDigits cc a =
     (case div_step s dd ddDigits i cc of
        None \<Rightarrow> None
      | Some (ai, cc) \<Rightarrow> div_loop i s dd ddDigits cc (a[i := ai]))"

definition NN_Div :: "nn \<Rightarrow> nn \<Rightarrow> nn \<Rightarrow> nat \<Rightarrow> nn \<Rightarrow> nat \<Rightarrow> (nn \<times> nn) option" where
  "NN_Div a b c cDigits d dDigits =
     (let ddDigits = NN_Digits d dDigits
      in if ddDigits = 0 then Some (take cDigits a, take dDigits b)
         else
           let shift = 32 - NN_DigitBits (d ! (ddDigits - 1));
               cc = NN_AssignZero ddDigits;
               (c', carry) = NN_LShift cc c shift cDigits;
               cc = (c' @ [carry]) @ drop (cDigits + 1) cc;
               dd = fst (NN_LShift [] d shift ddDigits);
               s = dd ! (ddDigits - 1)
           in case div_loop (cDigits + 1 - ddDigits) s dd ddDigits cc (NN_AssignZero cDigits) of
                None \<Rightarrow> None
              | Some (a, cc) \<Rightarrow>
                  Some (a, mem_write (NN_AssignZero dDigits) 0
                             (fst (NN_RShift [] cc shift ddDigits))))"

section \<open>The digit estimate\<close>

definition pval :: "pair \<Rightarrow> nat" where
  "pval t = unat (fst t) + 2 ^ 32 * unat (snd t)"

lemma pval_less: "pval t < 2 ^ 64"
  using unat_u32_less [of "fst t"] unat_u32_less [of "snd t"] by (simp add: pval_def)

lemma sub_pair_val:
  assumes "unat x \<le> pval t"
  shows "pval (sub_pair x t) = pval t - unat x"
proof -
  have b: "unat (fst t) + 2 ^ 32 * of_bool (fst t - x > MAX_NN_DIGIT - x) = unat (fst t - x) + unat x"
    by (rule u32_sub_borrow)
  show ?thesis
  proof (cases "fst t - x > MAX_NN_DIGIT - x")
    case True
    with b have "unat (fst t) < unat x" using unat_u32_less [of "fst t - x"] by simp
    with assms have "snd t \<noteq> 0" by (auto simp: pval_def)
    then have "unat (snd t - 1) = unat (snd t) - 1" "0 < unat (snd t)"
      by (auto simp: unat_minus_one unat_gt_0)
    with b True show ?thesis by (simp add: sub_pair_def pval_def Let_def)
  next
    case False
    with b show ?thesis by (simp add: sub_pair_def pval_def Let_def)
  qed
qed

lemma sub_high_val:
  assumes "2 ^ 32 * unat x \<le> pval t"
  shows "pval (sub_high x t) = pval t - 2 ^ 32 * unat x"
proof -
  have "unat x \<le> unat (snd t)"
    using assms unat_u32_less [of "fst t"] by (simp add: pval_def)
  then show ?thesis by (simp add: sub_high_def pval_def u32_sub)
qed

lemma unat_u16_u32 [simp]: "unat (ucast (x :: u16) :: u32) = unat x"
  using unat_u16_less [of x] by (simp add: unsigned_ucast_eq take_bit_eq_mod)

lemma unat_HIGH: "unat (HIGH_HALF a) = unat a div 2 ^ 16"
  using unat_HIGH_HALF [of a] by (simp del: unat_HIGH_HALF)

lemma unat_LOW: "unat (LOW_HALF a) = unat a mod 2 ^ 16"
  using unat_LOW_HALF [of a] by (simp del: unat_LOW_HALF)

lemma unat_TO_HIGH_HALF: "unat (TO_HIGH_HALF x) = (unat x mod 2 ^ 16) * 2 ^ 16"
  by (simp only: TO_HIGH_HALF_def u32_push) simp

lemma unat_TO_HIGH_HALF_u16 [simp]: "unat (TO_HIGH_HALF (ucast (x :: u16))) = unat x * 2 ^ 16"
  using unat_u16_less [of x] by (simp add: unat_TO_HIGH_HALF)

lemma halves: "unat s = unat (HIGH_HALF s) * 2 ^ 16 + unat (LOW_HALF s)"
  by (simp add: unat_HIGH unat_LOW)

lemma fix_high_val:
  assumes "0 < s" "s = unat cHigh * 2 ^ 16 + unat cLow" "unat aHigh + pval t div (s * 2 ^ 16) < 2 ^ 16"
  shows "\<exists>aHigh' t'. fix_high cHigh cLow aHigh t = Some (aHigh', t') \<and>
           unat aHigh' = unat aHigh + pval t div (s * 2 ^ 16) \<and> pval t' = pval t mod (s * 2 ^ 16)"
  using assms(3)
proof (induction "pval t" arbitrary: t aHigh rule: less_induct)
  case less
  have guard: "(snd t > ucast cHigh \<or> (snd t = ucast cHigh \<and> fst t \<ge> TO_HIGH_HALF (ucast cLow)))
      \<longleftrightarrow> s * 2 ^ 16 \<le> pval t"
    using unat_u32_less [of "fst t"] unat_u16_less [of cLow]
    by (auto simp: pval_def assms(2) word_less_nat_alt word_le_nat_alt word_unat_eq_iff)
  show ?case
  proof (cases "s * 2 ^ 16 \<le> pval t")
    case True
    let ?t1 = "sub_pair (TO_HIGH_HALF (ucast cLow)) t"
    let ?t = "sub_high (ucast cHigh) ?t1"
    have le: "unat cLow * 2 ^ 16 \<le> pval t" "2 ^ 32 * unat cHigh \<le> pval t - unat cLow * 2 ^ 16"
      using True by (simp_all add: assms(2))
    have t1: "pval ?t1 = pval t - unat cLow * 2 ^ 16"
      using sub_pair_val [of "TO_HIGH_HALF (ucast cLow)" t] le by simp
    have t: "pval ?t = pval t - s * 2 ^ 16"
      using sub_high_val [of "ucast cHigh" ?t1] le t1 by (simp add: assms(2))
    have "0 < s * 2 ^ 16" using assms(1) by simp
    from le_div_geq [OF this True] le_mod_geq [OF True]
    have div: "pval t div (s * 2 ^ 16) = Suc (pval ?t div (s * 2 ^ 16))"
      and mod: "pval t mod (s * 2 ^ 16) = pval ?t mod (s * 2 ^ 16)"
      unfolding t by simp_all
    have a: "unat (aHigh + 1) = unat aHigh + 1"
      using less.prems div by (subst unat_plus_if') simp
    have "pval ?t < pval t" using True assms(1) by (simp add: t)
    from less.hyps [OF this, of "aHigh + 1"] less.prems show ?thesis
      unfolding div mod by (subst fix_high.simps) (simp only: guard True if_True, simp add: a)
  next
    case False
    then show ?thesis
      by (subst fix_high.simps) (simp only: guard if_False, simp)
  qed
qed

lemma fix_low_val:
  assumes "0 < unat s" "unat aLow + pval t div unat s < 2 ^ 16"
  shows "\<exists>aLow' t'. fix_low s aLow t = Some (aLow', t') \<and>
           unat aLow' = unat aLow + pval t div unat s \<and> pval t' = pval t mod unat s"
  using assms(2)
proof (induction "pval t" arbitrary: t aLow rule: less_induct)
  case less
  have guard: "(snd t > 0 \<or> (snd t = 0 \<and> fst t \<ge> s)) \<longleftrightarrow> unat s \<le> pval t"
  proof (cases "snd t = 0")
    case True
    then show ?thesis by (simp add: pval_def word_le_nat_alt)
  next
    case False
    then have "0 < unat (snd t)" "0 < snd t" by (simp_all add: unat_gt_0 word_gt_0)
    then show ?thesis using unat_u32_less [of s] by (simp add: pval_def)
  qed
  show ?case
  proof (cases "unat s \<le> pval t")
    case True
    let ?t = "sub_pair s t"
    have t: "pval ?t = pval t - unat s" using sub_pair_val [OF True] .
    have div: "pval t div unat s = Suc (pval ?t div unat s)"
      and mod: "pval t mod unat s = pval ?t mod unat s"
      using True assms(1) by (simp_all only: t le_div_geq le_mod_geq)
    have a: "unat (aLow + 1) = unat aLow + 1"
      using less.prems div by (subst unat_plus_if') simp
    have "pval ?t < pval t" using True assms(1) by (simp add: t)
    from less.hyps [OF this, of "aLow + 1"] less.prems show ?thesis
      by (subst fix_low.simps) (simp only: guard True if_True, simp add: a div mod)
  next
    case False
    then show ?thesis
      by (subst fix_low.simps) (simp only: guard if_False, simp)
  qed
qed


lemma sub_halves_val:
  assumes "2 ^ 16 * unat u \<le> pval t"
  shows "pval (sub_high (ucast (HIGH_HALF u)) (sub_pair (TO_HIGH_HALF u) t)) = pval t - 2 ^ 16 * unat u"
proof -
  define h l where "h = unat u div 2 ^ 16" and "l = unat u mod 2 ^ 16"
  have u: "unat u = 2 ^ 16 * h + l" by (simp add: h_def l_def)
  have le: "l * 2 ^ 16 \<le> pval t" "2 ^ 32 * h \<le> pval t - l * 2 ^ 16"
    using assms by (simp_all add: u)
  have H: "unat (ucast (HIGH_HALF u) :: u32) = h" and L: "unat (TO_HIGH_HALF u) = l * 2 ^ 16"
    by (simp_all only: unat_HIGH_HALF unat_TO_HIGH_HALF h_def l_def)
  have t1: "pval (sub_pair (TO_HIGH_HALF u) t) = pval t - l * 2 ^ 16"
    using sub_pair_val [of "TO_HIGH_HALF u" t] le(1) unfolding L by simp
  show ?thesis
    using sub_high_val [of "ucast (HIGH_HALF u)" "sub_pair (TO_HIGH_HALF u) t"] le(2)
    unfolding t1 H by (simp add: u)
qed

lemma u16_product: "unat (ucast (a :: u16) * ucast (b :: u16) :: u32) = unat a * unat b"
proof -
  have "unat a * unat b \<le> 65535 * 65535"
    using unat_u16_less [of a] unat_u16_less [of b] by (intro mult_mono) auto
  then show ?thesis by (subst u32_mult) auto
qed

text \<open>The quotient by the leading half-digit plus one, in both cases of the code.\<close>

lemma high_estimate:
  assumes "unat x < (unat (c :: u16) + 1) * 2 ^ 16"
  shows "unat (if c = 0xffff then HIGH_HALF x else ucast (x div (ucast c + 1))) = unat x div (unat c + 1)"
proof (cases "c = 0xffff")
  case True
  then show ?thesis using unat_HIGH_HALF [of x] by simp
next
  case False
  then have "unat c \<noteq> 65535" by (simp add: word_unat_eq_iff)
  then have c: "unat (ucast c + 1 :: u32) = unat c + 1"
    using unat_u16_less [of c] by (simp add: u32_add)
  have "unat x div (unat c + 1) < 65536"
    using assms by (simp add: less_mult_imp_div_less mult.commute)
  with False c show ?thesis
    by (simp add: unsigned_ucast_eq take_bit_eq_mod unat_div)
qed


lemma take_quotient:
  assumes "a * n \<le> T" "0 < (n :: nat)"
  shows "a + (T - a * n) div n = T div n" "(T - a * n) mod n = T mod n"
proof -
  obtain r where T: "T = r + a * n" using assms(1) by (metis add.commute le_Suc_ex)
  show "a + (T - a * n) div n = T div n" "(T - a * n) mod n = T mod n"
    using assms(2) by (simp_all add: T)
qed

text \<open>A half-digit estimate from below never takes too much.\<close>

lemma estimate_le:
  assumes "a = x div (h + 1)" "S \<le> (h + 1) * (m :: nat)"
  shows "a * S \<le> x * m"
proof -
  have "a * S \<le> a * (h + 1) * m" using mult_le_mono2 [OF assms(2)] by (simp only: mult.assoc)
  also have "\<dots> \<le> x * m" unfolding assms(1) by (intro mult_right_mono div_times_less_eq_dividend) simp
  finally show ?thesis .
qed

lemma div_est_val:
  assumes "0 < s" "snd t < s"
  shows "\<exists>ai. div_est s t = Some ai \<and> unat ai = pval t div unat s"
proof -
  define S T where "S = unat s" and "T = pval t"
  define ch cl where "ch = HIGH_HALF s" and "cl = LOW_HALF s"
  have S: "S = unat ch * 2 ^ 16 + unat cl" by (simp add: S_def ch_def cl_def halves [of s])
  have Sh: "S < (unat ch + 1) * 2 ^ 16" using S unat_u16_less [of cl] by simp
  have S0: "0 < S" using assms(1) by (simp add: S_def word_less_nat_alt)
  have tS: "unat (snd t) < S" using assms(2) by (simp add: S_def word_less_nat_alt)
  have TS: "T < S * 2 ^ 16 * 2 ^ 16"
    using tS unat_u32_less [of "fst t"] by (simp add: T_def pval_def)
  define a where "a = (if ch = 0xffff then HIGH_HALF (snd t) else ucast (snd t div (ucast ch + 1)))"
  have a: "unat a = unat (snd t) div (unat ch + 1)"
    unfolding a_def using tS Sh by (intro high_estimate) simp
  define u v where "u = ucast a * (ucast cl :: u32)" and "v = ucast a * (ucast ch :: u32)"
  have uv: "unat u = unat a * unat cl" "unat v = unat a * unat ch"
    by (simp_all add: u_def v_def u16_product)
  have as: "unat a * (S * 2 ^ 16) \<le> T"
    using estimate_le [OF a less_imp_le [OF Sh]] by (simp add: T_def pval_def)
  have asplit: "unat a * (S * 2 ^ 16) = 2 ^ 16 * unat u + 2 ^ 32 * unat v"
    unfolding S uv by (simp add: distrib_left)
  define t1 where "t1 = sub_high v (sub_high (ucast (HIGH_HALF u)) (sub_pair (TO_HIGH_HALF u) t))"
  have t1: "pval t1 = T - unat a * (S * 2 ^ 16)"
    using as asplit by (simp add: t1_def T_def sub_halves_val sub_high_val)
  have q: "T div (S * 2 ^ 16) < 2 ^ 16" using TS by (simp add: less_mult_imp_div_less mult.commute)
  have "S * 2 ^ 16 > 0" using S0 by simp
  note tq = take_quotient [OF as this]
  have "unat a + pval t1 div (S * 2 ^ 16) < 2 ^ 16" using q unfolding t1 tq .
  from fix_high_val [OF S0 S this] obtain a' t' where fh: "fix_high ch cl a t1 = Some (a', t')"
    and a': "unat a' = T div (S * 2 ^ 16)" and t': "pval t' = T mod (S * 2 ^ 16)"
    unfolding t1 tq by auto
  have t'S: "pval t' < S * 2 ^ 16" using S0 by (simp add: t')
  have t'h: "unat (snd t') \<le> unat ch"
  proof (rule ccontr)
    assume "\<not> ?thesis"
    then have "(unat ch + 1) * 2 ^ 32 \<le> unat (snd t') * 2 ^ 32" by simp
    also have "\<dots> \<le> pval t'" by (simp add: pval_def)
    also have "\<dots> < (unat ch + 1) * 2 ^ 16 * 2 ^ 16" using t'S Sh by simp
    finally show False by simp
  qed
  define x where "x = TO_HIGH_HALF (snd t') + ucast (HIGH_HALF (fst t'))"
  have xs: "unat (snd t') < 2 ^ 16" using t'h unat_u16_less [of ch] by simp
  have "unat (fst t') div 65536 < 65536" using unat_u32_less [of "fst t'"] by simp
  then have x: "unat x = unat (snd t') * 2 ^ 16 + unat (fst t') div 2 ^ 16"
    using xs by (simp add: x_def u32_add unat_TO_HIGH_HALF unat_HIGH)
  have xt: "unat x = pval t' div 2 ^ 16"
    unfolding x pval_def by (subst add_digit_div_half) simp
  define b where "b = (if ch = 0xffff then LOW_HALF (snd t') else ucast (x div (ucast ch + 1)))"
  have "LOW_HALF (snd t') = HIGH_HALF x"
  proof -
    have "unat (HIGH_HALF x) = unat (snd t')"
      using unat_u32_less [of "fst t'"] by (simp add: x unat_HIGH)
    moreover have "unat (LOW_HALF (snd t')) = unat (snd t')"
      using xs by (simp add: unat_LOW)
    ultimately show ?thesis by (simp add: word_unat_eq_iff)
  qed
  moreover have "unat x < (unat ch + 1) * 2 ^ 16"
    using t'S Sh unfolding xt by (simp add: less_mult_imp_div_less)
  ultimately have b: "unat b = unat x div (unat ch + 1)"
    unfolding b_def by (simp only: high_estimate)
  have bs: "unat b * S \<le> pval t'"
  proof -
    have "unat b * S \<le> unat x * 2 ^ 16" by (rule estimate_le [OF b less_imp_le [OF Sh]])
    also have "\<dots> \<le> pval t'" unfolding xt by simp
    finally show ?thesis .
  qed
  define u' v' where "u' = ucast b * (ucast cl :: u32)" and "v' = ucast b * (ucast ch :: u32)"
  have uv': "unat u' = unat b * unat cl" "unat v' = unat b * unat ch"
    by (simp_all add: u'_def v'_def u16_product)
  have bsplit: "unat b * S = unat u' + 2 ^ 16 * unat v'"
    unfolding S uv' by (simp add: distrib_left)
  define t2 where "t2 = sub_high (ucast (HIGH_HALF v')) (sub_pair (TO_HIGH_HALF v') (sub_pair u' t'))"
  have t2: "pval t2 = pval t' - unat b * S"
    using bs bsplit by (simp add: t2_def sub_halves_val sub_pair_val)
  note tq' = take_quotient [OF bs S0]
  have q': "pval t' div S < 2 ^ 16" using t'S by (simp add: less_mult_imp_div_less mult.commute)
  have "unat b + pval t2 div unat s < 2 ^ 16" using q' unfolding t2 S_def [symmetric] tq' .
  from fix_low_val [OF S0 [unfolded S_def] this] obtain b' t'' where fl: "fix_low s b t2 = Some (b', t'')"
    and b': "unat b' = pval t' div S"
    unfolding t2 S_def [symmetric] tq' by auto
  have T: "T div S = T div (S * 2 ^ 16) * 2 ^ 16 + T mod (S * 2 ^ 16) div S"
  proof -
    have "T = S * (T div (S * 2 ^ 16) * 2 ^ 16) + T mod (S * 2 ^ 16)"
      by (metis div_mult_mod_eq mult.assoc mult.commute)
    with S0 show ?thesis by (metis add.commute div_mult_self2 less_not_refl2)
  qed
  have "unat (TO_HIGH_HALF (ucast a') + ucast b') = T div S"
    unfolding T using unat_u16_less [of a'] unat_u16_less [of b'] a' b' t' by (simp add: u32_add)
  moreover have "div_est s t = Some (TO_HIGH_HALF (ucast a') + ucast b')"
    using fh fl unfolding div_est_def Let_def t1_def t2_def u_def v_def u'_def v'_def b_def x_def a_def ch_def cl_def
    by simp
  ultimately show ?thesis by (simp add: T_def S_def)
qed


section \<open>One round of the division\<close>

lemma div_fix_val:
  assumes "length w = length dd" "0 < nn_val dd" "C = nn_val w + 2 ^ (32 * length dd) * unat tp"
    "unat ai + C div nn_val dd < 2 ^ 32"
  shows "\<exists>ai' w'. div_fix dd (length dd) ai w tp = Some (ai', w', 0) \<and>
           unat ai' = unat ai + C div nn_val dd \<and> nn_val w' = C mod nn_val dd \<and>
           length w' = length dd"
  using assms(1,3,4)
proof (induction C arbitrary: w tp ai rule: less_induct)
  case (less C)
  let ?D = "nn_val dd" and ?B = "2 ^ (32 * length dd) :: nat"
  have D: "?D < ?B" and w: "nn_val w < ?B" using nn_val_less [of dd] nn_val_less [of w] less.prems by simp_all
  have cmp: "NN_Cmp w dd (length dd) \<ge> 0 \<longleftrightarrow> ?D \<le> nn_val w"
    using less.prems by (simp add: NN_Cmp_def nn_cmp_val)
  have guard: "(tp \<noteq> 0 \<or> NN_Cmp w dd (length dd) \<ge> 0) \<longleftrightarrow> ?D \<le> C"
  proof (cases "tp = 0")
    case True
    then show ?thesis using cmp less.prems(2) by simp
  next
    case False
    then have "0 < unat tp" by (metis unat_gt_0)
    then have "?B \<le> ?B * unat tp" by simp
    then have "?D \<le> C" using D less.prems(2) by linarith
    then show ?thesis using False by simp
  qed
  show ?case
  proof (cases "?D \<le> C")
    case True
    obtain w1 k where sub: "NN_Sub w dd (length dd) = (w1, k)" by fastforce
    have v: "nn_val w + ?B * unat k = nn_val w1 + ?D" and k: "unat k \<le> 1" and l: "length w1 = length dd"
      using nn_sub_val [of w dd 0 w1 k] sub less.prems(1) by (auto simp: NN_Sub_def)
    have kt: "unat k \<le> unat tp"
    proof (rule ccontr)
      assume "\<not> ?thesis"
      then have "unat k = 1" "unat tp = 0" using k by simp_all
      then show False using v True less.prems(2) nn_val_less [of w1] l by simp
    qed
    have C': "C - ?D = nn_val w1 + ?B * unat (tp - k)"
      using v kt less.prems(2) by (simp add: u32_sub diff_mult_distrib2)
    have div: "C div ?D = Suc ((C - ?D) div ?D)" and mod: "C mod ?D = (C - ?D) mod ?D"
      using True assms(2) by (simp_all add: le_div_geq le_mod_geq)
    have a: "unat (ai + 1) = unat ai + 1" using less.prems(3) unfolding div by (simp add: u32_add)
    have "C - ?D < C" using True assms(2) by simp
    from less.IH [OF this l C', of "ai + 1"] less.prems(3) show ?thesis
      unfolding div mod by (subst div_fix.simps) (simp only: guard True if_True, simp add: a sub)
  next
    case False
    then have "tp = 0" and "div_fix dd (length dd) ai w tp = Some (ai, w, tp)"
      using guard by (auto simp: div_fix.simps [of dd _ ai])
    with False less.prems show ?thesis by simp
  qed
qed

lemma nn_val_take_Suc:
  "n < length a \<Longrightarrow> nn_val (take (Suc n) a) = nn_val (take n a) + 2 ^ (32 * n) * unat (a ! n)"
  by (simp add: take_Suc_conv_app_nth nn_val_append)

lemma div_step_val:
  assumes "length dd = Suc k" "s = dd ! k" "0 < nn_val dd" "i + Suc k < length cc"
    and C: "C = nn_val (mem_read cc i (Suc (Suc k)))" "C < nn_val dd * 2 ^ 32"
  shows "\<exists>ai w. div_step s dd (Suc k) i cc = Some (ai, mem_write cc i (w @ [0])) \<and>
           unat ai = C div nn_val dd \<and> nn_val w = C mod nn_val dd \<and> length w = Suc k"
proof -
  let ?D = "nn_val dd" and ?B = "2 ^ (32 * k) :: nat"
  define tp w0 where "tp = cc ! (i + Suc k)" and "w0 = take (Suc k) (drop i cc)"
  have lw0: "length w0 = Suc k" using assms(4) by (simp add: w0_def)
  have C1: "C = nn_val w0 + 2 ^ (32 * Suc k) * unat tp"
    using assms(4) by (simp only: C mem_read_def w0_def tp_def, subst nn_val_take_Suc) simp_all
  have C2: "C = nn_val (take k (drop i cc)) + ?B * pval (cc ! (i + k), tp)"
    using assms(4) unfolding C1 w0_def
    by (subst nn_val_take_Suc) (simp_all add: pval_def algebra_simps power_add)
  have Ds: "?D < ?B * (unat s + 1)"
  proof -
    have "?D = nn_val (take k dd) + ?B * unat s"
      using assms(1,2) nn_val_take_Suc [of k dd] by simp
    then show ?thesis using nn_val_less [of "take k dd"] assms(1) by simp
  qed
  have "\<exists>ai. (if s = MAX_NN_DIGIT then Some (cc ! (i + Suc k))
              else div_est (s + 1) (cc ! (i + Suc k - 1), cc ! (i + Suc k))) = Some ai \<and> unat ai * ?D \<le> C"
  proof (cases "s = MAX_NN_DIGIT")
    case True
    have "unat tp * ?D \<le> unat tp * 2 ^ (32 * Suc k)"
      using nn_val_less [of dd] assms(1) by (intro mult_le_mono2) simp
    also have "\<dots> \<le> C" unfolding C1 by simp
    finally show ?thesis using True by (simp add: tp_def)
  next
    case False
    then have "unat s \<noteq> 4294967295" by (simp add: word_unat_eq_iff)
    then have s1: "unat (s + 1) = unat s + 1" using unat_u32_less [of s] by (simp add: u32_add)
    have "unat tp * (2 ^ 32 * ?B) < (unat s + 1) * (2 ^ 32 * ?B)"
    proof -
      have "unat tp * (2 ^ 32 * ?B) \<le> C" unfolding C1 by (simp add: power_add)
      also have "\<dots> < ?D * 2 ^ 32" by (rule C)
      also have "\<dots> \<le> ?B * (unat s + 1) * 2 ^ 32" using Ds by simp
      finally show ?thesis by (simp add: mult_ac)
    qed
    then have "unat tp < unat s + 1" by (metis mult_less_cancel2)
    then have "tp < s + 1" "0 < s + 1"
      using s1 by (simp_all add: word_less_nat_alt)
    then obtain ai where ai: "div_est (s + 1) (cc ! (i + k), tp) = Some ai"
      "unat ai = pval (cc ! (i + k), tp) div (unat s + 1)"
      using div_est_val [of "s + 1" "(cc ! (i + k), tp)"] s1 by auto
    have "unat ai * ?D \<le> pval (cc ! (i + k), tp) * ?B"
      by (rule estimate_le [OF ai(2)]) (use Ds in \<open>simp add: mult.commute\<close>)
    also have "\<dots> \<le> C" unfolding C2 by simp
    finally show ?thesis using ai(1) False by (simp add: tp_def)
  qed
  then obtain ai where ai: "(if s = MAX_NN_DIGIT then Some (cc ! (i + Suc k))
              else div_est (s + 1) (cc ! (i + Suc k - 1), cc ! (i + Suc k))) = Some ai"
    and aiC: "unat ai * ?D \<le> C" by blast
  obtain w1 b where sub: "subdigitmult (drop i cc) ai dd (Suc k) = (w1, b)" by fastforce
  have v: "nn_val w0 + 2 ^ (32 * Suc k) * unat b = nn_val w1 + unat ai * ?D" and lw1: "length w1 = Suc k"
    using sub nn_submult_val [of w0 dd ai 0 w1 b] lw0 assms(1)
    by (auto simp: subdigitmult_def w0_def split: if_splits)
  have bt: "unat b \<le> unat tp"
  proof (rule ccontr)
    assume "\<not> ?thesis"
    then have "2 ^ (32 * Suc k) * (unat tp + 1) \<le> 2 ^ (32 * Suc k) * unat b" by (intro mult_le_mono2) simp
    then show False using v aiC C1 nn_val_less [of w1] lw1 by (simp add: algebra_simps)
  qed
  have C': "C - unat ai * ?D = nn_val w1 + 2 ^ (32 * length dd) * unat (tp - b)"
    using v bt aiC C1 assms(1) by (simp add: u32_sub diff_mult_distrib2)
  note tq = take_quotient [OF aiC assms(3)]
  have "C div ?D < 2 ^ 32" using C(2) assms(3) by (simp add: less_mult_imp_div_less mult.commute)
  then have "unat ai + (C - unat ai * ?D) div ?D < 2 ^ 32" by (simp only: tq)
  from div_fix_val [OF _ assms(3) C' this] lw1 assms(1)
  obtain ai' w' where "div_fix dd (Suc k) ai w1 (tp - b) = Some (ai', w', 0)"
    "unat ai' = C div ?D" "nn_val w' = C mod ?D" "length w' = Suc k"
    unfolding tq by auto
  then show ?thesis by (simp only: div_step_def ai sub) (auto simp: sub tp_def)
qed


section \<open>The whole division\<close>

lemma div_loop_val:
  assumes "length dd = n" "n \<noteq> 0" "s = dd ! (n - 1)" "0 < nn_val dd" "j \<le> length a"
    "j + n \<le> length cc" "nn_val (mem_read cc j n) < nn_val dd"
  shows "\<exists>a' cc'. div_loop j s dd n cc a = Some (a', cc') \<and> length a' = length a \<and> length cc' = length cc \<and>
           drop j a' = drop j a \<and> nn_val (take j a') = nn_val (take (j + n) cc) div nn_val dd \<and>
           nn_val (take n cc') = nn_val (take (j + n) cc) mod nn_val dd"
  using assms(5-)
proof (induction j arbitrary: cc a)
  case 0
  then show ?case by (simp add: mem_read_def)
next
  case (Suc i)
  let ?D = "nn_val dd"
  obtain k where n: "n = Suc k" using assms(2) by (cases n) auto
  define W where "W = nn_val (mem_read cc i (Suc n))"
  have "mem_read cc i (Suc n) = cc ! i # mem_read cc (Suc i) n"
    using Suc.prems by (simp add: mem_read_def Cons_nth_drop_Suc [symmetric])
  then have "W < ?D * 2 ^ 32"
    using Suc.prems(3) unat_u32_less [of "cc ! i"] by (simp add: W_def)
  then obtain ai w where step: "div_step s dd n i cc = Some (ai, mem_write cc i (w @ [0]))"
    and ai: "unat ai = W div ?D" and w: "nn_val w = W mod ?D" "length w = n"
    using div_step_val [of dd k s i cc W] assms Suc.prems n by (auto simp: W_def)
  let ?cc = "mem_write cc i (w @ [0])" and ?a = "a[i := ai]"
  have lcc: "length ?cc = length cc" using Suc.prems w by simp
  have tk: "take (i + n) ?cc = take i cc @ w"
    using Suc.prems w by (simp add: mem_write_def)
  have rd: "mem_read ?cc i n = w"
    using Suc.prems w by (simp add: mem_write_def mem_read_def)
  define C1 where "C1 = nn_val (take i cc) + 2 ^ (32 * i) * (W mod ?D)"
  have C1: "nn_val (take (i + n) ?cc) = C1"
    using Suc.prems by (simp add: tk nn_val_append w C1_def)
  have "take (Suc i + n) cc = take i cc @ mem_read cc i (Suc n)"
    by (simp add: mem_read_def take_add [symmetric])
  then have "nn_val (take (Suc i + n) cc) = nn_val (take i cc) + 2 ^ (32 * i) * W"
    using Suc.prems by (simp add: nn_val_append W_def)
  also have "\<dots> = nn_val (take i cc) + 2 ^ (32 * i) * (W mod ?D + W div ?D * ?D)" by simp
  also have "\<dots> = C1 + 2 ^ (32 * i) * (W div ?D) * ?D"
    by (simp only: C1_def distrib_left mult.assoc add.assoc)
  finally have C: "nn_val (take (Suc i + n) cc) = C1 + 2 ^ (32 * i) * (W div ?D) * ?D" .
  have "i \<le> length ?a" "i + n \<le> length ?cc" "nn_val (mem_read ?cc i n) < ?D"
    using Suc.prems lcc assms(4) by (simp_all add: rd w)
  from Suc.IH [OF this] obtain a' cc' where r: "div_loop i s dd n ?cc ?a = Some (a', cc')"
    "length a' = length a" "length cc' = length cc" "drop i a' = drop i ?a"
    "nn_val (take i a') = C1 div ?D" "nn_val (take n cc') = C1 mod ?D"
    unfolding C1 lcc by auto
  have "drop i a' ! 0 = drop i ?a ! 0" "drop 1 (drop i a') = drop 1 (drop i ?a)"
    by (simp_all only: r(4))
  then have "a' ! i = ai" "drop (Suc i) a' = drop (Suc i) a"
    using r(2) Suc.prems(1) by simp_all
  then have "nn_val (take (Suc i) a') = C1 div ?D + 2 ^ (32 * i) * (W div ?D)"
    using r Suc.prems(1) ai by (subst nn_val_take_Suc) simp_all
  with r step C assms(4) \<open>drop (Suc i) a' = drop (Suc i) a\<close> show ?case by simp
qed

lemma nn_val_ge_top:
  assumes "length d = Suc k" "d ! k \<noteq> 0"
  shows "2 ^ (32 * k) \<le> nn_val d"
proof -
  have "0 < unat (d ! k)" using assms(2) by (metis unat_gt_0)
  moreover have "nn_val d = nn_val (take k d) + 2 ^ (32 * k) * unat (d ! k)"
    using nn_val_take_Suc [of k d] assms(1) by simp
  ultimately show ?thesis by (simp add: trans_le_add2)
qed

lemma NN_Div_val:
  assumes "cDigits \<le> length c" "dDigits \<le> length d" "0 < nn_val (take dDigits d)"
  shows "\<exists>a' b'. NN_Div a b c cDigits d dDigits = Some (a', b') \<and>
           length a' = cDigits \<and> length b' = dDigits \<and>
           nn_val a' = nn_val (take cDigits c) div nn_val (take dDigits d) \<and>
           nn_val b' = nn_val (take cDigits c) mod nn_val (take dDigits d)"
proof -
  define n where "n = NN_Digits d dDigits"
  define C D where "C = nn_val (take cDigits c)" and "D = nn_val (take dDigits d)"
  have n0: "n \<noteq> 0" using assms NN_Digits_0 [of dDigits d] by (simp add: n_def)
  have nd: "n \<le> dDigits" by (simp add: n_def NN_Digits_le)
  have Dn: "nn_val (take n d) = D" using assms(2) by (simp add: n_def D_def NN_Digits_val)
  have top: "d ! (n - 1) \<noteq> 0" using n0 unfolding n_def by (rule NN_Digits_top)
  define sh where "sh = 32 - NN_DigitBits (d ! (n - 1))"
  have bits: "0 < NN_DigitBits (d ! (n - 1))" "NN_DigitBits (d ! (n - 1)) \<le> 32"
    "unat (d ! (n - 1)) < 2 ^ NN_DigitBits (d ! (n - 1))"
    using NN_DigitBits_val [of "d ! (n - 1)"] top by simp_all
  have sh: "sh < 32" using bits(1) unfolding sh_def by simp
  obtain c' carry where lc: "NN_LShift (NN_AssignZero n) c sh cDigits = (c', carry)" by fastforce
  have c': "nn_val c' + 2 ^ (32 * cDigits) * unat carry = C * 2 ^ sh" "length c' = cDigits"
    using nn_lshift_val [of sh 0 "take cDigits c" c' carry] lc sh assms(1)
    by (simp_all add: NN_LShift_def C_def)
  obtain dd k where ld: "NN_LShift [] d sh n = (dd, k)" by fastforce
  have dd: "length dd = n" "nn_val dd + 2 ^ (32 * n) * unat k = D * 2 ^ sh"
    using nn_lshift_val [of sh 0 "take n d" dd k] ld sh assms(2) nd
    by (simp_all add: NN_LShift_def Dn)
  have "D < 2 ^ (32 * (n - 1)) * (unat (d ! (n - 1)) + 1)"
    using nn_val_take_Suc [of "n - 1" d] nn_val_less [of "take (n - 1) d"] n0 nd assms(2) Dn by simp
  also have "\<dots> \<le> 2 ^ (32 * (n - 1)) * 2 ^ NN_DigitBits (d ! (n - 1))"
    using bits(3) by (intro mult_le_mono2) simp
  finally have "D * 2 ^ sh < 2 ^ (32 * (n - 1)) * 2 ^ NN_DigitBits (d ! (n - 1)) * 2 ^ sh" by simp
  also have "\<dots> = 2 ^ (32 * n)"
    using n0 bits(2) unfolding sh_def power_add [symmetric] by (intro arg_cong [where f = "power 2"]) (cases n, simp_all)
  finally have "k = 0"
    using dd(2) by (cases "unat k") (auto simp: unat_eq_0)
  with dd have ddv: "nn_val dd = D * 2 ^ sh" by simp
  have D0: "2 ^ (32 * (n - 1)) \<le> D"
    using nn_val_ge_top [of "take n d" "n - 1"] n0 nd assms(2) top Dn by simp
  define s where "s = dd ! (n - 1)"
  define cc where "cc = (c' @ [carry]) @ drop (cDigits + 1) (NN_AssignZero n)"
  define j where "j = cDigits + 1 - n"
  have lcc: "length cc = j + n" by (simp add: cc_def c'(2) j_def NN_AssignZero_def)
  have ccv: "nn_val cc = C * 2 ^ sh"
    using c' by (simp add: cc_def nn_val_append NN_AssignZero_def)
  have CD: "cDigits \<le> j + (n - 1)" using n0 by (simp add: j_def)
  have "C < 2 ^ (32 * cDigits)" using nn_val_less [of "take cDigits c"] assms(1) by (simp add: C_def)
  also have "\<dots> \<le> 2 ^ (32 * (j + (n - 1)))" using CD by (intro power_increasing) auto
  also have "\<dots> = 2 ^ (32 * j) * 2 ^ (32 * (n - 1))" by (simp add: power_add distrib_left)
  also have "\<dots> \<le> 2 ^ (32 * j) * D" using D0 by simp
  finally have Cj: "nn_val cc < nn_val dd * 2 ^ (32 * j)" by (simp add: ccv ddv mult.commute)
  have "nn_val (mem_read cc j n) = nn_val (drop j cc)" using lcc by (simp add: mem_read_def)
  also have "\<dots> = nn_val cc div 2 ^ (32 * j)"
    using nn_val_take_drop [of j cc] nn_val_less [of "take j cc"] lcc by simp
  also have "\<dots> < nn_val dd" using Cj by (simp add: less_mult_imp_div_less)
  finally have "nn_val (mem_read cc j n) < nn_val dd" .
  moreover have "0 < nn_val dd" using assms(3) by (simp add: ddv D_def)
  moreover have "j \<le> cDigits" using n0 by (simp add: j_def)
  ultimately obtain a' cc' where loop: "div_loop j s dd n cc (NN_AssignZero cDigits) = Some (a', cc')"
    and la: "length a' = cDigits" "length cc' = j + n" and da: "drop j a' = replicate (cDigits - j) 0"
    and va: "nn_val (take j a') = C div D" and vc: "nn_val (take n cc') = (C mod D) * 2 ^ sh"
    using div_loop_val [of dd n s j "NN_AssignZero cDigits" cc] n0 dd(1) lcc
    by (auto simp: s_def NN_AssignZero_def ccv ddv mult_mod_left)
  have "nn_val a' = C div D"
    using nn_val_take_drop [of j a'] \<open>j \<le> cDigits\<close> la va da by simp
  moreover obtain r rk where r: "NN_RShift [] cc' sh n = (r, rk)" by fastforce
  then have "nn_val r = C mod D" "length r = n"
    using nn_rshift_val [of sh "take n cc'" r rk] sh la vc by (simp_all add: NN_RShift_def)
  then have "nn_val (mem_write (NN_AssignZero dDigits) 0 r) = C mod D"
    "length (mem_write (NN_AssignZero dDigits) 0 r) = dDigits"
    using nd by (simp_all add: mem_write_def NN_AssignZero_def nn_val_append)
  moreover have "NN_Div a b c cDigits d dDigits = Some (a', mem_write (NN_AssignZero dDigits) 0 r)"
    using n0 loop lc ld r
    by (simp add: NN_Div_def Let_def n_def [symmetric] sh_def [symmetric, simplified] s_def cc_def j_def)
  ultimately show ?thesis using la by (simp add: C_def D_def)
qed

end
