(* ===== verification/NN_Mod.thy ===== *)
theory NN_Mod
  imports NN_Div "HOL-Library.Monad_Syntax"
begin

text \<open>
  \<^verbatim>\<open>HBase/RSAEuro/nn.c\<close>, modular arithmetic: \<^verbatim>\<open>NN_Mod\<close>, \<^verbatim>\<open>NN_ModMult\<close>, \<^verbatim>\<open>NN_ModExp\<close>
  (a 4-ary exponentiation), \<^verbatim>\<open>NN_ModInv\<close> (extended Euclid without negative numbers)
  and \<^verbatim>\<open>NN_Gcd\<close>.  As in \<^verbatim>\<open>NN_Div\<close>, \<open>None\<close> is a loop that does not end.
\<close>

definition NN_Mod :: "nn \<Rightarrow> nn \<Rightarrow> nat \<Rightarrow> nn \<Rightarrow> nat \<Rightarrow> nn option" where
  "NN_Mod a b bDigits c cDigits = map_option snd (NN_Div [] a b bDigits c cDigits)"

definition NN_ModMult :: "nn \<Rightarrow> nn \<Rightarrow> nn \<Rightarrow> nn \<Rightarrow> nat \<Rightarrow> nn option" where
  "NN_ModMult a b c d digits = NN_Mod a (NN_Mult b c digits) (2 * digits) d digits"

definition DIGIT_2MSB :: "u32 \<Rightarrow> u32" where
  "DIGIT_2MSB x = drop_bit 30 x AND 3"

text \<open>The scan past the leading zero bits of the most significant digit.\<close>

partial_function (option) skip_zeros :: "u32 \<Rightarrow> nat \<Rightarrow> (u32 \<times> nat) option" where
  "skip_zeros ci ciBits =
     (if DIGIT_2MSB ci = 0 then skip_zeros (push_bit 2 ci) (ciBits - 2) else Some (ci, ciBits))"

definition mod_exp_round :: "nn list \<Rightarrow> nn \<Rightarrow> nat \<Rightarrow> u32 \<Rightarrow> nn \<Rightarrow> nn option" where
  "mod_exp_round bPower d dDigits ci t = do {
     t \<leftarrow> NN_ModMult t t t d dDigits;
     t \<leftarrow> NN_ModMult t t t d dDigits;
     let s = DIGIT_2MSB ci;
     if s \<noteq> 0 then NN_ModMult t t (bPower ! unat (s - 1)) d dDigits else Some t
   }"

text \<open>The inner loop; the count is \<open>ciBits - j\<close>.\<close>

fun mod_exp_bits :: "nn list \<Rightarrow> nn \<Rightarrow> nat \<Rightarrow> nat \<Rightarrow> u32 \<Rightarrow> nn \<Rightarrow> nn option" where
  "mod_exp_bits bPower d dDigits n ci t =
     (if n = 0 then Some t else do {
        t \<leftarrow> mod_exp_round bPower d dDigits ci t;
        mod_exp_bits bPower d dDigits (n - 2) (push_bit 2 ci) t
      })"

declare mod_exp_bits.simps [simp del]

text \<open>The outer loop over the digits; the count is \<open>i + 1\<close>.\<close>

fun mod_exp_digits :: "nn list \<Rightarrow> nn \<Rightarrow> nat \<Rightarrow> nn \<Rightarrow> nat \<Rightarrow> nat \<Rightarrow> nn \<Rightarrow> nn option" where
  "mod_exp_digits bPower d dDigits c cDigits 0 t = Some t"
| "mod_exp_digits bPower d dDigits c cDigits (Suc i) t = do {
     (ci, ciBits) \<leftarrow> (if i = cDigits - 1 then skip_zeros (c ! i) 32 else Some (c ! i, 32));
     t \<leftarrow> mod_exp_bits bPower d dDigits ciBits ci t;
     mod_exp_digits bPower d dDigits c cDigits i t
   }"

definition NN_ModExp :: "nn \<Rightarrow> nn \<Rightarrow> nat \<Rightarrow> nn \<Rightarrow> nat \<Rightarrow> nn option" where
  "NN_ModExp b c cDigits d dDigits = do {
     let b0 = NN_Assign b dDigits;
     b1 \<leftarrow> NN_ModMult (NN_AssignZero dDigits) b0 b d dDigits;
     b2 \<leftarrow> NN_ModMult (NN_AssignZero dDigits) b1 b d dDigits;
     let t = NN_ASSIGN_DIGIT 1 dDigits;
     let cDigits = NN_Digits c cDigits;
     t \<leftarrow> mod_exp_digits [b0, b1, b2] d dDigits c cDigits cDigits t;
     Some (NN_Assign t dDigits)
   }"

partial_function (option) mod_inv_loop ::
  "nat \<Rightarrow> nn \<Rightarrow> nn \<Rightarrow> nn \<Rightarrow> nn \<Rightarrow> int \<Rightarrow> (nn \<times> int) option" where
  "mod_inv_loop digits u1 u3 v1 v3 u1Sign =
     (if NN_Zero v3 digits then Some (u1, u1Sign)
      else do {
        (q, t3) \<leftarrow> NN_Div [] [] u3 digits v3 digits;
        let w = NN_Mult q v1 digits;
        let t1 = fst (NN_Add u1 w digits);
        mod_inv_loop digits (NN_Assign v1 digits) (NN_Assign v3 digits)
          (NN_Assign t1 digits) (NN_Assign t3 digits) (- u1Sign)
      })"

definition NN_ModInv :: "nn \<Rightarrow> nn \<Rightarrow> nat \<Rightarrow> nn option" where
  "NN_ModInv b c digits = do {
     (u1, u1Sign) \<leftarrow> mod_inv_loop digits (NN_ASSIGN_DIGIT 1 digits) (NN_Assign b digits)
                       (NN_AssignZero digits) (NN_Assign c digits) 1;
     if u1Sign < 0 then Some (fst (NN_Sub c u1 digits)) else Some (NN_Assign u1 digits)
   }"

definition iplus1 :: "nat \<Rightarrow> nat" where
  "iplus1 i = (if i = 2 then 0 else i + 1)"

definition iminus1 :: "nat \<Rightarrow> nat" where
  "iminus1 i = (if i = 0 then 2 else i - 1)"

text \<open>\<open>t\<close> is the array of the three rotating numbers.\<close>

partial_function (option) gcd_loop :: "nat \<Rightarrow> nn list \<Rightarrow> nat \<Rightarrow> nn option" where
  "gcd_loop digits t i =
     (if NN_Zero (t ! i) digits then Some (NN_Assign (t ! iminus1 i) digits)
      else do {
        r \<leftarrow> NN_Mod (t ! iplus1 i) (t ! iminus1 i) digits (t ! i) digits;
        gcd_loop digits (t[iplus1 i := r]) (iplus1 i)
      })"

definition NN_Gcd :: "nn \<Rightarrow> nn \<Rightarrow> nat \<Rightarrow> nn option" where
  "NN_Gcd b c digits =
     gcd_loop digits [NN_Assign c digits, NN_Assign b digits, NN_AssignZero digits] 1"

section \<open>Reduction and modular product\<close>

lemma NN_Mod_val:
  assumes "bDigits \<le> length b" "cDigits \<le> length c" "0 < nn_val (take cDigits c)"
  shows "\<exists>r. NN_Mod a b bDigits c cDigits = Some r \<and> length r = cDigits \<and>
           nn_val r = nn_val (take bDigits b) mod nn_val (take cDigits c)"
  using NN_Div_val [OF assms, of "[]" a] by (auto simp: NN_Mod_def)

lemma NN_ModMult_val:
  assumes "n \<le> length b" "n \<le> length c" "n \<le> length d" "0 < nn_val (take n d)"
  shows "\<exists>r. NN_ModMult a b c d n = Some r \<and> length r = n \<and>
           nn_val r = (nn_val (take n b) * nn_val (take n c)) mod nn_val (take n d)"
  using NN_Mod_val [of "2 * n" "NN_Mult b c n" n d a] assms
  by (simp add: NN_ModMult_def NN_Mult_val)

section \<open>Modular exponentiation\<close>

lemma DIGIT_2MSB_val: "unat (DIGIT_2MSB x) = unat x div 2 ^ 30"
proof -
  have "(3 :: u32) = mask 2" by (simp add: mask_eq_exp_minus_1)
  then have "DIGIT_2MSB x = take_bit 2 (drop_bit 30 x)"
    by (simp add: DIGIT_2MSB_def take_bit_eq_mask)
  moreover have "unat x div 2 ^ 30 < 4" using unat_u32_less [of x] by simp
  ultimately show ?thesis
    by (simp only: unsigned_take_bit_eq unat_drop_bit_eq) (simp add: drop_bit_eq_div take_bit_eq_mod)
qed

lemma u32_shl2: "unat (push_bit 2 x :: u32) = (unat x mod 2 ^ 30) * 4"
  by (subst u32_push) simp_all

text \<open>The powers \<open>b\<close>, \<open>b^2\<close>, \<open>b^3\<close> of the table, modulo \<open>d\<close>.\<close>

definition power_table :: "nn list \<Rightarrow> nat \<Rightarrow> nat \<Rightarrow> nat \<Rightarrow> bool" where
  "power_table bp n b D \<longleftrightarrow>
     (\<forall>k < 3. length (bp ! k) = n \<and> nn_val (bp ! k) mod D = b ^ Suc k mod D)"

lemma mod_exp_round_val:
  assumes "length t = n" "n \<le> length d" "0 < nn_val (take n d)" "power_table bp n b (nn_val (take n d))"
  shows "\<exists>t'. mod_exp_round bp d n ci t = Some t' \<and> length t' = n \<and>
           nn_val t' = (nn_val t ^ 4 * b ^ (unat ci div 2 ^ 30)) mod nn_val (take n d)"
proof -
  let ?D = "nn_val (take n d)" and ?s = "DIGIT_2MSB ci"
  note mult = NN_ModMult_val [OF _ _ assms(2,3)]
  obtain t1 where t1: "NN_ModMult t t t d n = Some t1" "length t1 = n" "nn_val t1 = (nn_val t * nn_val t) mod ?D"
    using mult [of t t t] assms(1) by auto
  obtain t2 where t2: "NN_ModMult t1 t1 t1 d n = Some t2" "length t2 = n" "nn_val t2 = (nn_val t1 * nn_val t1) mod ?D"
    using mult [of t1 t1 t1] t1 by auto
  have x4: "nn_val t2 = nn_val t ^ 4 mod ?D"
    by (simp add: t1 t2 mod_mult_eq power4_eq_xxxx mult.assoc)
  show ?thesis
  proof (cases "?s = 0")
    case True
    then have "unat ci div 2 ^ 30 = 0" using DIGIT_2MSB_val [of ci] by simp
    then show ?thesis using True t1 t2 x4 by (simp add: mod_exp_round_def Let_def)
  next
    case False
    then have s0: "0 < unat ?s" by (metis unat_gt_0)
    then have s1: "unat (?s - 1) = unat ?s - 1" using False by (simp add: unat_minus_one)
    have "unat ?s < 4" using DIGIT_2MSB_val [of ci] unat_u32_less [of ci] by simp
    then have "unat ?s - 1 < 3" "Suc (unat ?s - 1) = unat ?s" using s0 by linarith+
    then have lp: "length (bp ! unat (?s - 1)) = n"
      and vp: "nn_val (bp ! unat (?s - 1)) mod ?D = b ^ unat ?s mod ?D"
      using assms(4) unfolding power_table_def s1 by metis+
    obtain t3 where t3: "NN_ModMult t2 t2 (bp ! unat (?s - 1)) d n = Some t3" "length t3 = n"
      "nn_val t3 = (nn_val t2 * nn_val (bp ! unat (?s - 1))) mod ?D"
      using mult [of t2 "bp ! unat (?s - 1)" t2] t2(2) lp by auto
    have "nn_val t3 = (nn_val t ^ 4 * b ^ unat ?s) mod ?D"
      unfolding t3(3) using x4 vp by (metis mod_mod_trivial mod_mult_eq)
    with t3 show ?thesis using False t1 t2 by (simp add: mod_exp_round_def Let_def DIGIT_2MSB_val)
  qed
qed

lemma top_bits:
  assumes "m < 16"
  shows "x div 2 ^ 30 * 4 ^ m + (x mod 2 ^ 30) * 4 div 2 ^ (32 - 2 * m) = (x :: nat) div 2 ^ (30 - 2 * m)"
proof -
  define K :: nat where "K = 2 ^ (30 - 2 * m)"
  have e: "32 - 2 * m = (30 - 2 * m) + 2" "30 = 2 * m + (30 - 2 * m)" using assms by simp_all
  have K1: "2 ^ (32 - 2 * m) = K * 4" unfolding e(1) power_add K_def by simp
  have "(2 :: nat) ^ 30 = 2 ^ (2 * m) * K"
    unfolding K_def power_add [symmetric] using e(2) by simp
  then have K2: "(2 :: nat) ^ 30 = 4 ^ m * K" by (simp add: power_mult)
  have "x = x div 2 ^ 30 * 4 ^ m * K + x mod 2 ^ 30"
    using div_mult_mod_eq [of x "2 ^ 30"] by (simp only: K2 mult.assoc)
  moreover have "0 < K" by (simp add: K_def)
  ultimately have "x div K = x div 2 ^ 30 * 4 ^ m + (x mod 2 ^ 30) div K"
    by (metis add.commute div_mult_self1 less_not_refl2)
  then show ?thesis unfolding K1 K_def [symmetric] by simp
qed

lemma mod_exp_bits_val:
  assumes "n \<le> length d" "0 < nn_val (take n d)" "power_table bp n b (nn_val (take n d))"
    "m \<le> 16" "length t = n"
  shows "\<exists>t'. mod_exp_bits bp d n (2 * m) ci t = Some t' \<and> length t' = n \<and>
           nn_val t' mod nn_val (take n d) =
             (nn_val t ^ (4 ^ m) * b ^ (unat ci div 2 ^ (32 - 2 * m))) mod nn_val (take n d) \<and>
           (m \<noteq> 0 \<longrightarrow> nn_val t' < nn_val (take n d))"
  using assms(4,5)
proof (induction m arbitrary: ci t)
  case 0
  have "unat ci div 2 ^ 32 = 0" using unat_u32_less [of ci] by simp
  with 0 show ?case by (subst mod_exp_bits.simps) simp
next
  case (Suc m)
  let ?D = "nn_val (take n d)" and ?x = "nn_val t" and ?s = "unat ci div 2 ^ 30"
  obtain t1 where t1: "mod_exp_round bp d n ci t = Some t1" "length t1 = n"
    "nn_val t1 = (?x ^ 4 * b ^ ?s) mod ?D"
    using mod_exp_round_val [of t n d bp b ci] assms Suc.prems by auto
  have le: "m \<le> 16" using Suc.prems by simp
  obtain t' where t': "mod_exp_bits bp d n (2 * m) (push_bit 2 ci) t1 = Some t'" "length t' = n"
    "nn_val t' mod ?D = (nn_val t1 ^ 4 ^ m * b ^ (unat (push_bit 2 ci :: u32) div 2 ^ (32 - 2 * m))) mod ?D"
    "m \<noteq> 0 \<longrightarrow> nn_val t' < ?D"
    using Suc.IH [OF le t1(2), of "push_bit 2 ci"] by auto
  have "nn_val t' < ?D"
  proof (cases "m = 0")
    case True
    then have "t' = t1" using t'(1) by (simp add: mod_exp_bits.simps)
    then show ?thesis using t1(3) assms(2) by simp
  qed (use t'(4) in simp)
  moreover have "nn_val t' mod ?D = (?x ^ (4 ^ Suc m) * b ^ (unat ci div 2 ^ (32 - 2 * Suc m))) mod ?D"
  proof -
    let ?e = "unat (push_bit 2 ci :: u32) div 2 ^ (32 - 2 * m)"
    have "nn_val t' mod ?D = ((?x ^ 4 * b ^ ?s) ^ 4 ^ m * b ^ ?e) mod ?D"
      unfolding t'(3) t1(3) by (metis mod_mult_left_eq power_mod)
    also have "(?x ^ 4 * b ^ ?s) ^ 4 ^ m * b ^ ?e = ?x ^ (4 ^ Suc m) * b ^ (?s * 4 ^ m + ?e)"
      by (simp add: power_mult_distrib power_mult [symmetric] power_add)
    also have "?s * 4 ^ m + ?e = unat ci div 2 ^ (32 - 2 * Suc m)"
      using top_bits [of m "unat ci"] Suc.prems(1) by (simp add: u32_shl2)
    finally show ?thesis .
  qed
  moreover have "mod_exp_bits bp d n (2 * Suc m) ci t = Some t'"
    by (subst mod_exp_bits.simps) (simp add: t1(1) t'(1))
  ultimately show ?case using t'(2) by simp
qed

lemma skip_zeros_val:
  assumes "unat ci = c0 * 2 ^ (32 - 2 * m)" "0 < c0" "m \<le> 16"
  shows "\<exists>ci' m'. skip_zeros ci (2 * m) = Some (ci', 2 * m') \<and> 0 < m' \<and> m' \<le> 16 \<and>
           unat ci' = c0 * 2 ^ (32 - 2 * m')"
  using assms(1,3)
proof (induction m arbitrary: ci)
  case 0
  then show ?case using assms(2) unat_u32_less [of ci] by simp
next
  case (Suc m)
  show ?case
  proof (cases "DIGIT_2MSB ci = 0")
    case True
    then have "unat ci < 2 ^ 30" using DIGIT_2MSB_val [of ci] by (simp add: div_eq_0_iff)
    then have "unat (push_bit 2 ci :: u32) = unat ci * 4" by (simp add: u32_shl2)
    also have "\<dots> = c0 * 2 ^ (32 - 2 * m)"
    proof -
      have "32 - 2 * m = (32 - 2 * Suc m) + 2" using Suc.prems by simp
      then show ?thesis using Suc.prems by (simp add: power_add)
    qed
    finally show ?thesis using Suc.IH [of "push_bit 2 ci"] Suc.prems True
      by (subst skip_zeros.simps) simp
  next
    case False
    then show ?thesis using Suc.prems by (subst skip_zeros.simps) (auto intro: exI [of _ "Suc m"])
  qed
qed


lemma four_pow_16: "(4 :: nat) ^ 16 = 2 ^ 32"
  by simp

lemma mod_exp_digits_val:
  assumes "n \<le> length d" "0 < nn_val (take n d)" "power_table bp n b (nn_val (take n d))"
    "cD \<le> length c" "c ! (cD - 1) \<noteq> 0" "i \<le> cD" "length t = n"
    "nn_val t mod nn_val (take n d) = b ^ nn_val (drop i (take cD c)) mod nn_val (take n d)"
    "i < cD \<longrightarrow> nn_val t < nn_val (take n d)"
    "i = cD \<longrightarrow> nn_val t = 1"
  shows "\<exists>t'. mod_exp_digits bp d n c cD i t = Some t' \<and> length t' = n \<and>
           nn_val t' mod nn_val (take n d) = b ^ nn_val (take cD c) mod nn_val (take n d) \<and>
           (cD \<noteq> 0 \<longrightarrow> nn_val t' < nn_val (take n d))"
  using assms(6-)
proof (induction i arbitrary: t)
  case 0
  then show ?case by simp
next
  case (Suc i)
  let ?D = "nn_val (take n d)" and ?e = "nn_val (drop (Suc i) (take cD c))"
  have e: "nn_val (drop i (take cD c)) = unat (c ! i) + 2 ^ 32 * ?e"
    using Suc.prems(1) assms(4) by (simp add: Cons_nth_drop_Suc [symmetric] del: drop_take)
  have start: "\<exists>ci m. (if i = cD - 1 then skip_zeros (c ! i) 32 else Some (c ! i, 32)) = Some (ci, 2 * m) \<and>
      0 < m \<and> m \<le> 16 \<and> unat ci div 2 ^ (32 - 2 * m) = unat (c ! i) \<and> (i = cD - 1 \<or> m = 16)"
  proof (cases "i = cD - 1")
    case True
    then have "0 < unat (c ! i)" using assms(5) by (metis unat_gt_0)
    then show ?thesis using skip_zeros_val [of "c ! i" "unat (c ! i)" 16] True by auto
  next
    case False
    then show ?thesis by (auto intro: exI [of _ 16])
  qed
  then obtain ci m where ci: "(if i = cD - 1 then skip_zeros (c ! i) 32 else Some (c ! i, 32)) = Some (ci, 2 * m)"
    "0 < m" "m \<le> 16" "unat ci div 2 ^ (32 - 2 * m) = unat (c ! i)" "i = cD - 1 \<or> m = 16"
    by auto
  obtain t1 where t1: "mod_exp_bits bp d n (2 * m) ci t = Some t1" "length t1 = n"
    "nn_val t1 mod ?D = (nn_val t ^ (4 ^ m) * b ^ unat (c ! i)) mod ?D" "nn_val t1 < ?D"
    using mod_exp_bits_val [OF assms(1-3) ci(3) Suc.prems(2), of ci] ci by auto
  have "nn_val t ^ (4 ^ m) mod ?D = b ^ (2 ^ 32 * ?e) mod ?D"
  proof (cases "i = cD - 1")
    case True
    then have "Suc i = cD" using Suc.prems(1) by simp
    then show ?thesis using Suc.prems(5) assms(4) by simp
  next
    case False
    then have "m = 16" using ci(5) by simp
    then have "nn_val t ^ (4 ^ m) mod ?D = (b ^ ?e) ^ (2 ^ 32) mod ?D"
      using Suc.prems(3) by (metis power_mod four_pow_16)
    then show ?thesis by (simp add: power_mult [symmetric] mult.commute)
  qed
  then have "nn_val t1 mod ?D = b ^ nn_val (drop i (take cD c)) mod ?D"
    unfolding t1(3) e by (metis add.commute mod_mult_left_eq power_add)
  then show ?case
    using Suc.IH [of t1] t1 ci(1) Suc.prems(1) by simp
qed

lemma nn_val_ASSIGN_DIGIT: "0 < n \<Longrightarrow> nn_val (NN_ASSIGN_DIGIT x n) = unat x"
  by (cases n) (simp_all add: NN_ASSIGN_DIGIT_def NN_AssignZero_def)

lemma nn_val_pos_length: "0 < nn_val a \<Longrightarrow> 0 < length a"
  by (cases a) auto

lemma NN_ModExp_val:
  assumes "n \<le> length b" "n \<le> length d" "cDigits \<le> length c" "0 < nn_val (take n d)"
  shows "\<exists>r. NN_ModExp b c cDigits d n = Some r \<and> length r = n \<and>
           (nn_val (take cDigits c) = 0 \<longrightarrow> nn_val r = 1) \<and>
           (nn_val (take cDigits c) \<noteq> 0 \<longrightarrow>
              nn_val r = nn_val (take n b) ^ nn_val (take cDigits c) mod nn_val (take n d))"
proof -
  let ?D = "nn_val (take n d)" and ?B = "nn_val (take n b)"
  define b0 where "b0 = NN_Assign b n"
  have b0: "length b0 = n" "nn_val b0 = ?B" "take n b0 = b0" using assms(1) by (simp_all add: b0_def NN_Assign_def)
  note mult = NN_ModMult_val [OF _ _ assms(2,4)]
  obtain b1 where b1: "NN_ModMult (NN_AssignZero n) b0 b d n = Some b1" "length b1 = n"
    "nn_val b1 = (?B * ?B) mod ?D"
    using mult [of b0 b "NN_AssignZero n"] assms(1) b0 by auto
  obtain b2 where b2: "NN_ModMult (NN_AssignZero n) b1 b d n = Some b2" "length b2 = n"
    "nn_val b2 = (nn_val b1 * ?B) mod ?D"
    using mult [of b1 b "NN_AssignZero n"] assms(1) b1 by auto
  have tab: "power_table [b0, b1, b2] n ?B ?D"
    unfolding power_table_def
  proof (intro allI impI)
    fix k :: nat
    assume "k < 3"
    then consider "k = 0" | "k = 1" | "k = 2" by linarith
    then show "length ([b0, b1, b2] ! k) = n \<and> nn_val ([b0, b1, b2] ! k) mod ?D = ?B ^ Suc k mod ?D"
      using b0 b1 b2 by cases (simp_all add: mod_mult_left_eq power3_eq_cube mult.assoc)
  qed
  define cD where "cD = NN_Digits c cDigits"
  have cD: "cD \<le> cDigits" by (simp add: cD_def NN_Digits_le)
  have c: "nn_val (take cD c) = nn_val (take cDigits c)" using assms(3) by (simp add: cD_def NN_Digits_val)
  define t where "t = NN_ASSIGN_DIGIT 1 n"
  have "0 < n" using nn_val_pos_length [OF assms(4)] by simp
  then have t: "length t = n" "nn_val t = 1"
    by (simp_all add: t_def nn_val_ASSIGN_DIGIT) (simp add: NN_ASSIGN_DIGIT_def NN_AssignZero_def)
  have ex: "\<exists>r. mod_exp_digits [b0, b1, b2] d n c cD cD t = Some r \<and> length r = n \<and>
      (cD = 0 \<longrightarrow> nn_val r = 1) \<and> (cD \<noteq> 0 \<longrightarrow> nn_val r = ?B ^ nn_val (take cD c) mod ?D)"
  proof (cases "cD = 0")
    case True
    then show ?thesis using t by simp
  next
    case False
    then have "c ! (cD - 1) \<noteq> 0" unfolding cD_def by (rule NN_Digits_top)
    with mod_exp_digits_val [OF assms(2,4) tab, of cD c cD t] t cD assms(3) False
    show ?thesis by auto
  qed
  have z: "cD = 0 \<longleftrightarrow> nn_val (take cDigits c) = 0" using NN_Digits_0 [OF assms(3)] by (simp add: cD_def)
  from ex obtain r where r: "mod_exp_digits [b0, b1, b2] d n c cD cD t = Some r" "length r = n"
      "cD = 0 \<longrightarrow> nn_val r = 1" "cD \<noteq> 0 \<longrightarrow> nn_val r = ?B ^ nn_val (take cD c) mod ?D" by auto
  then have "NN_ModExp b c cDigits d n = Some r"
    by (simp add: NN_ModExp_def Let_def b0_def [symmetric] b1(1) b2(1) cD_def [symmetric] t_def [symmetric])
      (simp add: NN_Assign_def)
  then show ?thesis using r z c by auto
qed


section \<open>Modular inverse\<close>

lemma NN_Zero_val: "n \<le> length a \<Longrightarrow> NN_Zero a n \<longleftrightarrow> nn_val (take n a) = 0"
proof -
  have "(\<forall>d \<in> set ds. d = 0) \<longleftrightarrow> nn_val ds = 0" for ds
    by (induction ds) (auto simp: unat_eq_0)
  then show ?thesis by (simp add: NN_Zero_def)
qed

lemma NN_Add_val:
  assumes "n \<le> length b" "n \<le> length c" "nn_val (take n b) + nn_val (take n c) < 2 ^ (32 * n)"
  shows "nn_val (fst (NN_Add b c n)) = nn_val (take n b) + nn_val (take n c)" (is ?v)
    and "length (fst (NN_Add b c n)) = n" (is ?l)
proof -
  obtain a k where a: "NN_Add b c n = (a, k)" by fastforce
  then have v: "nn_val a + 2 ^ (32 * n) * unat k = nn_val (take n b) + nn_val (take n c)"
    and l: "length a = n"
    using nn_add_val [of "take n b" "take n c" 0 a k] assms by (auto simp: NN_Add_def)
  have "unat k = 0"
  proof (rule ccontr)
    assume "unat k \<noteq> 0"
    then have "2 ^ (32 * n) * 1 \<le> 2 ^ (32 * n) * unat k" by (intro mult_le_mono2) simp
    then show False using v assms(3) by linarith
  qed
  then show ?v ?l using v l a by simp_all
qed

lemma NN_Sub_val:
  assumes "n \<le> length b" "n \<le> length c" "nn_val (take n c) \<le> nn_val (take n b)"
  shows "nn_val (fst (NN_Sub b c n)) = nn_val (take n b) - nn_val (take n c)" (is ?v)
    and "length (fst (NN_Sub b c n)) = n" (is ?l)
proof -
  obtain a k where a: "NN_Sub b c n = (a, k)" by fastforce
  then have v: "nn_val (take n b) + 2 ^ (32 * n) * unat k = nn_val a + nn_val (take n c)"
    and l: "length a = n"
    using nn_sub_val [of "take n b" "take n c" 0 a k] assms by (auto simp: NN_Sub_def)
  have "unat k = 0"
  proof (rule ccontr)
    assume "unat k \<noteq> 0"
    then have "2 ^ (32 * n) * 1 \<le> 2 ^ (32 * n) * unat k" by (intro mult_le_mono2) simp
    then show False using v assms(3) nn_val_less [of a] unfolding l by linarith
  qed
  then show ?v ?l using v l a by simp_all
qed

lemma mod_inv_loop_val:
  fixes b :: nat and s :: int
  assumes "length u1 = n" "length u3 = n" "length v1 = n" "length v3 = n"
    and "nn_val u1 * nn_val v3 + nn_val v1 * nn_val u3 = c" "c < 2 ^ (32 * n)"
    and "nn_val u1 \<le> c" "nn_val v1 \<le> c"
    and "int c dvd int (nn_val u1) * int b - s * int (nn_val u3)"
    and "int c dvd int (nn_val v1) * int b + s * int (nn_val v3)"
    and "coprime (nn_val u3) (nn_val v3)" "s = 1 \<or> s = -1"
  shows "\<exists>r s'. mod_inv_loop n u1 u3 v1 v3 s = Some (r, s') \<and> length r = n \<and> nn_val r \<le> c \<and>
           (s' = 1 \<or> s' = -1) \<and> int c dvd int (nn_val r) * int b - s'"
  using assms
proof (induction "nn_val v3" arbitrary: u1 u3 v1 v3 s rule: less_induct)
  case less
  show ?case
  proof (cases "nn_val v3 = 0")
    case True
    then show ?thesis using less.prems
      by (subst mod_inv_loop.simps) (simp add: NN_Zero_val)
  next
    case False
    let ?q = "nn_val u3 div nn_val v3" and ?m = "nn_val u3 mod nn_val v3"
    obtain q t3 where qt: "NN_Div [] [] u3 n v3 n = Some (q, t3)" "length q = n" "length t3 = n"
      "nn_val q = ?q" "nn_val t3 = ?m"
      using NN_Div_val [of n u3 n v3 "[]" "[]"] less.prems(2,4) False by auto
    define w where "w = NN_Mult q v1 n"
    have w: "length w = 2 * n" "nn_val w = ?q * nn_val v1"
      using NN_Mult_val [of n q v1] qt less.prems by (simp_all add: w_def)
    have split: "nn_val v1 * ?m + (nn_val u1 + ?q * nn_val v1) * nn_val v3 = c"
    proof -
      have "nn_val v1 * (?q * nn_val v3 + ?m) + nn_val u1 * nn_val v3 = c"
        using less.prems(5) by (simp add: add.commute)
      then show ?thesis by (simp only: distrib_left distrib_right) (simp add: mult_ac add_ac)
    qed
    have le: "nn_val u1 + ?q * nn_val v1 \<le> c"
    proof -
      have "(nn_val u1 + ?q * nn_val v1) * 1 \<le> (nn_val u1 + ?q * nn_val v1) * nn_val v3"
        using False by (intro mult_le_mono2) simp
      also have "\<dots> \<le> c" using split by linarith
      finally show ?thesis by simp
    qed
    have tw: "nn_val (take n w) = ?q * nn_val v1"
      using nn_val_take [of n w] w le less.prems(6) by simp
    define t1 where "t1 = fst (NN_Add u1 w n)"
    have t1: "length t1 = n" "nn_val t1 = nn_val u1 + ?q * nn_val v1"
      using NN_Add_val [of n u1 w] w tw le less.prems by (simp_all add: t1_def)
    have step: "mod_inv_loop n u1 u3 v1 v3 s = mod_inv_loop n v1 v3 t1 t3 (- s)"
      using False less.prems qt t1
      by (subst mod_inv_loop.simps) (simp add: NN_Zero_val w_def [symmetric] t1_def [symmetric] Let_def NN_Assign_def)
    have d: "int c dvd int (nn_val t1) * int b + - s * int (nn_val t3)"
    proof -
      have "int (nn_val u3) = int ?q * int (nn_val v3) + int ?m"
        by (metis div_mult_mod_eq of_nat_add of_nat_mult)
      then have "int (nn_val t1) * int b + - s * int (nn_val t3)
          = (int (nn_val u1) * int b - s * int (nn_val u3)) + int ?q * (int (nn_val v1) * int b + s * int (nn_val v3))"
        by (simp add: t1 qt algebra_simps)
      then show ?thesis using less.prems(9,10) by simp
    qed
    have "?m < nn_val v3" using False by simp
    moreover have "coprime (nn_val v3) ?m" using less.prems(11)
      by (metis coprime_iff_gcd_eq_1 gcd_red_nat)
    ultimately show ?thesis unfolding step
      using less.hyps [of t3 v1 v3 t1 "- s"] less.prems qt t1 le split d by (simp add: mult.commute) blast
  qed
qed

lemma NN_ModInv_val:
  assumes "n \<le> length b" "n \<le> length c" "0 < nn_val (take n c)"
    "coprime (nn_val (take n b)) (nn_val (take n c))"
  shows "\<exists>r. NN_ModInv b c n = Some r \<and> length r = n \<and> nn_val r \<le> nn_val (take n c) \<and>
           (nn_val r * nn_val (take n b)) mod nn_val (take n c) = 1 mod nn_val (take n c)"
proof -
  let ?b = "nn_val (take n b)" and ?c = "nn_val (take n c)"
  define u1 where "u1 = NN_ASSIGN_DIGIT 1 n"
  have "0 < n" using nn_val_pos_length [OF assms(3)] by simp
  then have u1: "length u1 = n" "nn_val u1 = 1"
    by (simp_all add: u1_def nn_val_ASSIGN_DIGIT) (simp add: NN_ASSIGN_DIGIT_def NN_AssignZero_def)
  have "?c < 2 ^ (32 * n)" using nn_val_less [of "take n c"] assms(2) by simp
  then have "\<exists>r s. mod_inv_loop n u1 (take n b) (replicate n 0) (take n c) 1 = Some (r, s) \<and>
      length r = n \<and> nn_val r \<le> ?c \<and> (s = 1 \<or> s = -1) \<and> int ?c dvd int (nn_val r) * int ?b - s"
    by (intro mod_inv_loop_val) (use assms u1 in simp_all)
  then obtain r s where r: "mod_inv_loop n u1 (take n b) (replicate n 0) (take n c) 1 = Some (r, s)"
    "length r = n" "nn_val r \<le> ?c" "s = 1 \<or> s = -1" "int ?c dvd int (nn_val r) * int ?b - s"
    by blast
  have mod1: "(x * ?b) mod ?c = 1 mod ?c" if "int ?c dvd int x * int ?b - 1" for x
  proof -
    have "int (x * ?b) mod int ?c = int 1 mod int ?c" using that by (simp add: mod_eq_dvd_iff)
    then show ?thesis by (simp only: of_nat_mod [symmetric] of_nat_eq_iff)
  qed
  show ?thesis
  proof (cases "s = 1")
    case True
    then show ?thesis using r mod1 [of "nn_val r"]
      by (simp add: NN_ModInv_def u1_def [symmetric] NN_Assign_def NN_AssignZero_def)
  next
    case False
    then have s: "s = -1" using r(4) by simp
    define a where "a = fst (NN_Sub c r n)"
    have a: "length a = n" "nn_val a = ?c - nn_val r"
      using NN_Sub_val [of n c r] assms(2) r by (simp_all add: a_def)
    have "int (nn_val a) * int ?b - 1 = int ?c * int ?b - (int (nn_val r) * int ?b - s)"
      using r(3) by (simp add: a s of_nat_diff algebra_simps)
    also have "int ?c dvd \<dots>" by (rule dvd_diff [OF dvd_triv_left r(5)])
    finally have "(nn_val a * ?b) mod ?c = 1 mod ?c" by (rule mod1)
    with a s r(1) show ?thesis
      by (simp add: NN_ModInv_def u1_def [symmetric] NN_Assign_def NN_AssignZero_def a_def [symmetric])
  qed
qed

section \<open>Greatest common divisor\<close>

lemma gcd_loop_val:
  assumes "length t = 3" "\<forall>a \<in> set t. length a = n" "i < 3"
  shows "\<exists>r. gcd_loop n t i = Some r \<and> length r = n \<and>
           nn_val r = gcd (nn_val (t ! iminus1 i)) (nn_val (t ! i))"
  using assms
proof (induction "nn_val (t ! i)" arbitrary: t i rule: less_induct)
  case less
  have i: "iminus1 i < 3" "iplus1 i < 3" "iminus1 (iplus1 i) = i" "iplus1 i \<noteq> i"
    using less.prems(3) by (auto simp: iminus1_def iplus1_def)
  have l: "length (t ! k) = n" if "k < 3" for k using less.prems(1,2) that by simp
  show ?case
  proof (cases "nn_val (t ! i) = 0")
    case True
    then show ?thesis using l less.prems i
      by (subst gcd_loop.simps) (simp add: NN_Zero_val NN_Assign_def)
  next
    case False
    obtain r where r: "NN_Mod (t ! iplus1 i) (t ! iminus1 i) n (t ! i) n = Some r" "length r = n"
      "nn_val r = nn_val (t ! iminus1 i) mod nn_val (t ! i)"
      using NN_Mod_val [of n "t ! iminus1 i" n "t ! i" "t ! iplus1 i"] l i less.prems False by auto
    let ?t = "t[iplus1 i := r]"
    have "nn_val (?t ! iplus1 i) < nn_val (t ! i)" using r False i less.prems by simp
    moreover have "\<forall>a \<in> set ?t. length a = n"
      using set_update_subset_insert [of t "iplus1 i" r] r(2) less.prems(2) by blast
    moreover have "gcd (nn_val (t ! i)) (nn_val r) = gcd (nn_val (t ! iminus1 i)) (nn_val (t ! i))"
      unfolding r(3) by (rule gcd_red_nat [symmetric])
    moreover have "\<not> NN_Zero (t ! i) n"
      using False l [OF less.prems(3)] by (simp add: NN_Zero_val)
    then have "gcd_loop n t i = gcd_loop n ?t (iplus1 i)"
      using r(1) by (subst gcd_loop.simps) simp
    moreover have "?t ! iplus1 i = r" "?t ! i = t ! i" "length ?t = 3"
      using i less.prems(1) by simp_all
    ultimately show ?thesis
      using less.hyps [of ?t "iplus1 i"] i(2) by (simp only: i(3))
  qed
qed

lemma NN_Gcd_val:
  assumes "n \<le> length b" "n \<le> length c"
  shows "\<exists>r. NN_Gcd b c n = Some r \<and> length r = n \<and>
           nn_val r = gcd (nn_val (take n b)) (nn_val (take n c))"
proof -
  define t where "t = [take n c, take n b, replicate n (0 :: u32)]"
  have "length t = 3" "\<forall>a \<in> set t. length a = n" using assms by (simp_all add: t_def)
  then have "\<exists>r. gcd_loop n t 1 = Some r \<and> length r = n \<and>
      nn_val r = gcd (nn_val (t ! iminus1 1)) (nn_val (t ! 1))"
    by (rule gcd_loop_val) simp
  moreover have "t ! iminus1 1 = take n c" "t ! 1 = take n b" by (simp_all add: t_def iminus1_def)
  moreover have "NN_Gcd b c n = gcd_loop n t 1"
    by (simp add: NN_Gcd_def NN_Assign_def NN_AssignZero_def t_def)
  ultimately show ?thesis by (simp only: gcd.commute)
qed

end
