(* ===== verification/NN_Props.thy ===== *)
theory NN_Props
  imports NN_Mod
begin

text \<open>
  The properties of the multi-precision arithmetic of \<^verbatim>\<open>nn.c\<close>.  Each one is about
  arrays with at least the number of digits the call names, and states that the loops of
  the code end.
\<close>

text \<open>C4. \<^verbatim>\<open>NN_Div\<close> divides: for a divisor that is not zero its loops end, the quotient
  array has the value \<open>c div d\<close> and the remainder array the value \<open>c mod d\<close>.\<close>

theorem NN_Div_divides:
  assumes "cDigits \<le> length c" "dDigits \<le> length d" "0 < nn_val (take dDigits d)"
  shows "\<exists>a' b'. NN_Div a b c cDigits d dDigits = Some (a', b') \<and>
           length a' = cDigits \<and> length b' = dDigits \<and>
           nn_val a' = nn_val (take cDigits c) div nn_val (take dDigits d) \<and>
           nn_val b' = nn_val (take cDigits c) mod nn_val (take dDigits d)"
  by (rule NN_Div_val [OF assms])

theorem NN_Div_divides_witness:
  "\<exists>a' b'. NN_Div [] [] [5, 7, 9] 3 [3, 2] 2 = Some (a', b') \<and>
     nn_val a' = nn_val [5, 7, 9] div nn_val [3, 2] \<and> nn_val b' = nn_val [5, 7, 9] mod nn_val [3, 2]"
  using NN_Div_divides [of 3 "[5, 7, 9]" 2 "[3, 2]" "[]" "[]"] by auto

text \<open>C9. \<^verbatim>\<open>NN_ModExp\<close> computes \<open>b^c mod d\<close> for every exponent that is not zero, by its
  two-bit windows; for exponent zero it returns 1 (also when \<open>d = 1\<close>).\<close>

theorem NN_ModExp_power:
  assumes "n \<le> length b" "n \<le> length d" "cDigits \<le> length c" "0 < nn_val (take n d)"
  shows "\<exists>r. NN_ModExp b c cDigits d n = Some r \<and> length r = n \<and>
           nn_val r = (if nn_val (take cDigits c) = 0 then 1
                       else nn_val (take n b) ^ nn_val (take cDigits c) mod nn_val (take n d))"
  using NN_ModExp_val [OF assms] by auto

theorem NN_ModExp_power_witness:
  "\<exists>r. NN_ModExp [7] [11] 1 [13] 1 = Some r \<and> nn_val r = 7 ^ 11 mod 13"
  using NN_ModExp_power [of 1 "[7]" "[13]" 1 "[11]"] by auto

text \<open>C22. \<^verbatim>\<open>NN_ModInv\<close>, the extended Euclidean algorithm that keeps all its numbers
  non-negative, ends and returns the inverse of \<open>b\<close> modulo \<open>c\<close> when the two are
  coprime; no intermediate sum overflows the \<open>n\<close> digits.\<close>

theorem NN_ModInv_inverse:
  assumes "n \<le> length b" "n \<le> length c" "0 < nn_val (take n c)"
    "coprime (nn_val (take n b)) (nn_val (take n c))"
  shows "\<exists>r. NN_ModInv b c n = Some r \<and> length r = n \<and> nn_val r \<le> nn_val (take n c) \<and>
           (nn_val r * nn_val (take n b)) mod nn_val (take n c) = 1 mod nn_val (take n c)"
  by (rule NN_ModInv_val [OF assms])

theorem NN_ModInv_inverse_witness:
  "\<exists>r. NN_ModInv [7] [40] 1 = Some r \<and> (nn_val r * 7) mod 40 = 1"
proof -
  have "coprime (7 :: nat) 40" by code_simp
  with NN_ModInv_inverse [of 1 "[7]" "[40]"] show ?thesis by auto
qed

text \<open>\<^verbatim>\<open>NN_Gcd\<close> ends and returns the greatest common divisor.\<close>

theorem NN_Gcd_gcd:
  assumes "n \<le> length b" "n \<le> length c"
  shows "\<exists>r. NN_Gcd b c n = Some r \<and> length r = n \<and>
           nn_val r = gcd (nn_val (take n b)) (nn_val (take n c))"
  by (rule NN_Gcd_val [OF assms])

theorem NN_Gcd_gcd_witness:
  "\<exists>r. NN_Gcd [84] [36] 1 = Some r \<and> nn_val r = gcd 84 36"
  using NN_Gcd_gcd [of 1 "[84]" "[36]"] by auto

text \<open>\<^verbatim>\<open>NN_Mult\<close> stores the exact product of two \<open>n\<close>-digit numbers in \<open>2n\<close> digits.\<close>

theorem NN_Mult_product:
  assumes "digits \<le> length b" "digits \<le> length c"
  shows "length (NN_Mult b c digits) = 2 * digits \<and>
         nn_val (NN_Mult b c digits) = nn_val (take digits b) * nn_val (take digits c)"
  using NN_Mult_val [OF assms] by simp

theorem NN_Mult_product_witness:
  "nn_val (NN_Mult [0xffffffff, 3] [0xfffffffe, 9] 2) = nn_val [0xffffffff, 3] * nn_val [0xfffffffe, 9]"
  using NN_Mult_product [of 2 "[0xffffffff, 3]" "[0xfffffffe, 9]"] by simp

text \<open>\<^verbatim>\<open>NN_Encode\<close> after \<^verbatim>\<open>NN_Decode\<close> gives back the byte string, whatever digit
  count holds it: the conversions are inverse, most significant byte first.\<close>

theorem NN_Encode_Decode:
  assumes "length b \<le> 4 * digits"
  shows "NN_Encode (length b) (NN_Decode digits b) digits = b"
proof -
  have "(256 :: nat) ^ length b \<le> 256 ^ (4 * digits)" using assms by (intro power_increasing) auto
  also have "\<dots> = 2 ^ (32 * digits)" by (simp add: power_mult)
  finally have "be_val b < 2 ^ (32 * digits)" using be_val_less [of b] by linarith
  then have "be_val (NN_Encode (length b) (NN_Decode digits b) digits) = be_val b"
    using be_val_less [of b] by (simp add: NN_Encode_val NN_Decode_val)
  then show ?thesis
    unfolding be_val_def by (metis le_val_inj length_NN_Encode length_rev rev_rev_ident)
qed

theorem NN_Encode_Decode_witness:
  "NN_Encode (length [1, 2, 3, 4, 5 :: u8]) (NN_Decode 2 [1, 2, 3, 4, 5]) 2 = [1, 2, 3, 4, 5]"
  by (rule NN_Encode_Decode) simp

end
