(* ===== verification/Digest_Stream.thy ===== *)
theory Digest_Stream
  imports Prelude
begin

text \<open>
  What the message digests of \<^verbatim>\<open>HBase/RSAEuro\<close> (\<^verbatim>\<open>md2c.c\<close>, \<^verbatim>\<open>md4c.c\<close>, \<^verbatim>\<open>md5c.c\<close>,
  \<^verbatim>\<open>shsc.c\<close>) share: the loop that transforms whole blocks, the 64-bit bit count in two
  32-bit words, the little-endian \<^verbatim>\<open>Encode\<close>/\<^verbatim>\<open>Decode\<close>, and the interface
  \<open>stream_digest\<close>: a context that is fed piece by piece and depends on the pieces
  only through their concatenation.
\<close>

section \<open>The block loop\<close>

text \<open>\<^verbatim>\<open>for (i = ...; i + blk - 1 < inputLen; i += blk) Transform(state, &input[i])\<close>:
  the resulting state and the rest \<open>&input[i]\<close>.\<close>

function absorb :: "nat \<Rightarrow> ('s \<Rightarrow> bytes \<Rightarrow> 's) \<Rightarrow> 's \<Rightarrow> bytes \<Rightarrow> 's \<times> bytes" where
  "absorb blk f s xs =
     (if 0 < blk \<and> blk \<le> length xs then absorb blk f (f s (take blk xs)) (drop blk xs)
      else (s, xs))"
  by pat_completeness auto
termination by (relation "measure (\<lambda>(blk, f, s, xs). length xs)") auto

declare absorb.simps [simp del]

lemma absorb_short: "length xs < blk \<Longrightarrow> absorb blk f s xs = (s, xs)"
  by (simp add: absorb.simps)

lemma absorb_block:
  "0 < blk \<Longrightarrow> length xs = blk \<Longrightarrow> absorb blk f s (xs @ ys) = absorb blk f (f s xs) ys"
  by (subst absorb.simps) simp

lemma absorb_append:
  "0 < blk \<Longrightarrow> absorb blk f s (xs @ ys) =
     absorb blk f (fst (absorb blk f s xs)) (snd (absorb blk f s xs) @ ys)"
proof (induction blk f s xs rule: absorb.induct)
  case (1 blk f s xs)
  show ?case
  proof (cases "blk \<le> length xs")
    case True
    then have "absorb blk f s (xs @ ys) = absorb blk f (f s (take blk xs)) (drop blk xs @ ys)"
      using "1.prems" by (subst absorb.simps) simp
    also have "\<dots> = absorb blk f (fst (absorb blk f s xs)) (snd (absorb blk f s xs) @ ys)"
      using "1.IH" "1.prems" True by (subst (2 3) absorb.simps) simp
    finally show ?thesis .
  next
    case False
    then show ?thesis by (simp add: absorb_short)
  qed
qed

lemma absorb_rest: "0 < blk \<Longrightarrow> length (snd (absorb blk f s xs)) = length xs mod blk"
proof (induction blk f s xs rule: absorb.induct)
  case (1 blk f s xs)
  show ?case
  proof (cases "blk \<le> length xs")
    case True
    then show ?thesis using 1 by (subst absorb.simps) (simp add: le_mod_geq)
  next
    case False
    then show ?thesis by (simp add: absorb_short)
  qed
qed

section \<open>The interface of the digests\<close>

text \<open>
  \<open>obs\<close> is what a context stands for: the chaining state and the input it still
  buffers; \<open>total\<close> is its count of input, \<open>bump\<close> the way the count grows.
\<close>

locale stream_digest =
  fixes upd :: "'c \<Rightarrow> bytes \<Rightarrow> 'c"
    and obs :: "'c \<Rightarrow> 's \<times> bytes"
    and total :: "'c \<Rightarrow> 't"
    and bump :: "'t \<Rightarrow> nat \<Rightarrow> 't"
    and inv :: "'c \<Rightarrow> bool"
    and fits :: "bytes \<Rightarrow> bool"
    and blk :: nat
    and f :: "'s \<Rightarrow> bytes \<Rightarrow> 's"
    and final :: "'c \<Rightarrow> bytes"
    and fin :: "'s \<times> bytes \<Rightarrow> 't \<Rightarrow> bytes"
  assumes blk_pos: "0 < blk"
    and upd_inv: "inv c \<Longrightarrow> fits xs \<Longrightarrow> inv (upd c xs)"
    and upd_obs: "inv c \<Longrightarrow> fits xs \<Longrightarrow>
          obs (upd c xs) = absorb blk f (fst (obs c)) (snd (obs c) @ xs)"
    and upd_total: "inv c \<Longrightarrow> fits xs \<Longrightarrow> total (upd c xs) = bump (total c) (length xs)"
    and bump_add: "bump (bump t m) n = bump t (m + n)"
    and final_obs: "inv c \<Longrightarrow> final c = fin (obs c) (total c)"
    and pending: "inv c \<Longrightarrow> length (snd (obs c)) < blk"
begin

lemma fold_obs:
  assumes "inv c" "\<forall>xs \<in> set xss. fits xs"
  shows "inv (fold (\<lambda>xs c. upd c xs) xss c) \<and>
    obs (fold (\<lambda>xs c. upd c xs) xss c) = absorb blk f (fst (obs c)) (snd (obs c) @ concat xss) \<and>
    (xss \<noteq> [] \<longrightarrow> total (fold (\<lambda>xs c. upd c xs) xss c) = bump (total c) (length (concat xss)))"
  using assms
proof (induction xss arbitrary: c)
  case Nil
  then show ?case by (simp add: absorb_short pending)
next
  case (Cons xs xss)
  have step: "inv (upd c xs)" "obs (upd c xs) = absorb blk f (fst (obs c)) (snd (obs c) @ xs)"
    "total (upd c xs) = bump (total c) (length xs)"
    using Cons.prems upd_inv upd_obs upd_total by simp_all
  have "absorb blk f (fst (obs c)) (snd (obs c) @ concat (xs # xss)) =
      absorb blk f (fst (obs (upd c xs))) (snd (obs (upd c xs)) @ concat xss)"
    using absorb_append [OF blk_pos, of f "fst (obs c)" "snd (obs c) @ xs" "concat xss"] step(2) by simp
  then show ?case
    using Cons.IH [OF step(1)] Cons.prems(2) step(3) by (cases xss) (auto simp: bump_add)
qed

text \<open>A digest depends on the pieces only through what they concatenate to.\<close>

lemma digest_concat:
  assumes "inv c" "\<forall>xs \<in> set xss. fits xs" "xss \<noteq> []"
  shows "final (fold (\<lambda>xs c. upd c xs) xss c) =
           fin (absorb blk f (fst (obs c)) (snd (obs c) @ concat xss)) (bump (total c) (length (concat xss)))"
  using fold_obs [OF assms(1,2)] assms(3) by (simp add: final_obs)

lemma digest_chunks:
  assumes "inv c" "\<forall>xs \<in> set xss. fits xs" "\<forall>xs \<in> set yss. fits xs" "xss \<noteq> []" "yss \<noteq> []"
    "concat xss = concat yss"
  shows "final (fold (\<lambda>xs c. upd c xs) xss c) = final (fold (\<lambda>xs c. upd c xs) yss c)"
  using digest_concat [OF assms(1,2,4)] digest_concat [OF assms(1,3,5)] assms(6) by simp

end

section \<open>The bit count\<close>

text \<open>\<^verbatim>\<open>if ((count[0] += inputLen << 3) < (inputLen << 3)) count[1]++; count[1] += inputLen >> 29\<close>\<close>

definition add_bits :: "u32 \<Rightarrow> u32 \<Rightarrow> nat \<Rightarrow> u32 \<times> u32" where
  "add_bits count0 count1 inputLen =
     (let n = (of_nat inputLen :: u32);
          lo = count0 + push_bit 3 n;
          hi = (if lo < push_bit 3 n then count1 + 1 else count1)
      in (lo, hi + drop_bit 29 n))"

definition bits64 :: "u32 \<times> u32 \<Rightarrow> nat" where
  "bits64 c = unat (fst c) + 2 ^ 32 * unat (snd c)"

lemma digit_mod: "a < m \<Longrightarrow> (a + m * x) mod (m * k) = a + m * (x mod (k :: nat))"
  by (subst mod_mult2_eq) simp

lemma add_bits_val:
  assumes "n < 2 ^ 32"
  shows "bits64 (add_bits lo hi n) = (bits64 (lo, hi) + 8 * n) mod 2 ^ 64"
proof -
  define w P Q where "w = (of_nat n :: u32)" and "P = unat (push_bit 3 w)" and "Q = unat (drop_bit 29 w)"
  have w: "unat w = n" using assms by (simp add: w_def unat_of_nat)
  have "P = (n mod 2 ^ 29) * 8" "Q = n div 2 ^ 29"
    by (simp_all only: P_def Q_def u32_push u32_drop w) simp_all
  moreover have "8 * (n div 2 ^ 29 * 2 ^ 29 + n mod 2 ^ 29) = n mod 2 ^ 29 * 8 + 2 ^ 32 * (n div 2 ^ 29)"
    by (simp only: distrib_left) simp
  ultimately have n: "8 * n = P + 2 ^ 32 * Q" by (simp only: div_mult_mod_eq)
  let ?lo = "lo + push_bit 3 w"
  define c :: u32 where "c = (if ?lo < push_bit 3 w then 1 else 0)"
  have lo: "unat ?lo + 2 ^ 32 * unat c = unat lo + P"
    using unat_u32_less [of lo] unat_u32_less [of "push_bit 3 w"]
    by (auto simp: c_def P_def word_less_nat_alt u32_add)
  have "hi + c + drop_bit 29 w = of_nat (unat hi + unat c + Q)" by (simp add: Q_def)
  then have hi: "unat (hi + c + drop_bit 29 w) = (unat hi + unat c + Q) mod 2 ^ 32"
    by (simp only: unat_of_nat) (simp add: take_bit_eq_mod)
  have "bits64 (lo, hi) + 8 * n = unat ?lo + 2 ^ 32 * (unat hi + unat c + Q)"
    using lo unfolding n by (simp add: bits64_def)
  also have "\<dots> mod (2 ^ 32 * 2 ^ 32) = unat ?lo + 2 ^ 32 * ((unat hi + unat c + Q) mod 2 ^ 32)"
    by (rule digit_mod) (use unat_u32_less [of ?lo] in simp)
  finally have "(bits64 (lo, hi) + 8 * n) mod 2 ^ 64 = unat ?lo + 2 ^ 32 * ((unat hi + unat c + Q) mod 2 ^ 32)"
    by simp
  moreover have "bits64 (add_bits lo hi n) = unat ?lo + 2 ^ 32 * unat (hi + c + drop_bit 29 w)"
    by (simp add: bits64_def add_bits_def Let_def w_def [symmetric] c_def)
  ultimately show ?thesis unfolding hi by simp
qed

definition count_index :: "u32 \<Rightarrow> nat" where
  "count_index count0 = unat (drop_bit 3 count0 AND 0x3F)"

lemma count_index_val: "count_index lo = (unat lo div 8) mod 64"
proof -
  have "(0x3F :: u32) = mask 6" by (simp add: mask_eq_exp_minus_1)
  then have "drop_bit 3 lo AND 0x3F = take_bit 6 (drop_bit 3 lo)" by (simp add: take_bit_eq_mask)
  then show ?thesis
    unfolding count_index_def by (simp only: unsigned_take_bit_eq u32_drop) (simp add: take_bit_eq_mod)
qed

lemma count_index_less: "count_index w < 64"
  by (simp add: count_index_val)

lemma count_index_bits: "count_index lo = (bits64 (lo, hi) div 8) mod 64"
proof -
  have "(unat lo + 2 ^ 32 * unat hi) div 8 = unat lo div 8 + 64 * (2 ^ 23 * unat hi)"
    by simp
  then show ?thesis by (simp add: count_index_val bits64_def del: power_numeral)
qed

lemma index_step: "((n + 8 * m) mod 2 ^ 64) div 8 mod 64 = (n div 8 + m) mod (64 :: nat)"
proof -
  have "x mod 2 ^ 64 div 8 mod 64 = x div 8 mod 64" for x :: nat
  proof -
    have "x mod 2 ^ 64 div 8 = x div 8 mod 2 ^ 61" using div_exp_mod_exp_eq [of x 3 61] by simp
    moreover have "(64 :: nat) dvd 2 ^ 61" by simp
    ultimately show ?thesis by (simp only: mod_mod_cancel)
  qed
  from this [of "n + 8 * m"] show ?thesis by (simp add: add.commute)
qed

lemma le_bytes_bits64: "le_bytes 8 (of_nat (bits64 (lo, hi)) :: u64) = le_bytes 4 lo @ le_bytes 4 hi"
proof -
  define B where "B = bits64 (lo, hi)"
  have "B < 2 ^ 64" using unat_u32_less [of lo] unat_u32_less [of hi] by (simp add: B_def bits64_def)
  then have B: "unat (of_nat B :: u64) = B" by (simp add: unat_of_nat take_bit_eq_mod)
  have "le_val (le_bytes 8 (of_nat B :: u64)) = le_val (le_bytes 4 lo @ le_bytes 4 hi)"
    using unat_u32_less [of lo] unat_u32_less [of hi] \<open>B < 2 ^ 64\<close>
    by (simp add: le_val_append le_val_le_bytes B del: le_bytes.simps) (simp add: B_def bits64_def)
  then show ?thesis unfolding B_def by (intro le_val_inj) (simp_all del: le_bytes.simps)
qed

lemma be_bytes_bits64: "be_bytes 8 (of_nat (bits64 (lo, hi)) :: u64) = be_bytes 4 hi @ be_bytes 4 lo"
  by (simp add: be_bytes_def le_bytes_bits64 del: le_bytes.simps)

lemma of_nat_mod_64: "(of_nat (n mod 2 ^ 64) :: u64) = of_nat n"
  by (rule word_unat_eq_iff [THEN iffD2]) (simp add: unat_of_nat take_bit_eq_mod)

text \<open>The digests of a fresh context as digests of the padded message.\<close>

lemma digest_pad:
  "absorb 64 T (fst (absorb 64 T iv m)) (snd (absorb 64 T iv m) @
     0x80 # replicate ((119 - length (snd (absorb 64 T iv m))) mod 64) 0 @ t) =
   absorb 64 T iv (m @ 0x80 # replicate ((119 - length m mod 64) mod 64) 0 @ t)"
  using absorb_append [of 64 T iv m "0x80 # replicate ((119 - length m mod 64) mod 64) 0 @ t"]
  by (simp add: absorb_rest)

end
