(* ===== verification/MD45.thy ===== *)
theory MD45
  imports Digest_Stream
begin

text \<open>
  \<^verbatim>\<open>HBase/RSAEuro/md5c.c\<close> and \<^verbatim>\<open>md4c.c\<close>.  The two files differ in their
  transformation only; the context, \<^verbatim>\<open>Update\<close> and \<^verbatim>\<open>Final\<close> are the same text, so they are
  \<open>md_update\<close> and \<open>md_final\<close> with the transformation as an argument.
\<close>

record md_ctx =
  state :: "u32 list"
  count0 :: u32
  count1 :: u32
  buffer :: bytes

type_synonym MD5_CTX = md_ctx
type_synonym MD4_CTX = md_ctx

definition md_zero :: md_ctx where
  "md_zero = \<lparr>state = replicate 4 0, count0 = 0, count1 = 0, buffer = replicate 64 0\<rparr>"

definition md_Encode :: "u32 list \<Rightarrow> nat \<Rightarrow> bytes" where
  "md_Encode input len = concat (map (le_bytes 4) (take (len div 4) input))"

fun md_Decode :: "bytes \<Rightarrow> nat \<Rightarrow> u32 list" where
  "md_Decode input 0 = []"
| "md_Decode input (Suc n) = le_word (take 4 input) # md_Decode (drop 4 input) n"

definition PADDING :: bytes where
  "PADDING = 0x80 # replicate 63 0"

definition ROTATE_LEFT :: "u32 \<Rightarrow> nat \<Rightarrow> u32" where
  "ROTATE_LEFT x n = push_bit n x OR drop_bit (32 - n) x"

text \<open>
  One step of a round.  The source names the registers of step \<open>i\<close> so that they move
  by one place; here the tuple itself is rotated, which is the same after every four
  steps.  \<open>ac\<close> is the additive constant, \<open>post\<close> the addition after the rotation.
\<close>

type_synonym md_regs = "u32 \<times> u32 \<times> u32 \<times> u32"

definition md_step ::
  "(u32 \<Rightarrow> u32 \<Rightarrow> u32 \<Rightarrow> u32) \<Rightarrow> bool \<Rightarrow> u32 list \<Rightarrow> nat \<times> nat \<times> u32 \<Rightarrow> md_regs \<Rightarrow> md_regs" where
  "md_step F post x p r =
     (case p of (k, s, ac) \<Rightarrow> case r of (a, b, c, d) \<Rightarrow>
        let a = a + (F b c d + x ! k + ac); a = ROTATE_LEFT a s; a = (if post then a + b else a)
        in (d, a, b, c))"

definition md_round ::
  "(u32 \<Rightarrow> u32 \<Rightarrow> u32 \<Rightarrow> u32) \<Rightarrow> bool \<Rightarrow> u32 list \<Rightarrow> (nat \<times> nat \<times> u32) list \<Rightarrow> md_regs \<Rightarrow> md_regs" where
  "md_round F post x ps r = fold (md_step F post x) ps r"

definition md_add :: "u32 list \<Rightarrow> md_regs \<Rightarrow> u32 list" where
  "md_add st r = (case r of (a, b, c, d) \<Rightarrow> [st ! 0 + a, st ! 1 + b, st ! 2 + c, st ! 3 + d])"

section \<open>MD5\<close>

definition MD5_F :: "u32 \<Rightarrow> u32 \<Rightarrow> u32 \<Rightarrow> u32" where
  "MD5_F x y z = (x AND y) OR (NOT x AND z)"

definition MD5_G :: "u32 \<Rightarrow> u32 \<Rightarrow> u32 \<Rightarrow> u32" where
  "MD5_G x y z = (x AND z) OR (y AND NOT z)"

definition MD5_H :: "u32 \<Rightarrow> u32 \<Rightarrow> u32 \<Rightarrow> u32" where
  "MD5_H x y z = x XOR y XOR z"

definition MD5_I :: "u32 \<Rightarrow> u32 \<Rightarrow> u32 \<Rightarrow> u32" where
  "MD5_I x y z = y XOR (x OR NOT z)"

text \<open>The steps of the four rounds: index into \<open>x\<close>, rotation, additive constant.\<close>

definition MD5_FF :: "(nat \<times> nat \<times> u32) list" where
  "MD5_FF =
   [
    (0, 7, 0xd76aa478), (1, 12, 0xe8c7b756), (2, 17, 0x242070db), (3, 22, 0xc1bdceee),
    (4, 7, 0xf57c0faf), (5, 12, 0x4787c62a), (6, 17, 0xa8304613), (7, 22, 0xfd469501),
    (8, 7, 0x698098d8), (9, 12, 0x8b44f7af), (10, 17, 0xffff5bb1), (11, 22, 0x895cd7be),
    (12, 7, 0x6b901122), (13, 12, 0xfd987193), (14, 17, 0xa679438e), (15, 22, 0x49b40821)]"

definition MD5_GG :: "(nat \<times> nat \<times> u32) list" where
  "MD5_GG =
   [
    (1, 5, 0xf61e2562), (6, 9, 0xc040b340), (11, 14, 0x265e5a51), (0, 20, 0xe9b6c7aa),
    (5, 5, 0xd62f105d), (10, 9, 0x2441453), (15, 14, 0xd8a1e681), (4, 20, 0xe7d3fbc8),
    (9, 5, 0x21e1cde6), (14, 9, 0xc33707d6), (3, 14, 0xf4d50d87), (8, 20, 0x455a14ed),
    (13, 5, 0xa9e3e905), (2, 9, 0xfcefa3f8), (7, 14, 0x676f02d9), (12, 20, 0x8d2a4c8a)]"

definition MD5_HH :: "(nat \<times> nat \<times> u32) list" where
  "MD5_HH =
   [
    (5, 4, 0xfffa3942), (8, 11, 0x8771f681), (11, 16, 0x6d9d6122), (14, 23, 0xfde5380c),
    (1, 4, 0xa4beea44), (4, 11, 0x4bdecfa9), (7, 16, 0xf6bb4b60), (10, 23, 0xbebfbc70),
    (13, 4, 0x289b7ec6), (0, 11, 0xeaa127fa), (3, 16, 0xd4ef3085), (6, 23, 0x4881d05),
    (9, 4, 0xd9d4d039), (12, 11, 0xe6db99e5), (15, 16, 0x1fa27cf8), (2, 23, 0xc4ac5665)]"

definition MD5_II :: "(nat \<times> nat \<times> u32) list" where
  "MD5_II =
   [
    (0, 6, 0xf4292244), (7, 10, 0x432aff97), (14, 15, 0xab9423a7), (5, 21, 0xfc93a039),
    (12, 6, 0x655b59c3), (3, 10, 0x8f0ccc92), (10, 15, 0xffeff47d), (1, 21, 0x85845dd1),
    (8, 6, 0x6fa87e4f), (15, 10, 0xfe2ce6e0), (6, 15, 0xa3014314), (13, 21, 0x4e0811a1),
    (4, 6, 0xf7537e82), (11, 10, 0xbd3af235), (2, 15, 0x2ad7d2bb), (9, 21, 0xeb86d391)]"

definition MD5Transform :: "u32 list \<Rightarrow> bytes \<Rightarrow> u32 list" where
  "MD5Transform st block =
     (let x = md_Decode block 16;
          r = (st ! 0, st ! 1, st ! 2, st ! 3);
          r = md_round MD5_F True x MD5_FF r;
          r = md_round MD5_G True x MD5_GG r;
          r = md_round MD5_H True x MD5_HH r;
          r = md_round MD5_I True x MD5_II r
      in md_add st r)"

definition MD5Init :: "MD5_CTX \<Rightarrow> MD5_CTX" where
  "MD5Init context = context
     \<lparr>state := [0x67452301, 0xefcdab89, 0x98badcfe, 0x10325476], count0 := 0, count1 := 0\<rparr>"

section \<open>MD4\<close>

definition MD4_F :: "u32 \<Rightarrow> u32 \<Rightarrow> u32 \<Rightarrow> u32" where
  "MD4_F x y z = (x AND y) OR (NOT x AND z)"

definition MD4_G :: "u32 \<Rightarrow> u32 \<Rightarrow> u32 \<Rightarrow> u32" where
  "MD4_G x y z = (x AND y) OR (x AND z) OR (y AND z)"

definition MD4_H :: "u32 \<Rightarrow> u32 \<Rightarrow> u32 \<Rightarrow> u32" where
  "MD4_H x y z = x XOR y XOR z"

definition MD4_FF :: "(nat \<times> nat \<times> u32) list" where
  "MD4_FF =
   [
    (0, 3, 0), (1, 7, 0), (2, 11, 0), (3, 19, 0), (4, 3, 0), (5, 7, 0), (6, 11, 0), (7, 19, 0),
    (8, 3, 0), (9, 7, 0), (10, 11, 0), (11, 19, 0), (12, 3, 0), (13, 7, 0), (14, 11, 0),
    (15, 19, 0)]"

definition MD4_GG :: "(nat \<times> nat \<times> u32) list" where
  "MD4_GG =
   [
    (0, 3, 0x5a827999), (4, 5, 0x5a827999), (8, 9, 0x5a827999), (12, 13, 0x5a827999),
    (1, 3, 0x5a827999), (5, 5, 0x5a827999), (9, 9, 0x5a827999), (13, 13, 0x5a827999),
    (2, 3, 0x5a827999), (6, 5, 0x5a827999), (10, 9, 0x5a827999), (14, 13, 0x5a827999),
    (3, 3, 0x5a827999), (7, 5, 0x5a827999), (11, 9, 0x5a827999), (15, 13, 0x5a827999)]"

definition MD4_HH :: "(nat \<times> nat \<times> u32) list" where
  "MD4_HH =
   [
    (0, 3, 0x6ed9eba1), (8, 9, 0x6ed9eba1), (4, 11, 0x6ed9eba1), (12, 15, 0x6ed9eba1),
    (2, 3, 0x6ed9eba1), (10, 9, 0x6ed9eba1), (6, 11, 0x6ed9eba1), (14, 15, 0x6ed9eba1),
    (1, 3, 0x6ed9eba1), (9, 9, 0x6ed9eba1), (5, 11, 0x6ed9eba1), (13, 15, 0x6ed9eba1),
    (3, 3, 0x6ed9eba1), (11, 9, 0x6ed9eba1), (7, 11, 0x6ed9eba1), (15, 15, 0x6ed9eba1)]"

definition MD4Transform :: "u32 list \<Rightarrow> bytes \<Rightarrow> u32 list" where
  "MD4Transform st block =
     (let x = md_Decode block 16;
          r = (st ! 0, st ! 1, st ! 2, st ! 3);
          r = md_round MD4_F False x MD4_FF r;
          r = md_round MD4_G False x MD4_GG r;
          r = md_round MD4_H False x MD4_HH r
      in md_add st r)"

definition MD4Init :: "MD4_CTX \<Rightarrow> MD4_CTX" where
  "MD4Init context = context
     \<lparr>state := [0x67452301, 0xefcdab89, 0x98badcfe, 0x10325476], count0 := 0, count1 := 0\<rparr>"

section \<open>Update and Final\<close>

definition md_update :: "(u32 list \<Rightarrow> bytes \<Rightarrow> u32 list) \<Rightarrow> md_ctx \<Rightarrow> bytes \<Rightarrow> md_ctx" where
  "md_update T context input =
     (let inputLen = length input;
          index = count_index (count0 context);
          (lo, hi) = add_bits (count0 context) (count1 context) inputLen;
          context = context\<lparr>count0 := lo, count1 := hi\<rparr>;
          partLen = 64 - index
      in if inputLen \<ge> partLen
         then let buf = mem_write (buffer context) index (take partLen input);
                  st = T (state context) buf;
                  (st, rest) = absorb 64 T st (drop partLen input)
              in context\<lparr>state := st, buffer := mem_write buf 0 rest\<rparr>
         else context\<lparr>buffer := mem_write (buffer context) index input\<rparr>)"

definition md_final :: "(u32 list \<Rightarrow> bytes \<Rightarrow> u32 list) \<Rightarrow> md_ctx \<Rightarrow> bytes \<times> md_ctx" where
  "md_final T context =
     (let bits = md_Encode [count0 context, count1 context] 8;
          index = count_index (count0 context);
          padLen = (if index < 56 then 56 - index else 120 - index);
          context = md_update T context (take padLen PADDING);
          context = md_update T context bits
      in (md_Encode (state context) 16, md_zero))"

definition MD5Update :: "MD5_CTX \<Rightarrow> bytes \<Rightarrow> MD5_CTX" where
  "MD5Update = md_update MD5Transform"

definition MD5Final :: "MD5_CTX \<Rightarrow> bytes \<times> MD5_CTX" where
  "MD5Final = md_final MD5Transform"

definition MD4Update :: "MD4_CTX \<Rightarrow> bytes \<Rightarrow> MD4_CTX" where
  "MD4Update = md_update MD4Transform"

definition MD4Final :: "MD4_CTX \<Rightarrow> bytes \<times> MD4_CTX" where
  "MD4Final = md_final MD4Transform"


section \<open>The update as absorption\<close>

definition md_inv :: "md_ctx \<Rightarrow> bool" where
  "md_inv c \<longleftrightarrow> length (buffer c) = 64"

definition md_obs :: "md_ctx \<Rightarrow> u32 list \<times> bytes" where
  "md_obs c = (state c, take (count_index (count0 c)) (buffer c))"

definition md_bits :: "md_ctx \<Rightarrow> nat" where
  "md_bits c = bits64 (count0 c, count1 c)"

definition md_fits :: "bytes \<Rightarrow> bool" where
  "md_fits xs \<longleftrightarrow> length xs + 64 \<le> 2 ^ 32"

text \<open>What a digest computes from the state, the pending input and the bit count.\<close>

definition md_digest :: "(u32 list \<Rightarrow> bytes \<Rightarrow> u32 list) \<Rightarrow> u32 list \<times> bytes \<Rightarrow> nat \<Rightarrow> bytes" where
  "md_digest T ob n =
     md_Encode (fst (absorb 64 T (fst ob)
       (snd ob @ 0x80 # replicate ((119 - length (snd ob)) mod 64) 0 @ le_bytes 8 (of_nat n :: u64)))) 16"

lemma md_update_obs:
  assumes "md_inv c" "md_fits xs"
  shows "md_inv (md_update T c xs)"
    and "md_obs (md_update T c xs) = absorb 64 T (fst (md_obs c)) (snd (md_obs c) @ xs)"
    and "md_bits (md_update T c xs) = (md_bits c + 8 * length xs) mod 2 ^ 64"
proof -
  define i where "i = count_index (count0 c)"
  have i: "i < 64" by (simp add: i_def count_index_less)
  obtain lo hi where ab: "add_bits (count0 c) (count1 c) (length xs) = (lo, hi)" by fastforce
  have fit: "length xs < 2 ^ 32" using assms(2) by (simp add: md_fits_def)
  have bits: "bits64 (lo, hi) = (bits64 (count0 c, count1 c) + 8 * length xs) mod 2 ^ 64"
    using add_bits_val [OF fit, of "count0 c" "count1 c"] ab by simp
  have j: "count_index lo = (i + length xs) mod 64"
    using index_step [of "bits64 (count0 c, count1 c)" "length xs"] bits
    unfolding i_def count_index_bits [of lo hi] count_index_bits [of "count0 c" "count1 c"]
    by (simp add: mod_add_left_eq)
  have lb: "length (buffer c) = 64" using assms(1) by (simp add: md_inv_def)
  show "md_inv (md_update T c xs)"
    and "md_obs (md_update T c xs) = absorb 64 T (fst (md_obs c)) (snd (md_obs c) @ xs)"
    and "md_bits (md_update T c xs) = (md_bits c + 8 * length xs) mod 2 ^ 64"
  proof -
    show "md_bits (md_update T c xs) = (md_bits c + 8 * length xs) mod 2 ^ 64"
      using bits by (simp add: md_update_def md_bits_def Let_def ab split: prod.splits)
  next
    consider "64 - i \<le> length xs" | "length xs < 64 - i" by linarith
    then have "md_inv (md_update T c xs) \<and>
      md_obs (md_update T c xs) = absorb 64 T (fst (md_obs c)) (snd (md_obs c) @ xs)"
    proof cases
      case 1
      define blk where "blk = take i (buffer c) @ take (64 - i) xs"
      obtain st rest where ar: "absorb 64 T (T (state c) blk) (drop (64 - i) xs) = (st, rest)" by fastforce
      have buf: "mem_write (buffer c) i (take (64 - i) xs) = blk"
        using lb i 1 by (simp add: mem_write_def blk_def)
      have lblk: "length blk = 64" using lb i 1 by (simp add: blk_def)
      have lr: "length rest = (i + length xs) mod 64"
        using absorb_rest [of 64 T "T (state c) blk" "drop (64 - i) xs"] ar 1 i
        by (simp add: le_mod_geq add.commute)
      have "length (mem_write blk 0 rest) = 64" "take (count_index lo) (mem_write blk 0 rest) = rest"
        using lblk lr by (simp_all add: j mem_write_def less_imp_le)
      moreover have "absorb 64 T (state c) (take i (buffer c) @ xs) = (st, rest)"
        using absorb_block [of 64 blk T "state c" "drop (64 - i) xs"] lblk ar by (simp add: blk_def)
      ultimately show ?thesis using lb 1 ar
        by (simp add: md_update_def md_obs_def md_inv_def Let_def ab i_def [symmetric] buf)
    next
      case 2
      then have "count_index lo = i + length xs" by (simp add: j)
      then show ?thesis using lb 2 i
        by (simp add: md_update_def md_obs_def md_inv_def Let_def ab i_def [symmetric] mem_write_def absorb_short)
    qed
    then show "md_inv (md_update T c xs)"
      and "md_obs (md_update T c xs) = absorb 64 T (fst (md_obs c)) (snd (md_obs c) @ xs)" by simp_all
  qed
qed


lemma md_Encode_bits: "md_Encode [lo, hi] 8 = le_bytes 8 (of_nat (bits64 (lo, hi)) :: u64)"
  by (simp add: md_Encode_def le_bytes_bits64 numeral_2_eq_2 del: le_bytes.simps)

lemma md_final_obs:
  assumes "md_inv c"
  shows "fst (md_final T c) = md_digest T (md_obs c) (md_bits c)"
proof -
  define i where "i = count_index (count0 c)"
  define pad where "pad = take (if i < 56 then 56 - i else 120 - i) PADDING"
  define bits where "bits = md_Encode [count0 c, count1 c] 8"
  have i: "i < 64" by (simp add: i_def count_index_less)
  have fits: "md_fits pad" "md_fits bits"
    using i by (simp_all add: md_fits_def pad_def PADDING_def bits_def md_Encode_bits del: le_bytes.simps)
  have lo: "length (snd (md_obs c)) = i"
    using assms i by (simp add: md_obs_def md_inv_def i_def)
  have pad: "pad = 0x80 # replicate ((119 - i) mod 64) 0"
  proof (cases "i < 56")
    case True
    then have "(119 - i) mod 64 = 55 - i" "56 - i = Suc (55 - i)" by (simp_all add: le_mod_geq)
    with True show ?thesis by (simp add: pad_def PADDING_def min_def)
  next
    case False
    with i have "(119 - i) mod 64 = 119 - i" "120 - i = Suc (119 - i)" by simp_all
    with False show ?thesis by (simp add: pad_def PADDING_def min_def)
  qed
  note c1 = md_update_obs [OF assms fits(1), of T]
  note c2 = md_update_obs [OF c1(1) fits(2), of T]
  have "fst (md_final T c) = md_Encode (fst (md_obs (md_update T (md_update T c pad) bits))) 16"
    by (simp add: md_final_def Let_def pad_def bits_def i_def md_obs_def)
  also have "fst (md_obs (md_update T (md_update T c pad) bits)) =
      fst (absorb 64 T (fst (md_obs c)) ((snd (md_obs c) @ pad) @ bits))"
    by (simp only: c2(2) c1(2) absorb_append [of 64 T _ "snd (md_obs c) @ pad"])
  finally show ?thesis
    by (simp add: md_digest_def lo pad bits_def md_Encode_bits md_bits_def del: le_bytes.simps)
qed

section \<open>The interface of the streaming digests\<close>

definition md_bump :: "nat \<Rightarrow> nat \<Rightarrow> nat" where
  "md_bump t n = (t + 8 * n) mod 2 ^ 64"

lemma md_bump_add: "md_bump (md_bump t m) n = md_bump t (m + n)"
  by (simp add: md_bump_def mod_add_left_eq add.assoc distrib_left)

lemma md_pending: "length (snd (md_obs c)) < 64"
  using count_index_less [of "count0 c"] by (simp add: md_obs_def)

lemmas md_laws = md_update_obs md_bump_add md_pending md_final_obs

interpretation md5: stream_digest MD5Update md_obs md_bits md_bump md_inv md_fits 64 MD5Transform
    "\<lambda>c. fst (MD5Final c)" "md_digest MD5Transform"
  by unfold_locales (simp_all only: MD5Update_def MD5Final_def md_laws, simp_all add: md_bump_def)

interpretation md4: stream_digest MD4Update md_obs md_bits md_bump md_inv md_fits 64 MD4Transform
    "\<lambda>c. fst (MD4Final c)" "md_digest MD4Transform"
  by unfold_locales (simp_all only: MD4Update_def MD4Final_def md_laws, simp_all add: md_bump_def)

end
