(* ===== verification/SHS.thy ===== *)
theory SHS
  imports Digest_Stream
begin

text \<open>
  \<^verbatim>\<open>HBase/RSAEuro/shsc.c\<close>: the Secure Hash Standard of 1993 (SHA-0, whose message
  expansion has no rotation; on \<^verbatim>\<open>abc\<close> the model gives 0164b8a9...) on a little-endian machine, where \<^verbatim>\<open>byteReverse\<close>
  swaps the bytes of every word.  The array \<^verbatim>\<open>data[16]\<close> is read and written both as
  words and as bytes; the model keeps its 64 bytes in memory order.
\<close>

record SHS_CTX =
  shs_digest :: "u32 list"
  countLo :: u32
  countHi :: u32
  shs_data :: bytes

definition SHS_zero :: SHS_CTX where
  "SHS_zero = \<lparr>shs_digest = replicate 5 0, countLo = 0, countHi = 0, shs_data = replicate 64 0\<rparr>"

definition SHS_K1 :: u32 where "SHS_K1 = 0x5A827999"
definition SHS_K2 :: u32 where "SHS_K2 = 0x6ED9EBA1"
definition SHS_K3 :: u32 where "SHS_K3 = 0x8F1BBCDC"
definition SHS_K4 :: u32 where "SHS_K4 = 0xCA62C1D6"

definition shs_f1 :: "u32 \<Rightarrow> u32 \<Rightarrow> u32 \<Rightarrow> u32" where
  "shs_f1 x y z = (x AND y) OR (NOT x AND z)"

definition shs_f2 :: "u32 \<Rightarrow> u32 \<Rightarrow> u32 \<Rightarrow> u32" where
  "shs_f2 x y z = x XOR y XOR z"

definition shs_f3 :: "u32 \<Rightarrow> u32 \<Rightarrow> u32 \<Rightarrow> u32" where
  "shs_f3 x y z = (x AND y) OR (x AND z) OR (y AND z)"

definition shs_f4 :: "u32 \<Rightarrow> u32 \<Rightarrow> u32 \<Rightarrow> u32" where
  "shs_f4 x y z = x XOR y XOR z"

definition shs_S :: "nat \<Rightarrow> u32 \<Rightarrow> u32" where
  "shs_S n x = push_bit n x OR drop_bit (32 - n) x"

text \<open>\<open>W\<close> grows by one word in every round of the expansion.\<close>

definition shs_expand :: "nat \<Rightarrow> u32 list \<Rightarrow> u32 list" where
  "shs_expand n W = W @ [W ! (n - 3) XOR W ! (n - 8) XOR W ! (n - 14) XOR W ! (n - 16)]"

type_synonym shs_regs = "u32 \<times> u32 \<times> u32 \<times> u32 \<times> u32"

definition subRound :: "(u32 \<Rightarrow> u32 \<Rightarrow> u32 \<Rightarrow> u32) \<Rightarrow> u32 \<Rightarrow> u32 \<Rightarrow> shs_regs \<Rightarrow> shs_regs" where
  "subRound f K w r =
     (case r of (A, B, C, D, E) \<Rightarrow>
        let temp = shs_S 5 A + f B C D + E + w + K
        in (temp, A, shs_S 30 B, C, D))"

text \<open>The words of the data buffer as the machine loads them.\<close>

fun shs_words :: "nat \<Rightarrow> bytes \<Rightarrow> u32 list" where
  "shs_words 0 bs = []"
| "shs_words (Suc n) bs = le_word (take 4 bs) # shs_words n (drop 4 bs)"

definition SHSTransform :: "u32 list \<Rightarrow> bytes \<Rightarrow> u32 list" where
  "SHSTransform digest data =
     (let W = fold shs_expand [16..<80] (shs_words 16 data);
          r = (digest ! 0, digest ! 1, digest ! 2, digest ! 3, digest ! 4);
          r = fold (subRound shs_f1 SHS_K1) (take 20 W) r;
          r = fold (subRound shs_f2 SHS_K2) (take 20 (drop 20 W)) r;
          r = fold (subRound shs_f3 SHS_K3) (take 20 (drop 40 W)) r;
          r = fold (subRound shs_f4 SHS_K4) (take 20 (drop 60 W)) r
      in case r of (A, B, C, D, E) \<Rightarrow>
         [digest ! 0 + A, digest ! 1 + B, digest ! 2 + C, digest ! 3 + D, digest ! 4 + E])"

text \<open>The bytes of the first \<open>n\<close> words are reversed word by word.\<close>

fun byteReverse_words :: "nat \<Rightarrow> bytes \<Rightarrow> bytes" where
  "byteReverse_words 0 bs = bs"
| "byteReverse_words (Suc n) bs = rev (take 4 bs) @ byteReverse_words n (drop 4 bs)"

definition byteReverse :: "bytes \<Rightarrow> nat \<Rightarrow> bytes" where
  "byteReverse buf byteCount = byteReverse_words (byteCount div 4) buf"

definition SHSInit :: "SHS_CTX \<Rightarrow> SHS_CTX" where
  "SHSInit context = context
     \<lparr>shs_digest := [0x67452301, 0xEFCDAB89, 0x98BADCFE, 0x10325476, 0xC3D2E1F0],
      countLo := 0, countHi := 0\<rparr>"

text \<open>\<^verbatim>\<open>byteReverse(context->data, SHS_BLOCKSIZE); SHSTransform(context);\<close>\<close>

definition shs_block :: "SHS_CTX \<Rightarrow> bytes \<Rightarrow> SHS_CTX" where
  "shs_block context data =
     (let data = byteReverse data 64
      in context\<lparr>shs_digest := SHSTransform (shs_digest context) data, shs_data := data\<rparr>)"

text \<open>\<^verbatim>\<open>while (count >= SHS_BLOCKSIZE)\<close>; the result is the context and what is left.\<close>

function shs_blocks :: "SHS_CTX \<Rightarrow> bytes \<Rightarrow> SHS_CTX \<times> bytes" where
  "shs_blocks context buf =
     (if 64 \<le> length buf
      then shs_blocks (shs_block context (mem_write (shs_data context) 0 (take 64 buf))) (drop 64 buf)
      else (context, buf))"
  by pat_completeness auto
termination by (relation "measure (\<lambda>(c, b). length b)") auto

declare shs_blocks.simps [simp del]

definition shs_count :: "SHS_CTX \<Rightarrow> nat \<Rightarrow> SHS_CTX" where
  "shs_count context count =
     (let n = (of_nat count :: u32);
          context = (if countLo context + push_bit 3 n < countLo context
                     then context\<lparr>countHi := countHi context + 1\<rparr> else context)
      in context\<lparr>countLo := countLo context + push_bit 3 n,
                 countHi := countHi context + drop_bit 29 n\<rparr>)"

definition SHSUpdate :: "SHS_CTX \<Rightarrow> bytes \<Rightarrow> SHS_CTX" where
  "SHSUpdate context buf =
     (let dataCount = count_index (countLo context);
          context = shs_count context (length buf)
      in if dataCount \<noteq> 0 \<and> length buf < 64 - dataCount
         then context\<lparr>shs_data := mem_write (shs_data context) dataCount buf\<rparr>
         else
           let (context, buf) =
                 (if dataCount \<noteq> 0
                  then (shs_block context
                          (mem_write (shs_data context) dataCount (take (64 - dataCount) buf)),
                        drop (64 - dataCount) buf)
                  else (context, buf));
               (context, buf) = shs_blocks context buf
           in context\<lparr>shs_data := mem_write (shs_data context) 0 buf\<rparr>)"

fun shs_Encode :: "u32 list \<Rightarrow> bytes" where
  "shs_Encode [] = []"
| "shs_Encode (w # ws) = be_bytes 4 w @ shs_Encode ws"

definition SHSFinal :: "SHS_CTX \<Rightarrow> bytes \<times> SHS_CTX" where
  "SHSFinal context =
     (let lowBitcount = countLo context; highBitcount = countHi context;
          count = count_index (countLo context);
          data = (shs_data context)[count := 0x80]; count = count + 1;
          context = (if count > 56
             then let context = shs_block context (mem_write data count (replicate (64 - count) 0))
                  in context\<lparr>shs_data := mem_write (shs_data context) 0 (replicate 56 0)\<rparr>
             else context\<lparr>shs_data := mem_write data count (replicate (56 - count) 0)\<rparr>);
          data = byteReverse (shs_data context) 64;
          data = mem_write data 56 (le_bytes 4 highBitcount @ le_bytes 4 lowBitcount);
          context = context\<lparr>shs_digest := SHSTransform (shs_digest context) data, shs_data := data\<rparr>
      in (shs_Encode (take 5 (shs_digest context)), SHS_zero))"


section \<open>The update as absorption\<close>

definition shs_T :: "u32 list \<Rightarrow> bytes \<Rightarrow> u32 list" where
  "shs_T st blk = SHSTransform st (byteReverse blk 64)"

definition shs_inv :: "SHS_CTX \<Rightarrow> bool" where
  "shs_inv c \<longleftrightarrow> length (shs_data c) = 64"

definition shs_obs :: "SHS_CTX \<Rightarrow> u32 list \<times> bytes" where
  "shs_obs c = (shs_digest c, take (count_index (countLo c)) (shs_data c))"

definition shs_bits :: "SHS_CTX \<Rightarrow> nat" where
  "shs_bits c = bits64 (countLo c, countHi c)"

text \<open>The count of \<^verbatim>\<open>SHSUpdate\<close> is a signed \<^verbatim>\<open>int\<close>.\<close>

definition shs_fits :: "bytes \<Rightarrow> bool" where
  "shs_fits xs \<longleftrightarrow> length xs < 2 ^ 31"

definition shs_bump :: "nat \<Rightarrow> nat \<Rightarrow> nat" where
  "shs_bump t n = (t + 8 * n) mod 2 ^ 64"

definition shs_fin :: "u32 list \<times> bytes \<Rightarrow> nat \<Rightarrow> bytes" where
  "shs_fin ob n =
     shs_Encode (take 5 (fst (absorb 64 shs_T (fst ob)
       (snd ob @ 0x80 # replicate ((119 - length (snd ob)) mod 64) 0 @ be_bytes 8 (of_nat n :: u64)))))"

lemma length_byteReverse_words [simp]: "length (byteReverse_words n bs) = length bs"
  by (induction n bs rule: byteReverse_words.induct) auto

lemma length_byteReverse [simp]: "length (byteReverse bs n) = length bs"
  by (simp add: byteReverse_def)

lemma shs_block_simps [simp]:
  "shs_digest (shs_block c d) = shs_T (shs_digest c) d"
  "length (shs_data (shs_block c d)) = length d"
  "countLo (shs_block c d) = countLo c" "countHi (shs_block c d) = countHi c"
  by (simp_all add: shs_block_def shs_T_def Let_def)

lemma shs_blocks_val:
  "length (shs_data c) = 64 \<Longrightarrow> shs_blocks c buf = (c', rest) \<Longrightarrow>
     length (shs_data c') = 64 \<and> countLo c' = countLo c \<and> countHi c' = countHi c \<and>
     absorb 64 shs_T (shs_digest c) buf = (shs_digest c', rest)"
proof (induction c buf arbitrary: c' rest rule: shs_blocks.induct)
  case (1 c buf)
  show ?case
  proof (cases "64 \<le> length buf")
    case True
    let ?c = "shs_block c (mem_write (shs_data c) 0 (take 64 buf))"
    have w: "mem_write (shs_data c) 0 (take 64 buf) = take 64 buf"
      using "1.prems"(1) True by (simp add: mem_write_def)
    have "shs_blocks ?c (drop 64 buf) = (c', rest)"
      using "1.prems"(2) True by (subst (asm) shs_blocks.simps) simp
    with "1.IH" [OF True, of c' rest] True w have
      "length (shs_data c') = 64 \<and> countLo c' = countLo c \<and> countHi c' = countHi c \<and>
       absorb 64 shs_T (shs_T (shs_digest c) (take 64 buf)) (drop 64 buf) = (shs_digest c', rest)"
      by simp
    then show ?thesis using True by (subst absorb.simps) simp
  next
    case False
    then show ?thesis using "1.prems" by (subst (asm) shs_blocks.simps) (simp add: absorb_short)
  qed
qed

lemma shs_count_eq:
  "shs_count c n = c\<lparr>countLo := fst (add_bits (countLo c) (countHi c) n),
                     countHi := snd (add_bits (countLo c) (countHi c) n)\<rparr>"
proof -
  have "lo + x < lo \<longleftrightarrow> lo + x < x" for lo x :: u32
    using unat_u32_less [of lo] unat_u32_less [of x] by (auto simp: word_less_nat_alt u32_add)
  from this [of "countLo c" "push_bit 3 (of_nat n)"] show ?thesis
    by (simp add: shs_count_def add_bits_def Let_def)
qed

lemma shs_update_obs:
  assumes "shs_inv c" "shs_fits xs"
  shows "shs_inv (SHSUpdate c xs)"
    and "shs_obs (SHSUpdate c xs) = absorb 64 shs_T (fst (shs_obs c)) (snd (shs_obs c) @ xs)"
    and "shs_bits (SHSUpdate c xs) = shs_bump (shs_bits c) (length xs)"
proof -
  define i lo hi where "i = count_index (countLo c)"
    and "lo = fst (add_bits (countLo c) (countHi c) (length xs))"
    and "hi = snd (add_bits (countLo c) (countHi c) (length xs))"
  have i: "i < 64" by (simp add: i_def count_index_less)
  have lb: "length (shs_data c) = 64" using assms(1) by (simp add: shs_inv_def)
  have "length xs < 2 ^ 32" using assms(2) by (simp add: shs_fits_def)
  then have bits: "bits64 (lo, hi) = shs_bump (shs_bits c) (length xs)"
    by (simp add: lo_def hi_def shs_bump_def shs_bits_def add_bits_val)
  have j: "count_index lo = (i + length xs) mod 64"
    using index_step [of "bits64 (countLo c, countHi c)" "length xs"] bits
    unfolding i_def count_index_bits [of lo hi] count_index_bits [of "countLo c" "countHi c"]
    by (simp add: mod_add_left_eq shs_bump_def shs_bits_def)
  define c1 where "c1 = c\<lparr>countLo := lo, countHi := hi\<rparr>"
  have upd: "SHSUpdate c xs =
     (if i \<noteq> 0 \<and> length xs < 64 - i then c1\<lparr>shs_data := mem_write (shs_data c1) i xs\<rparr>
      else let (c2, buf) = (if i \<noteq> 0 then (shs_block c1 (mem_write (shs_data c1) i (take (64 - i) xs)), drop (64 - i) xs)
                            else (c1, xs));
               (c3, buf) = shs_blocks c2 buf
           in c3\<lparr>shs_data := mem_write (shs_data c3) 0 buf\<rparr>)"
    by (simp add: SHSUpdate_def shs_count_eq Let_def c1_def lo_def hi_def i_def)
  have c1: "shs_digest c1 = shs_digest c" "shs_data c1 = shs_data c" "countLo c1 = lo" "countHi c1 = hi"
    by (simp_all add: c1_def)
  have "shs_inv (SHSUpdate c xs) \<and> shs_bits (SHSUpdate c xs) = bits64 (lo, hi) \<and>
    shs_obs (SHSUpdate c xs) = absorb 64 shs_T (fst (shs_obs c)) (snd (shs_obs c) @ xs)"
  proof (cases "i \<noteq> 0 \<and> length xs < 64 - i")
    case True
    then have "i + length xs < 64" using i by linarith
    then have "count_index lo = i + length xs" unfolding j by simp
    moreover have "i \<noteq> 0" "length xs < 64 - i" using True by simp_all
    ultimately show ?thesis using lb i unfolding upd
      by (simp add: c1 shs_inv_def shs_bits_def shs_obs_def i_def [symmetric] mem_write_def absorb_short)
  next
    case False
    define blk where "blk = take i (shs_data c) @ take (64 - i) xs"
    define c2 buf where "c2 = (if i \<noteq> 0 then shs_block c1 blk else c1)"
      and "buf = (if i \<noteq> 0 then drop (64 - i) xs else xs)"
    have lblk: "length blk = 64" if "i \<noteq> 0" using lb i False that by (simp add: blk_def)
    have w: "mem_write (shs_data c1) i (take (64 - i) xs) = blk" if "i \<noteq> 0"
      using lb i False that by (simp add: mem_write_def blk_def c1)
    obtain c3 rest where b: "shs_blocks c2 buf = (c3, rest)" by fastforce
    have "length (shs_data c2) = 64" using lb lblk by (simp add: c2_def c1)
    from shs_blocks_val [OF this b] have c3: "length (shs_data c3) = 64" "countLo c3 = lo" "countHi c3 = hi"
      "absorb 64 shs_T (shs_digest c2) buf = (shs_digest c3, rest)"
      by (auto simp: c2_def c1)
    have ab: "absorb 64 shs_T (shs_digest c) (take i (shs_data c) @ xs) = (shs_digest c3, rest)"
    proof (cases "i = 0")
      case True
      then show ?thesis using c3(4) by (simp add: c2_def buf_def c1)
    next
      case nz: False
      then show ?thesis
        using absorb_block [of 64 blk shs_T "shs_digest c" "drop (64 - i) xs"] lblk c3(4)
        by (simp add: c2_def buf_def c1 blk_def)
    qed
    have lr: "length rest = (i + length xs) mod 64"
      using absorb_rest [of 64 shs_T "shs_digest c" "take i (shs_data c) @ xs"] ab lb i by simp
    have u: "SHSUpdate c xs = c3\<lparr>shs_data := mem_write (shs_data c3) 0 rest\<rparr>"
      unfolding upd using False b by (auto simp: c2_def buf_def w split: if_splits)
    have "length (mem_write (shs_data c3) 0 rest) = 64" "take (length rest) (mem_write (shs_data c3) 0 rest) = rest"
      using c3(1) lr by (simp_all add: mem_write_def less_imp_le)
    then show ?thesis
      using c3 ab lr by (simp add: u shs_inv_def shs_bits_def shs_obs_def i_def [symmetric] j)
  qed
  then show "shs_inv (SHSUpdate c xs)"
    and "shs_obs (SHSUpdate c xs) = absorb 64 shs_T (fst (shs_obs c)) (snd (shs_obs c) @ xs)"
    and "shs_bits (SHSUpdate c xs) = shs_bump (shs_bits c) (length xs)"
    using bits by simp_all
qed


section \<open>The final block\<close>

lemma byteReverse_words_append:
  "length xs = 4 * n \<Longrightarrow> byteReverse_words (n + m) (xs @ ys) = byteReverse_words n xs @ byteReverse_words m ys"
proof (induction n arbitrary: xs)
  case 0
  then show ?case by simp
next
  case (Suc n)
  then show ?case by simp
qed

lemma byteReverse_last_words:
  assumes "length xs = 56" "length ys = 8"
  shows "mem_write (byteReverse (xs @ ys) 64) 56 (le_bytes 4 hi @ le_bytes 4 lo) =
         byteReverse (xs @ be_bytes 4 hi @ be_bytes 4 lo) 64"
proof -
  have "length (byteReverse_words 14 xs) = 56" using assms by simp
  moreover have "byteReverse_words 16 (xs @ zs) = byteReverse_words 14 xs @ byteReverse_words 2 zs" for zs
    using byteReverse_words_append [of xs 14 2 zs] assms by simp
  moreover have "byteReverse_words 2 (be_bytes 4 hi @ be_bytes 4 lo) = le_bytes 4 hi @ le_bytes 4 lo"
    by (simp add: numeral_2_eq_2 be_bytes_def del: le_bytes.simps)
  ultimately show ?thesis using assms by (simp add: byteReverse_def mem_write_def del: le_bytes.simps)
qed

lemma shs_final_obs:
  assumes "shs_inv c"
  shows "fst (SHSFinal c) = shs_fin (shs_obs c) (shs_bits c)"
proof -
  define i pend where "i = count_index (countLo c)" and "pend = take i (shs_data c)"
  have i: "i < 64" and lb: "length (shs_data c) = 64"
    using assms by (simp_all add: i_def count_index_less shs_inv_def)
  have lp: "length pend = i" and obs: "shs_obs c = (shs_digest c, pend)"
    using i lb by (simp_all add: pend_def shs_obs_def i_def)
  let ?be = "be_bytes 4 (countHi c) @ be_bytes 4 (countLo c)"
  have fill: "mem_write ((shs_data c)[i := 0x80]) (i + 1) (replicate k 0) =
      pend @ 0x80 # replicate k 0 @ drop (i + 1 + k) (shs_data c)" for k
    using i lb by (simp add: mem_write_def pend_def upd_conv_take_nth_drop add.commute)
  show ?thesis
  proof (cases "i + 1 > 56")
    case True
    define blk d1 where "blk = pend @ 0x80 # replicate (63 - i) 0" and "d1 = shs_T (shs_digest c) blk"
    have lblk: "length blk = 64" using True i lp by (simp add: blk_def)
    have w: "mem_write ((shs_data c)[i := 0x80]) (i + 1) (replicate (64 - (i + 1)) 0) = blk"
      using fill [of "63 - i"] True i lb by (simp add: blk_def)
    have z: "mem_write (byteReverse blk 64) 0 (replicate 56 0) = replicate 56 0 @ drop 56 (byteReverse blk 64)"
      by (simp add: mem_write_def)
    have "fst (SHSFinal c) = shs_Encode (take 5 (shs_T d1 (replicate 56 0 @ ?be)))"
      using True lblk w i
      by (simp add: SHSFinal_def Let_def i_def [symmetric] shs_block_def z d1_def shs_T_def
          byteReverse_last_words del: le_bytes.simps)
    moreover have "absorb 64 shs_T (shs_digest c) (pend @ 0x80 # replicate ((119 - i) mod 64) 0 @ ?be) =
        (shs_T d1 (replicate 56 0 @ ?be), [])"
    proof -
      have m: "(119 - i) mod 64 = (63 - i) + 56" using True i by simp
      have "pend @ 0x80 # replicate ((119 - i) mod 64) 0 @ ?be = blk @ (replicate 56 0 @ ?be) @ []"
        unfolding m replicate_add blk_def by simp
      moreover have "length (replicate 56 0 @ ?be) = 64" by simp
      ultimately show ?thesis
        using lblk by (simp only: absorb_block) (simp add: absorb_block absorb_short d1_def)
    qed
    ultimately show ?thesis by (simp add: shs_fin_def obs lp shs_bits_def be_bytes_bits64)
  next
    case False
    define blk where "blk = pend @ 0x80 # replicate (55 - i) 0"
    have lblk: "length blk = 56" using False lp by (simp add: blk_def)
    have w: "mem_write ((shs_data c)[i := 0x80]) (i + 1) (replicate (56 - (i + 1)) 0) = blk @ drop 56 (shs_data c)"
      using fill [of "55 - i"] False lb by (simp add: blk_def)
    have "fst (SHSFinal c) = shs_Encode (take 5 (shs_T (shs_digest c) (blk @ ?be)))"
      using False lblk w lb
      by (simp add: SHSFinal_def Let_def i_def [symmetric] shs_T_def byteReverse_last_words del: le_bytes.simps)
    moreover have "absorb 64 shs_T (shs_digest c) (pend @ 0x80 # replicate ((119 - i) mod 64) 0 @ ?be) =
        (shs_T (shs_digest c) (blk @ ?be), [])"
    proof -
      have "(119 - i) mod 64 = 55 - i" using False by (simp add: le_mod_geq)
      then have "pend @ 0x80 # replicate ((119 - i) mod 64) 0 @ ?be = (blk @ ?be) @ []"
        by (simp add: blk_def)
      moreover have "length (blk @ ?be) = 64" using lblk by simp
      ultimately show ?thesis
        by (simp only: absorb_block) (simp add: absorb_block absorb_short)
    qed
    ultimately show ?thesis by (simp add: shs_fin_def obs lp shs_bits_def be_bytes_bits64)
  qed
qed

lemma shs_bump_add: "shs_bump (shs_bump t m) n = shs_bump t (m + n)"
  by (simp add: shs_bump_def mod_add_left_eq add.assoc distrib_left)

lemma shs_pending: "length (snd (shs_obs c)) < 64"
  using count_index_less [of "countLo c"] by (simp add: shs_obs_def)

interpretation shs: stream_digest SHSUpdate shs_obs shs_bits shs_bump shs_inv shs_fits 64 shs_T
    "\<lambda>c. fst (SHSFinal c)" shs_fin
  by unfold_locales (simp_all add: shs_update_obs shs_bump_add shs_pending shs_final_obs)

text \<open>The reference: initial state and padding, which SHA-1 shares.\<close>

definition shs_pad :: "bytes \<Rightarrow> bytes" where
  "shs_pad m = m @ 0x80 # replicate ((119 - length m mod 64) mod 64) 0 @
                 be_bytes 8 (of_nat (8 * length m) :: u64)"

definition shs_IV :: "u32 list" where
  "shs_IV = [0x67452301, 0xEFCDAB89, 0x98BADCFE, 0x10325476, 0xC3D2E1F0]"

end
