(* ===== verification/MD2.thy ===== *)
theory MD2
  imports Digest_Stream
begin

text \<open>
  \<^verbatim>\<open>HBase/RSAEuro/md2c.c\<close>.  The chaining value is the pair of \<^verbatim>\<open>state\<close> and
  \<^verbatim>\<open>checksum\<close>; the count is kept modulo 16.
\<close>

record MD2_CTX =
  md2_state :: bytes
  md2_checksum :: bytes
  md2_count :: nat
  md2_buffer :: bytes

definition MD2_zero :: MD2_CTX where
  "MD2_zero = \<lparr>md2_state = replicate 16 0, md2_checksum = replicate 16 0, md2_count = 0,
     md2_buffer = replicate 16 0\<rparr>"

definition PI_SUBST :: bytes where
  "PI_SUBST =
   [
    41, 46, 67, 201, 162, 216, 124, 1, 61, 54, 84, 161, 236, 240, 6, 19, 98, 167, 5, 243, 192,
    199, 115, 140, 152, 147, 43, 217, 188, 76, 130, 202, 30, 155, 87, 60, 253, 212, 224, 22,
    103, 66, 111, 24, 138, 23, 229, 18, 190, 78, 196, 214, 218, 158, 222, 73, 160, 251, 245,
    142, 187, 47, 238, 122, 169, 104, 121, 145, 21, 178, 7, 63, 148, 194, 16, 137, 11, 34, 95,
    33, 128, 127, 93, 154, 90, 144, 50, 39, 53, 62, 204, 231, 191, 247, 151, 3, 255, 25, 48,
    179, 72, 165, 181, 209, 215, 94, 146, 42, 172, 86, 170, 198, 79, 184, 56, 210, 150, 164,
    125, 182, 118, 252, 107, 226, 156, 116, 4, 241, 69, 157, 112, 89, 100, 113, 135, 32, 134,
    91, 207, 101, 230, 45, 168, 2, 27, 96, 37, 173, 174, 176, 185, 246, 28, 70, 97, 105, 52,
    64, 126, 15, 85, 71, 163, 35, 221, 81, 175, 58, 195, 92, 249, 206, 186, 197, 234, 38, 44,
    83, 13, 110, 133, 40, 132, 9, 211, 223, 205, 244, 65, 129, 77, 82, 106, 220, 55, 200, 108,
    193, 171, 250, 36, 225, 123, 8, 12, 189, 177, 74, 120, 136, 149, 139, 227, 99, 232, 109,
    233, 203, 213, 254, 59, 0, 29, 57, 242, 239, 183, 14, 102, 88, 208, 228, 166, 119, 114,
    248, 235, 117, 75, 10, 49, 68, 80, 180, 143, 237, 31, 26, 219, 153, 141, 51, 159, 17, 131,
    20]"

text \<open>\<^verbatim>\<open>for (j = 0; j < 48; j++) t = x[j] ^= PI_SUBST[t];\<close>\<close>

fun md2_row :: "u8 \<Rightarrow> bytes \<Rightarrow> bytes \<times> u8" where
  "md2_row t [] = ([], t)"
| "md2_row t (x # xs) =
     (let x = x XOR PI_SUBST ! unat t; (xs, t) = md2_row x xs in (x # xs, t))"

definition md2_encrypt :: "bytes \<Rightarrow> bytes" where
  "md2_encrypt x =
     fst (fold (\<lambda>i (x, t). let (x, t) = md2_row t x in (x, t + of_nat i)) [0..<18] (x, 0))"

text \<open>\<^verbatim>\<open>for (i = 0; i < 16; i++) t = checksum[i] ^= PI_SUBST[block[i] ^ t];\<close>\<close>

fun md2_check :: "u8 \<Rightarrow> bytes \<Rightarrow> bytes \<Rightarrow> bytes" where
  "md2_check t (c # cs) (b # bs) =
     (let c = c XOR PI_SUBST ! unat (b XOR t) in c # md2_check c cs bs)"
| "md2_check t _ _ = []"

definition MD2Transform :: "bytes \<times> bytes \<Rightarrow> bytes \<Rightarrow> bytes \<times> bytes" where
  "MD2Transform sc block =
     (case sc of (st, checksum) \<Rightarrow>
        let x = st @ block @ map2 (\<lambda>a b. a XOR b) st block;
            x = md2_encrypt x
        in (take 16 x, md2_check (checksum ! 15) checksum block))"

definition MD2Init :: "MD2_CTX \<Rightarrow> MD2_CTX" where
  "MD2Init context = context
     \<lparr>md2_count := 0, md2_state := replicate 16 0, md2_checksum := replicate 16 0\<rparr>"

definition MD2Update :: "MD2_CTX \<Rightarrow> bytes \<Rightarrow> MD2_CTX" where
  "MD2Update context input =
     (let inputLen = length input;
          index = md2_count context;
          context = context\<lparr>md2_count := (index + inputLen) mod 16\<rparr>;
          partLen = 16 - index
      in if inputLen \<ge> partLen
         then let buf = mem_write (md2_buffer context) index (take partLen input);
                  sc = MD2Transform (md2_state context, md2_checksum context) buf;
                  (sc, rest) = absorb 16 MD2Transform sc (drop partLen input)
              in context\<lparr>md2_state := fst sc, md2_checksum := snd sc, md2_buffer := mem_write buf 0 rest\<rparr>
         else context\<lparr>md2_buffer := mem_write (md2_buffer context) index input\<rparr>)"

text \<open>\<^verbatim>\<open>PADDING[n]\<close> is the string of \<open>n\<close> bytes \<open>n\<close>.\<close>

definition MD2_PADDING :: "nat \<Rightarrow> bytes" where
  "MD2_PADDING n = replicate n (of_nat n)"

definition MD2Final :: "MD2_CTX \<Rightarrow> bytes \<times> MD2_CTX" where
  "MD2Final context =
     (let index = md2_count context;
          padLen = 16 - index;
          context = MD2Update context (MD2_PADDING padLen);
          context = MD2Update context (md2_checksum context)
      in (md2_state context, MD2_zero))"

section \<open>The update as absorption\<close>

definition md2_inv :: "MD2_CTX \<Rightarrow> bool" where
  "md2_inv c \<longleftrightarrow> length (md2_buffer c) = 16 \<and> md2_count c < 16"

definition md2_obs :: "MD2_CTX \<Rightarrow> (bytes \<times> bytes) \<times> bytes" where
  "md2_obs c = ((md2_state c, md2_checksum c), take (md2_count c) (md2_buffer c))"

definition md2_digest :: "(bytes \<times> bytes) \<times> bytes \<Rightarrow> unit \<Rightarrow> bytes" where
  "md2_digest ob u =
     (let n = 16 - length (snd ob);
          sc = fst (absorb 16 MD2Transform (fst ob) (snd ob @ replicate n (of_nat n)))
      in fst (fst (absorb 16 MD2Transform sc (snd sc))))"

lemma md2_update_obs:
  assumes "md2_inv c"
  shows "md2_inv (MD2Update c xs)"
    and "md2_obs (MD2Update c xs) = absorb 16 MD2Transform (fst (md2_obs c)) (snd (md2_obs c) @ xs)"
proof -
  define i where "i = md2_count c"
  have i: "i < 16" and lb: "length (md2_buffer c) = 16" using assms by (simp_all add: i_def md2_inv_def)
  define sc where "sc = (md2_state c, md2_checksum c)"
  consider "16 - i \<le> length xs" | "length xs < 16 - i" by linarith
  then have "md2_inv (MD2Update c xs) \<and>
    md2_obs (MD2Update c xs) = absorb 16 MD2Transform (fst (md2_obs c)) (snd (md2_obs c) @ xs)"
  proof cases
    case 1
    define blk where "blk = take i (md2_buffer c) @ take (16 - i) xs"
    obtain st ck rest where ar: "absorb 16 MD2Transform (MD2Transform sc blk) (drop (16 - i) xs) = ((st, ck), rest)"
      by (metis prod.collapse)
    have buf: "mem_write (md2_buffer c) i (take (16 - i) xs) = blk"
      using lb i 1 by (simp add: mem_write_def blk_def)
    have lblk: "length blk = 16" using lb i 1 by (simp add: blk_def)
    have lr: "length rest = (i + length xs) mod 16"
      using absorb_rest [of 16 MD2Transform "MD2Transform sc blk" "drop (16 - i) xs"] ar 1 i
      by (simp add: le_mod_geq add.commute)
    have "length (mem_write blk 0 rest) = 16" "take (length rest) (mem_write blk 0 rest) = rest"
      using lblk lr by (simp_all add: mem_write_def less_imp_le)
    moreover have "absorb 16 MD2Transform sc (take i (md2_buffer c) @ xs) = ((st, ck), rest)"
      using absorb_block [of 16 blk MD2Transform sc "drop (16 - i) xs"] lblk ar by (simp add: blk_def)
    ultimately show ?thesis using lb 1 ar lr
      by (simp add: MD2Update_def md2_obs_def md2_inv_def Let_def i_def [symmetric] sc_def [symmetric] buf)
  next
    case 2
    then show ?thesis using lb i
      by (simp add: MD2Update_def md2_obs_def md2_inv_def Let_def i_def [symmetric] mem_write_def absorb_short)
  qed
  then show "md2_inv (MD2Update c xs)"
    and "md2_obs (MD2Update c xs) = absorb 16 MD2Transform (fst (md2_obs c)) (snd (md2_obs c) @ xs)"
    by simp_all
qed

lemma md2_final_obs:
  assumes "md2_inv c"
  shows "fst (MD2Final c) = md2_digest (md2_obs c) ()"
proof -
  have l: "length (snd (md2_obs c)) = md2_count c" using assms by (simp add: md2_obs_def md2_inv_def)
  note c1 = md2_update_obs [OF assms, of "MD2_PADDING (16 - md2_count c)"]
  let ?c1 = "MD2Update c (MD2_PADDING (16 - md2_count c))"
  note c2 = md2_update_obs [OF c1(1), of "md2_checksum ?c1"]
  have "length (snd (md2_obs c) @ MD2_PADDING (16 - md2_count c)) = 16"
    using assms by (simp add: l MD2_PADDING_def md2_inv_def)
  then have "length (snd (md2_obs ?c1)) = 0"
    unfolding c1(2) by (subst absorb_rest) simp_all
  then have e: "snd (md2_obs ?c1) = []" by simp
  have "fst (MD2Final c) = fst (fst (md2_obs (MD2Update ?c1 (md2_checksum ?c1))))"
    by (simp add: MD2Final_def Let_def md2_obs_def)
  also have "\<dots> = fst (fst (absorb 16 MD2Transform (fst (md2_obs ?c1)) (snd (fst (md2_obs ?c1)))))"
    by (simp only: c2(2) e append_Nil) (simp add: md2_obs_def)
  finally show ?thesis unfolding c1(2) by (simp add: md2_digest_def Let_def l MD2_PADDING_def)
qed

interpretation md2: stream_digest MD2Update md2_obs "\<lambda>_. ()" "\<lambda>_ _. ()" md2_inv "\<lambda>_. True" 16 MD2Transform
    "\<lambda>c. fst (MD2Final c)" md2_digest
  by unfold_locales (simp_all add: md2_update_obs md2_final_obs, simp add: md2_obs_def md2_inv_def)

end
