(* ===== verification/R_Random.thy ===== *)
theory R_Random
  imports MD45
begin

text \<open>
  \<^verbatim>\<open>HBase/RSAEuro/r_random.c\<close>: the random object.  Its 16-byte state is seeded by adding
  digests, and its output is the MD5 digest of a state that is incremented after every
  16 bytes.  The time functions are parameters of the operations that call them.
\<close>

record R_RANDOM_STRUCT =
  bytesNeeded :: nat
  rnd_state :: bytes
  outputAvailable :: nat
  rnd_output :: bytes

definition RANDOM_BYTES_RQ :: nat where "RANDOM_BYTES_RQ = 256"
definition RANDOM_BYTES_RQINT :: nat where "RANDOM_BYTES_RQINT = 512"
definition MIX_CNT :: nat where "MIX_CNT = 16"

definition R_RandomInit :: "R_RANDOM_STRUCT \<Rightarrow> R_RANDOM_STRUCT" where
  "R_RandomInit random = random
     \<lparr>rnd_state := replicate 16 0, outputAvailable := 0, bytesNeeded := RANDOM_BYTES_RQ\<rparr>"

text \<open>\<^verbatim>\<open>MD5Init; MD5Update; MD5Final\<close> on a local context.\<close>

definition md5_of :: "bytes \<Rightarrow> bytes" where
  "md5_of block = fst (MD5Final (MD5Update (MD5Init md_zero) block))"

text \<open>The 16-bit carry \<open>j\<close> runs from the last byte to the first: the lists are reversed.\<close>

fun rnd_add :: "u16 \<Rightarrow> bytes \<Rightarrow> bytes \<Rightarrow> bytes" where
  "rnd_add j (s # ss) (d # ds) =
     (let j = j + (ucast s + ucast d) in ucast j # rnd_add (drop_bit 8 j) ss ds)"
| "rnd_add j _ _ = []"

definition R_RandomUpdate :: "R_RANDOM_STRUCT \<Rightarrow> bytes \<Rightarrow> R_RANDOM_STRUCT" where
  "R_RandomUpdate random block =
     (let digest = md5_of block;
          len = length block
      in random\<lparr>rnd_state := rev (rnd_add 0 (rev (rnd_state random)) (rev digest)),
                bytesNeeded := (if bytesNeeded random < len then 0 else bytesNeeded random - len)\<rparr>)"

definition R_GetRandomBytesNeeded :: "R_RANDOM_STRUCT \<Rightarrow> nat" where
  "R_GetRandomBytesNeeded random = bytesNeeded random"

text \<open>
  \<^verbatim>\<open>for (i = 16; i > 0; i--) if (random->state[i-1]++) break;\<close> on the reversed state:
  the byte tested is the one before the increment.
\<close>

fun rnd_incr :: "bytes \<Rightarrow> bytes" where
  "rnd_incr [] = []"
| "rnd_incr (s # ss) = (s + 1) # (if s \<noteq> 0 then ss else rnd_incr ss)"

definition rnd_refill :: "R_RANDOM_STRUCT \<Rightarrow> R_RANDOM_STRUCT" where
  "rnd_refill random = random
     \<lparr>rnd_output := md5_of (rnd_state random),
      rnd_state := rev (rnd_incr (rev (rnd_state random))), outputAvailable := 16\<rparr>"

text \<open>The \<^verbatim>\<open>while (avail < len)\<close> loop and the copy after it.\<close>

function rnd_generate :: "nat \<Rightarrow> R_RANDOM_STRUCT \<Rightarrow> bytes \<times> R_RANDOM_STRUCT" where
  "rnd_generate len random =
     (let avail = outputAvailable random; ready = drop (16 - avail) (rnd_output random)
      in if avail < len
         then let (out, random) = rnd_generate (len - avail) (rnd_refill random)
              in (take avail ready @ out, random)
         else (take len ready, random\<lparr>outputAvailable := avail - len\<rparr>))"
  by pat_completeness auto
termination
  by (relation "measure (\<lambda>(len, r). 2 * len + (if outputAvailable r = 0 then 1 else 0))")
     (auto simp: rnd_refill_def)

declare rnd_generate.simps [simp del]

definition RE_NEED_RANDOM :: int where "RE_NEED_RANDOM = 0x408"

definition R_GenerateBytes :: "nat \<Rightarrow> R_RANDOM_STRUCT \<Rightarrow> int + (bytes \<times> R_RANDOM_STRUCT)" where
  "R_GenerateBytes len random =
     (if bytesNeeded random \<noteq> 0 then Inl RE_NEED_RANDOM else Inr (rnd_generate len random))"

definition R_RandomFinal :: "R_RANDOM_STRUCT \<Rightarrow> R_RANDOM_STRUCT" where
  "R_RandomFinal random =
     \<lparr>bytesNeeded = 0, rnd_state = replicate 16 0, outputAvailable = 0, rnd_output = replicate 16 0\<rparr>"

definition subrand_c1 :: "u32 list" where
  "subrand_c1 = [0xbaa96887, 0x1e17d32c, 0x03dcbc3c, 0xf033d1b2]"

definition subrand_c2 :: "u32 list" where
  "subrand_c2 = [0x4bf03b58, 0xe8740fc3, 0x69aac5a6, 0x55a7ca46]"

definition subrand_round :: "u32 \<times> u32 \<Rightarrow> u32 \<times> u32 \<Rightarrow> u32 \<times> u32" where
  "subrand_round c w =
     (case c of (c1, c2) \<Rightarrow> case w of (irword, lword) \<Rightarrow>
        let iswap = irword; ia = iswap XOR c1;
            itmpl = ia AND 0xffff; itmph = drop_bit 16 ia;
            ib = itmpl * itmpl + NOT (itmph * itmph);
            ia = drop_bit 16 ib OR push_bit 16 (ib AND 0xffff)
        in (lword XOR ((ia XOR c2) + itmpl * itmph), iswap))"

text \<open>\<open>idums\<close> is the static variable of \<^verbatim>\<open>subrand\<close>; the result is the number and its new value.\<close>

definition subrand :: "int \<Rightarrow> int \<Rightarrow> u32 \<times> int" where
  "subrand idum idums =
     (let (idum, idums) = (if idum < 0 then (1, - idum) else (idum, idums));
          (irword, lword) = fold subrand_round (zip subrand_c1 subrand_c2) (of_int idum, of_int idums)
      in (irword, idums))"

text \<open>
  \<open>env k\<close> is what the calls of \<^verbatim>\<open>time\<close>, \<^verbatim>\<open>gmtime\<close> and \<^verbatim>\<open>clock\<close> give in round \<open>k\<close>
  of \<^verbatim>\<open>R_RandomCreate\<close>: the time and the bytes of the two structures.
\<close>

function rnd_seed :: "(nat \<Rightarrow> int \<times> bytes \<times> bytes) \<Rightarrow> nat \<Rightarrow> int \<Rightarrow> R_RANDOM_STRUCT \<Rightarrow> R_RANDOM_STRUCT \<times> int" where
  "rnd_seed env k idums random =
     (if bytesNeeded random = 0 then (random, idums)
      else let (t, gmt, cnow) = env k;
               (temp, idums) = subrand t idums;
               random = R_RandomUpdate random (le_bytes 4 temp);
               random = R_RandomUpdate random gmt;
               random = R_RandomUpdate random cnow
           in rnd_seed env (k + 1) idums random)"
  by pat_completeness auto
termination
  by (relation "measure (\<lambda>(env, k, i, r). bytesNeeded r)")
     (auto simp: R_RandomUpdate_def Let_def)

declare rnd_seed.simps [simp del]

definition R_RandomCreate :: "(nat \<Rightarrow> int \<times> bytes \<times> bytes) \<Rightarrow> int \<Rightarrow> R_RANDOM_STRUCT \<Rightarrow> R_RANDOM_STRUCT \<times> int" where
  "R_RandomCreate env idums random =
     rnd_seed env 0 idums (random\<lparr>rnd_state := replicate 16 0, outputAvailable := 0,
                                  bytesNeeded := RANDOM_BYTES_RQINT\<rparr>)"

text \<open>\<open>env i\<close> are the bytes of \<^verbatim>\<open>clock()\<close> and \<^verbatim>\<open>time(NULL)\<close> in round \<open>i\<close>.\<close>

definition rnd_mix :: "(nat \<Rightarrow> u8 \<times> u8) \<Rightarrow> nat \<Rightarrow> bytes \<Rightarrow> bytes" where
  "rnd_mix env i st =
     (let st = st[i := st ! i XOR fst (env i)] in st[15 - i := st ! (15 - i) XOR snd (env i)])"

definition R_RandomMix :: "(nat \<Rightarrow> u8 \<times> u8) \<Rightarrow> R_RANDOM_STRUCT \<Rightarrow> R_RANDOM_STRUCT" where
  "R_RandomMix env random =
     (let random = random\<lparr>rnd_state := fold (rnd_mix env) [0..<MIX_CNT] (rnd_state random)\<rparr>
      in random\<lparr>rnd_output := md5_of (rnd_state random), outputAvailable := 16\<rparr>)"

section \<open>Lemmas\<close>

text \<open>The states keep their length and the available bytes are bytes of the output.\<close>

definition rnd_inv :: "R_RANDOM_STRUCT \<Rightarrow> bool" where
  "rnd_inv r \<longleftrightarrow> length (rnd_state r) = 16 \<and> length (rnd_output r) = 16 \<and> outputAvailable r \<le> 16"

lemma length_rnd_incr [simp]: "length (rnd_incr s) = length s"
  by (induction s) auto

lemma length_rnd_add [simp]: "length (rnd_add j s d) = min (length s) (length d)"
  by (induction j s d rule: rnd_add.induct) (auto simp: Let_def)

lemma length_md_add [simp]: "length (md_add st r) = 4"
  by (simp add: md_add_def split: prod.splits)

lemma length_absorb_state:
  assumes "length st = 4" "\<And>st blk. length (T st blk) = 4"
  shows "length (fst (absorb blk T st xs)) = 4"
  using assms
proof (induction blk T st xs rule: absorb.induct)
  case (1 blk f s xs)
  then show ?case by (subst absorb.simps) auto
qed

lemma length_md5_state:
  "length (state c) = 4 \<Longrightarrow> length (state (md_update MD5Transform c xs)) = 4"
proof -
  assume c: "length (state c) = 4"
  have T: "length (MD5Transform st blk) = 4" for st blk by (simp add: MD5Transform_def Let_def)
  show ?thesis
    using c length_absorb_state [of "MD5Transform st blk" MD5Transform for st blk, OF T T]
    by (simp add: md_update_def Let_def split: prod.splits) (metis fst_conv)
qed

lemma length_md5_of [simp]: "length (md5_of block) = 16"
proof -
  have "length (md_Encode st 16) = 16" if "length st = 4" for st
    using that by (simp add: md_Encode_def length_concat comp_def sum_list_triv del: le_bytes.simps)
  then show ?thesis
    by (simp add: md5_of_def MD5Final_def MD5Update_def md_final_def Let_def length_md5_state MD5Init_def)
qed

lemma rnd_inv_refill: "rnd_inv r \<Longrightarrow> rnd_inv (rnd_refill r)"
  by (simp add: rnd_inv_def rnd_refill_def)

lemma rnd_inv_update: "rnd_inv r \<Longrightarrow> rnd_inv (R_RandomUpdate r block)"
  by (simp add: rnd_inv_def R_RandomUpdate_def Let_def)

lemma rnd_generate_more:
  "outputAvailable r < len \<Longrightarrow> rnd_generate len r =
     (case rnd_generate (len - outputAvailable r) (rnd_refill r) of
        (out, r') \<Rightarrow> (take (outputAvailable r) (drop (16 - outputAvailable r) (rnd_output r)) @ out, r'))"
  by (subst rnd_generate.simps) (simp add: Let_def)

lemma rnd_generate_ready:
  "len \<le> outputAvailable r \<Longrightarrow> rnd_generate len r =
     (take len (drop (16 - outputAvailable r) (rnd_output r)), r\<lparr>outputAvailable := outputAvailable r - len\<rparr>)"
  by (subst rnd_generate.simps) (simp add: Let_def)

lemma rnd_generate_inv:
  "rnd_inv r \<Longrightarrow> rnd_generate len r = (out, r') \<Longrightarrow>
     rnd_inv r' \<and> length out = len \<and> bytesNeeded r' = bytesNeeded r"
proof (induction len r arbitrary: out r' rule: rnd_generate.induct)
  case (1 len r)
  show ?case
  proof (cases "outputAvailable r < len")
    case True
    obtain o1 r1 where g: "rnd_generate (len - outputAvailable r) (rnd_refill r) = (o1, r1)" by fastforce
    have "rnd_inv r1 \<and> length o1 = len - outputAvailable r \<and> bytesNeeded r1 = bytesNeeded (rnd_refill r)"
      using "1.IH" [OF refl refl True rnd_inv_refill [OF "1.prems"(1)] g] .
    then show ?thesis using "1.prems" True g
      by (auto simp: rnd_generate_more rnd_inv_def rnd_refill_def)
  next
    case False
    then show ?thesis using "1.prems" by (auto simp: rnd_generate_ready rnd_inv_def)
  qed
qed

text \<open>Two requests give the bytes of one: the output is one stream.\<close>

lemma rnd_generate_add:
  "rnd_inv r \<Longrightarrow> rnd_generate m r = (x, r1) \<Longrightarrow> rnd_generate n r1 = (y, r2) \<Longrightarrow>
     rnd_generate (m + n) r = (x @ y, r2)"
proof (induction m r arbitrary: x r1 rule: rnd_generate.induct)
  case (1 m r)
  show ?case
  proof (cases "outputAvailable r < m")
    case True
    obtain o1 where g: "rnd_generate (m - outputAvailable r) (rnd_refill r) = (o1, r1)"
      and x: "x = take (outputAvailable r) (drop (16 - outputAvailable r) (rnd_output r)) @ o1"
      using "1.prems"(2) True by (auto simp: rnd_generate_more split: prod.splits)
    have "rnd_generate (m - outputAvailable r + n) (rnd_refill r) = (o1 @ y, r2)"
      using "1.IH" [OF refl refl True rnd_inv_refill [OF "1.prems"(1)] g "1.prems"(3)] .
    then show ?thesis using True x by (simp add: rnd_generate_more)
  next
    case False
    let ?a = "outputAvailable r" and ?out = "rnd_output r"
    have a: "?a \<le> 16" "length ?out = 16" using "1.prems"(1) by (simp_all add: rnd_inv_def)
    have x: "x = take m (drop (16 - ?a) ?out)" and r1: "r1 = r\<lparr>outputAvailable := ?a - m\<rparr>"
      using "1.prems"(2) False by (auto simp: rnd_generate_ready)
    have spl: "drop (16 - (?a - m)) ?out = drop m (drop (16 - ?a) ?out)" using False a by (simp add: add.commute)
    have rf: "rnd_refill r1 = rnd_refill r" by (simp add: r1 rnd_refill_def)
    show ?thesis
    proof (cases "?a < m + n")
      case True
      then have "outputAvailable r1 < n" using False by (simp add: r1)
      then obtain o1 where g: "rnd_generate (n - (?a - m)) (rnd_refill r) = (o1, r2)"
        and y: "y = take (?a - m) (drop (16 - (?a - m)) ?out) @ o1"
        using "1.prems"(3) by (auto simp: rnd_generate_more rf, simp add: r1 split: prod.splits) 
      have "n - (?a - m) = m + n - ?a" using False by simp
      moreover have "take ?a D = take m D @ take (?a - m) (drop m D)" for D :: bytes
        using take_add [of m "?a - m" D] False by simp
      ultimately show ?thesis using True g
        by (simp add: rnd_generate_more x y [unfolded spl] del: drop_drop)
    next
      case nf: False
      then have "n \<le> outputAvailable r1" using False by (simp add: r1)
      then have y: "y = take n (drop (16 - (?a - m)) ?out)" and r2: "r2 = r\<lparr>outputAvailable := ?a - m - n\<rparr>"
        using "1.prems"(3) by (auto simp: rnd_generate_ready, simp_all add: r1)
      from nf False show ?thesis
        by (simp add: rnd_generate_ready x y [unfolded spl] r2 take_add del: drop_drop)
    qed
  qed
qed

text \<open>Adding a digest is addition modulo \<open>2 ^ 128\<close>.\<close>

lemma rnd_add_val:
  "length s = length d \<Longrightarrow> unat j \<le> 1 \<Longrightarrow>
     le_val (rnd_add j s d) = (le_val s + le_val d + unat j) mod 256 ^ length s"
proof (induction j s d rule: rnd_add.induct)
  case (1 j s ss d ds)
  define J where "J = j + (ucast s + ucast d)"
  have u8_16: "unat (ucast (b :: u8) :: u16) = unat b" for b
    using unat_u8_less [of b] by (simp add: unsigned_ucast_eq take_bit_eq_mod)
  have J: "unat J = unat j + unat s + unat d"
    using unat_u8_less [of s] unat_u8_less [of d] "1.prems"(2) by (simp add: J_def unat_plus_if' u8_16)
  have lo: "unat (ucast J :: u8) = unat J mod 256" by (simp add: unsigned_ucast_eq take_bit_eq_mod)
  have hi: "unat (drop_bit 8 J) = unat J div 256" by (simp only: unat_drop_bit_eq) (simp add: drop_bit_eq_div)
  have "unat J div 256 \<le> 1" using J unat_u8_less [of s] unat_u8_less [of d] "1.prems"(2) by simp
  with "1.IH" "1.prems"(1) have ih: "le_val (rnd_add (drop_bit 8 J) ss ds) =
      (le_val ss + le_val ds + unat J div 256) mod 256 ^ length ss"
    by (simp add: J_def [symmetric] hi)
  have "le_val (rnd_add j (s # ss) (d # ds)) =
      unat J mod 256 + 256 * ((le_val ss + le_val ds + unat J div 256) mod 256 ^ length ss)"
    by (simp add: Let_def J_def [symmetric] lo ih)
  also have "\<dots> = (unat J mod 256 + 256 * (le_val ss + le_val ds + unat J div 256)) mod (256 * 256 ^ length ss)"
    by (rule digit_mod [symmetric]) simp
  also have "unat J mod 256 + 256 * (le_val ss + le_val ds + unat J div 256) =
      le_val (s # ss) + le_val (d # ds) + unat j"
    using div_mult_mod_eq [of "unat J" 256] J by simp
  finally show ?case by simp
qed auto

lemma rnd_incr_val:
  "le_val (map (\<lambda>b. b - 1) (rnd_incr s)) = (le_val (map (\<lambda>b. b - 1) s) + 1) mod 256 ^ length s"
proof (induction s)
  case (Cons b s)
  let ?v = "le_val (map (\<lambda>b. b - 1) s)"
  show ?case
  proof (cases "b = 0")
    case True
    have "unat (- 1 :: u8) = 255" by (simp add: unsigned_minus_1_eq_mask mask_eq_exp_minus_1)
    moreover have "(256 + 256 * ?v) mod (256 * 256 ^ length s) = 256 * ((1 + ?v) mod 256 ^ length s)"
      using mult_mod_right [of 256 "1 + ?v" "256 ^ length s"] by (simp add: distrib_left)
    ultimately show ?thesis using Cons True by (simp add: add.commute)
  next
    case False
    then have "unat b = unat (b - 1) + 1" using unat_gt_0 [of b] by (simp add: unat_minus_one)
    moreover have "?v < 256 ^ length s" using le_val_less [of "map (\<lambda>b. b - 1) s"] by simp
    then have "unat b + 256 * ?v < 256 * 256 ^ length s"
      using unat_u8_less [of b] by linarith
    ultimately show ?thesis using False by simp
  qed
qed simp

end
