(* ===== verification/Digest_Props.thy ===== *)
theory Digest_Props
  imports MD45 SHS MD2 R_Random
begin

text \<open>
  The properties of the digests and of the random object.  The reference of a digest is
  the fold of its transformation over the blocks of the padded message, from the initial
  state.
\<close>

definition md_pad :: "bytes \<Rightarrow> bytes" where
  "md_pad m = m @ 0x80 # replicate ((119 - length m mod 64) mod 64) 0 @
                le_bytes 8 (of_nat (8 * length m) :: u64)"

definition md_IV :: "u32 list" where
  "md_IV = [0x67452301, 0xefcdab89, 0x98badcfe, 0x10325476]"

lemma md_init:
  assumes "length (buffer c) = 64"
  shows "md_inv (MD5Init c)" "md_obs (MD5Init c) = (md_IV, [])" "md_bits (MD5Init c) = 0"
    "MD4Init c = MD5Init c"
  using assms
  by (simp_all add: md_inv_def md_obs_def md_bits_def MD5Init_def MD4Init_def md_IV_def bits64_def
      count_index_def)

lemma md_streaming:
  "md_digest T (absorb 64 T iv m) (md_bump 0 (length m)) =
     md_Encode (fst (absorb 64 T iv (md_pad m))) 16"
  by (simp only: md_digest_def md_pad_def md_bump_def add_0 of_nat_mod_64 digest_pad)

text \<open>C16. MD5 over any number of \<^verbatim>\<open>MD5Update\<close> calls: the digest is the one of the
  concatenated input, padded with \<open>0x80\<close>, zeros and the bit length to whole blocks, and
  does not depend on how the input was cut into pieces.\<close>

theorem MD5_streaming:
  assumes "length (buffer ctx) = 64" "\<forall>xs \<in> set xss. length xs + 64 \<le> 2 ^ 32" "xss \<noteq> []"
  shows "fst (MD5Final (fold (\<lambda>xs c. MD5Update c xs) xss (MD5Init ctx))) =
           md_Encode (fst (absorb 64 MD5Transform md_IV (md_pad (concat xss)))) 16"
proof -
  note i = md_init [OF assms(1)]
  have "\<forall>xs \<in> set xss. md_fits xs" using assms(2) by (simp add: md_fits_def)
  from md5.digest_concat [OF i(1) this assms(3)] show ?thesis by (simp add: i md_streaming)
qed

theorem MD5_streaming_witness:
  "fst (MD5Final (fold (\<lambda>xs c. MD5Update c xs) [[1, 2], [3]] (MD5Init md_zero))) =
     md_Encode (fst (absorb 64 MD5Transform md_IV (md_pad [1, 2, 3]))) 16"
  using MD5_streaming [of md_zero "[[1, 2], [3]]"] by (simp add: md_zero_def)

text \<open>The same for MD4.\<close>

theorem MD4_streaming:
  assumes "length (buffer ctx) = 64" "\<forall>xs \<in> set xss. length xs + 64 \<le> 2 ^ 32" "xss \<noteq> []"
  shows "fst (MD4Final (fold (\<lambda>xs c. MD4Update c xs) xss (MD4Init ctx))) =
           md_Encode (fst (absorb 64 MD4Transform md_IV (md_pad (concat xss)))) 16"
proof -
  note i = md_init [OF assms(1)]
  have "\<forall>xs \<in> set xss. md_fits xs" using assms(2) by (simp add: md_fits_def)
  from md4.digest_concat [OF i(1) this assms(3)] show ?thesis by (simp add: i md_streaming)
qed

theorem MD4_streaming_witness:
  "fst (MD4Final (fold (\<lambda>xs c. MD4Update c xs) [[1, 2], [3]] (MD4Init md_zero))) =
     md_Encode (fst (absorb 64 MD4Transform md_IV (md_pad [1, 2, 3]))) 16"
  using MD4_streaming [of md_zero "[[1, 2], [3]]"] by (simp add: md_zero_def)

text \<open>SHS: the digest of the pieces is the big-endian encoding of the fold over the
  padded concatenation, although the code keeps the buffer byte-reversed after each
  block and builds the last block in place.\<close>

theorem SHS_streaming:
  assumes "length (shs_data ctx) = 64" "\<forall>xs \<in> set xss. length xs < 2 ^ 31" "xss \<noteq> []"
  shows "fst (SHSFinal (fold (\<lambda>xs c. SHSUpdate c xs) xss (SHSInit ctx))) =
           shs_Encode (take 5 (fst (absorb 64 shs_T shs_IV (shs_pad (concat xss)))))"
proof -
  have i: "shs_inv (SHSInit ctx)" "shs_obs (SHSInit ctx) = (shs_IV, [])" "shs_bits (SHSInit ctx) = 0"
    using assms(1)
    by (simp_all add: shs_inv_def shs_obs_def shs_bits_def SHSInit_def shs_IV_def bits64_def count_index_def)
  have "\<forall>xs \<in> set xss. shs_fits xs" using assms(2) by (simp add: shs_fits_def)
  from shs.digest_concat [OF i(1) this assms(3)] show ?thesis
    by (simp only: i fst_conv snd_conv append_Nil shs_fin_def shs_pad_def shs_bump_def add_0 of_nat_mod_64 digest_pad)
qed

theorem SHS_streaming_witness:
  "fst (SHSFinal (fold (\<lambda>xs c. SHSUpdate c xs) [[1, 2], [3]] (SHSInit SHS_zero))) =
     shs_Encode (take 5 (fst (absorb 64 shs_T shs_IV (shs_pad [1, 2, 3]))))"
  using SHS_streaming [of SHS_zero "[[1, 2], [3]]"] by (simp add: SHS_zero_def)

text \<open>MD2: the digest of the pieces is that of their concatenation, padded with \<open>n\<close>
  bytes \<open>n\<close> to whole blocks and followed by the block of the checksum.\<close>

theorem MD2_streaming:
  assumes "length (md2_buffer ctx) = 16" "xss \<noteq> []"
  shows "fst (MD2Final (fold (\<lambda>xs c. MD2Update c xs) xss (MD2Init ctx))) =
    (let m = concat xss; n = 16 - length m mod 16;
         sc = fst (absorb 16 MD2Transform (replicate 16 0, replicate 16 0) (m @ replicate n (of_nat n)))
     in fst (fst (absorb 16 MD2Transform sc (snd sc))))"
proof -
  have i: "md2_inv (MD2Init ctx)" "md2_obs (MD2Init ctx) = ((replicate 16 0, replicate 16 0), [])"
    using assms(1) by (simp_all add: md2_inv_def md2_obs_def MD2Init_def)
  let ?A = "absorb 16 MD2Transform (replicate 16 0, replicate 16 0)"
  have "absorb 16 MD2Transform (fst (?A m)) (snd (?A m) @ t) = ?A (m @ t)" for m t
    by (rule absorb_append [symmetric]) simp
  with md2.digest_concat [OF i(1) _ assms(2)] show ?thesis
    by (simp add: i md2_digest_def Let_def absorb_rest)
qed

theorem MD2_streaming_witness:
  "fst (MD2Final (fold (\<lambda>xs c. MD2Update c xs) [[1, 2], [3]] (MD2Init MD2_zero))) =
    (let sc = fst (absorb 16 MD2Transform (replicate 16 0, replicate 16 0) ([1, 2, 3] @ replicate 13 13))
     in fst (fst (absorb 16 MD2Transform sc (snd sc))))"
  using MD2_streaming [of MD2_zero "[[1, 2], [3]]"] by (simp add: MD2_zero_def)

text \<open>\<^verbatim>\<open>R_GenerateBytes\<close> delivers one stream: asking for \<open>m\<close> bytes and then for
  \<open>n\<close> gives the same bytes, and leaves the same object, as asking for \<open>m + n\<close>.\<close>

theorem R_GenerateBytes_stream:
  assumes "rnd_inv r" "R_GenerateBytes m r = Inr (x, r1)" "R_GenerateBytes n r1 = Inr (y, r2)"
  shows "R_GenerateBytes (m + n) r = Inr (x @ y, r2) \<and> length x = m \<and> length y = n \<and> rnd_inv r2"
proof -
  from assms(2) have n: "bytesNeeded r = 0" and g1: "rnd_generate m r = (x, r1)"
    by (auto simp: R_GenerateBytes_def split: if_splits)
  from assms(3) have g2: "rnd_generate n r1 = (y, r2)"
    by (auto simp: R_GenerateBytes_def split: if_splits)
  from rnd_generate_inv [OF assms(1) g1] rnd_generate_inv [OF _ g2] rnd_generate_add [OF assms(1) g1 g2]
  show ?thesis by (simp add: R_GenerateBytes_def n)
qed

theorem R_GenerateBytes_stream_witness:
  "R_GenerateBytes (2 + 1) \<lparr>bytesNeeded = 0, rnd_state = replicate 16 0, outputAvailable = 3,
      rnd_output = replicate 13 0 @ [7, 8, 9]\<rparr> =
   Inr ([7, 8] @ [9], \<lparr>bytesNeeded = 0, rnd_state = replicate 16 0, outputAvailable = 0,
      rnd_output = replicate 13 0 @ [7, 8, 9]\<rparr>)"
proof -
  let ?r = "\<lambda>n. \<lparr>bytesNeeded = 0, rnd_state = replicate 16 0, outputAvailable = n,
      rnd_output = replicate 13 0 @ [7, 8, 9 :: u8]\<rparr>"
  have "rnd_inv (?r 3)" by (simp add: rnd_inv_def)
  moreover have "R_GenerateBytes 2 (?r 3) = Inr ([7, 8], ?r 1)"
    by (simp add: R_GenerateBytes_def rnd_generate_ready)
  moreover have "R_GenerateBytes 1 (?r 1) = Inr ([9], ?r 0)"
    by (simp add: R_GenerateBytes_def rnd_generate_ready)
  ultimately show ?thesis by (rule R_GenerateBytes_stream [THEN conjunct1])
qed

text \<open>The generator's state is a 128-bit counter: with every byte read as itself minus
  one, \<open>k\<close> refills of the output add \<open>k\<close> modulo \<open>2^128\<close>, so the state does not recur
  before \<open>2^128\<close> refills although the carry loop tests the byte before its increment.\<close>

theorem R_Random_counter:
  assumes "length (rnd_state r) = 16"
  shows "be_val (map (\<lambda>b. b - 1) (rnd_state ((rnd_refill ^^ k) r))) =
           (be_val (map (\<lambda>b. b - 1) (rnd_state r)) + k) mod 256 ^ 16 \<and>
         (0 < k \<and> k < 256 ^ 16 \<longrightarrow> rnd_state ((rnd_refill ^^ k) r) \<noteq> rnd_state r)"
proof -
  let ?v = "\<lambda>s. be_val (map (\<lambda>b. b - 1) s)"
  have len: "length (rnd_state ((rnd_refill ^^ k) r)) = 16" for k
    using assms by (induction k) (simp_all add: rnd_refill_def)
  have val: "?v (rnd_state ((rnd_refill ^^ k) r)) = (?v (rnd_state r) + k) mod 256 ^ 16" for k
  proof (induction k)
    case 0
    then show ?case using be_val_less [of "map (\<lambda>b. b - 1) (rnd_state r)"] assms by simp
  next
    case (Suc k)
    let ?s = "rnd_state ((rnd_refill ^^ k) r)"
    have "?v (rnd_state (rnd_refill ((rnd_refill ^^ k) r))) = (?v ?s + 1) mod 256 ^ 16"
      using rnd_incr_val [of "rev ?s"] len [of k] by (simp add: rnd_refill_def be_val_def rev_map)
    also have "\<dots> = (?v (rnd_state r) + Suc k) mod 256 ^ 16"
      unfolding Suc by (subst mod_add_left_eq) simp
    finally show ?case by simp
  qed
  have "rnd_state ((rnd_refill ^^ k) r) \<noteq> rnd_state r" if k: "0 < k" "k < 256 ^ 16"
  proof
    assume "rnd_state ((rnd_refill ^^ k) r) = rnd_state r"
    then have "(?v (rnd_state r) + k) mod 256 ^ 16 = ?v (rnd_state r)" using val [of k] by simp
    also have "\<dots> = ?v (rnd_state r) mod 256 ^ 16" using val [of 0] by simp
    finally have "256 ^ 16 dvd k" by (metis add_diff_cancel_left' le_add1 mod_eq_dvd_iff_nat)
    with k show False by (auto dest: dvd_imp_le)
  qed
  with val show ?thesis by blast
qed

theorem R_Random_counter_witness:
  "rnd_state ((rnd_refill ^^ 5) (R_RandomInit \<lparr>bytesNeeded = 0, rnd_state = [], outputAvailable = 0, rnd_output = []\<rparr>))
     \<noteq> replicate 16 0"
  using R_Random_counter [of "R_RandomInit \<lparr>bytesNeeded = 0, rnd_state = [], outputAvailable = 0, rnd_output = []\<rparr>" 5]
  by (simp add: R_RandomInit_def)

end
