(* ===== verification/Fermat.thy ===== *)
theory Fermat
  imports Complex_Main
begin

text \<open>
  The number theory that the RSA code rests on: Fermat's little theorem, and the Chinese
  remainder step for two primes.  Primality is the bounded trial division, so that it
  can be evaluated.
\<close>

definition is_prime :: "nat \<Rightarrow> bool" where
  "is_prime p \<longleftrightarrow> 1 < p \<and> (\<forall>m \<in> {2..<p}. \<not> m dvd p)"

lemma prime_gt_1: "is_prime p \<Longrightarrow> 1 < p"
  by (simp add: is_prime_def)

lemma prime_coprime:
  assumes "is_prime p" "\<not> p dvd a"
  shows "coprime p a"
proof -
  let ?g = "gcd p a"
  have "0 < ?g" "?g \<le> p" using prime_gt_1 [OF assms(1)] by (auto intro: dvd_imp_le)
  moreover have "?g \<noteq> p" using assms(2) by (metis gcd_dvd2)
  moreover have "?g \<notin> {2..<p}" using assms(1) gcd_dvd1 [of p a] unfolding is_prime_def by blast
  ultimately have "?g = 1" unfolding atLeastLessThan_iff by linarith
  then show ?thesis by (simp add: coprime_iff_gcd_eq_1)
qed

lemma prime_dvd_mult:
  assumes "is_prime p" "p dvd a * b" "\<not> p dvd a"
  shows "p dvd b"
  using prime_coprime [OF assms(1,3)] assms(2) by (simp add: coprime_dvd_mult_right_iff)

lemma prime_dvd_binomial:
  assumes "is_prime p" "0 < k" "k < p"
  shows "p dvd (p choose k)"
proof -
  have "k * (p choose k) = p * ((p - 1) choose (k - 1))"
    using times_binomial_minus1_eq [OF assms(2), of p] by simp
  then have "p dvd k * (p choose k)" by simp
  moreover have "\<not> p dvd k" using assms(2,3) by (auto dest: dvd_imp_le)
  ultimately show ?thesis by (rule prime_dvd_mult [OF assms(1)])
qed

lemma fermat_power:
  assumes "is_prime p"
  shows "a ^ p mod p = a mod p"
proof (induction a)
  case 0
  then show ?case using prime_gt_1 [OF assms] by (simp add: power_0_left)
next
  case (Suc a)
  have p: "{..p} = insert 0 (insert p {0<..<p})" using prime_gt_1 [OF assms] by auto
  have "(a + 1) ^ p = (\<Sum>k\<le>p. of_nat (p choose k) * a ^ k * 1 ^ (p - k))"
    by (rule binomial_ring)
  also have "\<dots> = (1 + a ^ p) + (\<Sum>k\<in>{0<..<p}. (p choose k) * a ^ k)"
    using prime_gt_1 [OF assms] by (simp add: p)
  finally have "(a + 1) ^ p = (1 + a ^ p) + (\<Sum>k\<in>{0<..<p}. (p choose k) * a ^ k)" .
  moreover have "p dvd (\<Sum>k\<in>{0<..<p}. (p choose k) * a ^ k)"
    using prime_dvd_binomial [OF assms] by (intro dvd_sum) auto
  ultimately have "(a + 1) ^ p mod p = (1 + a ^ p) mod p"
    by (metis dvd_eq_mod_eq_0 mod_add_right_eq add.right_neutral)
  also have "\<dots> = (1 + a) mod p" using Suc by (metis mod_add_right_eq)
  finally show ?case by simp
qed

lemma fermat:
  assumes "is_prime p" "\<not> p dvd a"
  shows "a ^ (p - 1) mod p = 1"
proof -
  have "p = Suc (p - 1)" using prime_gt_1 [OF assms(1)] by simp
  then have "(a * a ^ (p - 1)) mod p = (a * 1) mod p"
    using fermat_power [OF assms(1), of a] by (metis mult.right_neutral power_Suc)
  moreover have ge: "1 \<le> a ^ (p - 1)" using assms(2) by (cases a) auto
  then have "a * 1 \<le> a * a ^ (p - 1)" by (rule mult_le_mono2)
  ultimately have "p dvd a * a ^ (p - 1) - a * 1" by (simp only: mod_eq_dvd_iff_nat)
  then have "p dvd a * (a ^ (p - 1) - 1)" by (simp only: diff_mult_distrib2)
  from prime_dvd_mult [OF assms(1) this assms(2)] have "p dvd a ^ (p - 1) - 1" .
  with ge have "a ^ (p - 1) mod p = 1 mod p" by (simp only: mod_eq_dvd_iff_nat)
  then show ?thesis using prime_gt_1 [OF assms(1)] by simp
qed

lemma fermat_exponent:
  assumes "is_prime p" "ed mod (p - 1) = 1 mod (p - 1)" "0 < ed"
  shows "a ^ ed mod p = a mod p"
proof (cases "p dvd a")
  case True
  moreover from this have "p dvd a ^ ed" using assms(3) by (simp add: dvd_power_le dvd_trans)
  ultimately show ?thesis by (simp add: dvd_eq_mod_eq_0)
next
  case False
  have "1 \<le> ed" using assms(3) by simp
  from mod_eq_dvd_iff_nat [OF this, of "p - 1"] have "p - 1 dvd ed - 1" using assms(2) by (rule iffD1)
  then obtain k where "ed - 1 = (p - 1) * k" ..
  then have "ed = Suc ((p - 1) * k)" using assms(3) by simp
  then have "a ^ ed mod p = a * (a ^ (p - 1)) ^ k mod p" by (simp add: power_mult)
  also have "\<dots> = a * (a ^ (p - 1) mod p) ^ k mod p" by (metis mod_mult_right_eq power_mod)
  also have "\<dots> = a mod p" using fermat [OF assms(1) False] by simp
  finally show ?thesis .
qed

lemma primes_coprime:
  assumes "is_prime p" "is_prime q" "p \<noteq> q"
  shows "coprime p q"
proof (rule prime_coprime [OF assms(1)])
  show "\<not> p dvd q"
  proof
    assume d: "p dvd q"
    then have "p \<le> q" using prime_gt_1 [OF assms(2)] by (simp add: dvd_imp_le)
    then have "p \<in> {2..<q}" using assms(3) prime_gt_1 [OF assms(1)] by auto
    then show False using assms(2) d by (auto simp: is_prime_def)
  qed
qed

lemma crt_unique_le:
  assumes "coprime p q" "x mod p = y mod p" "x mod q = y mod q" "y < p * q" "x \<le> (y :: nat)"
  shows "x = y"
proof -
  have "p dvd y - x" "q dvd y - x"
    using mod_eq_dvd_iff_nat [OF assms(5), of p] mod_eq_dvd_iff_nat [OF assms(5), of q] assms(2,3) by simp_all
  then have "p * q dvd y - x" using assms(1) by (simp add: divides_mult)
  moreover have "y - x < p * q" using assms(4) by simp
  ultimately have "y - x = 0" by (metis dvd_imp_le gr0I leD)
  then show ?thesis using assms(5) by simp
qed

lemma crt_unique:
  assumes "coprime p q" "x mod p = y mod p" "x mod q = y mod q" "x < p * q" "y < p * q"
  shows "x = (y :: nat)"
proof (cases "x \<le> y")
  case True
  then show ?thesis using crt_unique_le [OF assms(1-3,5)] by simp
next
  case False
  then show ?thesis using crt_unique_le [OF assms(1) assms(2,3) [symmetric] assms(4)] by simp
qed

end
