(* ===== verification/RSA.thy ===== *)
theory RSA
  imports NN_Mod R_Random Fermat
begin

text \<open>
  \<^verbatim>\<open>HBase/RSAEuro/rsa.c\<close>: RSA with the block formats of PKCS #1.  A function that fills an
  output block returns \<open>Some (Inr output)\<close>, an error code is \<open>Some (Inl code)\<close>, and \<open>None\<close>
  is a loop that does not end.  Clearing the local arrays has no effect on the result.
\<close>

definition MAX_RSA_MODULUS_LEN :: nat where "MAX_RSA_MODULUS_LEN = 128"
definition MAX_RSA_PRIME_LEN :: nat where "MAX_RSA_PRIME_LEN = 64"

definition RE_DATA :: int where "RE_DATA = 0x401"
definition RE_LEN :: int where "RE_LEN = 0x406"

record R_RSA_PUBLIC_KEY =
  pub_bits :: nat
  pub_modulus :: bytes
  pub_exponent :: bytes

record R_RSA_PRIVATE_KEY =
  bits :: nat
  modulus :: bytes
  publicExponent :: bytes
  exponent :: bytes
  prime0 :: bytes
  prime1 :: bytes
  primeExponent0 :: bytes
  primeExponent1 :: bytes
  coefficient :: bytes

section \<open>The raw operations\<close>

definition rsapublicfunc :: "bytes \<Rightarrow> R_RSA_PUBLIC_KEY \<Rightarrow> (int + bytes) option" where
  "rsapublicfunc input key =
     (let m = NN_Decode MAX_NN_DIGITS input;
          n = NN_Decode MAX_NN_DIGITS (pub_modulus key);
          e = NN_Decode MAX_NN_DIGITS (pub_exponent key);
          nDigits = NN_Digits n MAX_NN_DIGITS;
          eDigits = NN_Digits e MAX_NN_DIGITS
      in if NN_Cmp m n nDigits \<ge> 0 then Some (Inl RE_DATA)
         else do {
           let outputLen = (pub_bits key + 7) div 8;
           c \<leftarrow> NN_ModExp m e eDigits n nDigits;
           Some (Inr (NN_Encode outputLen c nDigits))
         })"

text \<open>
  Chinese Remainder Theorem: \<open>m = ((((mP - mQ) mod p) * qInv) mod p) * q + mQ\<close>, on the
  zero-extended \<open>mP\<close> and \<open>mQ\<close>.
\<close>

definition rsa_crt :: "nn \<Rightarrow> nn \<Rightarrow> nn \<Rightarrow> nn \<Rightarrow> nn \<Rightarrow> nat \<Rightarrow> nat \<Rightarrow> nn option" where
  "rsa_crt mP mQ p q qInv pDigits nDigits = do {
     let t = (if NN_Cmp mP mQ pDigits \<ge> 0 then fst (NN_Sub mP mQ pDigits)
              else fst (NN_Sub p (fst (NN_Sub mQ mP pDigits)) pDigits));
     t \<leftarrow> NN_ModMult t t qInv p pDigits;
     let t = NN_Mult t q pDigits;
     Some (fst (NN_Add t mQ nDigits))
   }"

definition rsaprivatefunc :: "bytes \<Rightarrow> R_RSA_PRIVATE_KEY \<Rightarrow> (int + bytes) option" where
  "rsaprivatefunc input key =
     (let c = NN_Decode MAX_NN_DIGITS input;
          p = NN_Decode MAX_NN_DIGITS (prime0 key);
          q = NN_Decode MAX_NN_DIGITS (prime1 key);
          dP = NN_Decode MAX_NN_DIGITS (primeExponent0 key);
          dQ = NN_Decode MAX_NN_DIGITS (primeExponent1 key);
          n = NN_Decode MAX_NN_DIGITS (modulus key);
          qInv = NN_Decode MAX_NN_DIGITS (coefficient key);
          cDigits = NN_Digits c MAX_NN_DIGITS;
          pDigits = NN_Digits p MAX_NN_DIGITS;
          nDigits = NN_Digits n MAX_NN_DIGITS;
          unset = NN_AssignZero MAX_NN_DIGITS
      in if NN_Cmp c n nDigits \<ge> 0 then Some (Inl RE_DATA)
         else do {
           let outputLen = (bits key + 7) div 8;
           cP \<leftarrow> NN_Mod unset c cDigits p pDigits;
           cQ \<leftarrow> NN_Mod unset c cDigits q pDigits;
           mP \<leftarrow> NN_ModExp cP dP pDigits p pDigits;
           mQ \<leftarrow> NN_ModExp cQ dQ pDigits q pDigits;
           t \<leftarrow> rsa_crt (mem_write (NN_AssignZero nDigits) 0 mP) (mem_write (NN_AssignZero nDigits) 0 mQ)
                 p q qInv pDigits nDigits;
           Some (Inr (NN_Encode outputLen t nDigits))
         })"

section \<open>The PKCS #1 blocks\<close>

text \<open>\<^verbatim>\<open>for (i = 2; i < modulusLen-1; i++) if (stop) break;\<close> from \<open>i\<close> on.\<close>

function pkcs_scan :: "(u8 \<Rightarrow> bool) \<Rightarrow> bytes \<Rightarrow> nat \<Rightarrow> nat \<Rightarrow> nat" where
  "pkcs_scan stop block bound i =
     (if i < bound then if stop (block ! i) then i else pkcs_scan stop block bound (i + 1) else i)"
  by pat_completeness auto
termination by (relation "measure (\<lambda>(s, b, n, i). n - i)") auto

declare pkcs_scan.simps [simp del]

text \<open>\<^verbatim>\<open>do R_GenerateBytes(&byte, 1, randomStruct); while (byte == 0);\<close>\<close>

partial_function (option) random_nonzero :: "R_RANDOM_STRUCT \<Rightarrow> (u8 \<times> R_RANDOM_STRUCT) option" where
  "random_nonzero random =
     (case R_GenerateBytes 1 random of
        Inl _ \<Rightarrow> None
      | Inr (byte, random) \<Rightarrow>
          if byte ! 0 = 0 then random_nonzero random else Some (byte ! 0, random))"

fun random_padding :: "nat \<Rightarrow> R_RANDOM_STRUCT \<Rightarrow> (bytes \<times> R_RANDOM_STRUCT) option" where
  "random_padding 0 random = Some ([], random)"
| "random_padding (Suc n) random = do {
     (byte, random) \<leftarrow> random_nonzero random;
     (rest, random) \<leftarrow> random_padding n random;
     Some (byte # rest, random)
   }"

definition RSAPublicEncrypt ::
  "bytes \<Rightarrow> R_RSA_PUBLIC_KEY \<Rightarrow> R_RANDOM_STRUCT \<Rightarrow> ((int + bytes) \<times> R_RANDOM_STRUCT) option" where
  "RSAPublicEncrypt input publicKey random =
     (let modulusLen = (pub_bits publicKey + 7) div 8; inputLen = length input
      in if inputLen + 11 > modulusLen then Some (Inl RE_LEN, random)
         else if R_GetRandomBytesNeeded random \<noteq> 0 then Some (Inl RE_NEED_RANDOM, random)
         else do {
           (pad, random) \<leftarrow> random_padding (modulusLen - inputLen - 3) random;
           let pkcsBlock = [0, 2] @ pad @ [0] @ input;
           status \<leftarrow> rsapublicfunc pkcsBlock publicKey;
           Some (status, random)
         })"

definition RSAPrivateDecrypt :: "bytes \<Rightarrow> R_RSA_PRIVATE_KEY \<Rightarrow> (int + bytes) option" where
  "RSAPrivateDecrypt input privateKey =
     (let modulusLen = (bits privateKey + 7) div 8
      in if length input > modulusLen then Some (Inl RE_LEN)
         else do {
           status \<leftarrow> rsaprivatefunc input privateKey;
           case status of
             Inl e \<Rightarrow> Some (Inl e)
           | Inr pkcsBlock \<Rightarrow>
               if length pkcsBlock \<noteq> modulusLen then Some (Inl RE_LEN)
               else if pkcsBlock ! 0 \<noteq> 0 \<or> pkcsBlock ! 1 \<noteq> 2 then Some (Inl RE_DATA)
               else
                 let i = pkcs_scan (\<lambda>b. b = 0) pkcsBlock (modulusLen - 1) 2 + 1
                 in if i \<ge> modulusLen then Some (Inl RE_DATA)
                    else if (modulusLen - i) + 11 > modulusLen then Some (Inl RE_DATA)
                    else Some (Inr (drop i pkcsBlock))
         })"

definition RSAPrivateEncrypt :: "bytes \<Rightarrow> R_RSA_PRIVATE_KEY \<Rightarrow> (int + bytes) option" where
  "RSAPrivateEncrypt input privateKey =
     (let modulusLen = (bits privateKey + 7) div 8; inputLen = length input
      in if inputLen + 11 > modulusLen then Some (Inl RE_LEN)
         else rsaprivatefunc ([0, 1] @ replicate (modulusLen - inputLen - 3) 0xff @ [0] @ input) privateKey)"

definition RSAPublicDecrypt :: "bytes \<Rightarrow> R_RSA_PUBLIC_KEY \<Rightarrow> (int + bytes) option" where
  "RSAPublicDecrypt input publicKey =
     (let modulusLen = (pub_bits publicKey + 7) div 8
      in if length input > modulusLen then Some (Inl RE_LEN)
         else do {
           status \<leftarrow> rsapublicfunc input publicKey;
           case status of
             Inl e \<Rightarrow> Some (Inl e)
           | Inr pkcsBlock \<Rightarrow>
               if length pkcsBlock \<noteq> modulusLen then Some (Inl RE_LEN)
               else if pkcsBlock ! 0 \<noteq> 0 \<or> pkcsBlock ! 1 \<noteq> 1 then Some (Inl RE_DATA)
               else
                 let i = pkcs_scan (\<lambda>b. b \<noteq> 0xff) pkcsBlock (modulusLen - 1) 2
                 in if pkcsBlock ! i \<noteq> 0 then Some (Inl RE_DATA)
                    else
                      let i = i + 1
                      in if (modulusLen - i) + 11 > modulusLen then Some (Inl RE_DATA)
                         else Some (Inr (drop i pkcsBlock))
         })"

section \<open>Key pairs\<close>

text \<open>
  What makes two key structures belong together: equal moduli of the length that
  \<^verbatim>\<open>bits\<close> gives, two primes with \<open>p > q\<close> and CRT exponents that invert \<open>e\<close>.
\<close>

definition rsa_key_pair :: "R_RSA_PUBLIC_KEY \<Rightarrow> R_RSA_PRIVATE_KEY \<Rightarrow> bool" where
  "rsa_key_pair pk sk \<longleftrightarrow>
     (let n = be_val (pub_modulus pk); e = be_val (pub_exponent pk);
          p = be_val (prime0 sk); q = be_val (prime1 sk);
          dP = be_val (primeExponent0 sk); dQ = be_val (primeExponent1 sk);
          qInv = be_val (coefficient sk)
      in bits sk = pub_bits pk \<and> modulus sk = pub_modulus pk \<and>
         length (pub_modulus pk) = MAX_RSA_MODULUS_LEN \<and> length (pub_exponent pk) = MAX_RSA_MODULUS_LEN \<and>
         length (prime0 sk) = MAX_RSA_PRIME_LEN \<and> length (prime1 sk) = MAX_RSA_PRIME_LEN \<and>
         length (primeExponent0 sk) = MAX_RSA_PRIME_LEN \<and> length (primeExponent1 sk) = MAX_RSA_PRIME_LEN \<and>
         length (coefficient sk) = MAX_RSA_PRIME_LEN \<and>
         is_prime p \<and> is_prime q \<and> q < p \<and> n = p * q \<and>
         2 ^ (pub_bits pk - 1) \<le> n \<and> n < 2 ^ pub_bits pk \<and>
         0 < e \<and> 0 < dP \<and> dP < p \<and> 0 < dQ \<and> dQ < q \<and> qInv < p \<and>
         (e * dP) mod (p - 1) = 1 mod (p - 1) \<and> (e * dQ) mod (q - 1) = 1 mod (q - 1) \<and>
         (q * qInv) mod p = 1)"


text \<open>
  What the operations need of that: the exponents undo each other modulo either factor.  Primes give it by
  Fermat's theorem.
\<close>

definition rsa_key :: "R_RSA_PUBLIC_KEY \<Rightarrow> R_RSA_PRIVATE_KEY \<Rightarrow> bool" where
  "rsa_key pk sk \<longleftrightarrow>
     (let n = be_val (pub_modulus pk); e = be_val (pub_exponent pk);
          p = be_val (prime0 sk); q = be_val (prime1 sk);
          dP = be_val (primeExponent0 sk); dQ = be_val (primeExponent1 sk);
          qInv = be_val (coefficient sk)
      in bits sk = pub_bits pk \<and> modulus sk = pub_modulus pk \<and>
         length (pub_modulus pk) = MAX_RSA_MODULUS_LEN \<and> length (pub_exponent pk) = MAX_RSA_MODULUS_LEN \<and>
         length (prime0 sk) = MAX_RSA_PRIME_LEN \<and> length (prime1 sk) = MAX_RSA_PRIME_LEN \<and>
         length (primeExponent0 sk) = MAX_RSA_PRIME_LEN \<and> length (primeExponent1 sk) = MAX_RSA_PRIME_LEN \<and>
         length (coefficient sk) = MAX_RSA_PRIME_LEN \<and>
         1 < q \<and> coprime p q \<and> q < p \<and> n = p * q \<and>
         2 ^ (pub_bits pk - 1) \<le> n \<and> n < 2 ^ pub_bits pk \<and>
         0 < e \<and> 0 < dP \<and> dP < p \<and> 0 < dQ \<and> dQ < q \<and> qInv < p \<and>
         (\<forall>m. m ^ (e * dP) mod p = m mod p) \<and> (\<forall>m. m ^ (e * dQ) mod q = m mod q) \<and>
         (q * qInv) mod p = 1)"

lemma rsa_key_pair_key: "rsa_key_pair pk sk \<Longrightarrow> rsa_key pk sk"
  unfolding rsa_key_pair_def rsa_key_def Let_def
  by (elim conjE, intro conjI allI;
      (assumption | rule fermat_exponent primes_coprime prime_gt_1 less_imp_neq [THEN not_sym] | simp only: nat_0_less_mult_iff | simp)+)

section \<open>The raw operations compute RSA\<close>

lemma MAX_NN_DIGITS_eq: "MAX_NN_DIGITS = 33"
  by (simp add: MAX_NN_DIGITS_def)

lemma be_val_inj: "length a = length b \<Longrightarrow> be_val a = be_val b \<Longrightarrow> a = b"
  unfolding be_val_def using le_val_inj [of "rev a" "rev b"] by simp

lemma decode_val: "length b \<le> 128 \<Longrightarrow> nn_val (NN_Decode MAX_NN_DIGITS b) = be_val b"
proof -
  assume "length b \<le> 128"
  then have "(256 :: nat) ^ length b \<le> 256 ^ 128" by (intro power_increasing) auto
  then have "be_val b < 256 ^ 128" using be_val_less [of b] by linarith
  also have "(256 :: nat) ^ 128 \<le> 2 ^ (32 * MAX_NN_DIGITS)" by (simp add: MAX_NN_DIGITS_eq)
  finally show ?thesis by (simp add: NN_Decode_val)
qed

text \<open>What the array of a decoded number and its significant digits stand for.\<close>

lemma decode_digits:
  assumes "length b \<le> 128" "a = NN_Decode MAX_NN_DIGITS b" "k = NN_Digits a MAX_NN_DIGITS"
  shows "length a = MAX_NN_DIGITS" "nn_val a = be_val b" "k \<le> MAX_NN_DIGITS" "nn_val (take k a) = be_val b"
    "be_val b < 2 ^ (32 * k)"
proof -
  show l: "length a = MAX_NN_DIGITS" by (simp add: assms(2))
  show v: "nn_val a = be_val b" using assms(1,2) by (simp add: decode_val)
  show k: "k \<le> MAX_NN_DIGITS" by (simp add: assms(3) NN_Digits_le)
  show t: "nn_val (take k a) = be_val b" using l v by (simp add: assms(3) NN_Digits_val)
  show "be_val b < 2 ^ (32 * k)" using nn_val_less [of "take k a"] t l k by simp
qed

lemma take_digits_less:
  assumes "nn_val a < 2 ^ (32 * k)" "k \<le> length a"
  shows "nn_val (take k a) = nn_val a"
  using assms by (simp add: nn_val_take)

lemma modulus_len:
  assumes "n < 2 ^ nb"
  shows "(n :: nat) < 256 ^ ((nb + 7) div 8)"
proof -
  have "(2 :: nat) ^ nb \<le> 2 ^ (8 * ((nb + 7) div 8))" by (intro power_increasing) auto
  also have "\<dots> = 256 ^ ((nb + 7) div 8)" by (simp add: power_mult)
  finally show ?thesis using assms by simp
qed

lemma encode_val:
  assumes "length c = k" "nn_val c < 256 ^ len"
  shows "be_val (NN_Encode len c k) = nn_val c"
  using assms by (simp add: NN_Encode_val)

lemma rsapublicfunc_val:
  assumes "length (pub_modulus pk) \<le> 128" "length (pub_exponent pk) \<le> 128" "length input \<le> 128"
    "n = be_val (pub_modulus pk)" "e = be_val (pub_exponent pk)"
    "0 < e" "n < 2 ^ pub_bits pk" "be_val input < n"
  shows "\<exists>out. rsapublicfunc input pk = Some (Inr out) \<and> length out = (pub_bits pk + 7) div 8 \<and>
           be_val out = be_val input ^ e mod n"
proof -
  define m N E where "m = NN_Decode MAX_NN_DIGITS input"
    and "N = NN_Decode MAX_NN_DIGITS (pub_modulus pk)" and "E = NN_Decode MAX_NN_DIGITS (pub_exponent pk)"
  define nD eD where "nD = NN_Digits N MAX_NN_DIGITS" and "eD = NN_Digits E MAX_NN_DIGITS"
  note M = decode_digits [OF assms(3) m_def refl]
  note N = decode_digits [OF assms(1) N_def nD_def, folded assms(4)]
  note E = decode_digits [OF assms(2) E_def eD_def, folded assms(5)]
  have mt: "nn_val (take nD m) = be_val input"
    using take_digits_less [of m nD] M N assms(8) by simp
  have cmp: "\<not> NN_Cmp m N nD \<ge> 0"
    using nn_cmp_val [of "take nD m" "take nD N"] M N mt assms(8) by (simp add: NN_Cmp_def)
  obtain c where c: "NN_ModExp m E eD N nD = Some c" "length c = nD" "nn_val c = be_val input ^ e mod n"
    using NN_ModExp_val [of nD m N eD E] M N E mt assms(6,8) by auto
  have "nn_val c < n" using c(3) assms(8) by simp
  then have "nn_val c < 256 ^ ((pub_bits pk + 7) div 8)" using modulus_len [OF assms(7)] by linarith
  with c cmp show ?thesis
    by (simp add: rsapublicfunc_def Let_def m_def [symmetric] N_def [symmetric] E_def [symmetric]
        nD_def [symmetric] eD_def [symmetric] encode_val)
qed

text \<open>The key's part of the hypotheses, unfolded once.\<close>

lemma rsa_keyD:
  assumes "rsa_key pk sk"
  defines "p \<equiv> be_val (prime0 sk)" and "q \<equiv> be_val (prime1 sk)"
    and "n \<equiv> be_val (pub_modulus pk)" and "e \<equiv> be_val (pub_exponent pk)"
    and "dP \<equiv> be_val (primeExponent0 sk)" and "dQ \<equiv> be_val (primeExponent1 sk)"
    and "qInv \<equiv> be_val (coefficient sk)"
  shows "bits sk = pub_bits pk" "modulus sk = pub_modulus pk" "length (pub_modulus pk) = 128"
    "length (pub_exponent pk) = 128" "length (prime0 sk) = 64" "length (prime1 sk) = 64"
    "length (primeExponent0 sk) = 64" "length (primeExponent1 sk) = 64" "length (coefficient sk) = 64"
    "1 < q" "coprime p q" "q < p" "n = p * q" "2 ^ (pub_bits pk - 1) \<le> n" "n < 2 ^ pub_bits pk"
    "0 < e" "0 < dP" "dP < p" "0 < dQ" "dQ < q" "qInv < p"
    "m ^ (e * dP) mod p = m mod p" "m ^ (e * dQ) mod q = m mod q" "(q * qInv) mod p = 1"
  using assms(1) unfolding rsa_key_def Let_def assms(2-) MAX_RSA_MODULUS_LEN_def MAX_RSA_PRIME_LEN_def
  by simp_all


text \<open>The Chinese remainder step of \<^verbatim>\<open>rsaprivatefunc\<close>.\<close>

lemma crt_step:
  fixes p q :: nat
  assumes "mP < p" "mQ < q" "q < p" "(q * qInv) mod p = 1"
  defines "d \<equiv> if mQ \<le> mP then mP - mQ else p - (mQ - mP)"
  defines "x \<equiv> (d * qInv) mod p * q + mQ"
  shows "x < p * q" "x mod q = mQ" "x mod p = mP" "(d * qInv) mod p < p"
proof -
  let ?h = "(d * qInv) mod p"
  show h: "?h < p" using assms(1) by simp
  have "?h * q + mQ < (?h + 1) * q" using assms(2) by simp
  also have "\<dots> \<le> p * q" using h by (intro mult_le_mono1) simp
  finally show "x < p * q" by (simp add: x_def)
  show "x mod q = mQ" using assms(2) by (simp add: x_def)
  have one: "1 mod p = 1" using assms(4) by (metis mod_mod_trivial)
  have "x mod p = ((d * qInv) * q + mQ) mod p"
    unfolding x_def by (intro mod_add_cong) (simp_all only: mod_mult_left_eq)
  also have "(d * qInv) * q = d * (q * qInv)" by simp
  also have "(d * (q * qInv) + mQ) mod p = (d * 1 + mQ) mod p"
    by (intro mod_add_cong mod_mult_cong) (simp_all only: assms(4) one)
  also have "\<dots> = mP"
  proof (cases "mQ \<le> mP")
    case True
    then show ?thesis using assms(1) by (simp add: d_def)
  next
    case False
    then have "d + mQ = mP + p" using assms(2,3) by (simp add: d_def)
    then show ?thesis using assms(1) by simp
  qed
  finally show "x mod p = mP" .
qed

lemma zero_extend:
  assumes "length a = k" "k \<le> n"
  shows "length (mem_write (NN_AssignZero n) 0 a) = n" "nn_val (mem_write (NN_AssignZero n) 0 a) = nn_val a"
    "take k (mem_write (NN_AssignZero n) 0 a) = a"
  using assms by (simp_all add: mem_write_def NN_AssignZero_def nn_val_append)

lemma digits_lower:
  assumes "d \<le> length a" "0 < nn_val (take d a)"
  shows "2 ^ (32 * (NN_Digits a d - 1)) \<le> nn_val (take d a)"
proof -
  let ?k = "NN_Digits a d"
  have k: "?k \<noteq> 0" using NN_Digits_0 [OF assms(1)] assms(2) by simp
  have "2 ^ (32 * (?k - 1)) \<le> nn_val (take ?k a)"
    using k NN_Digits_le [of a d] NN_Digits_top [OF k] assms(1) by (intro nn_val_ge_top) simp_all
  then show ?thesis using NN_Digits_val [OF assms(1)] by simp
qed

lemma rsa_crt_val:
  assumes lens: "length mP = pD" "length mQ = pD" "pD \<le> nD" "nD \<le> 2 * pD" "pD \<le> length P" "pD \<le> length Q" "pD \<le> length QI"
    and vals: "nn_val (take pD P) = p" "nn_val (take pD Q) = q" "nn_val (take pD QI) = qInv"
    and lt: "nn_val mP < p" "nn_val mQ < q" "q < p" and inv: "(q * qInv) mod p = 1" and pq: "p * q < 2 ^ (32 * nD)"
  shows "\<exists>t. rsa_crt (mem_write (NN_AssignZero nD) 0 mP) (mem_write (NN_AssignZero nD) 0 mQ) P Q QI pD nD = Some t \<and>
           length t = nD \<and> nn_val t < p * q \<and> nn_val t mod p = nn_val mP \<and> nn_val t mod q = nn_val mQ"
proof -
  define mP' mQ' where "mP' = mem_write (NN_AssignZero nD) 0 mP" and "mQ' = mem_write (NN_AssignZero nD) 0 mQ"
  note zP = zero_extend [OF lens(1,3), folded mP'_def] and zQ = zero_extend [OF lens(2,3), folded mQ'_def]
  have cmp2: "NN_Cmp mP' mQ' pD \<ge> 0 \<longleftrightarrow> nn_val mQ \<le> nn_val mP"
    using nn_cmp_val [of mP mQ] lens zP zQ by (auto simp: NN_Cmp_def)
  define t where "t = (if NN_Cmp mP' mQ' pD \<ge> 0 then fst (NN_Sub mP' mQ' pD)
                       else fst (NN_Sub P (fst (NN_Sub mQ' mP' pD)) pD))"
  define d where "d = (if nn_val mQ \<le> nn_val mP then nn_val mP - nn_val mQ else p - (nn_val mQ - nn_val mP))"
  have t: "length t = pD \<and> nn_val t = d"
  proof (cases "nn_val mQ \<le> nn_val mP")
    case True
    then show ?thesis using NN_Sub_val [of pD mP' mQ'] zP zQ lens(3) by (simp add: t_def cmp2 d_def)
  next
    case False
    define u where "u = fst (NN_Sub mQ' mP' pD)"
    have u: "length u = pD" "nn_val u = nn_val mQ - nn_val mP"
      using NN_Sub_val [of pD mQ' mP'] False zP zQ lens(3) by (simp_all add: u_def)
    then show ?thesis using False NN_Sub_val [of pD P u] lens(5) vals(1) lt
      by (simp add: t_def cmp2 u_def [symmetric] d_def)
  qed
  note crt = crt_step [OF lt inv, folded d_def]
  define h where "h = (d * qInv) mod p"
  note crt = crt [folded h_def]
  obtain t1 where t1: "NN_ModMult t t QI P pD = Some t1" "length t1 = pD" "nn_val t1 = h"
    using NN_ModMult_val [of pD t QI P t] t lens vals lt by (auto simp: h_def)
  define t2 where "t2 = NN_Mult t1 Q pD"
  have t2: "length t2 = 2 * pD" "nn_val t2 = h * q"
    using NN_Mult_val [of pD t1 Q] t1 vals lens by (simp_all add: t2_def)
  have xB: "h * q + nn_val mQ < 2 ^ (32 * nD)" using crt(1) pq by (rule less_trans)
  have t2n: "nn_val (take nD t2) = h * q"
    using take_digits_less [of t2 nD] t2 lens(4) xB by simp
  define t3 where "t3 = fst (NN_Add t2 mQ' nD)"
  have t3: "length t3 = nD" "nn_val t3 = h * q + nn_val mQ"
    using NN_Add_val [of nD t2 mQ'] t2 t2n lens(4) zQ xB by (simp_all add: t3_def)
  have "rsa_crt mP' mQ' P Q QI pD nD = Some t3"
    by (simp only: rsa_crt_def Let_def t_def [symmetric] t1(1) bind.bind_lunit t2_def [symmetric] t3_def [symmetric])
  then show ?thesis using t3 crt by (simp add: mP'_def mQ'_def)
qed

lemma rsaprivatefunc_val:
  assumes key: "rsa_key pk sk" and len: "length input \<le> 128"
    and less: "be_val input < be_val (pub_modulus pk)"
  shows "\<exists>out. rsaprivatefunc input sk = Some (Inr out) \<and> length out = (pub_bits pk + 7) div 8 \<and>
           be_val out < be_val (pub_modulus pk) \<and>
           be_val out mod be_val (prime0 sk) = be_val input ^ be_val (primeExponent0 sk) mod be_val (prime0 sk) \<and>
           be_val out mod be_val (prime1 sk) = be_val input ^ be_val (primeExponent1 sk) mod be_val (prime1 sk)"
proof -
  define c P Q DP DQ N QI where "c = NN_Decode MAX_NN_DIGITS input"
    and "P = NN_Decode MAX_NN_DIGITS (prime0 sk)" and "Q = NN_Decode MAX_NN_DIGITS (prime1 sk)"
    and "DP = NN_Decode MAX_NN_DIGITS (primeExponent0 sk)" and "DQ = NN_Decode MAX_NN_DIGITS (primeExponent1 sk)"
    and "N = NN_Decode MAX_NN_DIGITS (modulus sk)" and "QI = NN_Decode MAX_NN_DIGITS (coefficient sk)"
  define cD pD nD where "cD = NN_Digits c MAX_NN_DIGITS" and "pD = NN_Digits P MAX_NN_DIGITS"
    and "nD = NN_Digits N MAX_NN_DIGITS"
  define p q dP dQ n qInv where "p = be_val (prime0 sk)" and "q = be_val (prime1 sk)"
    and "dP = be_val (primeExponent0 sk)" and "dQ = be_val (primeExponent1 sk)"
    and "n = be_val (pub_modulus pk)" and "qInv = be_val (coefficient sk)"
  note k = rsa_keyD [OF key, folded p_def q_def dP_def dQ_def n_def qInv_def]
  have p1: "1 < p" and q1: "1 < q" using k(10,12) by simp_all
  note C = decode_digits [OF len c_def cD_def]
  note P = decode_digits [OF _ P_def pD_def, folded p_def, unfolded k(5), simplified]
  have N: "length N = MAX_NN_DIGITS" "nn_val N = n" "nD \<le> MAX_NN_DIGITS" "nn_val (take nD N) = n" "n < 2 ^ (32 * nD)"
    using decode_digits [OF _ N_def nD_def] k(2,3) by (simp_all add: n_def)
  have Q: "length Q = MAX_NN_DIGITS" "nn_val Q = q" and DP: "length DP = MAX_NN_DIGITS" "nn_val DP = dP"
    and DQ: "length DQ = MAX_NN_DIGITS" "nn_val DQ = dQ" and QI: "length QI = MAX_NN_DIGITS" "nn_val QI = qInv"
    using decode_digits(1,2) [OF _ Q_def refl] decode_digits(1,2) [OF _ DP_def refl]
      decode_digits(1,2) [OF _ DQ_def refl] decode_digits(1,2) [OF _ QI_def refl] k(6-9)
    by (simp_all add: q_def dP_def dQ_def qInv_def)
  have small: "nn_val (take pD a) = v" if "length a = MAX_NN_DIGITS" "nn_val a = v" "v < p" for a v
    using take_digits_less [of a pD] that P by simp
  have Qt: "nn_val (take pD Q) = q" and DPt: "nn_val (take pD DP) = dP" and DQt: "nn_val (take pD DQ) = dQ"
    and QIt: "nn_val (take pD QI) = qInv"
    using small Q DP DQ QI k(12,18,20,21) by (simp_all add: less_trans)
  have pn: "p \<le> n" using k(13) q1 by simp
  have "2 ^ (32 * (pD - 1)) \<le> p" using digits_lower [of MAX_NN_DIGITS P] P p1 by (simp add: pD_def)
  then have "(2 :: nat) ^ (32 * (pD - 1)) < 2 ^ (32 * nD)" using pn N(5) by linarith
  then have pDnD: "pD \<le> nD" by (simp only: power_strict_increasing_iff)
  have "2 ^ (32 * (nD - 1)) \<le> n" using digits_lower [of MAX_NN_DIGITS N] N p1 pn by (simp add: nD_def)
  also have "n < 2 ^ (32 * pD) * 2 ^ (32 * pD)"
    unfolding k(13) using P(5) k(12) by (intro mult_strict_mono) auto
  also have "\<dots> = 2 ^ (32 * (2 * pD))" by (simp flip: power_add)
  finally have nD2: "nD \<le> 2 * pD" by (simp only: power_strict_increasing_iff)
  define unset where "unset = NN_AssignZero MAX_NN_DIGITS"
  let ?M = "be_val input"
  have ct: "nn_val (take nD c) = ?M" using take_digits_less [of c nD] C N less by (simp add: n_def)
  have cmp: "\<not> NN_Cmp c N nD \<ge> 0"
    using nn_cmp_val [of "take nD c" "take nD N"] C N ct less by (simp add: NN_Cmp_def n_def)
  obtain cP where cP: "NN_Mod unset c cD P pD = Some cP" "length cP = pD" "nn_val cP = ?M mod p"
    using NN_Mod_val [of cD c pD P unset] C P p1 by auto
  obtain cQ where cQ: "NN_Mod unset c cD Q pD = Some cQ" "length cQ = pD" "nn_val cQ = ?M mod q"
    using NN_Mod_val [of cD c pD Q unset] C P Q Qt q1 by auto
  obtain mP where mP: "NN_ModExp cP DP pD P pD = Some mP" "length mP = pD" "nn_val mP = ?M ^ dP mod p"
    using NN_ModExp_val [of pD cP P pD DP] cP P DP DPt p1 k(17) by (auto simp: power_mod)
  obtain mQ where mQ: "NN_ModExp cQ DQ pD Q pD = Some mQ" "length mQ = pD" "nn_val mQ = ?M ^ dQ mod q"
    using NN_ModExp_val [of pD cQ Q pD DQ] cQ P Q DQ DQt Qt q1 k(19) by (auto simp: power_mod)
  have lt: "nn_val mP < p" "nn_val mQ < q" using mP(3) mQ(3) p1 q1 by simp_all
  define mP' mQ' where "mP' = mem_write (NN_AssignZero nD) 0 mP" and "mQ' = mem_write (NN_AssignZero nD) 0 mQ"
  have "p * q < 2 ^ (32 * nD)" using N(5) k(13) by simp
  with rsa_crt_val [OF mP(2) mQ(2) pDnD nD2 _ _ _ P(4) Qt QIt lt k(12) k(24)]
  obtain t where t: "rsa_crt mP' mQ' P Q QI pD nD = Some t" "length t = nD" "nn_val t < n"
    "nn_val t mod p = nn_val mP" "nn_val t mod q = nn_val mQ"
    using P(1,3) Q(1) QI(1) unfolding mP'_def mQ'_def k(13) by auto
  define out where "out = NN_Encode ((bits sk + 7) div 8) t nD"
  have "nn_val t < 256 ^ ((bits sk + 7) div 8)"
    unfolding k(1) using less_trans [OF t(3) k(15)] by (rule modulus_len)
  then have out: "be_val out = nn_val t" using encode_val [OF t(2)] by (simp only: out_def)
  have "rsaprivatefunc input sk = Some (Inr out)"
    unfolding rsaprivatefunc_def Let_def c_def [symmetric] P_def [symmetric] Q_def [symmetric]
      DP_def [symmetric] DQ_def [symmetric] N_def [symmetric] QI_def [symmetric] cD_def [symmetric]
      pD_def [symmetric] nD_def [symmetric] unset_def [symmetric]
    by (simp only: cmp cP(1) cQ(1) mP(1) mQ(1) t(1) mP'_def [symmetric] mQ'_def [symmetric]
        if_False bind.bind_lunit out_def [symmetric])
  moreover have "length out = (pub_bits pk + 7) div 8" using k(1) by (simp add: out_def)
  ultimately show ?thesis
    using t out mP(3) mQ(3) unfolding p_def q_def dP_def dQ_def n_def by simp
qed


section \<open>Encryption and decryption are inverse\<close>

lemma rsa_inverse:
  assumes "rsa_key pk sk"
  defines "p \<equiv> be_val (prime0 sk)" and "q \<equiv> be_val (prime1 sk)"
    and "n \<equiv> be_val (pub_modulus pk)" and "e \<equiv> be_val (pub_exponent pk)"
    and "dP \<equiv> be_val (primeExponent0 sk)" and "dQ \<equiv> be_val (primeExponent1 sk)"
  assumes "m < n" "x < n" "x mod p = m ^ (e * dP) mod p" "x mod q = m ^ (e * dQ) mod q"
  shows "x = m"
proof -
  note k = rsa_keyD [OF assms(1), folded p_def q_def n_def e_def dP_def dQ_def]
  have "x mod p = m mod p" "x mod q = m mod q"
    using assms(10,11) by (simp_all only: k(22,23))
  then show ?thesis using crt_unique [OF k(11)] assms(8,9) k(13) by simp
qed

lemma mod_power_mod: "(a mod (p * q)) ^ e mod p = a ^ e mod (p :: nat)"
  by (metis mod_mod_cancel dvd_triv_left power_mod)

lemma rsa_private_public:
  assumes "rsa_key pk sk" "length input \<le> 128" "be_val input < be_val (pub_modulus pk)"
    "length input = (pub_bits pk + 7) div 8"
  shows "\<exists>c. rsapublicfunc input pk = Some (Inr c) \<and> length c = length input \<and>
             rsaprivatefunc c sk = Some (Inr input)"
proof -
  note k = rsa_keyD [OF assms(1)]
  let ?p = "be_val (prime0 sk)" and ?q = "be_val (prime1 sk)" and ?e = "be_val (pub_exponent pk)"
    and ?dP = "be_val (primeExponent0 sk)" and ?dQ = "be_val (primeExponent1 sk)"
    and ?n = "be_val (pub_modulus pk)" and ?m = "be_val input"
  obtain c where c: "rsapublicfunc input pk = Some (Inr c)" "length c = (pub_bits pk + 7) div 8"
    "be_val c = ?m ^ ?e mod ?n"
    using rsapublicfunc_val [of pk input ?n ?e] k assms by auto
  have "be_val c < ?n" using c(3) assms(3) by simp
  then obtain x where x: "rsaprivatefunc c sk = Some (Inr x)" "length x = (pub_bits pk + 7) div 8"
    "be_val x < ?n" "be_val x mod ?p = be_val c ^ ?dP mod ?p" "be_val x mod ?q = be_val c ^ ?dQ mod ?q"
    using rsaprivatefunc_val [OF assms(1), of c] assms c(2) by auto
  have "be_val x mod ?p = ?m ^ (?e * ?dP) mod ?p"
    using x(4) unfolding c(3) k(13) mod_power_mod by (simp add: power_mult)
  moreover have "be_val x mod ?q = ?m ^ (?e * ?dQ) mod ?q"
    using x(5) unfolding c(3) k(13) mult.commute [of ?p ?q] mod_power_mod by (simp add: power_mult)
  ultimately have "be_val x = ?m" using rsa_inverse [OF assms(1,3) x(3)] by simp
  then have "x = input" using x(2) assms(4) by (intro be_val_inj) simp_all
  with c x assms(4) show ?thesis by simp
qed

lemma rsa_public_private:
  assumes "rsa_key pk sk" "length input \<le> 128" "be_val input < be_val (pub_modulus pk)"
    "length input = (pub_bits pk + 7) div 8"
  shows "\<exists>c. rsaprivatefunc input sk = Some (Inr c) \<and> length c = length input \<and>
             rsapublicfunc c pk = Some (Inr input)"
proof -
  note k = rsa_keyD [OF assms(1)]
  let ?p = "be_val (prime0 sk)" and ?q = "be_val (prime1 sk)" and ?e = "be_val (pub_exponent pk)"
    and ?dP = "be_val (primeExponent0 sk)" and ?dQ = "be_val (primeExponent1 sk)"
    and ?n = "be_val (pub_modulus pk)" and ?m = "be_val input"
  obtain c where c: "rsaprivatefunc input sk = Some (Inr c)" "length c = (pub_bits pk + 7) div 8"
    "be_val c < ?n" "be_val c mod ?p = ?m ^ ?dP mod ?p" "be_val c mod ?q = ?m ^ ?dQ mod ?q"
    using rsaprivatefunc_val [OF assms(1-3)] by auto
  obtain x where x: "rsapublicfunc c pk = Some (Inr x)" "length x = (pub_bits pk + 7) div 8"
    "be_val x = be_val c ^ ?e mod ?n"
    using rsapublicfunc_val [of pk c ?n ?e] k assms(2,4) c(2,3) by auto
  have swap: "(?m ^ d mod r) ^ ?e mod r = ?m ^ (?e * d) mod r" for d r
    by (simp add: power_mod power_mult [symmetric] mult.commute)
  have xn: "be_val x < ?n" using x(3) assms(3) by simp
  have "be_val x mod ?p = (be_val c mod ?p) ^ ?e mod ?p"
    unfolding x(3) k(13) by (simp add: mod_mod_cancel power_mod)
  then have "be_val x mod ?p = ?m ^ (?e * ?dP) mod ?p" by (simp only: c(4) swap)
  moreover have "be_val x mod ?q = (be_val c mod ?q) ^ ?e mod ?q"
    unfolding x(3) k(13) by (simp add: mod_mod_cancel power_mod)
  then have "be_val x mod ?q = ?m ^ (?e * ?dQ) mod ?q" by (simp only: c(5) swap)
  ultimately have "be_val x = ?m" using rsa_inverse [OF assms(1,3) xn] by simp
  then have "x = input" using x(2) assms(4) by (intro be_val_inj) simp_all
  with c x assms(4) show ?thesis by simp
qed

section \<open>PKCS #1 blocks\<close>

lemma pkcs_scan_val:
  assumes "i \<le> j" "j < bound" "stop (block ! j)" "\<And>k. i \<le> k \<Longrightarrow> k < j \<Longrightarrow> \<not> stop (block ! k)"
  shows "pkcs_scan stop block bound i = j"
  using assms
proof (induction stop block bound i rule: pkcs_scan.induct)
  case (1 stop block bound i)
  show ?case
  proof (cases "i = j")
    case True
    then show ?thesis using "1.prems" by (subst pkcs_scan.simps) simp
  next
    case False
    then have "i < j" using "1.prems"(1) by simp
    then show ?thesis using 1 by (subst pkcs_scan.simps) simp
  qed
qed

lemma pkcs_scan_bound:
  assumes "i \<le> bound" "\<And>k. i \<le> k \<Longrightarrow> k < bound \<Longrightarrow> \<not> stop (block ! k)"
  shows "pkcs_scan stop block bound i = bound"
  using assms
proof (induction stop block bound i rule: pkcs_scan.induct)
  case (1 stop block bound i)
  then show ?case by (cases "i < bound") (subst pkcs_scan.simps, simp)+
qed

text \<open>A block starts with a zero byte and a byte below 3, so it is less than the modulus.\<close>

lemma be_val_Cons: "be_val (b # bs) = 256 ^ length bs * unat b + be_val bs"
  by (simp add: be_val_def le_val_append)

lemma pkcs_block_less:
  assumes "length block = (nb + 7) div 8" "block = [0, b] @ rest" "unat b < 3" "11 \<le> length block"
    "2 ^ (nb - 1) \<le> n"
  shows "be_val block < n"
proof -
  let ?r = "length rest"
  have "be_val block = 256 ^ ?r * unat b + be_val rest" using assms(2) by (simp add: be_val_Cons)
  also have "\<dots> < 256 ^ ?r * (unat b + 1)" using be_val_less [of rest] by simp
  also have "\<dots> \<le> 256 ^ ?r * 256" using assms(3) by (intro mult_le_mono2) simp
  also have "\<dots> = 2 ^ (8 * (?r + 1))" by (simp add: power_mult power_add)
  also have "\<dots> \<le> 2 ^ (nb - 1)" using assms(1,2) by (intro power_increasing) auto
  finally show ?thesis using assms(5) by (rule less_le_trans)
qed

lemma rsa_len:
  assumes "rsa_key pk sk"
  shows "(pub_bits pk + 7) div 8 \<le> 128"
proof -
  note k = rsa_keyD [OF assms]
  have "2 ^ (pub_bits pk - 1) < (256 :: nat) ^ 128"
    using k(14) be_val_less [of "pub_modulus pk"] k(3) by simp
  also have "(256 :: nat) ^ 128 = 2 ^ 1024" using power_mult [of "2 :: nat" 8 128] by simp
  finally have "pub_bits pk - 1 < 1024" by (simp only: power_strict_increasing_iff)
  then show ?thesis by simp
qed

lemma rsa_sign_verify:
  assumes "rsa_key pk sk" "length input + 11 \<le> (pub_bits pk + 7) div 8"
  shows "\<exists>s. RSAPrivateEncrypt input sk = Some (Inr s) \<and> length s = (pub_bits pk + 7) div 8 \<and>
             RSAPublicDecrypt s pk = Some (Inr input)"
proof -
  note k = rsa_keyD [OF assms(1)]
  define L where "L = (pub_bits pk + 7) div 8"
  define block where "block = [0, 1] @ replicate (L - length input - 3) 0xff @ [0] @ input"
  have len: "length block = L" using assms(2) by (simp add: block_def L_def)
  have "be_val block < be_val (pub_modulus pk)"
    by (rule pkcs_block_less [OF len [unfolded L_def] block_def _ _ k(14)])
      (use len assms(2) in \<open>simp_all add: L_def\<close>)
  with rsa_public_private [OF assms(1), of block] len rsa_len [OF assms(1)]
  obtain c where c: "rsaprivatefunc block sk = Some (Inr c)" "length c = L" "rsapublicfunc c pk = Some (Inr block)"
    by (auto simp: L_def)
  define n j where "n = L - length input - 3" and "j = n + 2"
  have L: "L = n + 3 + length input" "8 \<le> n" using assms(2) by (simp_all add: n_def L_def)
  have blk: "block = 0 # 1 # replicate n 0xff @ 0 # input" by (simp add: block_def n_def)
  have nth: "block ! 0 = 0" "block ! 1 = 1" "block ! j = 0" "drop (j + 1) block = input"
    by (simp_all add: blk j_def nth_append)
  have ff: "block ! i = 0xff" if "2 \<le> i" "i < j" for i
    using that by (simp add: blk j_def nth_append nth_Cons')
  have scan: "pkcs_scan (\<lambda>b. b \<noteq> 0xff) block (L - 1) 2 = j"
    using pkcs_scan_val [of 2 j "L - 1" "\<lambda>b. b \<noteq> 0xff" block] nth(3) ff
      pkcs_scan_bound [of 2 "L - 1" "\<lambda>b. b \<noteq> 0xff" block]
    by (cases "input = []") (auto simp: L j_def)
  have "RSAPrivateEncrypt input sk = Some (Inr c)"
    using c(1) assms(2) k(1) by (simp add: RSAPrivateEncrypt_def Let_def block_def L_def)
  moreover have "RSAPublicDecrypt c pk = Some (Inr input)"
    using c(2,3) len nth scan L
    by (simp add: RSAPublicDecrypt_def Let_def L_def [symmetric] j_def)
  ultimately show ?thesis using c(2) by (simp add: L_def)
qed

text \<open>Enough nonzero bytes in the random stream end the padding loops.\<close>

lemma random_padding_val:
  assumes "rnd_inv r" "bytesNeeded r = 0" "n \<le> length (filter (\<lambda>b. b \<noteq> 0) (fst (rnd_generate N r)))"
  shows "\<exists>pad r'. random_padding n r = Some (pad, r') \<and> length pad = n \<and> 0 \<notin> set pad"
  using assms
proof (induction N arbitrary: n r)
  case 0
  have "length (fst (rnd_generate 0 r)) = 0" using rnd_generate_inv [OF 0(1), of 0] by (metis prod.collapse)
  then show ?case using 0 by simp
next
  case (Suc N)
  obtain x r1 where g1: "rnd_generate 1 r = (x, r1)" by fastforce
  obtain y r2 where g2: "rnd_generate N r1 = (y, r2)" by fastforce
  have i1: "rnd_inv r1" "length x = 1" "bytesNeeded r1 = 0"
    using rnd_generate_inv [OF Suc.prems(1) g1] Suc.prems(2) by simp_all
  then obtain b where x: "x = [b]" by (auto simp: length_Suc_conv)
  have gen: "rnd_generate (Suc N) r = (b # y, r2)"
    using rnd_generate_add [OF Suc.prems(1) g1 g2] x by simp
  have one: "R_GenerateBytes 1 r = Inr ([b], r1)"
    using g1 x Suc.prems(2) by (simp add: R_GenerateBytes_def)
  show ?case
  proof (cases n)
    case 0
    then show ?thesis by simp
  next
    case n: (Suc m)
    show ?thesis
    proof (cases "b = 0")
      case True
      then have "random_nonzero r = random_nonzero r1" using one by (subst random_nonzero.simps) simp
      then have "random_padding n r = random_padding n r1" by (simp add: n)
      then show ?thesis using Suc.IH [OF i1(1,3), of n] Suc.prems(3) gen g2 True by simp
    next
      case False
      then have nz: "random_nonzero r = Some (b, r1)" using one by (subst random_nonzero.simps) simp
      have "m \<le> length (filter (\<lambda>b. b \<noteq> 0) (fst (rnd_generate N r1)))"
        using Suc.prems(3) gen g2 False n by simp
      from Suc.IH [OF i1(1,3) this] obtain pad r' where
        "random_padding m r1 = Some (pad, r')" "length pad = m" "0 \<notin> set pad" by blast
      then show ?thesis using nz False by (simp add: n)
    qed
  qed
qed

text \<open>
  \<^verbatim>\<open>RSAPrivateDecrypt\<close> refuses the block of an empty message, which \<^verbatim>\<open>RSAPublicEncrypt\<close>
  makes: there the separator is the last byte.
\<close>

lemma rsa_encrypt_decrypt:
  assumes "rsa_key pk sk" "length input + 11 \<le> (pub_bits pk + 7) div 8" "bytesNeeded r = 0"
    and pad: "random_padding ((pub_bits pk + 7) div 8 - length input - 3) r = Some (pad, r')"
      "length pad = (pub_bits pk + 7) div 8 - length input - 3" "0 \<notin> set pad"
  shows "\<exists>c. RSAPublicEncrypt input pk r = Some (Inr c, r') \<and> length c = (pub_bits pk + 7) div 8 \<and>
             RSAPrivateDecrypt c sk = Some (if input = [] then Inl RE_DATA else Inr input)"
proof -
  note k = rsa_keyD [OF assms(1)]
  define L n j where "L = (pub_bits pk + 7) div 8" and "n = L - length input - 3" and "j = n + 2"
  have L: "L = n + 3 + length input" "8 \<le> n" using assms(2) by (simp_all add: n_def L_def)
  have lp: "length pad = n" using pad(2) by (simp add: n_def L_def)
  define block where "block = [0, 2] @ pad @ [0] @ input"
  have len: "length block = L" using lp by (simp add: block_def L)
  have "be_val block < be_val (pub_modulus pk)"
    by (rule pkcs_block_less [OF len [unfolded L_def] block_def _ _ k(14)])
      (use len assms(2) in \<open>simp_all add: L_def\<close>)
  with rsa_private_public [OF assms(1), of block] len rsa_len [OF assms(1)]
  obtain c where c: "rsapublicfunc block pk = Some (Inr c)" "length c = L" "rsaprivatefunc c sk = Some (Inr block)"
    by (auto simp: L_def)
  have nth: "block ! 0 = 0" "block ! 1 = 2" "block ! j = 0" "drop (j + 1) block = input"
    by (simp_all add: block_def j_def nth_append lp)
  have nz: "block ! i \<noteq> 0" if "2 \<le> i" "i < j" for i
  proof -
    have "pad ! (i - 2) \<in> set pad" using that lp by (intro nth_mem) (simp add: j_def)
    then have "pad ! (i - 2) \<noteq> 0" using pad(3) by metis
    moreover have "i = (i - 2) + 2" "i - 2 < n" using that unfolding j_def by linarith+
    then obtain k where "i = k + 2" "k < n" by blast
    ultimately show ?thesis by (simp add: block_def nth_append lp)
  qed
  have scan: "pkcs_scan (\<lambda>b. b = 0) block (L - 1) 2 = j"
    using pkcs_scan_val [of 2 j "L - 1" "\<lambda>b. b = 0" block] nth(3) nz
      pkcs_scan_bound [of 2 "L - 1" "\<lambda>b. b = 0" block]
    by (cases "input = []") (auto simp: L j_def)
  have "RSAPublicEncrypt input pk r = Some (Inr c, r')"
    using c(1) assms(2,3) pad(1)
    by (simp add: RSAPublicEncrypt_def Let_def block_def R_GetRandomBytesNeeded_def)
  moreover have "RSAPrivateDecrypt c sk = Some (if input = [] then Inl RE_DATA else Inr input)"
    using c(2,3) len nth scan L k(1)
    by (simp add: RSAPrivateDecrypt_def Let_def L_def [symmetric] j_def)
  ultimately show ?thesis using c(2) by (simp add: L_def)
qed

end
