(* ===== verification/Prime_Certificate.thy ===== *)
theory Prime_Certificate
  imports Fermat
begin

text \<open>
  Proth's test, with which the evaluated examples get primes that are too large for the
  trial division of \<open>is_prime\<close>.
\<close>

function pow_mod :: "nat \<Rightarrow> nat \<Rightarrow> nat \<Rightarrow> nat" where
  "pow_mod a e n =
     (if e = 0 then 1 mod n
      else let r = pow_mod (a * a mod n) (e div 2) n
           in if even e then r else a * r mod n)"
  by pat_completeness auto
termination by (relation "measure (\<lambda>(a, e, n). e)") auto

declare pow_mod.simps [simp del]

lemma pow_mod_val: "pow_mod a e n = a ^ e mod n"
proof (induction a e n rule: pow_mod.induct)
  case (1 a e n)
  show ?case
  proof (cases "e = 0")
    case True
    then show ?thesis by (simp add: pow_mod.simps)
  next
    case False
    have sq: "(a * a mod n) ^ (e div 2) mod n = a ^ (2 * (e div 2)) mod n"
      by (simp add: power_mod power_mult power2_eq_square)
    show ?thesis
    proof (cases "even e")
      case True
      then show ?thesis using 1 False sq by (subst pow_mod.simps) (simp add: Let_def)
    next
      case odd: False
      then have "a ^ e = a * a ^ (2 * (e div 2))" by (metis odd_two_times_div_two_succ power_Suc Suc_eq_plus1)
      then show ?thesis using 1 False odd sq by (subst pow_mod.simps) (simp add: Let_def mod_mult_right_eq)
    qed
  qed
qed

lemma pow_mod_numeral:
  "pow_mod a (Suc 0) n = a mod n"
  "pow_mod a (numeral (num.Bit0 k)) n = pow_mod (a * a mod n) (numeral k) n"
  "pow_mod a (numeral (num.Bit1 k)) n = a * pow_mod (a * a mod n) (numeral k) n mod n"
proof -
  have "(numeral (num.Bit0 k) :: nat) = 2 * numeral k" by (simp add: numeral_Bit0)
  then show "pow_mod a (numeral (num.Bit0 k)) n = pow_mod (a * a mod n) (numeral k) n"
    by (simp only: pow_mod_val power_mod power_mult power2_eq_square)
  have "(numeral (num.Bit1 k) :: nat) = Suc (2 * numeral k)" by (simp add: numeral_Bit1)
  then show "pow_mod a (numeral (num.Bit1 k)) n = a * pow_mod (a * a mod n) (numeral k) n mod n"
    by (simp only: pow_mod_val power_mod power_mult power2_eq_square power_Suc mod_mult_right_eq)
qed (simp add: pow_mod_val)

lemma least_divisor_prime:
  assumes "1 < n" "\<not> is_prime n"
  shows "\<exists>r. is_prime r \<and> r dvd n \<and> r * r \<le> n"
proof -
  define r where "r = (LEAST m. 2 \<le> m \<and> m dvd n)"
  from assms obtain m where m: "2 \<le> m" "m < n" "m dvd n" by (auto simp: is_prime_def)
  have r: "2 \<le> r \<and> r dvd n" unfolding r_def by (rule LeastI [of _ m]) (use m in simp)
  have least: "r \<le> k" if "2 \<le> k" "k dvd n" for k
    unfolding r_def using that by (intro Least_le) simp
  have "is_prime r"
    unfolding is_prime_def
  proof (intro conjI ballI notI)
    show "1 < r" using r by simp
    fix k assume "k \<in> {2..<r}" "k dvd r"
    then show False using least [of k] r by (auto dest: dvd_trans)
  qed
  moreover have "r * r \<le> n"
  proof -
    obtain s where s: "n = r * s" using r by blast
    have "r \<le> m" using least m by simp
    then have "1 < s" using s m(2) r by (cases "s = 0 \<or> s = 1") auto
    then have "r \<le> s" using least [of s] s by simp
    then show ?thesis using s by simp
  qed
  ultimately show ?thesis using r by blast
qed

lemma proth_divides:
  assumes "is_prime r" "odd r" "int r dvd int b ^ (2 ^ j) + 1"
  shows "i \<le> Suc j \<Longrightarrow> 2 ^ i dvd r - 1"
proof (induction i)
  case 0
  then show ?case by simp
next
  case (Suc i)
  have "\<not> r dvd b"
  proof
    assume "r dvd b"
    then have "r dvd b ^ (2 ^ j)" by (rule dvd_trans) (simp add: dvd_power)
    then have "int r dvd int b ^ (2 ^ j)" by (metis int_dvd_int_iff of_nat_power)
    then have "int r dvd 1" using assms(3) by (simp add: dvd_add_right_iff)
    then show False using prime_gt_1 [OF assms(1)] by simp
  qed
  then have f: "b ^ (r - 1) mod r = 1" by (rule fermat [OF assms(1)])
  obtain u where u: "r - 1 = 2 ^ i * u" using Suc by auto
  have "even u"
  proof (rule ccontr)
    assume "odd u"
    let ?x = "int b ^ (2 ^ j)"
    have "?x mod int r = (- 1) mod int r" using assms(3) by (simp add: mod_eq_dvd_iff)
    then have "?x ^ u mod int r = (- 1) ^ u mod int r" by (metis power_mod)
    then have neg: "?x ^ u mod int r = (- 1) mod int r" using \<open>odd u\<close> by simp
    have "(2 :: nat) ^ j = 2 ^ i * 2 ^ (j - i)" using Suc.prems by (simp flip: power_add)
    then have e: "2 ^ j * u = (r - 1) * 2 ^ (j - i)" by (simp only: u mult_ac)
    have "?x ^ u = (int b ^ (r - 1)) ^ (2 ^ (j - i))"
      by (simp only: power_mult [symmetric] e)
    also have "\<dots> mod int r = 1 mod int r"
    proof -
      have "int b ^ (r - 1) mod int r = 1" using f by (metis of_nat_1 of_nat_mod of_nat_power)
      then show ?thesis by (metis power_mod power_one)
    qed
    finally have "int r dvd - 1 - 1" using neg by (metis mod_eq_dvd_iff)
    then have "int r dvd int 2" by simp
    then have "r dvd 2" by (simp only: int_dvd_int_iff)
    then have "r \<le> 2" by (simp add: dvd_imp_le)
    then show False using prime_gt_1 [OF assms(1)] assms(2) by (cases "r = 2") auto
  qed
  then show ?case using u by (auto elim!: evenE)
qed

lemma proth:
  assumes "n = k * 2 ^ Suc j + 1" "0 < k" "n < 2 ^ (2 * Suc j)" "pow_mod a (k * 2 ^ j) n = n - 1"
  shows "is_prime n"
proof (rule ccontr)
  assume "\<not> is_prime n"
  moreover have n1: "1 < n" using assms(1,2) by simp
  ultimately obtain r where r: "is_prime r" "r dvd n" "r * r \<le> n"
    using least_divisor_prime by blast
  have x: "(a ^ k) ^ (2 ^ j) mod n = n - 1"
    using assms(4) by (simp add: pow_mod_val power_mult)
  have "((a ^ k) ^ (2 ^ j) + 1) mod n = ((a ^ k) ^ (2 ^ j) mod n + 1) mod n"
    by (rule mod_add_left_eq [symmetric])
  also have "\<dots> = (n - 1 + 1) mod n" by (simp only: x)
  also have "n - 1 + 1 = n" using n1 by simp
  finally have "n dvd (a ^ k) ^ (2 ^ j) + 1" by (simp add: dvd_eq_mod_eq_0)
  then have "r dvd (a ^ k) ^ (2 ^ j) + 1" using r(2) by (rule dvd_trans [rotated])
  then have "int r dvd int (a ^ k) ^ (2 ^ j) + 1" by (metis int_dvd_int_iff of_nat_1 of_nat_add of_nat_power)
  moreover have "odd n" by (simp add: assms(1))
  then have "odd r" using dvd_trans [OF _ r(2), of 2] by blast
  ultimately have "2 ^ Suc j dvd r - 1" using proth_divides [OF r(1)] by blast
  then have "2 ^ Suc j < r" using prime_gt_1 [OF r(1)] by (auto dest!: dvd_imp_le)
  then have "2 ^ Suc j * 2 ^ Suc j < r * r" by (intro mult_strict_mono) auto
  also have "2 ^ Suc j * 2 ^ Suc j = (2 :: nat) ^ (2 * Suc j)" by (simp only: mult_2 power_add)
  finally show False using r(3) assms(3) by linarith
qed

end
