(* ===== verification/Example_Keys.thy ===== *)
theory Example_Keys
  imports RSA Prime_Certificate
begin

text \<open>
  Two example keys, of 46 and 19 bytes, for the witnesses on signatures and envelopes: a signed digest takes a
  modulus of 45 bytes.  The factors of the moduli are products of small primes \<open>r\<close> with \<open>r - 1\<close> a divisor
  of 332640, so the exponents 13 and 255877, inverse modulo that number, undo each other.
\<close>

section \<open>Small primes\<close>

definition sig_ps :: "nat list" where
  "sig_ps = [3361, 3169, 2521, 2161, 2017, 991, 757, 661, 617, 463, 421, 397, 337, 331, 241, 199, 181, 109, 89, 71]"

definition sig_qs :: "nat list" where
  "sig_qs = [3697, 2971, 2377, 2311, 1321, 1009, 881, 673, 631, 541, 433, 379, 353, 281, 271, 211, 127, 113, 97, 73]"

definition key_bytes :: "nat \<Rightarrow> nat \<Rightarrow> bytes" where
  "key_bytes len v = be_bytes len (of_nat v :: 1024 word)"

lemma key_bytes_val: "v < 256 ^ len \<Longrightarrow> len \<le> 128 \<Longrightarrow> be_val (key_bytes len v) = v"
proof -
  assume v: "v < 256 ^ len" and len: "len \<le> 128"
  have "(256 :: nat) ^ len \<le> 256 ^ 128" using len by (intro power_increasing) auto
  also have "(256 :: nat) ^ 128 = 2 ^ 1024" by simp
  finally have "v < 2 ^ 1024" using v by linarith
  then show ?thesis using v by (simp only: key_bytes_def be_val_be_bytes unat_of_nat) simp
qed

lemma length_key_bytes [simp]: "length (key_bytes len v) = len"
  by (simp add: key_bytes_def)

text \<open>Trial division by the primes below 61.\<close>

definition trial_primes :: "nat list" where
  "trial_primes = [2, 3, 5, 7, 11, 13, 17, 19, 23, 29, 31, 37, 41, 43, 47, 53, 59]"

lemma trial_cover: "r \<in> set [2..<61] \<Longrightarrow> \<exists>d \<in> set trial_primes. d dvd r"
proof -
  assume r: "r \<in> set [2..<61]"
  have "list_all (\<lambda>r. list_ex (\<lambda>d. r mod d = 0) trial_primes) [2..<61]" by (simp add: trial_primes_def upt_rec)
  then have "list_ex (\<lambda>d. r mod d = 0) trial_primes" unfolding list_all_iff by (rule bspec [OF _ r])
  then show ?thesis unfolding list_ex_iff dvd_eq_mod_eq_0 .
qed

lemma prime_trial:
  assumes "1 < n" "n < 61 * 61" "list_all (\<lambda>d. n mod d \<noteq> 0) trial_primes"
  shows "is_prime n"
proof (rule ccontr)
  assume "\<not> is_prime n"
  then obtain r where r: "is_prime r" "r dvd n" "r * r \<le> n" using least_divisor_prime [OF assms(1)] by blast
  then have "r < 61" using assms(2) by (metis le_less_trans mult_le_mono not_le)
  then have "2 \<le> r \<and> r < 61" using prime_gt_1 [OF r(1)] by linarith
  then have "r \<in> set [2..<61]" unfolding set_upt atLeastLessThan_iff .
  then obtain d where d: "d \<in> set trial_primes" "d dvd r" using trial_cover by blast
  with assms(3) have "n mod d \<noteq> 0" unfolding list_all_iff by blast
  then show False using dvd_trans [OF d(2) r(2)] by (simp add: dvd_eq_mod_eq_0)
qed

definition sig_prime :: "nat \<Rightarrow> bool" where
  "sig_prime n \<longleftrightarrow> 1 < n \<and> n < 61 * 61 \<and> list_all (\<lambda>d. n mod d \<noteq> 0) trial_primes \<and> 332640 mod (n - 1) = 0"

lemma sig_primes: "list_all sig_prime (sig_ps @ sig_qs)"
  by (simp add: sig_ps_def sig_qs_def sig_prime_def trial_primes_def)

lemma sig_distinct: "distinct (sig_ps @ sig_qs)"
  by (simp add: sig_ps_def sig_qs_def)

lemma sig_prime_prime: "r \<in> set (sig_ps @ sig_qs) \<Longrightarrow> is_prime r" "r \<in> set (sig_ps @ sig_qs) \<Longrightarrow> r - 1 dvd 332640"
proof -
  assume "r \<in> set (sig_ps @ sig_qs)"
  with sig_primes have "sig_prime r" unfolding list_all_iff by (rule bspec)
  then have r: "1 < r" "r < 61 * 61" "list_all (\<lambda>d. r mod d \<noteq> 0) trial_primes" "332640 mod (r - 1) = 0"
    unfolding sig_prime_def by blast+
  show "is_prime r" by (rule prime_trial [OF r(1-3)])
  show "r - 1 dvd 332640" using r(4) by (simp only: dvd_eq_mod_eq_0)
qed

lemma prod_coprime: "is_prime r \<Longrightarrow> \<forall>x \<in> set rs. is_prime x \<and> x \<noteq> r \<Longrightarrow> coprime r (prod_list rs)"
  by (induction rs) (auto simp: primes_coprime intro: coprime_mult_right_iff [THEN iffD2])

lemma exponent_prod:
  assumes "distinct rs" "\<forall>r \<in> set rs. is_prime r \<and> k mod (r - 1) = 1 mod (r - 1)" "0 < k"
  shows "a ^ k mod prod_list rs = a mod prod_list rs"
  using assms
proof (induction rs)
  case Nil
  then show ?case by simp
next
  case (Cons r rs)
  let ?P = "prod_list rs"
  have r: "is_prime r" "k mod (r - 1) = 1 mod (r - 1)" using Cons.prems by simp_all
  have cop: "coprime r ?P" by (rule prod_coprime [OF r(1)]) (use Cons.prems in auto)
  have P: "0 < ?P" using Cons.prems(2) by (induction rs) (auto dest: prime_gt_1)
  have "a ^ k mod (r * ?P) mod r = a mod (r * ?P) mod r"
    using fermat_exponent [OF r Cons.prems(3), of a] by (simp add: mod_mod_cancel)
  moreover have "a ^ k mod (r * ?P) mod ?P = a mod (r * ?P) mod ?P"
    using Cons by (simp add: mod_mod_cancel)
  moreover have "0 < r * ?P" using P prime_gt_1 [OF r(1)] by simp
  ultimately show ?case using crt_unique [OF cop] by simp
qed

lemma sig_exponent:
  assumes "distinct rs" "set rs \<subseteq> set (sig_ps @ sig_qs)"
  shows "a ^ (13 * 255877) mod prod_list rs = a mod prod_list rs"
proof (rule exponent_prod [OF assms(1)])
  have k: "is_prime r \<and> (13 * 255877) mod (r - 1) = 1 mod (r - 1)" if r: "r \<in> set (sig_ps @ sig_qs)" for r
  proof
    show "is_prime r" by (rule sig_prime_prime(1) [OF r])
    have "(13 * 255877 :: nat) = 332640 * 10 + 1" by simp
    moreover have "(332640 * 10 + 1) mod (r - 1) = 1 mod (r - 1)"
      using dvd_mult2 [OF sig_prime_prime(2) [OF r], of 10] mod_add_left_eq [of "332640 * 10" "r - 1" 1]
      by (simp only: dvd_eq_mod_eq_0 add_0)
    ultimately show "(13 * 255877) mod (r - 1) = 1 mod (r - 1)" by (simp only:)
  qed
  show "\<forall>r \<in> set rs. is_prime r \<and> (13 * 255877) mod (r - 1) = 1 mod (r - 1)" using k assms(2) by blast
qed simp

lemma prods_coprime:
  "\<forall>r \<in> set rs. coprime r n \<Longrightarrow> coprime (prod_list rs) (n :: nat)"
  by (induction rs) (simp_all add: coprime_mult_left_iff)

lemma sig_coprime: "set ps \<subseteq> set sig_ps \<Longrightarrow> set qs \<subseteq> set sig_qs \<Longrightarrow> coprime (prod_list ps) (prod_list qs)"
proof (rule prods_coprime, rule ballI, rule prod_coprime, goal_cases)
  case (1 r)
  then show ?case using sig_prime_prime(1) [of r] by auto
next
  case (2 r)
  then have "r \<notin> set sig_qs" using sig_distinct by auto
  then show ?case using 2 sig_prime_prime(1) by auto
qed

section \<open>The keys\<close>

definition small_public :: "nat \<Rightarrow> nat \<Rightarrow> nat \<Rightarrow> R_RSA_PUBLIC_KEY" where
  "small_public n p q = \<lparr>pub_bits = n, pub_modulus = key_bytes 128 (p * q), pub_exponent = key_bytes 128 13\<rparr>"

definition small_private :: "nat \<Rightarrow> nat \<Rightarrow> nat \<Rightarrow> nat \<Rightarrow> R_RSA_PRIVATE_KEY" where
  "small_private n p q qInv =
     \<lparr>bits = n, modulus = key_bytes 128 (p * q), publicExponent = key_bytes 128 13,
      exponent = key_bytes 128 0, prime0 = key_bytes 64 p, prime1 = key_bytes 64 q,
      primeExponent0 = key_bytes 64 255877, primeExponent1 = key_bytes 64 255877, coefficient = key_bytes 64 qInv\<rparr>"

lemma small_key:
  assumes "distinct ps" "set ps \<subseteq> set sig_ps" "p = prod_list ps" "distinct qs" "set qs \<subseteq> set sig_qs" "q = prod_list qs"
    "255877 < q" "q < p" "p < 2 ^ 512" "2 ^ (n - 1) \<le> p * q" "p * q < 2 ^ n" "n \<le> 1024" "qInv < p" "q * qInv mod p = 1"
  shows "rsa_key (small_public n p q) (small_private n p q qInv)"
proof -
  have "(2 :: nat) ^ n \<le> 2 ^ 1024" using assms(12) by (intro power_increasing) auto
  then have m: "p * q < 2 ^ 1024" using assms(11) by linarith
  have v: "be_val (key_bytes 128 (p * q)) = p * q"
    "be_val (key_bytes 128 13) = 13" "be_val (key_bytes 64 p) = p" "be_val (key_bytes 64 q) = q"
    "be_val (key_bytes 64 255877) = 255877" "be_val (key_bytes 64 qInv) = qInv"
    by (rule key_bytes_val; use m assms(8,9,13) in simp)+
  have e: "\<forall>m. m ^ (13 * 255877) mod p = m mod p" "\<forall>m. m ^ (13 * 255877) mod q = m mod q"
    using sig_exponent [of ps] sig_exponent [of qs] assms(1-6) by auto
  have "coprime p q" unfolding assms(3,6) by (rule sig_coprime [OF assms(2,5)])
  then show ?thesis
    unfolding rsa_key_def Let_def small_public_def small_private_def
      R_RSA_PUBLIC_KEY.select_convs R_RSA_PRIVATE_KEY.select_convs v
    using e assms(7-14) by (intro conjI) (simp_all add: MAX_RSA_MODULUS_LEN_def MAX_RSA_PRIME_LEN_def)
qed

definition sig_public :: R_RSA_PUBLIC_KEY where
  "sig_public = small_public 361 1848057396741335450976916534494519078011273667584452571
     1539676378837582077481152385310112259503936856240448863"

definition sig_private :: R_RSA_PRIVATE_KEY where
  "sig_private = small_private 361 1848057396741335450976916534494519078011273667584452571
     1539676378837582077481152385310112259503936856240448863
     1685842736505147449206104412238252831518028026208450009"

lemma sig_key: "rsa_key sig_public sig_private"
  unfolding sig_public_def sig_private_def
  by (rule small_key [of sig_ps _ sig_qs]) (simp_all add: sig_ps_def sig_qs_def)

definition env_public :: R_RSA_PUBLIC_KEY where
  "env_public = small_public 152 58035703853124494988640351 80422063728153047821"

definition env_private :: R_RSA_PRIVATE_KEY where
  "env_private = small_private 152 58035703853124494988640351 80422063728153047821 11499116391144176231007515"

lemma env_key: "rsa_key env_public env_private"
  unfolding env_public_def env_private_def
  by (rule small_key [of "take 8 sig_ps" _ "take 6 sig_qs"]) (simp_all add: sig_ps_def sig_qs_def)

lemma example_lengths: "pub_bits sig_public = 361" "pub_bits env_public = 152"
  by (simp_all add: sig_public_def env_public_def small_public_def)

end
