(* ===== verification/RSA_Props.thy ===== *)
theory RSA_Props
  imports RSA Example_Keys
begin

text \<open>The properties of \<^verbatim>\<open>HBase/RSAEuro/rsa.c\<close>, and a key pair on which they are instantiated.\<close>

definition example_p :: nat where "example_p = 35185437442049"
definition example_q :: nat where "example_q = 35184430809089"

definition example_public :: R_RSA_PUBLIC_KEY where
  "example_public =
     \<lparr>pub_bits = 91, pub_modulus = key_bytes 128 (example_p * example_q), pub_exponent = key_bytes 128 3\<rparr>"

definition example_private :: R_RSA_PRIVATE_KEY where
  "example_private =
     \<lparr>bits = 91, modulus = key_bytes 128 (example_p * example_q), publicExponent = key_bytes 128 3,
      exponent = key_bytes 128 0, prime0 = key_bytes 64 example_p, prime1 = key_bytes 64 example_q,
      primeExponent0 = key_bytes 64 23456958294699, primeExponent1 = key_bytes 64 23456287206059,
      coefficient = key_bytes 64 12021691160987\<rparr>"

lemma example_p_prime: "is_prime example_p"
  unfolding example_p_def by (rule proth [of _ 4194431 22 3]) (simp_all add: pow_mod_numeral)

lemma example_q_prime: "is_prime example_q"
  unfolding example_q_def by (rule proth [of _ 4194311 22 3]) (simp_all add: pow_mod_numeral)

lemma example_key_pair: "rsa_key_pair example_public example_private"
proof -
  have v: "be_val (key_bytes 128 (example_p * example_q)) = example_p * example_q"
    "be_val (key_bytes 128 3) = 3" "be_val (key_bytes 64 example_p) = example_p"
    "be_val (key_bytes 64 example_q) = example_q"
    "be_val (key_bytes 64 23456958294699) = 23456958294699"
    "be_val (key_bytes 64 23456287206059) = 23456287206059"
    "be_val (key_bytes 64 12021691160987) = 12021691160987"
    by (rule key_bytes_val; simp add: example_p_def example_q_def)+
  show ?thesis
    unfolding rsa_key_pair_def Let_def example_public_def example_private_def
      R_RSA_PUBLIC_KEY.select_convs R_RSA_PRIVATE_KEY.select_convs v
    by (intro conjI example_p_prime example_q_prime)
      (simp_all add: MAX_RSA_MODULUS_LEN_def MAX_RSA_PRIME_LEN_def example_p_def example_q_def)
qed

text \<open>C1. A block that \<^verbatim>\<open>RSAPrivateEncrypt\<close> signs with a private key is recovered by
  \<^verbatim>\<open>RSAPublicDecrypt\<close> with the public key, for every message that leaves the eleven bytes of
  the PKCS #1 format: the Chinese remainder computation on multi-precision digits, the
  modular exponentiation and the block format invert each other.\<close>

theorem RSA_sign_verify:
  assumes "rsa_key_pair pk sk" "length input + 11 \<le> (pub_bits pk + 7) div 8"
  shows "\<exists>s. RSAPrivateEncrypt input sk = Some (Inr s) \<and> length s = (pub_bits pk + 7) div 8 \<and>
             RSAPublicDecrypt s pk = Some (Inr input)"
  by (rule rsa_sign_verify [OF rsa_key_pair_key [OF assms(1)] assms(2)])

theorem RSA_sign_verify_witness:
  "\<exists>s. RSAPrivateEncrypt [7] example_private = Some (Inr s) \<and> length s = 12 \<and>
       RSAPublicDecrypt s example_public = Some (Inr [7])"
  using RSA_sign_verify [OF example_key_pair, of "[7]"] by (simp add: example_public_def)

text \<open>C2. \<^verbatim>\<open>RSAPublicEncrypt\<close> returns, provided the random stream holds enough nonzero
  bytes for the padding, and \<^verbatim>\<open>RSAPrivateDecrypt\<close> recovers every message that is not
  empty.\<close>

theorem RSA_encrypt_decrypt:
  assumes "rsa_key_pair pk sk" "length input + 11 \<le> (pub_bits pk + 7) div 8" "input \<noteq> []"
    "rnd_inv r" "bytesNeeded r = 0"
    "(pub_bits pk + 7) div 8 - length input - 3 \<le> length (filter (\<lambda>b. b \<noteq> 0) (fst (rnd_generate N r)))"
  shows "\<exists>c r'. RSAPublicEncrypt input pk r = Some (Inr c, r') \<and> length c = (pub_bits pk + 7) div 8 \<and>
                RSAPrivateDecrypt c sk = Some (Inr input)"
proof -
  obtain pad r' where "random_padding ((pub_bits pk + 7) div 8 - length input - 3) r = Some (pad, r')"
    "length pad = (pub_bits pk + 7) div 8 - length input - 3" "0 \<notin> set pad"
    using random_padding_val [OF assms(4-6)] by blast
  from rsa_encrypt_decrypt [OF rsa_key_pair_key [OF assms(1)] assms(2,5) this] assms(3) show ?thesis by auto
qed

definition example_random :: R_RANDOM_STRUCT where
  "example_random = \<lparr>bytesNeeded = 0, rnd_state = replicate 16 0, outputAvailable = 16,
     rnd_output = [1, 2, 3, 4, 5, 6, 7, 8, 9, 10, 11, 12, 13, 14, 15, 16]\<rparr>"

lemma example_random_ok:
  "rnd_inv example_random" "bytesNeeded example_random = 0"
  "length (filter (\<lambda>b. b \<noteq> 0) (fst (rnd_generate 16 example_random))) = 16"
  by (simp_all add: example_random_def rnd_inv_def rnd_generate_ready)

theorem RSA_encrypt_decrypt_witness:
  "\<exists>c r'. RSAPublicEncrypt [9] example_public example_random = Some (Inr c, r') \<and> length c = 12 \<and>
          RSAPrivateDecrypt c example_private = Some (Inr [9])"
  using RSA_encrypt_decrypt [OF example_key_pair, of "[9]" example_random 16] example_random_ok
  by (simp add: example_public_def)

text \<open>An empty message is accepted by \<^verbatim>\<open>RSAPublicEncrypt\<close>, but
  \<^verbatim>\<open>RSAPrivateDecrypt\<close> refuses the block it makes with \<^verbatim>\<open>RE_DATA\<close>: its check
  \<^verbatim>\<open>i >= modulusLen\<close> takes the separator in the last byte for a missing one.\<close>

theorem RSA_empty_message:
  assumes "rsa_key_pair pk sk" "11 \<le> (pub_bits pk + 7) div 8" "rnd_inv r" "bytesNeeded r = 0"
    "(pub_bits pk + 7) div 8 - 3 \<le> length (filter (\<lambda>b. b \<noteq> 0) (fst (rnd_generate N r)))"
  shows "\<exists>c r'. RSAPublicEncrypt [] pk r = Some (Inr c, r') \<and>
                RSAPrivateDecrypt c sk = Some (Inl RE_DATA)"
proof -
  obtain pad r' where "random_padding ((pub_bits pk + 7) div 8 - length ([] :: bytes) - 3) r = Some (pad, r')"
    "length pad = (pub_bits pk + 7) div 8 - length ([] :: bytes) - 3" "0 \<notin> set pad"
    using random_padding_val [OF assms(3-5)] by (auto simp: list.size(3))
  from rsa_encrypt_decrypt [OF rsa_key_pair_key [OF assms(1)] _ assms(4) this] assms(2) show ?thesis by auto
qed

theorem RSA_empty_message_witness:
  "\<exists>c r'. RSAPublicEncrypt [] example_public example_random = Some (Inr c, r') \<and>
          RSAPrivateDecrypt c example_private = Some (Inl RE_DATA)"
  using RSA_empty_message [OF example_key_pair, of example_random 16] example_random_ok
  by (simp add: example_public_def)

text \<open>A message too long for the key, an unseeded random object and a ciphertext longer
  than the modulus are refused before any computation, and leave the random object as it
  was.\<close>

theorem RSA_length_errors:
  "((pub_bits pk + 7) div 8 < length input + 11 \<longrightarrow>
      RSAPublicEncrypt input pk r = Some (Inl RE_LEN, r)) \<and>
   (length input + 11 \<le> (pub_bits pk + 7) div 8 \<and> bytesNeeded r \<noteq> 0 \<longrightarrow>
      RSAPublicEncrypt input pk r = Some (Inl RE_NEED_RANDOM, r)) \<and>
   ((bits sk + 7) div 8 < length input \<longrightarrow> RSAPrivateDecrypt input sk = Some (Inl RE_LEN))"
  by (simp add: RSAPublicEncrypt_def RSAPrivateDecrypt_def R_GetRandomBytesNeeded_def Let_def)

theorem RSA_length_errors_witness:
  "RSAPublicEncrypt [1, 2] example_public example_random = Some (Inl RE_LEN, example_random)"
  using RSA_length_errors [of example_public "[1, 2]"] by (simp add: example_public_def)

end
