(* ===== verification/Prime.thy ===== *)
theory Prime
  imports RSA
begin

text \<open>
  \<^verbatim>\<open>HBase/RSAEuro/prime.c\<close>: the search for a number that passes a trial division by the odd primes below
  8192 and Fermat's test to base 2.
\<close>

section \<open>The test\<close>

text \<open>The table \<^verbatim>\<open>SMALL_PRIMES\<close> without the zero that ends it.\<close>

definition SMALL_PRIMES :: "nat list" where
  "SMALL_PRIMES = [
     3, 5, 7, 11, 13, 17, 19, 23, 29, 31, 37, 41, 43, 47, 53, 59, 61, 67, 71, 73, 79, 83, 89, 97, 101, 103, 107, 109,
     113, 127, 131, 137, 139, 149, 151, 157, 163, 167, 173, 179, 181, 191, 193, 197, 199, 211, 223, 227, 229, 233,
     239, 241, 251, 257, 263, 269, 271, 277, 281, 283, 293, 307, 311, 313, 317, 331, 337, 347, 349, 353, 359, 367,
     373, 379, 383, 389, 397, 401, 409, 419, 421, 431, 433, 439, 443, 449, 457, 461, 463, 467, 479, 487, 491, 499,
     503, 509, 521, 523, 541, 547, 557, 563, 569, 571, 577, 587, 593, 599, 601, 607, 613, 617, 619, 631, 641, 643,
     647, 653, 659, 661, 673, 677, 683, 691, 701, 709, 719, 727, 733, 739, 743, 751, 757, 761, 769, 773, 787, 797,
     809, 811, 821, 823, 827, 829, 839, 853, 857, 859, 863, 877, 881, 883, 887, 907, 911, 919, 929, 937, 941, 947,
     953, 967, 971, 977, 983, 991, 997, 1009, 1013, 1019, 1021, 1031, 1033, 1039, 1049, 1051, 1061, 1063, 1069, 1087,
     1091, 1093, 1097, 1103, 1109, 1117, 1123, 1129, 1151, 1153, 1163, 1171, 1181, 1187, 1193, 1201, 1213, 1217,
     1223, 1229, 1231, 1237, 1249, 1259, 1277, 1279, 1283, 1289, 1291, 1297, 1301, 1303, 1307, 1319, 1321, 1327,
     1361, 1367, 1373, 1381, 1399, 1409, 1423, 1427, 1429, 1433, 1439, 1447, 1451, 1453, 1459, 1471, 1481, 1483,
     1487, 1489, 1493, 1499, 1511, 1523, 1531, 1543, 1549, 1553, 1559, 1567, 1571, 1579, 1583, 1597, 1601, 1607,
     1609, 1613, 1619, 1621, 1627, 1637, 1657, 1663, 1667, 1669, 1693, 1697, 1699, 1709, 1721, 1723, 1733, 1741,
     1747, 1753, 1759, 1777, 1783, 1787, 1789, 1801, 1811, 1823, 1831, 1847, 1861, 1867, 1871, 1873, 1877, 1879,
     1889, 1901, 1907, 1913, 1931, 1933, 1949, 1951, 1973, 1979, 1987, 1993, 1997, 1999, 2003, 2011, 2017, 2027,
     2029, 2039, 2053, 2063, 2069, 2081, 2083, 2087, 2089, 2099, 2111, 2113, 2129, 2131, 2137, 2141, 2143, 2153,
     2161, 2179, 2203, 2207, 2213, 2221, 2237, 2239, 2243, 2251, 2267, 2269, 2273, 2281, 2287, 2293, 2297, 2309,
     2311, 2333, 2339, 2341, 2347, 2351, 2357, 2371, 2377, 2381, 2383, 2389, 2393, 2399, 2411, 2417, 2423, 2437,
     2441, 2447, 2459, 2467, 2473, 2477, 2503, 2521, 2531, 2539, 2543, 2549, 2551, 2557, 2579, 2591, 2593, 2609,
     2617, 2621, 2633, 2647, 2657, 2659, 2663, 2671, 2677, 2683, 2687, 2689, 2693, 2699, 2707, 2711, 2713, 2719,
     2729, 2731, 2741, 2749, 2753, 2767, 2777, 2789, 2791, 2797, 2801, 2803, 2819, 2833, 2837, 2843, 2851, 2857,
     2861, 2879, 2887, 2897, 2903, 2909, 2917, 2927, 2939, 2953, 2957, 2963, 2969, 2971, 2999, 3001, 3011, 3019,
     3023, 3037, 3041, 3049, 3061, 3067, 3079, 3083, 3089, 3109, 3119, 3121, 3137, 3163, 3167, 3169, 3181, 3187,
     3191, 3203, 3209, 3217, 3221, 3229, 3251, 3253, 3257, 3259, 3271, 3299, 3301, 3307, 3313, 3319, 3323, 3329,
     3331, 3343, 3347, 3359, 3361, 3371, 3373, 3389, 3391, 3407, 3413, 3433, 3449, 3457, 3461, 3463, 3467, 3469,
     3491, 3499, 3511, 3517, 3527, 3529, 3533, 3539, 3541, 3547, 3557, 3559, 3571, 3581, 3583, 3593, 3607, 3613,
     3617, 3623, 3631, 3637, 3643, 3659, 3671, 3673, 3677, 3691, 3697, 3701, 3709, 3719, 3727, 3733, 3739, 3761,
     3767, 3769, 3779, 3793, 3797, 3803, 3821, 3823, 3833, 3847, 3851, 3853, 3863, 3877, 3881, 3889, 3907, 3911,
     3917, 3919, 3923, 3929, 3931, 3943, 3947, 3967, 3989, 4001, 4003, 4007, 4013, 4019, 4021, 4027, 4049, 4051,
     4057, 4073, 4079, 4091, 4093, 4099, 4111, 4127, 4129, 4133, 4139, 4153, 4157, 4159, 4177, 4201, 4211, 4217,
     4219, 4229, 4231, 4241, 4243, 4253, 4259, 4261, 4271, 4273, 4283, 4289, 4297, 4327, 4337, 4339, 4349, 4357,
     4363, 4373, 4391, 4397, 4409, 4421, 4423, 4441, 4447, 4451, 4457, 4463, 4481, 4483, 4493, 4507, 4513, 4517,
     4519, 4523, 4547, 4549, 4561, 4567, 4583, 4591, 4597, 4603, 4621, 4637, 4639, 4643, 4649, 4651, 4657, 4663,
     4673, 4679, 4691, 4703, 4721, 4723, 4729, 4733, 4751, 4759, 4783, 4787, 4789, 4793, 4799, 4801, 4813, 4817,
     4831, 4861, 4871, 4877, 4889, 4903, 4909, 4919, 4931, 4933, 4937, 4943, 4951, 4957, 4967, 4969, 4973, 4987,
     4993, 4999, 5003, 5009, 5011, 5021, 5023, 5039, 5051, 5059, 5077, 5081, 5087, 5099, 5101, 5107, 5113, 5119,
     5147, 5153, 5167, 5171, 5179, 5189, 5197, 5209, 5227, 5231, 5233, 5237, 5261, 5273, 5279, 5281, 5297, 5303,
     5309, 5323, 5333, 5347, 5351, 5381, 5387, 5393, 5399, 5407, 5413, 5417, 5419, 5431, 5437, 5441, 5443, 5449,
     5471, 5477, 5479, 5483, 5501, 5503, 5507, 5519, 5521, 5527, 5531, 5557, 5563, 5569, 5573, 5581, 5591, 5623,
     5639, 5641, 5647, 5651, 5653, 5657, 5659, 5669, 5683, 5689, 5693, 5701, 5711, 5717, 5737, 5741, 5743, 5749,
     5779, 5783, 5791, 5801, 5807, 5813, 5821, 5827, 5839, 5843, 5849, 5851, 5857, 5861, 5867, 5869, 5879, 5881,
     5897, 5903, 5923, 5927, 5939, 5953, 5981, 5987, 6007, 6011, 6029, 6037, 6043, 6047, 6053, 6067, 6073, 6079,
     6089, 6091, 6101, 6113, 6121, 6131, 6133, 6143, 6151, 6163, 6173, 6197, 6199, 6203, 6211, 6217, 6221, 6229,
     6247, 6257, 6263, 6269, 6271, 6277, 6287, 6299, 6301, 6311, 6317, 6323, 6329, 6337, 6343, 6353, 6359, 6361,
     6367, 6373, 6379, 6389, 6397, 6421, 6427, 6449, 6451, 6469, 6473, 6481, 6491, 6521, 6529, 6547, 6551, 6553,
     6563, 6569, 6571, 6577, 6581, 6599, 6607, 6619, 6637, 6653, 6659, 6661, 6673, 6679, 6689, 6691, 6701, 6703,
     6709, 6719, 6733, 6737, 6761, 6763, 6779, 6781, 6791, 6793, 6803, 6823, 6827, 6829, 6833, 6841, 6857, 6863,
     6869, 6871, 6883, 6899, 6907, 6911, 6917, 6947, 6949, 6959, 6961, 6967, 6971, 6977, 6983, 6991, 6997, 7001,
     7013, 7019, 7027, 7039, 7043, 7057, 7069, 7079, 7103, 7109, 7121, 7127, 7129, 7151, 7159, 7177, 7187, 7193,
     7207, 7211, 7213, 7219, 7229, 7237, 7243, 7247, 7253, 7283, 7297, 7307, 7309, 7321, 7331, 7333, 7349, 7351,
     7369, 7393, 7411, 7417, 7433, 7451, 7457, 7459, 7477, 7481, 7487, 7489, 7499, 7507, 7517, 7523, 7529, 7537,
     7541, 7547, 7549, 7559, 7561, 7573, 7577, 7583, 7589, 7591, 7603, 7607, 7621, 7639, 7643, 7649, 7669, 7673,
     7681, 7687, 7691, 7699, 7703, 7717, 7723, 7727, 7741, 7753, 7757, 7759, 7789, 7793, 7817, 7823, 7829, 7841,
     7853, 7867, 7873, 7877, 7879, 7883, 7901, 7907, 7919, 7927, 7933, 7937, 7949, 7951, 7963, 7993, 8009, 8011,
     8017, 8039, 8053, 8059, 8069, 8081, 8087, 8089, 8093, 8101, 8111, 8117, 8123, 8147, 8161, 8167, 8171, 8179,
     8191]"

text \<open>The loop over the table; \<^verbatim>\<open>t\<close> has one digit, the prime, and then the remainder.\<close>

fun small_primes_test :: "nat list \<Rightarrow> nn \<Rightarrow> nat \<Rightarrow> bool option" where
  "small_primes_test [] a aDigits = Some True"
| "small_primes_test (p # ps) a aDigits =
     (let t = [word_of_nat p]
      in if aDigits = 1 \<and> NN_Cmp a t 1 = 0 then Some True
         else do {
           t \<leftarrow> NN_Mod t a aDigits t 1;
           if NN_Zero t 1 then Some False else small_primes_test ps a aDigits
         })"

definition probableprime :: "nn \<Rightarrow> nat \<Rightarrow> bool option" where
  "probableprime a aDigits = do {
     status \<leftarrow> small_primes_test SMALL_PRIMES a aDigits;
     if status
     then do {
       let t = NN_ASSIGN_DIGIT 2 aDigits;
       u \<leftarrow> NN_ModExp t a aDigits a aDigits;
       Some (NN_EQUAL t u aDigits)
     }
     else Some False
   }"

section \<open>The search\<close>

text \<open>\<^verbatim>\<open>while (!probableprime (a, digits))\<close>, which may run for ever when \<open>d\<close> is zero.\<close>

partial_function (option) prime_search :: "nn \<Rightarrow> nn \<Rightarrow> nn \<Rightarrow> nat \<Rightarrow> (int + nn) option" where
  "prime_search a t d digits = do {
     ok \<leftarrow> probableprime a digits;
     if ok then Some (Inr a)
     else if NN_Cmp a t digits > 0 then Some (Inl RE_DATA)
     else prime_search (fst (NN_Add a d digits)) t d digits
   }"

definition GeneratePrime ::
  "nn \<Rightarrow> nn \<Rightarrow> nn \<Rightarrow> nat \<Rightarrow> R_RANDOM_STRUCT \<Rightarrow> ((int + nn) \<times> R_RANDOM_STRUCT) option" where
  "GeneratePrime b c d digits random =
     (case R_GenerateBytes (digits * 4) random of
        Inl status \<Rightarrow> Some (Inl status, random)
      | Inr (block, random) \<Rightarrow> do {
          let a = NN_Decode digits block;
          let t = fst (NN_Sub c b digits);
          let u = NN_ASSIGN_DIGIT 1 digits;
          let t = fst (NN_Add t u digits);
          a \<leftarrow> NN_Mod a a digits t digits;
          let a = fst (NN_Add a b digits);
          t \<leftarrow> NN_Mod t a digits d digits;
          let a = fst (NN_Sub a t digits);
          let a = fst (NN_Add a u digits);
          let a = (if NN_Cmp a b digits < 0 then fst (NN_Add a d digits) else a);
          let a = (if NN_Cmp a c digits > 0 then fst (NN_Sub a d digits) else a);
          let t = fst (NN_Sub (NN_Assign c digits) d digits);
          result \<leftarrow> prime_search a t d digits;
          Some (result, random)
        })"

section \<open>Lemmas\<close>

lemma NN_Cmp_val:
  "n \<le> length a \<Longrightarrow> n \<le> length b \<Longrightarrow> NN_Cmp a b n =
     (if nn_val (take n a) < nn_val (take n b) then -1 else if nn_val (take n a) = nn_val (take n b) then 0 else 1)"
  by (simp add: NN_Cmp_def nn_cmp_val)

lemma length_ASSIGN_DIGIT [simp]: "length (NN_ASSIGN_DIGIT x n) = n"
  by (simp add: NN_ASSIGN_DIGIT_def NN_AssignZero_def)

lemma SMALL_PRIMES_range: "list_all (\<lambda>p. 1 < p \<and> p < 8192) SMALL_PRIMES"
  by (simp add: SMALL_PRIMES_def)

text \<open>What the trial division tells: \<open>v\<close> is the number, \<open>n\<close> its digits.\<close>

fun no_small_factor :: "nat list \<Rightarrow> nat \<Rightarrow> nat \<Rightarrow> bool" where
  "no_small_factor [] n v \<longleftrightarrow> True"
| "no_small_factor (p # ps) n v \<longleftrightarrow> (n = 1 \<and> v = p) \<or> (v mod p \<noteq> 0 \<and> no_small_factor ps n v)"

lemma small_primes_test_val:
  assumes "n \<le> length a" "list_all (\<lambda>p. 1 < p \<and> p < 8192) ps"
  shows "small_primes_test ps a n = Some (no_small_factor ps n (nn_val (take n a)))"
  using assms(2)
proof (induction ps)
  case (Cons p ps)
  then have p: "unat (word_of_nat p :: u32) = p" "1 < p" by (simp_all add: unat_of_nat)
  have v: "nn_val (take 1 [word_of_nat p]) = p" by (simp add: p(1))
  have "0 < nn_val (take 1 [word_of_nat p])" unfolding v using p(2) by simp
  from NN_Mod_val [OF assms(1) _ this, of "[word_of_nat p]"]
  obtain r where r: "NN_Mod [word_of_nat p] a n [word_of_nat p] 1 = Some r" "length r = 1" "nn_val r = nn_val (take n a) mod p"
    unfolding v by auto
  have z: "NN_Zero r 1 \<longleftrightarrow> nn_val (take n a) mod p = 0" using NN_Zero_val [of 1 r] r(2,3) by simp
  have c: "(n = 1 \<and> NN_Cmp a [word_of_nat p] 1 = 0) \<longleftrightarrow> n = 1 \<and> nn_val (take n a) = p"
    using NN_Cmp_val [of 1 a "[word_of_nat p]"] assms(1) v by (auto simp del: One_nat_def split: if_splits)
  have IH: "small_primes_test ps a n = Some (no_small_factor ps n (nn_val (take n a)))" using Cons by simp
  define P where "P \<longleftrightarrow> n = 1 \<and> nn_val (take n a) = p"
  show ?case
    unfolding small_primes_test.simps no_small_factor.simps Let_def c P_def [symmetric] r(1) by (simp add: z IH del: One_nat_def)
qed simp

lemma no_small_factorD: "no_small_factor ps n v \<Longrightarrow> v \<in> set ps \<or> (\<forall>p \<in> set ps. \<not> p dvd v)"
  by (induction ps) (auto simp: dvd_eq_mod_eq_0)

lemma prime_no_small_factor:
  "is_prime v \<Longrightarrow> list_all (\<lambda>p. 1 < p) ps \<Longrightarrow> n = 1 \<or> (\<forall>p \<in> set ps. p < v) \<Longrightarrow> no_small_factor ps n v"
proof (induction ps)
  case (Cons p ps)
  have "v = p \<or> v mod p \<noteq> 0"
  proof (rule ccontr)
    assume c: "\<not> (v = p \<or> v mod p \<noteq> 0)"
    then have d: "p dvd v" "v \<noteq> p" by auto
    have "p \<le> v" using d(1) prime_gt_1 [OF Cons.prems(1)] by (intro dvd_imp_le) simp_all
    then have "p \<in> {2..<v}" using d(2) Cons.prems(2) by simp
    then show False using d(1) Cons.prems(1) by (simp add: is_prime_def)
  qed
  then show ?case using Cons by auto
qed simp

lemma probableprime_val:
  assumes "n \<le> length a" "0 < nn_val (take n a)"
  defines "v \<equiv> nn_val (take n a)"
  shows "probableprime a n = Some (no_small_factor SMALL_PRIMES n v \<and> 2 ^ v mod v = 2)"
proof -
  have n: "0 < n" using assms(2) by (cases n) simp_all
  have two: "nn_val (NN_ASSIGN_DIGIT 2 n) = 2" using nn_val_ASSIGN_DIGIT [OF n, of 2] by simp
  have v: "v \<noteq> 0" using assms(2) by (simp add: v_def)
  obtain u where u: "NN_ModExp (NN_ASSIGN_DIGIT 2 n) a n a n = Some u" "length u = n" "nn_val u = 2 ^ v mod v"
    using NN_ModExp_val [of n "NN_ASSIGN_DIGIT 2 n" a n a] assms(1,2) v by (auto simp: two v_def [symmetric])
  have "NN_EQUAL (NN_ASSIGN_DIGIT 2 n) u n \<longleftrightarrow> 2 ^ v mod v = 2"
    using NN_Cmp_val [of n "NN_ASSIGN_DIGIT 2 n" u] u(2,3) two by (auto simp: NN_EQUAL_def)
  then show ?thesis
    unfolding probableprime_def small_primes_test_val [OF assms(1) SMALL_PRIMES_range] v_def [symmetric]
    using u(1) by simp
qed

text \<open>The search runs from a number of the residue class to the greatest one up to \<open>c\<close>.\<close>

lemma prime_search_val:
  assumes "length a = n" "length c = n" "length d = n" "length t = n" "0 < nn_val d" "nn_val d \<le> nn_val c"
    "nn_val t = nn_val c - nn_val d" "0 < nn_val a" "nn_val a \<le> nn_val c"
  shows "\<exists>r. prime_search a t d n = Some r \<and>
    (case r of Inl e \<Rightarrow> e = RE_DATA \<and> (\<forall>k. nn_val a + k * nn_val d \<le> nn_val c \<longrightarrow>
                 \<not> (no_small_factor SMALL_PRIMES n (nn_val a + k * nn_val d) \<and>
                    2 ^ (nn_val a + k * nn_val d) mod (nn_val a + k * nn_val d) = 2))
     | Inr x \<Rightarrow> length x = n \<and> (\<exists>k. nn_val x = nn_val a + k * nn_val d) \<and> nn_val x \<le> nn_val c \<and> probableprime x n = Some True)"
  using assms(1,8,9)
proof (induction "nn_val c - nn_val a" arbitrary: a rule: less_induct)
  case less
  let ?ok = "\<lambda>v. no_small_factor SMALL_PRIMES n v \<and> 2 ^ v mod v = 2"
  have p: "probableprime a n = Some (?ok (nn_val a))"
    using probableprime_val [of n a] less.prems by simp
  have cmp: "NN_Cmp a t n > 0 \<longleftrightarrow> nn_val c < nn_val a + nn_val d"
    using NN_Cmp_val [of n a t] less.prems assms(4,6,7) by auto
  consider "?ok (nn_val a)" | "\<not> ?ok (nn_val a)" "nn_val c < nn_val a + nn_val d"
    | "\<not> ?ok (nn_val a)" "nn_val a + nn_val d \<le> nn_val c" by linarith
  then show ?case
  proof cases
    case 1
    then have "prime_search a t d n = Some (Inr a)" by (subst prime_search.simps) (simp add: p)
    then show ?thesis using 1 p less.prems by (auto intro: exI [of _ 0])
  next
    case 2
    have "prime_search a t d n = Some (Inl RE_DATA)"
      using 2 cmp by (subst prime_search.simps) (auto simp: p)
    moreover have "\<not> ?ok (nn_val a + k * nn_val d)" if "nn_val a + k * nn_val d \<le> nn_val c" for k
      using 2 that by (cases k) auto
    ultimately show ?thesis by auto
  next
    case 3
    define a' where "a' = fst (NN_Add a d n)"
    have "nn_val c < 2 ^ (32 * n)" using nn_val_less [of c] assms(2) by simp
    then have a': "nn_val a' = nn_val a + nn_val d" "length a' = n"
      using NN_Add_val [of n a d] 3(2) less.prems(1) assms(3) by (simp_all add: a'_def)
    have s: "prime_search a t d n = prime_search a' t d n"
      using 3 cmp by (subst prime_search.simps) (auto simp: p a'_def)
    have "nn_val c - nn_val a' < nn_val c - nn_val a" "0 < nn_val a'" "nn_val a' \<le> nn_val c"
      using a'(1) 3(2) assms(5) by simp_all
    note IH = less.hyps [OF this(1) a'(2) this(2,3)]
    then obtain r where r: "prime_search a' t d n = Some r"
      "case r of Inl e \<Rightarrow> e = RE_DATA \<and> (\<forall>k. nn_val a' + k * nn_val d \<le> nn_val c \<longrightarrow> \<not> ?ok (nn_val a' + k * nn_val d))
       | Inr x \<Rightarrow> length x = n \<and> (\<exists>k. nn_val x = nn_val a' + k * nn_val d) \<and> nn_val x \<le> nn_val c \<and> probableprime x n = Some True"
      by blast
    have nok: "\<not> ?ok (nn_val a + k * nn_val d)"
      if "\<forall>k. nn_val a' + k * nn_val d \<le> nn_val c \<longrightarrow> \<not> ?ok (nn_val a' + k * nn_val d)" "nn_val a + k * nn_val d \<le> nn_val c" for k
    proof (cases k)
      case 0
      then show ?thesis using 3(1) by simp
    next
      case (Suc j)
      then show ?thesis using that(1) [rule_format, of j] that(2) a'(1) by (simp add: add.assoc)
    qed
    have more: "\<exists>j. nn_val a' + k * nn_val d = nn_val a + j * nn_val d" for k
      by (rule exI [of _ "Suc k"]) (simp add: a'(1))
    show ?thesis
    proof (cases r)
      case (Inl e)
      then show ?thesis using r(2) nok by (simp add: s r(1))
    next
      case (Inr x)
      then obtain k where "nn_val x = nn_val a' + k * nn_val d" using r(2) by auto
      then obtain j where "nn_val x = nn_val a + j * nn_val d" using more by metis
      then show ?thesis using r(2) Inr by (auto simp: s r(1))
    qed
  qed
qed

text \<open>
  The whole search: the first candidate is the member of the residue class next to a random number, moved into
  the interval.
\<close>

definition probable_prime :: "nat \<Rightarrow> nat \<Rightarrow> bool" where
  "probable_prime n v \<longleftrightarrow> no_small_factor SMALL_PRIMES n v \<and> 2 ^ v mod v = 2"

lemma candidate_range:
  assumes "b \<le> a" "a \<le> c" "0 < d" "d \<le> c - b + 1" "b \<le> c" "0 < (b :: nat)"
    and a0_def: "a0 = a - a mod d + 1"
    and a1_def: "a1 = (if a0 < b then a0 + d else a0)"
    and a2_def: "a2 = (if c < a1 then a1 - d else a1)"
  shows "a0 \<le> c + 1" "a1 \<le> c + 1" "a0 < b \<Longrightarrow> a0 + d \<le> c" "c < a1 \<Longrightarrow> d \<le> a1" "b \<le> a2" "a2 \<le> c" "d dvd a2 - 1" "0 < a2"
    "c < a1 \<Longrightarrow> d dvd c"
proof -
  define m q where "m = a mod d" and "q = a div d"
  have a: "a = q * d + m" and m: "m < d" using assms(3) by (simp_all add: m_def q_def)
  have "a0 = a - m + 1" by (simp only: a0_def m_def)
  then have a0: "a0 = q * d + 1" using a by linarith
  show r0: "a0 \<le> c + 1" using assms(2) a a0 by linarith
  show s: "a0 + d \<le> c" if "a0 < b"
    using that assms(4,5) by linarith
  have a1: "a1 = q * d + 1 \<and> (a1 < b \<longrightarrow> False) \<or> a1 = (q + 1) * d + 1 \<and> b \<le> a1 \<and> a1 \<le> c"
  proof (cases "a0 < b")
    case True
    then have "a1 = a0 + d" by (simp add: a1_def)
    moreover have "b \<le> a0 + d" using assms(1) a a0 m by linarith
    ultimately show ?thesis using s [OF True] a0 by (simp add: algebra_simps)
  next
    case False
    then show ?thesis using a0 by (simp add: a1_def)
  qed
  show "a1 \<le> c + 1" using r0 s by (auto simp: a1_def)
  have c: "a1 = c + 1 \<and> c = q * d" if "c < a1" using that a1 assms(2) a a0 r0 s by (auto simp: a1_def)
  show "d dvd c" if "c < a1" using c [OF that] by simp
  have big: "d \<le> c + 1 - b" using assms(4,5) by linarith
  show "d \<le> a1" if "c < a1" using c [OF that] big by linarith
  have b1: "b \<le> a1" using a1 by (elim disjE conjE) (simp_all only: not_less [symmetric], blast+)
  show "b \<le> a2"
  proof (cases "c < a1")
    case True
    then have "a2 = c + 1 - d" using c by (simp add: a2_def)
    then show ?thesis using big assms(5) by linarith
  next
    case False
    then show ?thesis using b1 by (simp add: a2_def)
  qed
  show "a2 \<le> c"
  proof (cases "c < a1")
    case True
    then have "a2 = c + 1 - d" using c by (simp add: a2_def)
    then show ?thesis using assms(3) by linarith
  next
    case False
    then show ?thesis by (simp add: a2_def)
  qed
  show p: "0 < a2"
  proof (cases "c < a1")
    case True
    then have e: "a2 = c + 1 - d" "c = q * d" using c by (simp_all add: a2_def)
    have "q = 0 \<or> d \<le> q * d" by (cases q) simp_all
    then show ?thesis
    proof
      assume "q = 0"
      then have "c = 0" using e by simp
      then show ?thesis using assms(5,6) by simp
    qed (use e in linarith)
  next
    case False
    then show ?thesis using a1 by (auto simp: a2_def)
  qed
  show "d dvd a2 - 1"
  proof (cases "c < a1")
    case True
    then have e: "a2 = c + 1 - d" "c = q * d" using c by (simp_all add: a2_def)
    then have "a2 - 1 = q * d - d" by simp
    then show ?thesis by simp
  next
    case False
    then have "a2 = q * d + 1 \<or> a2 = (q + 1) * d + 1" using a1 by (auto simp: a2_def)
    then show ?thesis by (elim disjE) simp_all
  qed
qed

lemma GeneratePrime_val:
  assumes "length b = n" "length c = n" "length d = n" "nn_val b \<le> nn_val c" "0 < nn_val b"
    "0 < nn_val d" "nn_val d \<le> nn_val c - nn_val b + 1" "nn_val c + 1 < 2 ^ (32 * n) \<or> \<not> nn_val d dvd nn_val c"
    "rnd_inv r" "bytesNeeded r = 0"
  shows "\<exists>result r'. GeneratePrime b c d n r = Some (result, r') \<and> rnd_inv r' \<and> bytesNeeded r' = 0 \<and>
    (case result of Inl e \<Rightarrow> e = RE_DATA
     | Inr x \<Rightarrow> length x = n \<and> nn_val b \<le> nn_val x \<and> nn_val x \<le> nn_val c \<and> nn_val d dvd nn_val x - 1 \<and>
         probable_prime n (nn_val x))"
proof -
  let ?b = "nn_val b" and ?c = "nn_val c" and ?d = "nn_val d"
  have C: "?c < 2 ^ (32 * n)" using nn_val_less [of c] assms(2) by simp
  have n: "0 < n" using assms(1,5) by (cases n) simp_all
  obtain block r' where g: "rnd_generate (n * 4) r = (block, r')" by (rule prod.exhaust)
  note ri = rnd_generate_inv [OF assms(9) g]
  define a where "a = NN_Decode n block"
  define u where "u = NN_ASSIGN_DIGIT 1 n"
  have u: "nn_val u = 1" "length u = n" using nn_val_ASSIGN_DIGIT [OF n, of 1] by (simp_all add: u_def)
  define t where "t = fst (NN_Sub c b n)"
  have t: "nn_val t = ?c - ?b" "length t = n" using NN_Sub_val [of n c b] assms(1,2,4) by (simp_all add: t_def)
  define t1 where "t1 = fst (NN_Add t u n)"
  have "?c - ?b + 1 < 2 ^ (32 * n)" using C assms(4,5) by linarith
  then have t1: "nn_val t1 = ?c - ?b + 1" "length t1 = n"
    using NN_Add_val [of n t u] t u by (simp_all add: t1_def)
  obtain a1 where a1: "NN_Mod a a n t1 n = Some a1" "length a1 = n" "nn_val a1 = nn_val a mod (?c - ?b + 1)"
    using NN_Mod_val [of n a n t1 a] t1 by (auto simp: a_def)
  have a1_le: "nn_val a1 \<le> ?c - ?b"
    using mod_less_divisor [of "?c - ?b + 1" "nn_val a"] unfolding a1(3) by linarith
  define a2 where "a2 = fst (NN_Add a1 b n)"
  have a2_sum: "nn_val a1 + ?b < 2 ^ (32 * n)" using a1_le C assms(4) by linarith
  then have a2: "nn_val a2 = nn_val a1 + ?b" "length a2 = n"
    using NN_Add_val [of n a1 b] a1(2) assms(1) by (simp_all add: a2_def)
  have a2_in: "?b \<le> nn_val a2" "nn_val a2 \<le> ?c" using a2(1) a1_le assms(4) by linarith+
  obtain m where m: "NN_Mod t1 a2 n d n = Some m" "length m = n" "nn_val m = nn_val a2 mod ?d"
    using NN_Mod_val [of n a2 n d t1] a2(2) assms(3,6) by auto
  define A0 where "A0 = nn_val a2 - nn_val a2 mod ?d + 1"
  define A1 where "A1 = (if A0 < ?b then A0 + ?d else A0)"
  define A2 where "A2 = (if ?c < A1 then A1 - ?d else A1)"
  note cr = candidate_range [OF a2_in assms(6,7,4,5) A0_def A1_def A2_def]
  define s where "s = fst (NN_Sub a2 m n)"
  define a3 where "a3 = fst (NN_Add s u n)"
  have s: "nn_val s = nn_val a2 - nn_val a2 mod ?d" "length s = n"
    using NN_Sub_val [of n a2 m] m(2,3) a2(2) by (simp_all add: s_def)
  have A0_div: "?d dvd ?c" if "A0 = ?c + 1"
    using cr(9) that assms(4) by (simp add: A1_def)
  have "A0 < 2 ^ (32 * n)"
    using cr(1) A0_div assms(8) C by (cases "A0 = ?c + 1") auto
  then have a3: "nn_val a3 = A0" "length a3 = n"
    using NN_Add_val [of n s u] s u by (simp_all add: a3_def A0_def)
  define a4 where "a4 = (if NN_Cmp a3 b n < 0 then fst (NN_Add a3 d n) else a3)"
  have cmp4: "NN_Cmp a3 b n < 0 \<longleftrightarrow> A0 < ?b" using NN_Cmp_val [of n a3 b] a3 assms(1) by simp
  have "nn_val a4 = A1 \<and> length a4 = n"
  proof (cases "A0 < ?b")
    case True
    have "A0 + ?d < 2 ^ (32 * n)" using cr(3) [OF True] C by linarith
    then show ?thesis using True cmp4 NN_Add_val [of n a3 d] a3 assms(3) by (simp add: a4_def A1_def)
  next
    case False
    then show ?thesis using cmp4 a3 by (simp add: a4_def A1_def)
  qed
  then have a4: "nn_val a4 = A1" "length a4 = n" by simp_all
  define a5 where "a5 = (if NN_Cmp a4 c n > 0 then fst (NN_Sub a4 d n) else a4)"
  have cmp5: "NN_Cmp a4 c n > 0 \<longleftrightarrow> ?c < A1" using NN_Cmp_val [of n a4 c] a4 assms(2) by simp
  have "nn_val a5 = A2 \<and> length a5 = n"
  proof (cases "?c < A1")
    case True
    then show ?thesis using cmp5 NN_Sub_val [of n a4 d] a4 assms(3) cr(4) [OF True] by (simp add: a5_def A2_def)
  next
    case False
    then show ?thesis using cmp5 a4 by (simp add: a5_def A2_def)
  qed
  then have a5: "nn_val a5 = A2" "length a5 = n" by simp_all
  define t2 where "t2 = fst (NN_Sub (NN_Assign c n) d n)"
  have dc: "?d \<le> ?c" using assms(4,5,7) by linarith
  have t2: "nn_val t2 = ?c - ?d" "length t2 = n"
    using NN_Sub_val [of n c d] assms(2,3) dc by (simp_all add: t2_def NN_Assign_def)
  have pos: "0 < nn_val a5" "nn_val a5 \<le> ?c" "?b \<le> nn_val a5" "?d dvd nn_val a5 - 1" using cr(5-8) by (simp_all add: a5)
  obtain res where res: "prime_search a5 t2 d n = Some res"
    "case res of Inl e \<Rightarrow> e = RE_DATA
     | Inr x \<Rightarrow> length x = n \<and> (\<exists>k. nn_val x = nn_val a5 + k * ?d) \<and> nn_val x \<le> ?c \<and> probableprime x n = Some True"
    using prime_search_val [OF a5(2) assms(2,3) t2(2) assms(6) dc t2(1) pos(1,2)] by (elim exE conjE, case_tac r) auto
  have "GeneratePrime b c d n r = Some (res, r')"
    unfolding GeneratePrime_def R_GenerateBytes_def assms(10) g simp_thms if_False sum.case prod.case Let_def
      a_def [symmetric] t_def [symmetric] u_def [symmetric] t1_def [symmetric] a1(1) Option.bind.simps
      a2_def [symmetric] m(1) s_def [symmetric] a3_def [symmetric] a4_def [symmetric] a5_def [symmetric] t2_def [symmetric] res(1)
    by (rule TrueI)
  moreover have "length x = n \<and> ?b \<le> nn_val x \<and> nn_val x \<le> ?c \<and> ?d dvd nn_val x - 1 \<and> probable_prime n (nn_val x)"
    if rx: "res = Inr x" for x
  proof -
    obtain k where k: "nn_val x = nn_val a5 + k * ?d" "length x = n" "nn_val x \<le> ?c" "probableprime x n = Some True"
      using res(2) unfolding rx sum.case by blast
    have "nn_val x - 1 = (nn_val a5 - 1) + k * ?d" using k(1) pos(1) by simp
    then have "?d dvd nn_val x - 1" using pos(4) by simp
    then show ?thesis using k pos(1,3) probableprime_val [of n x] by (simp add: probable_prime_def)
  qed
  ultimately show ?thesis using res(2) ri assms(10) by (cases res) auto
qed

end
