(* ===== verification/KeyGen.thy ===== *)
theory KeyGen
  imports Prime
begin

text \<open>
  \<^verbatim>\<open>HBase/RSAEuro/r_keygen.c\<close>: the generation of a key pair.  The loops that wait for a suitable prime run as
  long as the random object makes them; what follows them is \<open>pem_keys\<close>.
\<close>

definition MIN_RSA_MODULUS_BITS :: nat where "MIN_RSA_MODULUS_BITS = 508"
definition MAX_RSA_MODULUS_BITS :: nat where "MAX_RSA_MODULUS_BITS = 1024"
definition RE_MODULUS_LEN :: int where "RE_MODULUS_LEN = 0x407"

record R_RSA_PROTO_KEY =
  proto_bits :: nat
  useFermat4 :: bool

definition RSAFilter :: "nn \<Rightarrow> nat \<Rightarrow> nn \<Rightarrow> bool option" where
  "RSAFilter a aDigits b = do {
     let t = NN_ASSIGN_DIGIT 1 aDigits;
     let aMinus1 = fst (NN_Sub a t aDigits);
     u \<leftarrow> NN_Gcd aMinus1 b aDigits;
     Some (NN_EQUAL t u aDigits)
   }"

text \<open>The bounds of the search and its step: from \<open>3 * 2^(bits - 2)\<close> to \<open>2^bits - 1\<close> in steps of 2.\<close>

definition keygen_interval :: "nat \<Rightarrow> nat \<Rightarrow> nn \<times> nn \<times> nn" where
  "keygen_interval n digits =
     (let t = NN_Assign2Exp (n - 1) digits;
          u = NN_Assign2Exp (n - 2) digits;
          t = fst (NN_Add t u digits);
          v = NN_ASSIGN_DIGIT 1 digits;
          v = fst (NN_Sub t v digits);
          u = fst (NN_Add u v digits);
          v = NN_ASSIGN_DIGIT 2 digits
      in (t, u, v))"

partial_function (option) filtered_prime ::
  "nn \<Rightarrow> nn \<Rightarrow> nn \<Rightarrow> nat \<Rightarrow> nn \<Rightarrow> R_RANDOM_STRUCT \<Rightarrow> ((int + nn) \<times> R_RANDOM_STRUCT) option" where
  "filtered_prime t u v pDigits e random = do {
     (result, random) \<leftarrow> GeneratePrime t u v pDigits random;
     case result of
       Inl status \<Rightarrow> Some (Inl status, random)
     | Inr p \<Rightarrow> do {
         ok \<leftarrow> RSAFilter p pDigits e;
         if ok then Some (Inr p, random) else filtered_prime t u v pDigits e random
       }
   }"

text \<open>From the two primes on.\<close>

definition pem_keys ::
  "nat \<Rightarrow> nat \<Rightarrow> nat \<Rightarrow> nn \<Rightarrow> nn \<Rightarrow> nn \<Rightarrow> (R_RSA_PUBLIC_KEY \<times> R_RSA_PRIVATE_KEY) option" where
  "pem_keys n nDigits pDigits e p q = do {
     let (p, q) = (if NN_Cmp p q pDigits < 0 then (NN_Assign q pDigits, NN_Assign p pDigits) else (p, q));
     let N = NN_Mult p q pDigits;
     qInv \<leftarrow> NN_ModInv q p pDigits;
     let t = NN_ASSIGN_DIGIT 1 pDigits;
     let pMinus1 = fst (NN_Sub p t pDigits);
     let qMinus1 = fst (NN_Sub q t pDigits);
     let phiN = NN_Mult pMinus1 qMinus1 pDigits;
     d \<leftarrow> NN_ModInv e phiN nDigits;
     dP \<leftarrow> NN_Mod t d nDigits pMinus1 pDigits;
     dQ \<leftarrow> NN_Mod t d nDigits qMinus1 pDigits;
     let modulus = NN_Encode MAX_RSA_MODULUS_LEN N nDigits;
     let exponent = NN_Encode MAX_RSA_MODULUS_LEN e 1;
     Some (\<lparr>pub_bits = n, pub_modulus = modulus, pub_exponent = exponent\<rparr>,
           \<lparr>bits = n, modulus = modulus, publicExponent = exponent,
            exponent = NN_Encode MAX_RSA_MODULUS_LEN d nDigits,
            prime0 = NN_Encode MAX_RSA_PRIME_LEN p pDigits, prime1 = NN_Encode MAX_RSA_PRIME_LEN q pDigits,
            primeExponent0 = NN_Encode MAX_RSA_PRIME_LEN dP pDigits,
            primeExponent1 = NN_Encode MAX_RSA_PRIME_LEN dQ pDigits,
            coefficient = NN_Encode MAX_RSA_PRIME_LEN qInv pDigits\<rparr>)
   }"

definition R_GeneratePEMKeys ::
  "R_RSA_PROTO_KEY \<Rightarrow> R_RANDOM_STRUCT \<Rightarrow>
   ((int + R_RSA_PUBLIC_KEY \<times> R_RSA_PRIVATE_KEY) \<times> R_RANDOM_STRUCT) option" where
  "R_GeneratePEMKeys protoKey random =
     (if proto_bits protoKey < MIN_RSA_MODULUS_BITS \<or> proto_bits protoKey > MAX_RSA_MODULUS_BITS
      then Some (Inl RE_MODULUS_LEN, random)
      else
        let nDigits = (proto_bits protoKey + 31) div 32;
            pDigits = (nDigits + 1) div 2;
            pBits = (proto_bits protoKey + 1) div 2;
            qBits = proto_bits protoKey - pBits;
            e = NN_ASSIGN_DIGIT (if useFermat4 protoKey then 65537 else 3) nDigits;
            (t, u, v) = keygen_interval pBits pDigits
        in do {
          (result, random) \<leftarrow> filtered_prime t u v pDigits e random;
          case result of
            Inl status \<Rightarrow> Some (Inl status, random)
          | Inr p \<Rightarrow>
              let (t, u, v) = keygen_interval qBits pDigits
              in do {
                (result, random) \<leftarrow> filtered_prime t u v pDigits e random;
                case result of
                  Inl status \<Rightarrow> Some (Inl status, random)
                | Inr q \<Rightarrow> do {
                    keys \<leftarrow> pem_keys (proto_bits protoKey) nDigits pDigits e p q;
                    Some (Inr keys, random)
                  }
              }
        })"

section \<open>The filter and the interval\<close>

lemma NN_EQUAL_val:
  "n \<le> length a \<Longrightarrow> n \<le> length b \<Longrightarrow> NN_EQUAL a b n \<longleftrightarrow> nn_val (take n a) = nn_val (take n b)"
  using NN_Cmp_val [of n a b] by (auto simp: NN_EQUAL_def)

lemma one_digit: "0 < n \<Longrightarrow> nn_val (NN_ASSIGN_DIGIT 1 n) = 1" "0 < n \<Longrightarrow> nn_val (NN_ASSIGN_DIGIT 2 n) = 2"
  using nn_val_ASSIGN_DIGIT [of n 1] nn_val_ASSIGN_DIGIT [of n 2] by simp_all

lemma minus_one:
  assumes "length a = n" "0 < nn_val a"
  shows "nn_val (fst (NN_Sub a (NN_ASSIGN_DIGIT 1 n) n)) = nn_val a - 1" "length (fst (NN_Sub a (NN_ASSIGN_DIGIT 1 n) n)) = n"
proof -
  have "0 < n" using assms by (cases n) simp_all
  then show "nn_val (fst (NN_Sub a (NN_ASSIGN_DIGIT 1 n) n)) = nn_val a - 1" "length (fst (NN_Sub a (NN_ASSIGN_DIGIT 1 n) n)) = n"
    using NN_Sub_val [of n a "NN_ASSIGN_DIGIT 1 n"] assms one_digit(1) by simp_all
qed

lemma RSAFilter_val:
  assumes "length a = n" "0 < nn_val a" "n \<le> length b"
  shows "RSAFilter a n b = Some (coprime (nn_val a - 1) (nn_val (take n b)))"
proof -
  have n: "0 < n" using assms(1,2) by (cases n) simp_all
  note m = minus_one [OF assms(1,2)]
  obtain u where u: "NN_Gcd (fst (NN_Sub a (NN_ASSIGN_DIGIT 1 n) n)) b n = Some u" "length u = n"
    "nn_val u = gcd (nn_val a - 1) (nn_val (take n b))"
    using NN_Gcd_val [of n "fst (NN_Sub a (NN_ASSIGN_DIGIT 1 n) n)" b] m assms(3) by auto
  have "NN_EQUAL (NN_ASSIGN_DIGIT 1 n) u n \<longleftrightarrow> gcd (nn_val a - 1) (nn_val (take n b)) = 1"
    using NN_EQUAL_val [of n "NN_ASSIGN_DIGIT 1 n" u] u(2,3) one_digit(1) [OF n] by (simp add: eq_commute)
  then show ?thesis by (simp add: RSAFilter_def u(1) coprime_iff_gcd_eq_1)
qed

lemma nn_val_update_zero: "i < n \<Longrightarrow> nn_val ((replicate n 0)[i := w]) = 2 ^ (32 * i) * unat w"
proof (induction n arbitrary: i)
  case (Suc n)
  then show ?case by (cases i) (simp_all add: power_add)
qed simp

lemma NN_Assign2Exp_val: "k < 32 * n \<Longrightarrow> nn_val (NN_Assign2Exp k n) = 2 ^ k" "length (NN_Assign2Exp k n) = n"
proof -
  show "length (NN_Assign2Exp k n) = n" by (simp add: NN_Assign2Exp_def NN_AssignZero_def)
  assume k: "k < 32 * n"
  have "unat (push_bit (k mod 32) 1 :: u32) = 2 ^ (k mod 32)"
    using u32_push_or [of "k mod 32" 0 1] mod_less_divisor [of 32 k] one_less_power [of "2 :: nat" "32 - k mod 32"] by simp
  moreover have "k div 32 < n" using k by linarith
  moreover have "(2 :: nat) ^ (32 * (k div 32)) * 2 ^ (k mod 32) = 2 ^ k" by (simp flip: power_add)
  ultimately show "nn_val (NN_Assign2Exp k n) = 2 ^ k"
    using k by (simp add: NN_Assign2Exp_def NN_AssignZero_def nn_val_update_zero)
qed

lemma keygen_interval_val:
  assumes "keygen_interval n digits = (t, u, v)" "2 \<le> n" "n \<le> 32 * digits"
  shows "nn_val t = 3 * 2 ^ (n - 2)" "nn_val u = 2 ^ n - 1" "nn_val v = 2"
    "length t = digits" "length u = digits" "length v = digits"
proof -
  define x where "x = (2 :: nat) ^ (n - 2)"
  have pw: "2 ^ (n - 1) = 2 * x" "2 ^ n = 4 * x" "0 < x"
  proof -
    obtain k where "n = Suc (Suc k)" using assms(2) by (metis add_2_eq_Suc le_Suc_ex)
    then show "2 ^ (n - 1) = 2 * x" "2 ^ n = 4 * x" "0 < x" by (simp_all add: x_def)
  qed
  have lim: "4 * x \<le> 2 ^ (32 * digits)" unfolding pw(2) [symmetric] using assms(3) by (intro power_increasing) simp_all
  have d: "0 < digits" using assms(2,3) by (cases digits) simp_all
  have e: "nn_val (NN_Assign2Exp (n - 1) digits) = 2 * x" "nn_val (NN_Assign2Exp (n - 2) digits) = x"
    using NN_Assign2Exp_val(1) [of "n - 1" digits] NN_Assign2Exp_val(1) [of "n - 2" digits] assms(2,3) pw(1) by (simp_all add: x_def)
  note l = NN_Assign2Exp_val(2)
  define t0 where "t0 = fst (NN_Add (NN_Assign2Exp (n - 1) digits) (NN_Assign2Exp (n - 2) digits) digits)"
  have t0: "nn_val t0 = 3 * x" "length t0 = digits"
    using NN_Add_val [of digits "NN_Assign2Exp (n - 1) digits" "NN_Assign2Exp (n - 2) digits"] e l lim pw(3) by (simp_all add: t0_def)
  note m = minus_one [of t0 digits] 
  define u0 where "u0 = fst (NN_Add (NN_Assign2Exp (n - 2) digits) (fst (NN_Sub t0 (NN_ASSIGN_DIGIT 1 digits) digits)) digits)"
  have u0: "nn_val u0 = 4 * x - 1" "length u0 = digits"
    using NN_Add_val [of digits "NN_Assign2Exp (n - 2) digits" "fst (NN_Sub t0 (NN_ASSIGN_DIGIT 1 digits) digits)"] e(2) l m t0 lim pw(3)
    by (simp_all add: u0_def)
  have eq: "t = t0" "u = u0" "v = NN_ASSIGN_DIGIT 2 digits"
    using assms(1) by (auto simp: keygen_interval_def Let_def t0_def u0_def)
  show "nn_val t = 3 * 2 ^ (n - 2)" "nn_val u = 2 ^ n - 1" "nn_val v = 2"
    "length t = digits" "length u = digits" "length v = digits"
    using eq t0 u0 one_digit(2) [OF d] pw(2) by (simp_all add: x_def)
qed

section \<open>The keys belong together\<close>

lemma inverse_below:
  assumes "(d * e) mod (a * b) = 1 mod (a * b)"
  shows "(e * (d mod a)) mod a = (1 :: nat) mod a"
proof -
  have "(d * e) mod a = 1 mod a" using arg_cong [OF assms, of "\<lambda>x. x mod a"] by (simp add: mod_mult2_eq mod_mod_cancel)
  then show ?thesis by (simp add: mod_mult_right_eq mult.commute)
qed

lemma pem_keys_sorted:
  assumes digits: "nDigits = (n + 31) div 32" "pDigits = (nDigits + 1) div 2" "n \<le> 1024"
    and len: "length p = pDigits" "length q = pDigits" and e: "e = NN_ASSIGN_DIGIT x nDigits" "0 < unat x"
    and prime: "is_prime (nn_val p)" "is_prime (nn_val q)" "2 < nn_val q" "nn_val q < nn_val p"
    and range: "2 ^ (n - 1) \<le> nn_val p * nn_val q" "nn_val p * nn_val q < 2 ^ n"
    and cop: "coprime (unat x) (nn_val p - 1)" "coprime (unat x) (nn_val q - 1)"
  shows "\<exists>pk sk. pem_keys n nDigits pDigits e p q = Some (pk, sk) \<and> rsa_key_pair pk sk \<and>
    be_val (prime0 sk) = nn_val p \<and> be_val (prime1 sk) = nn_val q \<and> be_val (pub_exponent pk) = unat x"
proof -
  let ?p = "nn_val p" and ?q = "nn_val q" and ?t = "NN_ASSIGN_DIGIT 1 pDigits"
  have P0: "0 < pDigits" using prime(3) len(2) by (cases pDigits) simp_all
  have n0: "0 < nDigits" using P0 digits(2) by (cases nDigits) simp_all
  have nd: "nDigits \<le> 2 * pDigits" "n \<le> 32 * nDigits" "nDigits \<le> 32" "pDigits \<le> 16"
    using digits by simp_all
  have pq: "?p < 256 ^ 64" "?q < 256 ^ 64"
  proof -
    have "(2 :: nat) ^ (32 * pDigits) \<le> 2 ^ 512" using nd(4) by (intro power_increasing) simp_all
    also have "(2 :: nat) ^ 512 = 256 ^ 64" by simp
    finally show "?p < 256 ^ 64" "?q < 256 ^ 64" using nn_val_less [of p] nn_val_less [of q] len by simp_all
  qed
  have big: "?p * ?q < 2 ^ (32 * nDigits)" "(2 :: nat) ^ (32 * nDigits) \<le> 256 ^ 128"
  proof -
    have "(2 :: nat) ^ n \<le> 2 ^ (32 * nDigits)" using nd(2) by (intro power_increasing) simp_all
    then show "?p * ?q < 2 ^ (32 * nDigits)" using range(2) by linarith
    have "(2 :: nat) ^ (32 * nDigits) \<le> 2 ^ 1024" using nd(3) by (intro power_increasing) simp_all
    also have "(2 :: nat) ^ 1024 = 256 ^ 128" by simp
    finally show "(2 :: nat) ^ (32 * nDigits) \<le> 256 ^ 128" .
  qed
  have cmp: "\<not> NN_Cmp p q pDigits < 0" using NN_Cmp_val [of pDigits p q] len prime(4) by simp
  define N where "N = NN_Mult p q pDigits"
  have N: "nn_val N = ?p * ?q" "length N = 2 * pDigits" using NN_Mult_val [of pDigits p q] len by (simp_all add: N_def)
  have cpq: "coprime ?q ?p" using primes_coprime [OF prime(2,1)] prime(4) by simp
  have p1: "1 < ?p" "1 < ?q" using prime(3,4) by simp_all
  obtain qInv where i: "NN_ModInv q p pDigits = Some qInv" "length qInv = pDigits" "nn_val qInv \<le> ?p" "(nn_val qInv * ?q) mod ?p = 1 mod ?p"
    using NN_ModInv_val [of pDigits q p] len cpq p1 by auto
  have i2: "(?q * nn_val qInv) mod ?p = 1" using i(4) p1(1) by (simp add: mult.commute)
  have i3: "nn_val qInv < ?p" using i(3) i2 by (cases "nn_val qInv = ?p") auto
  define pm where "pm = fst (NN_Sub p ?t pDigits)"
  define qm where "qm = fst (NN_Sub q ?t pDigits)"
  have pm: "nn_val pm = ?p - 1" "length pm = pDigits" using minus_one [OF len(1)] p1(1) by (simp_all add: pm_def)
  have qm: "nn_val qm = ?q - 1" "length qm = pDigits" using minus_one [OF len(2)] p1(2) by (simp_all add: qm_def)
  define phi where "phi = NN_Mult pm qm pDigits"
  have phi: "nn_val phi = (?p - 1) * (?q - 1)" "length phi = 2 * pDigits"
    using NN_Mult_val [of pDigits pm qm] pm qm by (simp_all add: phi_def)
  have phi_small: "(?p - 1) * (?q - 1) < 2 ^ (32 * nDigits)" "0 < (?p - 1) * (?q - 1)"
    using big(1) mult_le_mono [of "?p - 1" ?p "?q - 1" ?q] p1 by simp_all
  have phi_take: "nn_val (take nDigits phi) = (?p - 1) * (?q - 1)"
    using nn_val_take [of nDigits phi] phi nd(1) phi_small(1) by simp
  have E: "nn_val e = unat x" "length e = nDigits" using nn_val_ASSIGN_DIGIT [OF n0, of x] by (simp_all add: e)
  have "coprime (unat x) ((?p - 1) * (?q - 1))" using cop by simp
  then obtain d where d: "NN_ModInv e phi nDigits = Some d" "length d = nDigits"
    "(nn_val d * unat x) mod ((?p - 1) * (?q - 1)) = 1 mod ((?p - 1) * (?q - 1))"
    using NN_ModInv_val [of nDigits e phi] E phi(2) nd(1) phi_small(2) by (auto simp: phi_take)
  obtain dP where dP: "NN_Mod ?t d nDigits pm pDigits = Some dP" "length dP = pDigits" "nn_val dP = nn_val d mod (?p - 1)"
    using NN_Mod_val [of nDigits d pDigits pm ?t] d(2) pm p1 by auto
  obtain dQ where dQ: "NN_Mod ?t d nDigits qm pDigits = Some dQ" "length dQ = pDigits" "nn_val dQ = nn_val d mod (?q - 1)"
    using NN_Mod_val [of nDigits d pDigits qm ?t] d(2) qm p1 by auto
  have inv: "(unat x * nn_val dP) mod (?p - 1) = 1 mod (?p - 1)" "(unat x * nn_val dQ) mod (?q - 1) = 1 mod (?q - 1)"
    using inverse_below [OF d(3)] inverse_below [of "nn_val d" "unat x" "?q - 1" "?p - 1"] d(3)
    by (simp_all add: dP(3) dQ(3) mult.commute)
  have pos: "0 < nn_val dP" "0 < nn_val dQ"
    using inv prime(3,4) by (auto intro!: gr0I)
  have less: "nn_val dP < ?p" "nn_val dQ < ?q"
    using mod_less_divisor [of "?p - 1" "nn_val d"] mod_less_divisor [of "?q - 1" "nn_val d"] p1 unfolding dP(3) dQ(3) by linarith+
  have enc: "be_val (NN_Encode 64 a pDigits) = nn_val a" if "length a = pDigits" "nn_val a \<le> ?p" for a
    using that pq(1) by (simp add: NN_Encode_val)
  have encN: "be_val (NN_Encode 128 N nDigits) = ?p * ?q"
    using nn_val_take [of nDigits N] N nd(1) big by (simp add: NN_Encode_val)
  have encE: "be_val (NN_Encode 128 e 1) = unat x"
  proof -
    have "take 1 e = [x]" using n0 by (cases nDigits) (simp_all add: e NN_ASSIGN_DIGIT_def NN_AssignZero_def)
    moreover have "unat x < 256 ^ 128" using unat_u32_less [of x] by simp
    ultimately show ?thesis by (simp add: NN_Encode_val)
  qed
  note me = MAX_RSA_MODULUS_LEN_def MAX_RSA_PRIME_LEN_def
  let ?pk = "\<lparr>pub_bits = n, pub_modulus = NN_Encode 128 N nDigits, pub_exponent = NN_Encode 128 e 1\<rparr>"
  let ?sk = "\<lparr>bits = n, modulus = NN_Encode 128 N nDigits, publicExponent = NN_Encode 128 e 1, exponent = NN_Encode 128 d nDigits,
      prime0 = NN_Encode 64 p pDigits, prime1 = NN_Encode 64 q pDigits, primeExponent0 = NN_Encode 64 dP pDigits,
      primeExponent1 = NN_Encode 64 dQ pDigits, coefficient = NN_Encode 64 qInv pDigits\<rparr>"
  have "pem_keys n nDigits pDigits e p q = Some (?pk, ?sk)"
    unfolding pem_keys_def Let_def
    by (simp add: cmp i(1) N_def [symmetric] pm_def [symmetric] qm_def [symmetric] phi_def [symmetric] d(1) dP(1) dQ(1) me)
  moreover have vals: "be_val (NN_Encode 64 p pDigits) = ?p" "be_val (NN_Encode 64 q pDigits) = ?q"
    "be_val (NN_Encode 64 dP pDigits) = nn_val dP" "be_val (NN_Encode 64 dQ pDigits) = nn_val dQ"
    "be_val (NN_Encode 64 qInv pDigits) = nn_val qInv"
    using enc len dP(2) dQ(2) i(2,3) less prime(4) by simp_all
  moreover have "rsa_key_pair ?pk ?sk"
    unfolding rsa_key_pair_def Let_def R_RSA_PUBLIC_KEY.select_convs R_RSA_PRIVATE_KEY.select_convs vals encN encE
    using prime range e(2) pos less i2 i3 inv by (simp add: me)
  ultimately show ?thesis using encE by auto
qed

lemma pem_keys_swap:
  assumes "length p = k" "length q = k" "nn_val p < nn_val q"
  shows "pem_keys n nDigits k e p q = pem_keys n nDigits k e q p"
proof -
  have "NN_Cmp p q k < 0" "\<not> NN_Cmp q p k < 0"
    using NN_Cmp_val [of k p q] NN_Cmp_val [of k q p] assms by simp_all
  then show ?thesis using assms(1,2) by (simp add: pem_keys_def NN_Assign_def Let_def)
qed

lemma pem_keys_pair:
  assumes digits: "nDigits = (n + 31) div 32" "pDigits = (nDigits + 1) div 2" "n \<le> 1024"
    and len: "length p = pDigits" "length q = pDigits" and e: "0 < unat x"
    and prime: "is_prime (nn_val p)" "is_prime (nn_val q)" "2 < nn_val p" "2 < nn_val q" "nn_val p \<noteq> nn_val q"
    and range: "2 ^ (n - 1) \<le> nn_val p * nn_val q" "nn_val p * nn_val q < 2 ^ n"
    and cop: "coprime (unat x) (nn_val p - 1)" "coprime (unat x) (nn_val q - 1)"
  shows "\<exists>pk sk. pem_keys n nDigits pDigits (NN_ASSIGN_DIGIT x nDigits) p q = Some (pk, sk) \<and> rsa_key_pair pk sk \<and>
    {be_val (prime0 sk), be_val (prime1 sk)} = {nn_val p, nn_val q} \<and> be_val (pub_exponent pk) = unat x"
proof (cases "nn_val q < nn_val p")
  case True
  then show ?thesis
    using pem_keys_sorted [OF digits len refl e prime(1,2,4) True range cop] by auto
next
  case False
  then have less: "nn_val p < nn_val q" using prime(5) by simp
  have r: "2 ^ (n - 1) \<le> nn_val q * nn_val p" "nn_val q * nn_val p < 2 ^ n" using range by (simp_all add: mult.commute)
  show ?thesis
    using pem_keys_sorted [OF digits len(2,1) refl e prime(2,1,3) less r cop(2,1)]
    by (auto simp: pem_keys_swap [OF len less] insert_commute)
qed

section \<open>The whole generation\<close>

text \<open>What the loop leaves with is what \<^verbatim>\<open>GeneratePrime\<close> gave in its last round, and the filter passed it.\<close>

lemma filtered_prime_last:
  assumes "filtered_prime t u v n e r = Some res" "rnd_inv r \<and> bytesNeeded r = 0"
    "\<And>r result r'. rnd_inv r \<and> bytesNeeded r = 0 \<Longrightarrow> GeneratePrime t u v n r = Some (result, r') \<Longrightarrow>
       rnd_inv r' \<and> bytesNeeded r' = 0"
  shows "\<exists>r0. rnd_inv r0 \<and> bytesNeeded r0 = 0 \<and> GeneratePrime t u v n r0 = Some res \<and>
    (\<forall>p. fst res = Inr p \<longrightarrow> RSAFilter p n e = Some True)"
proof -
  let ?Q = "\<lambda>t' u' v' n' e' r res. t' = t \<longrightarrow> u' = u \<longrightarrow> v' = v \<longrightarrow> n' = n \<longrightarrow> e' = e \<longrightarrow> rnd_inv r \<and> bytesNeeded r = 0 \<longrightarrow>
    (\<exists>r0. rnd_inv r0 \<and> bytesNeeded r0 = 0 \<and> GeneratePrime t u v n r0 = Some res \<and>
       (\<forall>p. fst res = Inr p \<longrightarrow> RSAFilter p n e = Some True))"
  have "?Q t u v n e r res"
  proof (rule filtered_prime.raw_induct [where P = ?Q, OF _ assms(1)], intro impI, goal_cases)
    case (1 f t' u' v' n' e' r res)
    then obtain result r1 where g: "GeneratePrime t u v n r = Some (result, r1)" by (auto split: Option.bind_splits)
    note inv = assms(3) [OF 1(8) g]
    show ?case
    proof (cases result)
      case (Inl status)
      then have "res = (Inl status, r1)" using 1(2-8) g by simp
      then show ?thesis using 1(8) g Inl by auto
    next
      case (Inr p)
      then obtain ok where ok: "RSAFilter p n e = Some ok" using 1(2-8) g by (auto split: Option.bind_splits)
      show ?thesis
      proof (cases ok)
        case True
        then have "res = (Inr p, r1)" using 1(2-8) g ok Inr by simp
        then show ?thesis using 1(8) g Inr ok True by auto
      next
        case False
        then have "f t u v n e r1 = Some res" using 1(2-8) g ok Inr by simp
        then show ?thesis using 1(1) inv by blast
      qed
    qed
  qed
  then show ?thesis using assms(2) by blast
qed

text \<open>The search for the two primes never fails to return, and gives one of the right length.\<close>

lemma keygen_GeneratePrime:
  assumes "keygen_interval k n = (t, u, v)" "3 \<le> k" "k \<le> 32 * n" "rnd_inv r \<and> bytesNeeded r = 0"
  shows "\<exists>result r'. GeneratePrime t u v n r = Some (result, r') \<and> rnd_inv r' \<and> bytesNeeded r' = 0 \<and>
    (case result of Inl e \<Rightarrow> e = RE_DATA
     | Inr p \<Rightarrow> length p = n \<and> 3 * 2 ^ (k - 2) \<le> nn_val p \<and> nn_val p < 2 ^ k \<and> probable_prime n (nn_val p))"
proof -
  have k2: "2 \<le> k" using assms(2) by simp
  note i = keygen_interval_val [OF assms(1) k2 assms(3)]
  obtain m where m: "k = 3 + m" using assms(2) le_Suc_ex by blast
  then have p: "(2 :: nat) ^ k = 4 * 2 ^ (k - 2)" by (simp add: power_add)
  have one: "(2 :: nat) \<le> 2 ^ (k - 2)" by (simp add: m power_add)
  have "nn_val t \<le> nn_val u" "nn_val v \<le> nn_val u - nn_val t + 1"
    unfolding i p using one by linarith+
  moreover have "\<not> nn_val v dvd nn_val u"
  proof -
    have "2 ^ k - 1 = 2 * (2 * 2 ^ (k - 2) - 1) + (1 :: nat)" unfolding p using one by linarith
    then show ?thesis unfolding i by (simp add: even_iff_mod_2_eq_zero)
  qed
  ultimately obtain result r' where g: "GeneratePrime t u v n r = Some (result, r')" "rnd_inv r'" "bytesNeeded r' = 0"
    "case result of Inl e \<Rightarrow> e = RE_DATA
     | Inr x \<Rightarrow> length x = n \<and> nn_val t \<le> nn_val x \<and> nn_val x \<le> nn_val u \<and> nn_val v dvd nn_val x - 1 \<and> probable_prime n (nn_val x)"
    using GeneratePrime_val [of t n u v r] i assms(4) by auto
  have "nn_val x < 2 ^ k" if "nn_val x \<le> nn_val u" for x
    using that one unfolding i p by linarith
  then show ?thesis using g i(1) by (cases result) auto
qed

lemma filtered_prime_val:
  assumes "filtered_prime t u v n e r = Some (res, r')" "keygen_interval k n = (t, u, v)" "3 \<le> k" "k \<le> 32 * n" "n \<le> length e"
    "rnd_inv r \<and> bytesNeeded r = 0"
  shows "rnd_inv r' \<and> bytesNeeded r' = 0 \<and>
    (case res of Inl e \<Rightarrow> e = RE_DATA
     | Inr p \<Rightarrow> length p = n \<and> 3 * 2 ^ (k - 2) \<le> nn_val p \<and> nn_val p < 2 ^ k \<and> probable_prime n (nn_val p) \<and>
         coprime (nn_val p - 1) (nn_val (take n e)))"
proof -
  note G = keygen_GeneratePrime [OF assms(2-4)]
  have keep: "rnd_inv r2 \<and> bytesNeeded r2 = 0"
    if "rnd_inv r1 \<and> bytesNeeded r1 = 0" "GeneratePrime t u v n r1 = Some (result, r2)" for r1 result r2
    using G [OF that(1)] that(2) by auto
  obtain r0 where r0: "rnd_inv r0 \<and> bytesNeeded r0 = 0" "GeneratePrime t u v n r0 = Some (res, r')"
    "\<forall>p. res = Inr p \<longrightarrow> RSAFilter p n e = Some True"
  proof -
    have "\<exists>r0. rnd_inv r0 \<and> bytesNeeded r0 = 0 \<and> GeneratePrime t u v n r0 = Some (res, r') \<and>
        (\<forall>p. fst (res, r') = Inr p \<longrightarrow> RSAFilter p n e = Some True)"
      by (rule filtered_prime_last [OF assms(1,6)]) (rule keep)
    then show ?thesis using that by auto
  qed
  have v: "rnd_inv r' \<and> bytesNeeded r' = 0"
    "case res of Inl e \<Rightarrow> e = RE_DATA
     | Inr p \<Rightarrow> length p = n \<and> 3 * 2 ^ (k - 2) \<le> nn_val p \<and> nn_val p < 2 ^ k \<and> probable_prime n (nn_val p)"
    using G [OF r0(1)] r0(2) by auto
  show ?thesis
  proof (cases res)
    case (Inl e)
    then show ?thesis using v by simp
  next
    case (Inr p)
    have "(0 :: nat) < 3 * 2 ^ (k - 2)" by simp
    moreover have "length p = n" "3 * 2 ^ (k - 2) \<le> nn_val p" using v(2) Inr by simp_all
    ultimately have "length p = n" "0 < nn_val p" by linarith+
    then show ?thesis using RSAFilter_val [of p n e] assms(5) r0(3) v Inr by simp
  qed
qed

lemma pem_keys_primes:
  assumes "pem_keys n nDigits k e p q = Some (pk, sk)" "length p = k" "length q = k" "k \<le> 16"
  shows "{be_val (prime0 sk), be_val (prime1 sk)} = {nn_val p, nn_val q}"
proof -
  have enc: "be_val (NN_Encode 64 a k) = nn_val a" if "length a = k" for a
  proof -
    have "(2 :: nat) ^ (32 * k) \<le> 2 ^ 512" using assms(4) by (intro power_increasing) simp_all
    also have "(2 :: nat) ^ 512 = 256 ^ 64" by simp
    finally have "nn_val a < 256 ^ 64" using nn_val_less [of a] that by simp
    then show ?thesis using that by (simp add: NN_Encode_val)
  qed
  have "(prime0 sk = NN_Encode 64 p k \<and> prime1 sk = NN_Encode 64 q k) \<or> (prime0 sk = NN_Encode 64 q k \<and> prime1 sk = NN_Encode 64 p k)"
    using assms(1-3) by (auto simp: pem_keys_def Let_def NN_Assign_def MAX_RSA_PRIME_LEN_def split: Option.bind_splits if_splits)
  then show ?thesis using enc assms(2,3) by auto
qed

text \<open>
  The keys that \<^verbatim>\<open>R_GeneratePEMKeys\<close> returns belong together, if the two numbers that passed the tests are
  primes and not the same.
\<close>

lemma R_GeneratePEMKeys_pair:
  assumes gen: "R_GeneratePEMKeys proto r = Some (Inr (pk, sk), r')" and rnd: "rnd_inv r \<and> bytesNeeded r = 0"
    and primes: "is_prime (be_val (prime0 sk))" "is_prime (be_val (prime1 sk))" "be_val (prime0 sk) \<noteq> be_val (prime1 sk)"
  shows "rsa_key_pair pk sk"
proof -
  define n where "n = proto_bits proto"
  define nDigits where "nDigits = (n + 31) div 32"
  define k where "k = (nDigits + 1) div 2"
  define pBits where "pBits = (n + 1) div 2"
  define x :: u32 where "x = (if useFermat4 proto then 65537 else 3)"
  let ?e = "NN_ASSIGN_DIGIT x nDigits"
  have n: "508 \<le> n" "n \<le> 1024" using gen by (auto simp: R_GeneratePEMKeys_def n_def MIN_RSA_MODULUS_BITS_def MAX_RSA_MODULUS_BITS_def split: if_splits)
  have x: "0 < unat x" by (simp add: x_def)
  have bd: "3 \<le> pBits" "3 \<le> n - pBits" "pBits \<le> 32 * k" "n - pBits \<le> 32 * k" "k \<le> nDigits" "k \<le> 16" "0 < k"
    using n by (simp_all add: pBits_def k_def nDigits_def)
  obtain t u v where i1: "keygen_interval pBits k = (t, u, v)" by (metis prod_cases3)
  obtain t2 u2 v2 where i2: "keygen_interval (n - pBits) k = (t2, u2, v2)" by (metis prod_cases3)
  have small: "\<not> (n < MIN_RSA_MODULUS_BITS \<or> n > MAX_RSA_MODULUS_BITS)"
    using n by (simp add: MIN_RSA_MODULUS_BITS_def MAX_RSA_MODULUS_BITS_def)
  obtain p r1 q r2 where p: "filtered_prime t u v k ?e r = Some (Inr p, r1)"
    and q: "filtered_prime t2 u2 v2 k ?e r1 = Some (Inr q, r2)" and keys: "pem_keys n nDigits k ?e p q = Some (pk, sk)"
    using gen small unfolding R_GeneratePEMKeys_def Let_def n_def [symmetric] nDigits_def [symmetric] k_def [symmetric]
      pBits_def [symmetric] x_def [symmetric] i1 i2 prod.case
    by (auto simp: i2 split: Option.bind_splits sum.splits if_splits)
  have le: "k \<le> length ?e" using bd(5) by simp
  have ev: "nn_val (take k ?e) = unat x"
  proof -
    have "take k ?e = NN_ASSIGN_DIGIT x k" using bd(5) by (simp add: NN_ASSIGN_DIGIT_def NN_AssignZero_def take_update_swap min_absorb2)
    then show ?thesis using nn_val_ASSIGN_DIGIT [OF bd(7)] by simp
  qed
  have P: "length p = k" "3 * 2 ^ (pBits - 2) \<le> nn_val p" "nn_val p < 2 ^ pBits" "coprime (nn_val p - 1) (unat x)" "rnd_inv r1 \<and> bytesNeeded r1 = 0"
    using filtered_prime_val [OF p i1 bd(1,3) le rnd] ev by simp_all
  have Q: "length q = k" "3 * 2 ^ (n - pBits - 2) \<le> nn_val q" "nn_val q < 2 ^ (n - pBits)" "coprime (nn_val q - 1) (unat x)"
    using filtered_prime_val [OF q i2 bd(2,4) le P(5)] ev by simp_all
  obtain i where i: "pBits = 3 + i" using bd(1) le_Suc_ex by blast
  obtain j where j: "n - pBits = 3 + j" using bd(2) le_Suc_ex by blast
  have nij: "n = 6 + i + j" using i j bd(2) by linarith
  have "2 ^ (n - 1) \<le> nn_val p * nn_val q" "nn_val p * nn_val q < 2 ^ n"
  proof -
    have "3 * 2 ^ (pBits - 2) * (3 * 2 ^ (n - pBits - 2)) \<le> nn_val p * nn_val q" by (rule mult_le_mono [OF P(2) Q(2)])
    moreover have "(2 :: nat) ^ (n - 1) = 32 * (2 ^ i * 2 ^ j)" by (simp add: nij power_add)
    moreover have "(3 * 2 ^ (pBits - 2) * (3 * 2 ^ (n - pBits - 2)) :: nat) = 36 * (2 ^ i * 2 ^ j)" by (simp add: i j [unfolded i] power_add) 
    ultimately show "2 ^ (n - 1) \<le> nn_val p * nn_val q" by linarith
    have "nn_val p * nn_val q < 2 ^ pBits * 2 ^ (n - pBits)" by (rule mult_strict_mono [OF P(3) Q(3)]) simp_all
    also have "2 ^ pBits * 2 ^ (n - pBits) = (2 :: nat) ^ n" using bd(2) by (simp flip: power_add)
    finally show "nn_val p * nn_val q < 2 ^ n" .
  qed
  note range = this
  have "(2 :: nat) < 3 * 2 ^ m" for m by (rule less_le_trans [of _ 3]) simp_all
  then have two: "2 < nn_val p" "2 < nn_val q" using P(2) Q(2) less_le_trans by blast+
  have s: "{be_val (prime0 sk), be_val (prime1 sk)} = {nn_val p, nn_val q}" by (rule pem_keys_primes [OF keys P(1) Q(1) bd(6)])
  have pr: "is_prime (nn_val p)" "is_prime (nn_val q)" "nn_val p \<noteq> nn_val q"
    using s primes by (auto simp: doubleton_eq_iff)
  have cop: "coprime (unat x) (nn_val p - 1)" "coprime (unat x) (nn_val q - 1)" using P(4) Q(4) by (simp_all add: coprime_commute)
  show ?thesis
    using pem_keys_pair [OF nDigits_def k_def n(2) P(1) Q(1) x pr(1,2) two pr(3) range cop] keys by auto
qed

end
