(* ===== verification/DH.thy ===== *)
theory DH
  imports KeyGen
begin

text \<open>
  \<^verbatim>\<open>HBase/RSAEuro/r_dh.c\<close>: Diffie-Hellman parameters and key agreement.  \<^verbatim>\<open>primeLen\<close> and
  \<^verbatim>\<open>generatorLen\<close> are the lengths of the byte lists.
\<close>

record R_DH_PARAMS =
  dh_prime :: bytes
  dh_generator :: bytes

text \<open>The bit lengths are of type \<^verbatim>\<open>unsigned int\<close>, and so wrap below zero.\<close>

definition bits_less_1 :: "nat \<Rightarrow> nat" where "bits_less_1 n = unat (word_of_nat n - 1 :: u32)"

definition DH_PRIME_LEN :: "nat \<Rightarrow> nat" where "DH_PRIME_LEN n = (n + 7) div 8"

text \<open>The macro \<^verbatim>\<open>PREP(x, y, z, a)\<close>, which reads \<open>t\<close> beside its arguments: the new \<open>x\<close>.\<close>

definition PREP :: "nn \<Rightarrow> nn \<Rightarrow> nat \<Rightarrow> nn" where
  "PREP t y a =
     (let x = NN_Assign y a;
          z = NN_ASSIGN_DIGIT 1 a;
          z = fst (NN_Sub t z a)
      in fst (NN_Add x z a))"

definition R_GenerateDHParams ::
  "nat \<Rightarrow> nat \<Rightarrow> R_RANDOM_STRUCT \<Rightarrow> ((int + R_DH_PARAMS) \<times> R_RANDOM_STRUCT) option" where
  "R_GenerateDHParams primeBits subPrimeBits random =
     (let pDigits = (primeBits + 31) div 32;
          t = NN_Assign2Exp (bits_less_1 subPrimeBits) pDigits;
          u = PREP t t pDigits;
          v = NN_ASSIGN_DIGIT 2 pDigits
      in do {
        (result, random) \<leftarrow> GeneratePrime t u v pDigits random;
        case result of
          Inl status \<Rightarrow> Some (Inl status, random)
        | Inr q \<Rightarrow>
            let t = NN_Assign2Exp (bits_less_1 primeBits) pDigits;
                u = PREP t t pDigits;
                v = fst (NN_LShift v q 1 pDigits)
            in do {
              (result, random) \<leftarrow> GeneratePrime t u v pDigits random;
              case result of
                Inl status \<Rightarrow> Some (Inl status, random)
              | Inr p \<Rightarrow> do {
                  let g = NN_ASSIGN_DIGIT 2 pDigits;
                  (t, u) \<leftarrow> NN_Div t u p pDigits q pDigits;
                  g \<leftarrow> NN_ModExp g t pDigits p pDigits;
                  let len = DH_PRIME_LEN primeBits;
                  Some (Inr \<lparr>dh_prime = NN_Encode len p pDigits, dh_generator = NN_Encode len g pDigits\<rparr>, random)
                }
            }
      })"

text \<open>The public and the private value.\<close>

definition R_SetupDHAgreement ::
  "nat \<Rightarrow> R_DH_PARAMS \<Rightarrow> R_RANDOM_STRUCT \<Rightarrow> ((int + bytes \<times> bytes) \<times> R_RANDOM_STRUCT) option" where
  "R_SetupDHAgreement privateValueLen params random =
     (let p = NN_Decode MAX_NN_DIGITS (dh_prime params);
          pDigits = NN_Digits p MAX_NN_DIGITS;
          g = NN_Decode pDigits (dh_generator params)
      in case R_GenerateBytes privateValueLen random of
           Inl status \<Rightarrow> Some (Inl status, random)
         | Inr (privateValue, random) \<Rightarrow> do {
             let x = NN_Decode pDigits privateValue;
             let xDigits = NN_Digits x pDigits;
             y \<leftarrow> NN_ModExp g x xDigits p pDigits;
             Some (Inr (NN_Encode (length (dh_prime params)) y pDigits, privateValue), random)
           })"

definition R_ComputeDHAgreedKey :: "bytes \<Rightarrow> bytes \<Rightarrow> R_DH_PARAMS \<Rightarrow> (int + bytes) option" where
  "R_ComputeDHAgreedKey otherPublicValue privateValue params =
     (let p = NN_Decode MAX_NN_DIGITS (dh_prime params);
          pDigits = NN_Digits p MAX_NN_DIGITS;
          x = NN_Decode pDigits privateValue;
          y = NN_Decode pDigits (take (length (dh_prime params)) otherPublicValue);
          xDigits = NN_Digits x pDigits
      in if NN_Cmp y p pDigits \<ge> 0 then Some (Inl RE_DATA)
         else do {
           z \<leftarrow> NN_ModExp y x xDigits p pDigits;
           Some (Inr (NN_Encode (length (dh_prime params)) z pDigits))
         })"

section \<open>Key agreement\<close>

text \<open>The modular power the two operations compute: of \<open>g\<close> by the number in the bytes \<open>b\<close>.\<close>

lemma dh_power:
  assumes "length (dh_prime params) \<le> 128" "1 < be_val (dh_prime params)"
  defines "p \<equiv> NN_Decode MAX_NN_DIGITS (dh_prime params)"
  defines "n \<equiv> NN_Digits p MAX_NN_DIGITS"
  assumes "length g = n"
  shows "\<exists>y. NN_ModExp g (NN_Decode n b) (NN_Digits (NN_Decode n b) n) p n = Some y \<and> length y = n \<and>
    nn_val y = nn_val g ^ (be_val b mod 2 ^ (32 * n)) mod be_val (dh_prime params)"
    "nn_val (take n p) = be_val (dh_prime params)" "n \<le> length p" "be_val (dh_prime params) < 2 ^ (32 * n)"
proof -
  let ?P = "be_val (dh_prime params)"
  have v: "nn_val p = ?P" unfolding p_def by (rule decode_val [OF assms(1)])
  have l: "length p = MAX_NN_DIGITS" by (simp add: p_def)
  show t: "nn_val (take n p) = ?P"
    using NN_Digits_val [of MAX_NN_DIGITS p] v l by (simp add: n_def)
  show nl: "n \<le> length p" using NN_Digits_le [of p MAX_NN_DIGITS] l by (simp add: n_def)
  then show "?P < 2 ^ (32 * n)" using nn_val_less [of "take n p"] t by simp
  let ?x = "NN_Decode n b"
  define x where "x = be_val b mod 2 ^ (32 * n)"
  have d: "nn_val (take (NN_Digits ?x n) ?x) = x"
    using NN_Digits_val [of n ?x] by (simp add: NN_Decode_val x_def)
  have "0 < nn_val (take n p)" using t assms(2) by simp
  then obtain y where y: "NN_ModExp g ?x (NN_Digits ?x n) p n = Some y" "length y = n" "x = 0 \<longrightarrow> nn_val y = 1"
    "x \<noteq> 0 \<longrightarrow> nn_val y = nn_val g ^ x mod ?P"
    using NN_ModExp_val [of n g p "NN_Digits ?x n" ?x] assms(5) nl NN_Digits_le [of ?x n] by (auto simp: d t)
  have "nn_val y = nn_val g ^ x mod ?P" using y(3,4) assms(2) by (cases "x = 0") simp_all
  then show "\<exists>y. NN_ModExp g ?x (NN_Digits ?x n) p n = Some y \<and> length y = n \<and> nn_val y = nn_val g ^ (be_val b mod 2 ^ (32 * n)) mod ?P"
    using y(1,2) unfolding x_def by blast
qed

lemma dh_encode:
  assumes "length y = n" "nn_val y < be_val p"
  shows "be_val (NN_Encode (length p) y n) = nn_val y" "length (NN_Encode (length p) y n) = length p"
  using assms be_val_less [of p] by (simp_all add: NN_Encode_val)

text \<open>What one party publishes, and what the other makes of it.\<close>

lemma dh_setup:
  assumes "length (dh_prime params) \<le> 128" "1 < be_val (dh_prime params)" "bytesNeeded r = 0"
  defines "n \<equiv> NN_Digits (NN_Decode MAX_NN_DIGITS (dh_prime params)) MAX_NN_DIGITS"
  shows "\<exists>pub priv r'. R_SetupDHAgreement len params r = Some (Inr (pub, priv), r') \<and> rnd_generate len r = (priv, r') \<and>
    length pub = length (dh_prime params) \<and>
    be_val pub = (be_val (dh_generator params) mod 2 ^ (32 * n)) ^ (be_val priv mod 2 ^ (32 * n)) mod be_val (dh_prime params)"
proof -
  obtain priv r' where g: "rnd_generate len r = (priv, r')" by (rule prod.exhaust)
  define G where "G = NN_Decode n (dh_generator params)"
  have G: "length G = n" "nn_val G = be_val (dh_generator params) mod 2 ^ (32 * n)" by (simp_all add: G_def NN_Decode_val)
  obtain y where y: "NN_ModExp G (NN_Decode n priv) (NN_Digits (NN_Decode n priv) n) (NN_Decode MAX_NN_DIGITS (dh_prime params)) n = Some y"
    "length y = n" "nn_val y = nn_val G ^ (be_val priv mod 2 ^ (32 * n)) mod be_val (dh_prime params)"
    using dh_power(1) [OF assms(1,2) G(1) [unfolded n_def], of priv] unfolding n_def by blast
  have "nn_val y < be_val (dh_prime params)" unfolding y(3) using assms(2) by simp
  note e = dh_encode [OF y(2) this]
  have "R_SetupDHAgreement len params r = Some (Inr (NN_Encode (length (dh_prime params)) y n, priv), r')"
    unfolding R_SetupDHAgreement_def Let_def n_def [symmetric] G_def [symmetric] using assms(3) y(1)
    by (simp add: R_GenerateBytes_def g)
  then show ?thesis using g e y(3) G(2) by auto
qed

lemma dh_compute:
  assumes "length (dh_prime params) \<le> 128" "1 < be_val (dh_prime params)"
    "length pub = length (dh_prime params)" "be_val pub < be_val (dh_prime params)"
  defines "n \<equiv> NN_Digits (NN_Decode MAX_NN_DIGITS (dh_prime params)) MAX_NN_DIGITS"
  shows "\<exists>key. R_ComputeDHAgreedKey pub priv params = Some (Inr key) \<and> length key = length (dh_prime params) \<and>
    be_val key = be_val pub ^ (be_val priv mod 2 ^ (32 * n)) mod be_val (dh_prime params)"
proof -
  let ?p = "NN_Decode MAX_NN_DIGITS (dh_prime params)"
  define Y where "Y = NN_Decode n pub"
  have lY: "length Y = n" by (simp add: Y_def)
  note dp = dh_power [OF assms(1,2), folded n_def, OF lY]
  have Y: "nn_val Y = be_val pub" using dp(4) assms(4) by (simp add: Y_def NN_Decode_val)
  obtain z where z: "NN_ModExp Y (NN_Decode n priv) (NN_Digits (NN_Decode n priv) n) ?p n = Some z" "length z = n"
    "nn_val z = be_val pub ^ (be_val priv mod 2 ^ (32 * n)) mod be_val (dh_prime params)"
    using dp(1) [of priv] Y by auto
  have "nn_val z < be_val (dh_prime params)" unfolding z(3) using assms(2) by simp
  note e = dh_encode [OF z(2) this]
  have "NN_Cmp Y ?p n < 0" using NN_Cmp_val [of n Y ?p] dp(2,3) lY Y assms(4) by simp
  then have "R_ComputeDHAgreedKey pub priv params = Some (Inr (NN_Encode (length (dh_prime params)) z n))"
    unfolding R_ComputeDHAgreedKey_def Let_def n_def [symmetric] using assms(3) z(1) by (simp add: Y_def)
  then show ?thesis using e z(3) by auto
qed

lemma dh_agreement:
  assumes "length (dh_prime params) \<le> 128" "1 < be_val (dh_prime params)" "bytesNeeded r = 0" "bytesNeeded s = 0"
  shows "\<exists>pub1 priv1 r' pub2 priv2 s' key. R_SetupDHAgreement len1 params r = Some (Inr (pub1, priv1), r') \<and>
    R_SetupDHAgreement len2 params s = Some (Inr (pub2, priv2), s') \<and>
    R_ComputeDHAgreedKey pub2 priv1 params = Some (Inr key) \<and> R_ComputeDHAgreedKey pub1 priv2 params = Some (Inr key) \<and>
    length key = length (dh_prime params)"
proof -
  let ?P = "be_val (dh_prime params)"
  define n where "n = NN_Digits (NN_Decode MAX_NN_DIGITS (dh_prime params)) MAX_NN_DIGITS"
  define G where "G = be_val (dh_generator params) mod 2 ^ (32 * n)"
  obtain pub1 priv1 r' where 1: "R_SetupDHAgreement len1 params r = Some (Inr (pub1, priv1), r')" "length pub1 = length (dh_prime params)"
    "be_val pub1 = G ^ (be_val priv1 mod 2 ^ (32 * n)) mod ?P"
    using dh_setup [OF assms(1,2,3), of len1] unfolding G_def n_def by blast
  obtain pub2 priv2 s' where 2: "R_SetupDHAgreement len2 params s = Some (Inr (pub2, priv2), s')" "length pub2 = length (dh_prime params)"
    "be_val pub2 = G ^ (be_val priv2 mod 2 ^ (32 * n)) mod ?P"
    using dh_setup [OF assms(1,2,4), of len2] unfolding G_def n_def by blast
  have less: "be_val pub1 < ?P" "be_val pub2 < ?P" using 1(3) 2(3) assms(2) by simp_all
  obtain k1 where k1: "R_ComputeDHAgreedKey pub2 priv1 params = Some (Inr k1)" "length k1 = length (dh_prime params)"
    "be_val k1 = be_val pub2 ^ (be_val priv1 mod 2 ^ (32 * n)) mod ?P"
    using dh_compute [OF assms(1,2) 2(2) less(2), of priv1] unfolding n_def by blast
  obtain k2 where k2: "R_ComputeDHAgreedKey pub1 priv2 params = Some (Inr k2)" "length k2 = length (dh_prime params)"
    "be_val k2 = be_val pub1 ^ (be_val priv2 mod 2 ^ (32 * n)) mod ?P"
    using dh_compute [OF assms(1,2) 1(2) less(1), of priv2] unfolding n_def by blast
  have "be_val k1 = be_val k2"
    unfolding k1(3) k2(3) 1(3) 2(3) by (simp add: power_mod mult.commute flip: power_mult)
  then have "k1 = k2" using be_val_inj k1(2) k2(2) by metis
  then show ?thesis using 1(1) 2(1) k1 k2 by blast
qed

section \<open>Parameters\<close>

lemma PREP_val:
  assumes "0 < k" "k \<le> 32 * n"
  shows "nn_val (NN_Assign2Exp (k - 1) n) = 2 ^ (k - 1)" "nn_val (PREP (NN_Assign2Exp (k - 1) n) (NN_Assign2Exp (k - 1) n) n) = 2 ^ k - 1"
    "length (PREP (NN_Assign2Exp (k - 1) n) (NN_Assign2Exp (k - 1) n) n) = n"
proof -
  let ?t = "NN_Assign2Exp (k - 1) n"
  show t: "nn_val ?t = 2 ^ (k - 1)" using NN_Assign2Exp_val(1) [of "k - 1" n] assms by simp
  have l: "length ?t = n" by (rule NN_Assign2Exp_val(2))
  obtain j where j: "k = Suc j" using assms(1) by (cases k) simp_all
  have "(2 :: nat) ^ k \<le> 2 ^ (32 * n)" using assms(2) by (intro power_increasing) simp_all
  moreover have pw: "(2 :: nat) ^ k = 2 * 2 ^ (k - 1)" by (simp add: j)
  moreover have one: "(1 :: nat) \<le> 2 ^ (k - 1)" by simp
  ultimately have lim: "2 ^ (k - 1) + (2 ^ (k - 1) - 1) < (2 :: nat) ^ (32 * n)" by linarith
  have m: "nn_val (fst (NN_Sub ?t (NN_ASSIGN_DIGIT 1 n) n)) = 2 ^ (k - 1) - 1" "length (fst (NN_Sub ?t (NN_ASSIGN_DIGIT 1 n) n)) = n"
    using minus_one [OF l] t by simp_all
  have "nn_val (PREP ?t ?t n) = 2 ^ (k - 1) + (2 ^ (k - 1) - 1)" "length (PREP ?t ?t n) = n"
    using NN_Add_val [of n ?t "fst (NN_Sub ?t (NN_ASSIGN_DIGIT 1 n) n)"] l m t lim by (simp_all add: PREP_def NN_Assign_def)
  then show "nn_val (PREP ?t ?t n) = 2 ^ k - 1" "length (PREP ?t ?t n) = n" unfolding pw using one by linarith+
qed

lemma NN_LShift_double:
  assumes "length a = n" "length q = n" "2 * nn_val q < 2 ^ (32 * n)"
  shows "nn_val (fst (NN_LShift a q 1 n)) = 2 * nn_val q" "length (fst (NN_LShift a q 1 n)) = n"
proof -
  obtain v co where v: "nn_lshift 1 0 q = (v, co)" by (rule prod.exhaust)
  then have e: "nn_val v + 2 ^ (32 * n) * unat co = nn_val q * 2" and l: "length v = n"
    using nn_lshift_val [of 1 0 q v co] assms(2) by simp_all
  have "unat co = 0"
  proof (rule ccontr)
    assume "unat co \<noteq> 0"
    then have "2 ^ (32 * n) * 1 \<le> 2 ^ (32 * n) * unat co" by (intro mult_le_mono2) simp
    then show False using e assms(3) by linarith
  qed
  then show "nn_val (fst (NN_LShift a q 1 n)) = 2 * nn_val q" "length (fst (NN_LShift a q 1 n)) = n"
    using e l v assms(2) by (simp_all add: NN_LShift_def)
qed

text \<open>The base 2 has an order that divides \<open>p - 1\<close> when Fermat's test holds.\<close>

lemma fermat_base_two:
  assumes "2 ^ p mod p = 2" "odd p" "2 < (p :: nat)"
  shows "2 ^ (p - 1) mod p = 1"
proof -
  define r where "r = 2 ^ (p - 1) mod p"
  have r: "r < p" using assms(3) by (simp add: r_def)
  have "(2 :: nat) ^ p = 2 * 2 ^ (p - 1)" using assms(3) by (cases p) simp_all
  then have e: "(2 * r) mod p = 2" using assms(1) by (simp add: r_def mod_mult_right_eq)
  show ?thesis
  proof (cases "2 * r < p")
    case True
    then have "r = 1" using e by simp
    then show ?thesis by (simp only: r_def)
  next
    case False
    then have "(2 * r) mod p = 2 * r - p" using r by (simp add: le_mod_geq)
    then have "p = 2 * (r - 1)" using e False by simp
    then show ?thesis using assms(2) by simp
  qed
qed

definition dh_params_ok :: "nat \<Rightarrow> nat \<Rightarrow> nat \<Rightarrow> nat \<Rightarrow> nat \<Rightarrow> bool" where
  "dh_params_ok primeBits subPrimeBits p q g \<longleftrightarrow>
     probable_prime ((primeBits + 31) div 32) q \<and> 2 ^ (subPrimeBits - 1) \<le> q \<and> q < 2 ^ subPrimeBits \<and>
     probable_prime ((primeBits + 31) div 32) p \<and> 2 ^ (primeBits - 1) \<le> p \<and> p < 2 ^ primeBits \<and>
     2 * q dvd p - 1 \<and> g = 2 ^ ((p - 1) div q) mod p \<and> g ^ q mod p = 1"

lemma bits_less_1_val: "0 < n \<Longrightarrow> n \<le> 1056 \<Longrightarrow> bits_less_1 n = n - 1"
  by (simp add: bits_less_1_def unat_sub word_le_nat_alt unat_of_nat)

lemma R_GenerateDHParams_val:
  assumes "2 \<le> sub" "sub + 2 \<le> pb" "rnd_inv r" "bytesNeeded r = 0" "pb \<le> 32 * MAX_NN_DIGITS"
  shows "\<exists>result r'. R_GenerateDHParams pb sub r = Some (result, r') \<and>
    (case result of Inl e \<Rightarrow> e = RE_DATA
     | Inr params \<Rightarrow> length (dh_prime params) = DH_PRIME_LEN pb \<and> length (dh_generator params) = DH_PRIME_LEN pb \<and>
         (\<exists>q. dh_params_ok pb sub (be_val (dh_prime params)) q (be_val (dh_generator params))))"
proof -
  define n where "n = (pb + 31) div 32"
  have n: "pb \<le> 32 * n" "0 < n" using assms(1,2) by (simp_all add: n_def)
  define t u v where "t = NN_Assign2Exp (sub - 1) n" and "u = PREP t t n" and "v = NN_ASSIGN_DIGIT 2 n"
  define t2 u2 where "t2 = NN_Assign2Exp (pb - 1) n" and "u2 = PREP t2 t2 n"
  have k1: "0 < sub" "sub \<le> 32 * n" and k2: "0 < pb" using assms(1,2) n(1) by simp_all
  note T = PREP_val [OF k1, folded t_def, folded u_def] and T2 = PREP_val [OF k2 n(1), folded t2_def, folded u2_def]
  have lt: "length t = n" "length t2 = n" by (simp_all add: t_def t2_def NN_Assign2Exp_val(2))
  have V: "nn_val v = 2" "length v = n" using one_digit(2) [OF n(2)] by (simp_all add: v_def)
  obtain j where j: "sub = 2 + j" using assms(1) le_Suc_ex by blast
  obtain i where i: "pb = sub + 2 + i" using assms(2) le_Suc_ex by blast
  have pw: "(2 :: nat) ^ sub = 2 * 2 ^ (sub - 1)" "(2 :: nat) \<le> 2 ^ (sub - 1)" by (simp_all add: j)
  have pw2: "(2 :: nat) ^ pb = 2 * 2 ^ (pb - 1)" "(2 :: nat) * 2 ^ sub \<le> 2 ^ (pb - 1)" by (simp_all add: i power_add)
  have "nn_val t \<le> nn_val u" "0 < nn_val t" "0 < nn_val v" "nn_val v \<le> nn_val u - nn_val t + 1"
    unfolding T V pw(1) using pw(2) by linarith+
  moreover have oddc: "odd ((2 :: nat) ^ sub - 1)" "odd ((2 :: nat) ^ pb - 1)" using k1 k2 by simp_all
  ultimately obtain res r1 where g1: "GeneratePrime t u v n r = Some (res, r1)" "rnd_inv r1" "bytesNeeded r1 = 0"
    "case res of Inl e \<Rightarrow> e = RE_DATA
     | Inr x \<Rightarrow> length x = n \<and> nn_val t \<le> nn_val x \<and> nn_val x \<le> nn_val u \<and> nn_val v dvd nn_val x - 1 \<and> probable_prime n (nn_val x)"
    using GeneratePrime_val [of t n u v r] lt(1) T(3) V assms(3,4) by (auto simp: T(2))
  have less: "bits_less_1 sub = sub - 1" "bits_less_1 pb = pb - 1"
    by (rule bits_less_1_val; use assms(1,2,5) in \<open>simp add: MAX_NN_DIGITS_eq\<close>)+
  note unf = R_GenerateDHParams_def Let_def less n_def [symmetric] t_def [symmetric] u_def [symmetric] v_def [symmetric]
    t2_def [symmetric] u2_def [symmetric]
  show ?thesis
  proof (cases res)
    case (Inl e)
    then show ?thesis using g1 unfolding unf by simp
  next
    case (Inr q)
    have q: "length q = n" "2 ^ (sub - 1) \<le> nn_val q" "nn_val q \<le> 2 ^ sub - 1" "probable_prime n (nn_val q)"
      using g1(4) Inr T(1,2) by simp_all
    have q_less: "nn_val q < 2 ^ sub" "2 \<le> nn_val q" using q(2,3) pw by linarith+
    define v2 where "v2 = fst (NN_LShift v q 1 n)"
    have "(2 :: nat) ^ pb \<le> 2 ^ (32 * n)" using n(1) by (intro power_increasing) simp_all
    then have "2 * nn_val q < 2 ^ (32 * n)" using q_less pw2 by linarith
    then have V2: "nn_val v2 = 2 * nn_val q" "length v2 = n" using NN_LShift_double [OF V(2) q(1)] by (simp_all add: v2_def)
    have "nn_val t2 \<le> nn_val u2" "0 < nn_val t2" "0 < nn_val v2" "nn_val v2 \<le> nn_val u2 - nn_val t2 + 1"
      unfolding T2 V2 pw2(1) using pw2(2) q_less by linarith+
    moreover have "\<not> nn_val v2 dvd nn_val u2"
      unfolding T2 V2 using oddc(2) dvd_mult_left by blast
    ultimately obtain res2 r2 where g2: "GeneratePrime t2 u2 v2 n r1 = Some (res2, r2)"
      "case res2 of Inl e \<Rightarrow> e = RE_DATA
       | Inr x \<Rightarrow> length x = n \<and> nn_val t2 \<le> nn_val x \<and> nn_val x \<le> nn_val u2 \<and> nn_val v2 dvd nn_val x - 1 \<and> probable_prime n (nn_val x)"
      using GeneratePrime_val [of t2 n u2 v2 r1] lt(2) T2(3) V2(2) g1(2,3) by auto
    show ?thesis
    proof (cases res2)
      case (Inl e)
      then show ?thesis using g1 g2 \<open>res = Inr q\<close> unfolding unf by (simp add: v2_def [symmetric] del: One_nat_def)
    next
      case (Inr p)
      have p: "length p = n" "2 ^ (pb - 1) \<le> nn_val p" "nn_val p \<le> 2 ^ pb - 1" "2 * nn_val q dvd nn_val p - 1" "probable_prime n (nn_val p)"
        using g2(2) Inr T2(1,2) V2(1) by simp_all
      have p_less: "nn_val p < 2 ^ pb" "2 < nn_val p" "nn_val q < nn_val p" using p(2,3) pw2 q_less by linarith+
      obtain a b where d: "NN_Div t2 u2 p n q n = Some (a, b)" "nn_val (take n a) = nn_val p div nn_val q" "n \<le> length a"
        using NN_Div_val [of n p n q t2 u2] p(1) q(1) q_less by (auto)
      have t0: "nn_val p div nn_val q \<noteq> 0" using p_less(3) q_less(2) by (simp add: div_eq_0_iff)
      obtain g where g: "NN_ModExp (NN_ASSIGN_DIGIT 2 n) a n p n = Some g" "length g = n" "nn_val g = 2 ^ (nn_val p div nn_val q) mod nn_val p"
        using NN_ModExp_val [of n "NN_ASSIGN_DIGIT 2 n" p n a] d(2,3) p(1) p_less t0 one_digit(2) [OF n(2)] by auto
      obtain k where k: "nn_val p - 1 = 2 * nn_val q * k" using p(4) by (rule dvdE)
      then have pk: "nn_val p = 1 + nn_val q * (2 * k)" using p_less(2) by simp
      have dv: "nn_val p div nn_val q = 2 * k" "(nn_val p - 1) div nn_val q = 2 * k"
        using q_less(2) div_mult_self2 [of "nn_val q" 1 "2 * k"] by (simp_all add: pk del: One_nat_def add_Suc plus_1_eq_Suc Suc_eq_plus1_left [symmetric])
      have "odd (nn_val p)" unfolding pk by simp
      then have f: "2 ^ (nn_val p - 1) mod nn_val p = 1"
        using fermat_base_two p(5) p_less(2) by (simp add: probable_prime_def)
      have order: "nn_val g ^ nn_val q mod nn_val p = 1"
        unfolding g(3) dv(1) using f by (simp add: power_mod flip: power_mult) (simp add: pk mult.commute)
      have "(2 :: nat) ^ pb \<le> 2 ^ (8 * DH_PRIME_LEN pb)" by (intro power_increasing) (simp_all add: DH_PRIME_LEN_def)
      also have "(2 :: nat) ^ (8 * DH_PRIME_LEN pb) = 256 ^ DH_PRIME_LEN pb" by (simp add: power_mult)
      finally have enc: "be_val (NN_Encode (DH_PRIME_LEN pb) x n) = nn_val x" if "length x = n" "nn_val x \<le> nn_val p" for x
        using that p_less(1) by (simp add: NN_Encode_val)
      have gl: "nn_val g \<le> nn_val p" unfolding g(3) using p_less(2) by (intro less_imp_le mod_less_divisor) simp
      have "R_GenerateDHParams pb sub r =
          Some (Inr \<lparr>dh_prime = NN_Encode (DH_PRIME_LEN pb) p n, dh_generator = NN_Encode (DH_PRIME_LEN pb) g n\<rparr>, r2)"
        using g1 g2 \<open>res = Inr q\<close> Inr d(1) g(1) unfolding unf by (simp add: v2_def [symmetric] del: One_nat_def)
      moreover have "dh_params_ok pb sub (nn_val p) (nn_val q) (nn_val g)"
        using q q_less p p_less order g(3) dv by (simp add: dh_params_ok_def n_def [symmetric])
      ultimately show ?thesis using enc [OF p(1)] enc [OF g(2) gl] by auto
    qed
  qed
qed

end
