(* ===== verification/KeyGen_Props.thy ===== *)
theory KeyGen_Props
  imports DH RSA_Props
begin

text \<open>The properties of the prime search, the key generation and the key agreement of \<^verbatim>\<open>HBase/RSAEuro\<close>.\<close>

lemma no_small_factor_all: "n \<noteq> 1 \<Longrightarrow> no_small_factor ps n v \<longleftrightarrow> (\<forall>p \<in> set ps. v mod p \<noteq> 0)"
  by (induction ps) simp_all

lemma SMALL_PRIMES_gt_1: "list_all (\<lambda>p. 1 < p) SMALL_PRIMES" "p \<in> set SMALL_PRIMES \<Longrightarrow> p < 8192"
  using SMALL_PRIMES_range unfolding list_all_iff by blast+

text \<open>C26. \<^verbatim>\<open>probableprime\<close> returns.  A number that passes satisfies Fermat's congruence to base 2 and has no
  prime factor of the table, unless it stands in it.  Every prime from 8192 on passes, and in one digit every
  odd prime; but in more digits the primes of the table are taken for composite: the test of the number
  against itself is made for one digit only.\<close>

theorem probableprime_decides:
  assumes "n \<le> length a" "0 < nn_val (take n a)"
  shows "\<exists>ok. probableprime a n = Some ok \<and>
    (ok \<longrightarrow> 2 ^ nn_val (take n a) mod nn_val (take n a) = 2 \<and>
       (nn_val (take n a) \<in> set SMALL_PRIMES \<or> (\<forall>p \<in> set SMALL_PRIMES. \<not> p dvd nn_val (take n a)))) \<and>
    (is_prime (nn_val (take n a)) \<and> 2 < nn_val (take n a) \<and> (n = 1 \<or> 8192 \<le> nn_val (take n a)) \<longrightarrow> ok) \<and>
    (n \<noteq> 1 \<and> nn_val (take n a) \<in> set SMALL_PRIMES \<longrightarrow> \<not> ok)"
proof -
  define v where "v = nn_val (take n a)"
  let ?ok = "no_small_factor SMALL_PRIMES n v \<and> 2 ^ v mod v = 2"
  have p: "probableprime a n = Some ?ok" unfolding v_def by (rule probableprime_val [OF assms])
  have "?ok" if "is_prime v" "2 < v" "n = 1 \<or> 8192 \<le> v"
  proof
    show "2 ^ v mod v = 2" using fermat_power [OF that(1), of 2] that(2) by simp
    have "n = 1 \<or> (\<forall>p \<in> set SMALL_PRIMES. p < v)"
      using that(3) SMALL_PRIMES_gt_1(2) less_le_trans by blast
    then show "no_small_factor SMALL_PRIMES n v" by (rule prime_no_small_factor [OF that(1) SMALL_PRIMES_gt_1(1)])
  qed
  moreover have "\<not> ?ok" if "n \<noteq> 1" "v \<in> set SMALL_PRIMES"
  proof
    assume "?ok"
    then have "v mod v \<noteq> 0" using no_small_factor_all [OF that(1)] that(2) by blast
    then show False by simp
  qed
  ultimately have "(?ok \<longrightarrow> 2 ^ v mod v = 2 \<and> (v \<in> set SMALL_PRIMES \<or> (\<forall>p \<in> set SMALL_PRIMES. \<not> p dvd v))) \<and>
    (is_prime v \<and> 2 < v \<and> (n = 1 \<or> 8192 \<le> v) \<longrightarrow> ?ok) \<and> (n \<noteq> 1 \<and> v \<in> set SMALL_PRIMES \<longrightarrow> \<not> ?ok)"
    using no_small_factorD by blast
  with p show ?thesis unfolding v_def by blast
qed

theorem probableprime_decides_witness: "probableprime [13] 1 = Some True"
proof -
  have "is_prime 13" by code_simp
  then show ?thesis using probableprime_decides [of 1 "[13]"] by auto
qed

text \<open>C18. \<^verbatim>\<open>GeneratePrime\<close> returns, with a seeded random object, on every interval from \<open>b > 0\<close> to \<open>c\<close>
  that is not shorter than its step \<open>d\<close>: either \<^verbatim>\<open>RE_DATA\<close>, or a number \<open>x\<close> of the interval that
  passes the test and for which \<open>d\<close> divides \<open>x - 1\<close>.\<close>

theorem GeneratePrime_returns:
  assumes "length b = n" "length c = n" "length d = n" "nn_val b \<le> nn_val c" "0 < nn_val b"
    "0 < nn_val d" "nn_val d \<le> nn_val c - nn_val b + 1" "nn_val c + 1 < 2 ^ (32 * n) \<or> nn_val c mod nn_val d \<noteq> 0"
    "rnd_inv r" "bytesNeeded r = 0"
  shows "\<exists>result r'. GeneratePrime b c d n r = Some (result, r') \<and> rnd_inv r' \<and> bytesNeeded r' = 0 \<and>
    (case result of Inl e \<Rightarrow> e = RE_DATA
     | Inr x \<Rightarrow> length x = n \<and> nn_val b \<le> nn_val x \<and> nn_val x \<le> nn_val c \<and> nn_val d dvd nn_val x - 1 \<and>
         probableprime x n = Some True)"
proof -
  have "nn_val c + 1 < 2 ^ (32 * n) \<or> \<not> nn_val d dvd nn_val c" using assms(8) by (simp only: dvd_eq_mod_eq_0)
  from GeneratePrime_val [OF assms(1-7) this assms(9,10)]
  obtain result r' where g: "GeneratePrime b c d n r = Some (result, r')" "rnd_inv r'" "bytesNeeded r' = 0"
    "case result of Inl e \<Rightarrow> e = RE_DATA
     | Inr x \<Rightarrow> length x = n \<and> nn_val b \<le> nn_val x \<and> nn_val x \<le> nn_val c \<and> nn_val d dvd nn_val x - 1 \<and> probable_prime n (nn_val x)"
    by blast
  have "probableprime x n = Some True" if "length x = n" "nn_val b \<le> nn_val x" "probable_prime n (nn_val x)" for x
    using probableprime_val [of n x] that assms(5) by (simp add: probable_prime_def)
  then show ?thesis using g by (cases result) auto
qed

theorem GeneratePrime_returns_witness:
  "\<exists>result r'. GeneratePrime [5, 0] [100, 0] [2, 0] 2 example_random = Some (result, r') \<and> rnd_inv r' \<and> bytesNeeded r' = 0 \<and>
    (case result of Inl e \<Rightarrow> e = RE_DATA
     | Inr x \<Rightarrow> length x = 2 \<and> 5 \<le> nn_val x \<and> nn_val x \<le> 100 \<and> 2 dvd nn_val x - 1 \<and> probableprime x 2 = Some True)"
proof -
  have v: "nn_val [5, 0] = 5" "nn_val [100, 0] = 100" "nn_val [2, 0] = 2" by simp_all
  show ?thesis
    using GeneratePrime_returns [of "[5, 0]" 2 "[100, 0]" "[2, 0]" example_random, unfolded v] example_random_ok(1,2)
    by (simp only: v list.size) simp
qed

text \<open>C13. From two different primes of the length that \<^verbatim>\<open>R_GeneratePEMKeys\<close> looks for, in either order, the rest of
  that function makes a key pair: the products, the two inverses and the remainders are those of RSA, and what it
  encodes is what \<^verbatim>\<open>rsa.c\<close> decodes.\<close>

theorem pem_keys_belong:
  assumes "nDigits = (n + 31) div 32" "pDigits = (nDigits + 1) div 2" "n \<le> 1024"
    "length p = pDigits" "length q = pDigits" "0 < unat x"
    "is_prime (nn_val p)" "is_prime (nn_val q)" "2 < nn_val p" "2 < nn_val q" "nn_val p \<noteq> nn_val q"
    "2 ^ (n - 1) \<le> nn_val p * nn_val q" "nn_val p * nn_val q < 2 ^ n"
    "coprime (unat x) (nn_val p - 1)" "coprime (unat x) (nn_val q - 1)"
  shows "\<exists>pk sk. pem_keys n nDigits pDigits (NN_ASSIGN_DIGIT x nDigits) p q = Some (pk, sk) \<and> rsa_key_pair pk sk \<and>
    {be_val (prime0 sk), be_val (prime1 sk)} = {nn_val p, nn_val q} \<and> be_val (pub_exponent pk) = unat x"
  by (rule pem_keys_pair [OF assms])

theorem pem_keys_belong_witness:
  "\<exists>pk sk. pem_keys 91 3 2 (NN_ASSIGN_DIGIT 3 3) [58720257, 8192] [1065353217, 8192] = Some (pk, sk) \<and> rsa_key_pair pk sk"
proof -
  have v: "nn_val [1065353217, 8192] = example_p" "nn_val [58720257, 8192] = example_q"
    by (simp_all add: example_p_def example_q_def)
  have three: "is_prime 3" by code_simp
  have c: "coprime 3 (example_p - 1)" "coprime 3 (example_q - 1)"
    by (rule prime_coprime [OF three]; simp add: example_p_def example_q_def dvd_eq_mod_eq_0)+
  have num: "example_p \<noteq> example_q" "2 < example_p" "2 < example_q" "2 ^ (91 - 1) \<le> example_q * example_p" "example_q * example_p < 2 ^ 91"
    by (simp_all add: example_p_def example_q_def)
  have "\<exists>pk sk. pem_keys 91 3 2 (NN_ASSIGN_DIGIT 3 3) [58720257, 8192] [1065353217, 8192] = Some (pk, sk) \<and> rsa_key_pair pk sk \<and>
      {be_val (prime0 sk), be_val (prime1 sk)} = {nn_val [58720257, 8192], nn_val [1065353217, 8192]} \<and> be_val (pub_exponent pk) = unat (3 :: u32)"
    by (rule pem_keys_belong, unfold v) (use c num example_p_prime example_q_prime in simp_all)
  then show ?thesis by blast
qed



text \<open>C19. Two parties with the same parameters, whatever the lengths of their private values, agree:
  \<^verbatim>\<open>R_SetupDHAgreement\<close> returns for both, and \<^verbatim>\<open>R_ComputeDHAgreedKey\<close> accepts the public value of the other
  and gives both the same key, of the length of the prime.\<close>

theorem DH_agreement:
  assumes "length (dh_prime params) \<le> 128" "1 < be_val (dh_prime params)" "bytesNeeded r = 0" "bytesNeeded s = 0"
  shows "\<exists>pub1 priv1 r' pub2 priv2 s' key. R_SetupDHAgreement len1 params r = Some (Inr (pub1, priv1), r') \<and>
    R_SetupDHAgreement len2 params s = Some (Inr (pub2, priv2), s') \<and>
    R_ComputeDHAgreedKey pub2 priv1 params = Some (Inr key) \<and> R_ComputeDHAgreedKey pub1 priv2 params = Some (Inr key) \<and>
    length key = length (dh_prime params)"
  by (rule dh_agreement [OF assms])

definition example_dh :: R_DH_PARAMS where "example_dh = \<lparr>dh_prime = [0, 23], dh_generator = [5]\<rparr>"

theorem DH_agreement_witness:
  "\<exists>pub1 priv1 r' pub2 priv2 s' key. R_SetupDHAgreement 1 example_dh example_random = Some (Inr (pub1, priv1), r') \<and>
    R_SetupDHAgreement 2 example_dh example_random = Some (Inr (pub2, priv2), s') \<and>
    R_ComputeDHAgreedKey pub2 priv1 example_dh = Some (Inr key) \<and> R_ComputeDHAgreedKey pub1 priv2 example_dh = Some (Inr key) \<and>
    length key = length (dh_prime example_dh)"
  by (rule DH_agreement) (simp_all add: example_dh_def example_random_ok be_val_def)

end
