(* ===== verification/Base64.thy ===== *)
theory Base64
  imports Prelude
begin

text \<open>
  \<^verbatim>\<open>HBase/Base64.cpp\<close>.  The three and the four bytes of a group, which the code collects in
  arrays with an index, are taken off the list at once.
\<close>

text \<open>\<^verbatim>\<open>ABC...Zabc...z0123456789+/\<close>\<close>

definition base64_chars :: bytes where
  "base64_chars = map word_of_nat ([65..<91] @ [97..<123] @ [48..<58] @ [43, 47])"

definition isalnum :: "u8 \<Rightarrow> bool" where
  "isalnum c \<longleftrightarrow> 48 \<le> c \<and> c \<le> 57 \<or> 65 \<le> c \<and> c \<le> 90 \<or> 97 \<le> c \<and> c \<le> 122"

definition is_base64 :: "u8 \<Rightarrow> bool" where
  "is_base64 c \<longleftrightarrow> isalnum c \<or> c = 43 \<or> c = 47"

text \<open>The four six-bit values of three bytes.\<close>

definition b64_split :: "u8 \<Rightarrow> u8 \<Rightarrow> u8 \<Rightarrow> bytes" where
  "b64_split a b c =
     [drop_bit 2 (a AND 0xfc),
      push_bit 4 (a AND 0x03) + drop_bit 4 (b AND 0xf0),
      push_bit 2 (b AND 0x0f) + drop_bit 6 (c AND 0xc0),
      c AND 0x3f]"

definition b64_char :: "u8 \<Rightarrow> u8" where
  "b64_char v = base64_chars ! unat v"

fun H_B64Encode :: "bytes \<Rightarrow> bytes" where
  "H_B64Encode (a # b # c # xs) = map b64_char (b64_split a b c) @ H_B64Encode xs"
| "H_B64Encode [] = []"
| "H_B64Encode [a] = map b64_char (take 2 (b64_split a 0 0)) @ [0x3d, 0x3d]"
| "H_B64Encode [a, b] = map b64_char (take 3 (b64_split a b 0)) @ [0x3d]"

text \<open>\<^verbatim>\<open>base64_chars.find\<close> in an \<^verbatim>\<open>unsigned char\<close>: \<^verbatim>\<open>npos\<close> becomes 255.\<close>

definition b64_find :: "u8 \<Rightarrow> u8" where
  "b64_find c =
     (let i = length (takeWhile (\<lambda>d. d \<noteq> c) base64_chars)
      in if i < length base64_chars then word_of_nat i else 255)"

definition b64_join :: "u8 \<Rightarrow> u8 \<Rightarrow> u8 \<Rightarrow> u8 \<Rightarrow> bytes" where
  "b64_join p q r s =
     [push_bit 2 p + drop_bit 4 (q AND 0x30),
      push_bit 4 (q AND 0xf) + drop_bit 2 (r AND 0x3c),
      push_bit 6 (r AND 0x3) + s]"

text \<open>
  The loop stops at the first byte that is not of the alphabet.  A group that is not
  complete is filled with zero bytes, which are looked up too.
\<close>

fun b64_groups :: "bytes \<Rightarrow> bytes" where
  "b64_groups (p # q # r # s # xs) =
     b64_join (b64_find p) (b64_find q) (b64_find r) (b64_find s) @ b64_groups xs"
| "b64_groups [] = []"
| "b64_groups [p] = []"
| "b64_groups [p, q] = take 1 (b64_join (b64_find p) (b64_find q) (b64_find 0) (b64_find 0))"
| "b64_groups [p, q, r] = take 2 (b64_join (b64_find p) (b64_find q) (b64_find r) (b64_find 0))"

definition H_B64Decode :: "bytes \<Rightarrow> bytes" where
  "H_B64Decode pszData = b64_groups (takeWhile (\<lambda>c. c \<noteq> 0x3d \<and> is_base64 c) pszData)"

section \<open>Decoding inverts encoding\<close>

lemma u8_and_field: "drop_bit k (w AND push_bit k (mask m)) = drop_bit k (w :: u8) AND mask m"
  by (rule bit_word_eqI) (auto simp: bit_simps dest: bit_imp_le_length)

lemma u8_nat:
  "unat (drop_bit k w :: u8) = unat w div 2 ^ k"
  "unat (push_bit k w :: u8) = (unat w * 2 ^ k) mod 256"
  "unat (v + w :: u8) = (unat v + unat w) mod 256"
  "unat (w AND mask k :: u8) = unat w mod 2 ^ k"
proof -
  show "unat (drop_bit k w) = unat w div 2 ^ k"
    by (simp only: unat_drop_bit_eq) (simp add: drop_bit_eq_div)
  show "unat (push_bit k w) = (unat w * 2 ^ k) mod 256"
    by (simp only: unsigned_push_bit_eq) (simp add: push_bit_eq_mult take_bit_eq_mod)
  show "unat (v + w) = (unat v + unat w) mod 256"
    by (simp add: unat_word_ariths)
  have "w AND mask k = take_bit k w" by (simp add: take_bit_eq_mask)
  then show "unat (w AND mask k) = unat w mod 2 ^ k"
    by (simp only: unsigned_take_bit_eq) (simp add: take_bit_eq_mod)
qed

lemma b64_masks:
  "(0xfc :: u8) = push_bit 2 (mask 6)" "(0x03 :: u8) = mask 2" "(0xf0 :: u8) = push_bit 4 (mask 4)"
  "(0x0f :: u8) = mask 4" "(0xc0 :: u8) = push_bit 6 (mask 2)" "(0x3f :: u8) = mask 6"
  "(0x30 :: u8) = push_bit 4 (mask 2)" "(0x3c :: u8) = push_bit 2 (mask 4)"
  by (simp_all add: mask_eq_exp_minus_1 push_bit_eq_mult)

lemma b64_split_val:
  "map unat (b64_split a b c) =
     [unat a div 4, unat a mod 4 * 16 + unat b div 16, unat b mod 16 * 4 + unat c div 64, unat c mod 64]"
proof -
  have l: "unat a < 256" "unat b < 256" "unat c < 256" by (simp_all add: unat_u8_less)
  then have "unat a div 4 < 64" "unat b div 16 < 16" "unat c div 64 < 4" by simp_all
  moreover have "unat a mod 4 * 16 + unat b div 16 < 256" "unat b mod 16 * 4 + unat c div 64 < 256"
    "unat a mod 4 * 16 < 256" "unat b mod 16 * 4 < 256"
    using calculation mod_less_divisor [of 4 "unat a"] mod_less_divisor [of 16 "unat b"] by linarith+
  ultimately show ?thesis
    by (simp only: b64_split_def b64_masks u8_and_field u8_nat list.map) simp
qed

lemma b64_join_val:
  assumes "unat p < 64" "unat q < 64" "unat r < 64" "unat s < 64"
  shows "map unat (b64_join p q r s) =
     [unat p * 4 + unat q div 16, unat q mod 16 * 16 + unat r div 4, unat r mod 4 * 64 + unat s]"
proof -
  have "unat q div 16 < 4" "unat r div 4 < 16" using assms by simp_all
  moreover have "unat p * 4 + unat q div 16 < 256" "unat q mod 16 * 16 + unat r div 4 < 256"
    "unat r mod 4 * 64 + unat s < 256" "unat p * 4 < 256" "unat q mod 16 * 16 < 256" "unat r mod 4 * 64 < 256"
    using calculation assms mod_less_divisor [of 16 "unat q"] mod_less_divisor [of 4 "unat r"] by linarith+
  ultimately show ?thesis
    by (simp only: b64_join_def b64_masks u8_and_field u8_nat list.map) simp
qed

lemma b64_char_ok: "i < 64 \<Longrightarrow> b64_find (base64_chars ! i) = word_of_nat i \<and>
    base64_chars ! i \<noteq> 0x3d \<and> is_base64 (base64_chars ! i)"
proof -
  have "list_all (\<lambda>i. b64_find (base64_chars ! i) = word_of_nat i \<and>
    base64_chars ! i \<noteq> 0x3d \<and> is_base64 (base64_chars ! i)) [0..<64]"
    by code_simp
  then show "i < 64 \<Longrightarrow> ?thesis" by (simp add: list_all_iff)
qed

lemma b64_find_char: "unat v < 64 \<Longrightarrow> b64_find (b64_char v) = v"
  using b64_char_ok [of "unat v"] by (simp add: b64_char_def)

lemma b64_char_valid: "unat v < 64 \<Longrightarrow> b64_char v \<noteq> 0x3d \<and> is_base64 (b64_char v)"
  using b64_char_ok [of "unat v"] by (simp add: b64_char_def)


lemma b64_split_less: "v \<in> set (b64_split a b c) \<Longrightarrow> unat v < 64"
proof -
  have l: "unat a < 256" "unat b < 256" "unat c < 256" by (simp_all add: unat_u8_less)
  have "\<forall>n \<in> set (map unat (b64_split a b c)). n < 64"
    unfolding b64_split_val
    using l mod_less_divisor [of 4 "unat a"] mod_less_divisor [of 16 "unat b"] by auto
  then show "v \<in> set (b64_split a b c) \<Longrightarrow> unat v < 64" by simp
qed

lemma b64_join_split: "case b64_split a b c of [p, q, r, s] \<Rightarrow> b64_join p q r s = [a, b, c]"
proof -
  obtain p q r s where e: "b64_split a b c = [p, q, r, s]" by (simp add: b64_split_def)
  have l: "unat a < 256" "unat b < 256" "unat c < 256" by (simp_all add: unat_u8_less)
  have v: "[unat p, unat q, unat r, unat s] =
     [unat a div 4, unat a mod 4 * 16 + unat b div 16, unat b mod 16 * 4 + unat c div 64, unat c mod 64]"
    using b64_split_val [of a b c] e by simp
  have lt: "unat p < 64" "unat q < 64" "unat r < 64" "unat s < 64"
    using b64_split_less [of _ a b c] e by simp_all
  have d: "unat b div 16 < 16" "unat c div 64 < 4" using l by simp_all
  have "map unat (b64_join p q r s) = map unat [a, b, c]"
    using v d by (simp only: b64_join_val [OF lt]) simp
  then have "b64_join p q r s = [a, b, c]" by (metis map_injective inj_unsigned)
  with e show ?thesis by simp
qed

lemma b64_group:
  "b64_split a b c = [p, q, r, s] \<Longrightarrow> b64_join (b64_find (b64_char p)) (b64_find (b64_char q))
     (b64_find (b64_char r)) (b64_find (b64_char s)) = [a, b, c]"
  using b64_join_split [of a b c] b64_split_less [of _ a b c] by (simp add: b64_find_char)

text \<open>The first bytes of a group do not depend on the last ones.\<close>

lemma b64_join_take:
  "take 1 (b64_join p q r s) = take 1 (b64_join p q r' s')"
  "take 2 (b64_join p q r s) = take 2 (b64_join p q r s')"
  by (simp_all add: b64_join_def)

lemma b64_decode_encode: "H_B64Decode (H_B64Encode xs) = xs"
proof (induction xs rule: H_B64Encode.induct)
  case (1 a b c xs)
  obtain p q r s where e: "b64_split a b c = [p, q, r, s]" by (simp add: b64_split_def)
  have "b64_char v \<noteq> 0x3d \<and> is_base64 (b64_char v)" if "v \<in> {p, q, r, s}" for v
    using that b64_split_less [of v a b c] e by (intro b64_char_valid) auto
  then show ?case
    using 1 e b64_group [OF e] by (simp add: H_B64Decode_def)
next
  case 2
  then show ?case by (simp add: H_B64Decode_def)
next
  case (3 a)
  obtain p q r s where e: "b64_split a 0 0 = [p, q, r, s]" by (simp add: b64_split_def)
  have "b64_char v \<noteq> 0x3d \<and> is_base64 (b64_char v)" if "v \<in> {p, q, r, s}" for v
    using that b64_split_less [of v a 0 0] e by (intro b64_char_valid) auto
  moreover have "take 1 (b64_join (b64_find (b64_char p)) (b64_find (b64_char q)) (b64_find 0) (b64_find 0)) = [a]"
    unfolding b64_join_take(1) [of _ _ "b64_find 0" "b64_find 0" "b64_find (b64_char r)" "b64_find (b64_char s)"]
    using b64_group [OF e] by simp
  ultimately show ?case using e by (simp add: H_B64Decode_def)
next
  case (4 a b)
  obtain p q r s where e: "b64_split a b 0 = [p, q, r, s]" by (simp add: b64_split_def)
  have "b64_char v \<noteq> 0x3d \<and> is_base64 (b64_char v)" if "v \<in> {p, q, r, s}" for v
    using that b64_split_less [of v a b 0] e by (intro b64_char_valid) auto
  moreover have "take 2 (b64_join (b64_find (b64_char p)) (b64_find (b64_char q)) (b64_find (b64_char r)) (b64_find 0)) = [a, b]"
    unfolding b64_join_take(2) [of _ _ _ "b64_find 0" "b64_find (b64_char s)"]
    using b64_group [OF e] by simp
  ultimately show ?case using e by (simp add: H_B64Decode_def)
qed

end
