(* ===== verification/PEM.thy ===== *)
theory PEM
  imports Base64 RSA
begin

text \<open>
  The printable encoding of \<^verbatim>\<open>HBase/RSAEuro/r_encode.c\<close> (RFC 1113).  The block to encode is the memory
  from its first byte on, and its length an argument of its own: the last group looks at one or two bytes
  behind the block, whatever they are.
\<close>

definition RE_ENCODING :: int where "RE_ENCODING = 0x403"

definition PAD :: u8 where "PAD = 0x3D"

definition bintoasc :: bytes where
  "bintoasc = map word_of_nat ([65..<91] @ [97..<123] @ [48..<58] @ [43, 47])"

definition asctobin :: bytes where
  "asctobin = [
     0x80, 0x80, 0x80, 0x80, 0x80, 0x80, 0x80, 0x80, 0x80, 0x80, 0x80, 0x80, 0x80, 0x80, 0x80, 0x80,
     0x80, 0x80, 0x80, 0x80, 0x80, 0x80, 0x80, 0x80, 0x80, 0x80, 0x80, 0x80, 0x80, 0x80, 0x80, 0x80,
     0x80, 0x80, 0x80, 0x80, 0x80, 0x80, 0x80, 0x80, 0x80, 0x80, 0x80, 62, 0x80, 0x80, 0x80, 63,
     52, 53, 54, 55, 56, 57, 58, 59, 60, 61, 0x80, 0x80, 0x80, 0x80, 0x80, 0x80,
     0x80, 0, 1, 2, 3, 4, 5, 6, 7, 8, 9, 10, 11, 12, 13, 14,
     15, 16, 17, 18, 19, 20, 21, 22, 23, 24, 25, 0x80, 0x80, 0x80, 0x80, 0x80,
     0x80, 26, 27, 28, 29, 30, 31, 32, 33, 34, 35, 36, 37, 38, 39, 40,
     41, 42, 43, 44, 45, 46, 47, 48, 49, 50, 51, 0x80, 0x80, 0x80, 0x80, 0x80]"

definition ENC :: "u8 \<Rightarrow> u8" where
  "ENC c = bintoasc ! unat (c AND 0x3F)"

section \<open>Encoding\<close>

definition encode :: "bytes \<Rightarrow> nat \<Rightarrow> nat \<Rightarrow> bytes" where
  "encode p i count =
     (let c1 = drop_bit 2 (p ! i);
          c2 = push_bit 4 (p ! i) AND 0x30 OR drop_bit 4 (p ! (i + 1)) AND 0x0F;
          c3 = push_bit 2 (p ! (i + 1)) AND 0x3C OR drop_bit 6 (p ! (i + 2)) AND 0x03;
          c4 = p ! (i + 2) AND 0x3F
      in [ENC c1, ENC c2] @
         (if count = 1 then [PAD, PAD] else [ENC c3] @ (if count = 2 then [PAD] else [ENC c4])))"

text \<open>
  The loop: \<^verbatim>\<open>lastLen\<close> wraps below zero after the last group, and the index \<open>4*i/3\<close> is
  computed in 32 bits.
\<close>

function pem_encode :: "bytes \<Rightarrow> nat \<Rightarrow> nat \<Rightarrow> u32 \<Rightarrow> bytes \<Rightarrow> u32 \<Rightarrow> bytes \<times> u32" where
  "pem_encode block blockLen i lastLen out outLen =
     (if i < blockLen then
        let out = mem_write out (unat (4 * word_of_nat i :: u32) div 3)
                    (encode block i (if lastLen \<ge> 3 then 3 else unat lastLen))
        in pem_encode block blockLen (i + 3) (lastLen - 3) out (outLen + 4)
      else (out, outLen))"
  by pat_completeness auto
termination by (relation "measure (\<lambda>(_, n, i, _). n - i)") auto

declare pem_encode.simps [simp del]

text \<open>The characters in the output buffer, and \<^verbatim>\<open>*encodedBlockLen\<close>.\<close>

definition R_EncodePEMBlock :: "bytes \<Rightarrow> nat \<Rightarrow> bytes \<times> u32" where
  "R_EncodePEMBlock block blockLen =
     (if blockLen < 1 then ([], 0) else pem_encode block blockLen 0 (word_of_nat blockLen) [] 0)"

section \<open>Decoding\<close>

definition pem_value :: "u8 \<Rightarrow> u8 option" where
  "pem_value b =
     (if b AND 0x80 \<noteq> 0 then None
      else let c = asctobin ! unat b in if c AND 0x80 \<noteq> 0 then None else Some c)"

text \<open>Four characters: the three bytes they write, and by how much they lengthen the block.\<close>

definition pem_group :: "u8 \<Rightarrow> u8 \<Rightarrow> u8 \<Rightarrow> u8 \<Rightarrow> (bytes \<times> nat) option" where
  "pem_group b1 b2 b3 b4 = do {
     c1 \<leftarrow> pem_value b1;
     c2 \<leftarrow> pem_value b2;
     (c3, c4, n) \<leftarrow>
       (if b3 = PAD then (if b4 \<noteq> PAD then None else Some (0, 0, 1))
        else do {
          c3 \<leftarrow> pem_value b3;
          if b4 = PAD then Some (c3, 0, 2)
          else do { c4 \<leftarrow> pem_value b4; Some (c3, c4, 3) }
        });
     Some ([push_bit 2 c1 OR drop_bit 4 c2, push_bit 4 c2 OR drop_bit 2 c3, push_bit 6 c3 OR c4], n)
   }"

fun pem_decode :: "bytes \<Rightarrow> bytes \<Rightarrow> nat \<Rightarrow> int + bytes \<times> nat" where
  "pem_decode (b1 # b2 # b3 # b4 # bp) out len =
     (case pem_group b1 b2 b3 b4 of
        None \<Rightarrow> Inl RE_ENCODING
      | Some (bs, n) \<Rightarrow> pem_decode bp (out @ bs) (len + n))"
| "pem_decode bp out len = Inr (out, len)"

text \<open>All that is written to the output buffer, and \<^verbatim>\<open>*outlength\<close>.\<close>

definition R_DecodePEMBlock :: "bytes \<Rightarrow> int + bytes \<times> nat" where
  "R_DecodePEMBlock inbuf =
     (if length inbuf mod 4 \<noteq> 0 then Inl RE_ENCODING
      else if length inbuf < 1 then Inr ([], 0)
      else pem_decode inbuf [] 0)"


section \<open>Decoding inverts encoding\<close>

lemma pem_value_ENC: "pem_value (ENC c) = Some (c AND 0x3F)" "ENC c \<noteq> PAD"
proof -
  have "list_all (\<lambda>i. pem_value (bintoasc ! i) = Some (word_of_nat i) \<and> bintoasc ! i \<noteq> PAD) [0..<64]"
    by code_simp
  then have a: "i < 64 \<Longrightarrow> pem_value (bintoasc ! i) = Some (word_of_nat i) \<and> bintoasc ! i \<noteq> PAD" for i
    unfolding list_all_iff set_upt by simp
  have "c AND 0x3F = take_bit 6 c" by (simp add: take_bit_eq_mask mask_eq_exp_minus_1)
  then have "unat (c AND 0x3F) < 64"
    by (simp only: unsigned_take_bit_eq) (simp add: take_bit_eq_mod)
  from a [OF this] show "pem_value (ENC c) = Some (c AND 0x3F)" "ENC c \<noteq> PAD"
    by (simp_all add: ENC_def)
qed

lemma pem_bits:
  fixes a b c :: u8
  defines "c1 \<equiv> drop_bit 2 a" and "c2 \<equiv> push_bit 4 a AND 0x30 OR drop_bit 4 b AND 0x0F"
    and "c3 \<equiv> push_bit 2 b AND 0x3C OR drop_bit 6 c AND 0x03" and "c4 \<equiv> c AND 0x3F"
  shows "push_bit 2 (c1 AND 0x3F) OR drop_bit 4 (c2 AND 0x3F) = a"
    "push_bit 4 (c2 AND 0x3F) OR drop_bit 2 (c3 AND 0x3F) = b"
    "push_bit 6 (c3 AND 0x3F) OR (c4 AND 0x3F) = c"
proof -
  have m: "(0x3F :: u8) = mask 6" "(0x30 :: u8) = push_bit 4 (mask 2)" "(0x0F :: u8) = mask 4"
    "(0x3C :: u8) = push_bit 2 (mask 4)" "(0x03 :: u8) = mask 2" 
    by (simp_all add: mask_eq_exp_minus_1 push_bit_eq_mult)
  have le: "bit w n \<Longrightarrow> n < 8" for w :: u8 and n by (drule bit_imp_le_length) simp
  have s: "\<not> n < 2 \<Longrightarrow> Suc (Suc (n - 2)) = n" for n by simp
  show "push_bit 2 (c1 AND 0x3F) OR drop_bit 4 (c2 AND 0x3F) = a"
    unfolding c1_def c2_def m
  proof (rule bit_eqI)
    fix n show "bit (push_bit 2 (drop_bit 2 a AND mask 6) OR
      drop_bit 4 ((push_bit 4 a AND push_bit 4 (mask 2) OR drop_bit 4 b AND mask 4) AND mask 6)) n = bit a n"
      by (cases "n < 2") (auto simp: bit_simps s dest: le)
  qed
  have s4: "\<not> n < 4 \<Longrightarrow> 4 + (n - 4) = n" "\<not> n < 4 \<Longrightarrow> Suc (Suc (Suc (Suc (n - 4)))) = n" for n by simp_all
  show "push_bit 4 (c2 AND 0x3F) OR drop_bit 2 (c3 AND 0x3F) = b"
    unfolding c3_def c2_def m
  proof (rule bit_eqI)
    fix n show "bit (push_bit 4 ((push_bit 4 a AND push_bit 4 (mask 2) OR drop_bit 4 b AND mask 4) AND mask 6) OR
      drop_bit 2 ((push_bit 2 b AND push_bit 2 (mask 4) OR drop_bit 6 c AND mask 2) AND mask 6)) n = bit b n"
      by (cases "n < 4") (auto simp: bit_simps s4 dest: le)
  qed
  have s6: "\<not> n < 6 \<Longrightarrow> 6 + (n - 6) = n" for n :: nat by simp
  show "push_bit 6 (c3 AND 0x3F) OR (c4 AND 0x3F) = c"
    unfolding c3_def c4_def m
  proof (rule bit_eqI)
    fix n show "bit (push_bit 6 ((push_bit 2 b AND push_bit 2 (mask 4) OR drop_bit 6 c AND mask 2) AND mask 6) OR
      (c AND mask 6) AND mask 6) n = bit c n"
      by (cases "n < 6") (auto simp: bit_simps s6 dest: le)
  qed
qed

lemma pem_group_ENC:
  "pem_group (ENC c1) (ENC c2) PAD PAD =
     Some ([push_bit 2 (c1 AND 0x3F) OR drop_bit 4 (c2 AND 0x3F), push_bit 4 (c2 AND 0x3F) OR drop_bit 2 0, push_bit 6 0 OR 0], 1)"
  "pem_group (ENC c1) (ENC c2) (ENC c3) PAD =
     Some ([push_bit 2 (c1 AND 0x3F) OR drop_bit 4 (c2 AND 0x3F), push_bit 4 (c2 AND 0x3F) OR drop_bit 2 (c3 AND 0x3F),
            push_bit 6 (c3 AND 0x3F) OR 0], 2)"
  "pem_group (ENC c1) (ENC c2) (ENC c3) (ENC c4) =
     Some ([push_bit 2 (c1 AND 0x3F) OR drop_bit 4 (c2 AND 0x3F), push_bit 4 (c2 AND 0x3F) OR drop_bit 2 (c3 AND 0x3F),
            push_bit 6 (c3 AND 0x3F) OR (c4 AND 0x3F)], 3)"
  by (simp_all add: pem_group_def pem_value_ENC)

lemma encode_ENC:
  fixes p i
  defines "c1 \<equiv> drop_bit 2 (p ! i)" and "c2 \<equiv> push_bit 4 (p ! i) AND 0x30 OR drop_bit 4 (p ! (i + 1)) AND 0x0F"
    and "c3 \<equiv> push_bit 2 (p ! (i + 1)) AND 0x3C OR drop_bit 6 (p ! (i + 2)) AND 0x03" and "c4 \<equiv> p ! (i + 2) AND 0x3F"
  shows "encode p i 1 = [ENC c1, ENC c2, PAD, PAD]" "encode p i 2 = [ENC c1, ENC c2, ENC c3, PAD]"
    "encode p i 3 = [ENC c1, ENC c2, ENC c3, ENC c4]"
  by (simp_all add: encode_def Let_def c1_def c2_def c3_def c4_def)

text \<open>A group, decoded: the bytes that count come first.\<close>

lemma pem_group_encode:
  assumes "1 \<le> n" "n \<le> 3"
  shows "\<exists>b1 b2 b3 b4 bs. encode p i n = [b1, b2, b3, b4] \<and> pem_group b1 b2 b3 b4 = Some (bs, n) \<and>
           length bs = 3 \<and> take n bs = take n [p ! i, p ! (i + 1), p ! (i + 2)]"
proof -
  note b = pem_bits(1) [where a = "p ! i" and b = "p ! (i + 1)"]
    pem_bits(2) [where a = "p ! i" and b = "p ! (i + 1)" and c = "p ! (i + 2)"]
    pem_bits(3) [where b = "p ! (i + 1)" and c = "p ! (i + 2)"]
  consider "n = 1" | "n = 2" | "n = 3" using assms by linarith
  then show ?thesis
    by cases (hypsubst, unfold encode_ENC, intro exI conjI, rule refl, rule pem_group_ENC, simp, unfold b, simp)+
qed



text \<open>The characters of a block, without the buffer.\<close>

function pem_chars :: "bytes \<Rightarrow> nat \<Rightarrow> nat \<Rightarrow> bytes" where
  "pem_chars p i n = (if i < n then encode p i (min 3 (n - i)) @ pem_chars p (i + 3) n else [])"
  by pat_completeness auto
termination by (relation "measure (\<lambda>(_, i, n). n - i)") auto

declare pem_chars.simps [simp del]

lemma length_encode [simp]: "length (encode p i n) = 4"
  by (simp add: encode_def Let_def)

lemma length_pem_chars: "length (pem_chars p i n) = 4 * ((n - i + 2) div 3)"
proof (induction p i n rule: pem_chars.induct)
  case (1 p i n)
  show ?case
  proof (cases "i < n")
    case True
    then have "(n - i + 2) div 3 = (n - (i + 3) + 2) div 3 + 1" by presburger
    then show ?thesis using 1 True by (subst pem_chars.simps) simp
  qed (simp add: pem_chars.simps)
qed

lemma pem_encode_chars:
  assumes "n < 2 ^ 30" "3 dvd i" "length out = 4 * (i div 3)" "i < n \<longrightarrow> lastLen = word_of_nat (n - i)"
  shows "pem_encode p n i lastLen out outLen = (out @ pem_chars p i n, outLen + word_of_nat (length (pem_chars p i n)))"
  using assms
proof (induction p n i lastLen out outLen rule: pem_encode.induct)
  case (1 p n i lastLen out outLen)
  show ?case
  proof (cases "i < n")
    case True
    have "n - i < 2 ^ 32" using 1(2) by simp
    then have "unat (word_of_nat (n - i) :: u32) = n - i"
      by (simp only: unsigned_of_nat) (simp add: take_bit_nat_eq_self)
    then have last: "unat lastLen = n - i" using 1(5) True by simp
    then have count: "(if lastLen \<ge> 3 then 3 else unat lastLen) = min 3 (n - i)"
      by (simp add: word_le_nat_alt)
    have "unat (4 * word_of_nat i :: u32) = 4 * i"
      using 1(2) True by (simp add: unat_word_ariths unsigned_of_nat take_bit_nat_eq_self)
    then have off: "unat (4 * word_of_nat i :: u32) div 3 = length out"
      using 1(3,4) by auto
    have "i + 3 < n \<longrightarrow> lastLen - 3 = word_of_nat (n - (i + 3))"
    proof
      assume "i + 3 < n"
      moreover have "lastLen = word_of_nat (n - i)" using 1(5) True by simp
      ultimately show "lastLen - 3 = word_of_nat (n - (i + 3))" by (simp add: of_nat_diff)
    qed
    then have "pem_encode p n (i + 3) (lastLen - 3) (out @ encode p i (min 3 (n - i))) (outLen + 4) =
      ((out @ encode p i (min 3 (n - i))) @ pem_chars p (i + 3) n, (outLen + 4) + word_of_nat (length (pem_chars p (i + 3) n)))"
      using 1(1) [OF True refl] 1(2-4) by (simp add: off count mem_write_def)
    then show ?thesis using True
      by (subst pem_encode.simps, subst (1 2) pem_chars.simps) (simp add: Let_def off count mem_write_def)
  next
    case False
    then show ?thesis by (simp add: pem_encode.simps pem_chars.simps)
  qed
qed

lemma take3_block:
  assumes "n \<le> length p" "m \<le> 3" "i + m \<le> n"
  shows "take m [p ! i, p ! (i + 1), p ! (i + 2)] = take m (drop i p)"
proof (rule nth_equalityI)
  show "length (take m [p ! i, p ! (i + 1), p ! (i + 2)]) = length (take m (drop i p))"
    using assms by simp
  fix k assume "k < length (take m [p ! i, p ! (i + 1), p ! (i + 2)])"
  then have "k < m" "k < 3" by simp_all
  then have "k = 0 \<or> k = 1 \<or> k = 2" by linarith
  then show "take m [p ! i, p ! (i + 1), p ! (i + 2)] ! k = take m (drop i p) ! k"
    using assms \<open>k < m\<close> by auto
qed

lemma pem_decode_chars:
  assumes "n \<le> length p"
  shows "\<exists>w. pem_decode (pem_chars p i n) out len = Inr (out @ w, len + (n - i)) \<and>
           length w = 3 * ((n - i + 2) div 3) \<and> take (n - i) w = take (n - i) (drop i p)"
  using assms
proof (induction p i n arbitrary: out len rule: pem_chars.induct)
  case (1 p i n)
  show ?case
  proof (cases "i < n")
    case False
    then show ?thesis by (simp add: pem_chars.simps)
  next
    case True
    define m where "m = min 3 (n - i)"
    have m: "1 \<le> m" "m \<le> 3" "i + m \<le> n" using True by (auto simp: m_def)
    obtain b1 b2 b3 b4 bs where b: "encode p i m = [b1, b2, b3, b4]" "pem_group b1 b2 b3 b4 = Some (bs, m)"
      "length bs = 3" "take m bs = take m [p ! i, p ! (i + 1), p ! (i + 2)]"
      using pem_group_encode [OF m(1,2), of p i] by blast
    obtain w where w: "pem_decode (pem_chars p (i + 3) n) (out @ bs) (len + m) = Inr ((out @ bs) @ w, len + m + (n - (i + 3)))"
      "length w = 3 * ((n - (i + 3) + 2) div 3)" "take (n - (i + 3)) w = take (n - (i + 3)) (drop (i + 3) p)"
      using 1(1) [OF True 1(2)] by blast
    have len: "m + (n - (i + 3)) = n - i" using True by (auto simp: m_def)
    have "pem_decode (pem_chars p i n) out len = Inr (out @ (bs @ w), len + (n - i))"
      using True w(1) by (subst pem_chars.simps) (simp add: m_def [symmetric] b(1,2) len add.assoc)
    moreover have "length (bs @ w) = 3 * ((n - i + 2) div 3)"
    proof -
      have "(n - i + 2) div 3 = (n - (i + 3) + 2) div 3 + 1" using True by presburger
      then show ?thesis using w(2) b(3) by simp
    qed
    moreover have "take (n - i) (bs @ w) = take (n - i) (drop i p)"
    proof -
      note t = take3_block [OF 1(2) m(2,3)]
      have "take (n - i) (bs @ w) = take m bs @ take (n - (i + 3)) w"
        using b(3) by (auto simp: m_def min_def)
      also have "\<dots> = take m (drop i p) @ take (n - (i + 3)) (drop (i + 3) p)"
        by (simp only: b(4) t w(3))
      also have "\<dots> = take (m + (n - (i + 3))) (drop i p)"
      proof (cases "3 \<le> n - i")
        case True
        then have "m = 3" by (simp add: m_def)
        then show ?thesis by (simp only: take_add drop_drop add.commute [of i])
      qed (simp add: m_def min_def)
      finally show ?thesis by (simp only: len)
    qed
    ultimately show ?thesis by blast
  qed
qed

lemma pem_roundtrip:
  assumes "n \<le> length p" "n < 2 ^ 30"
  defines "cs \<equiv> pem_chars p 0 n"
  shows "R_EncodePEMBlock p n = (cs, word_of_nat (length cs))" "length cs = 4 * ((n + 2) div 3)"
    "\<exists>w. R_DecodePEMBlock cs = Inr (w, n) \<and> length w = 3 * ((n + 2) div 3) \<and> take n w = take n p"
proof -
  show "R_EncodePEMBlock p n = (cs, word_of_nat (length cs))"
  proof (cases "n = 0")
    case True
    then show ?thesis by (simp add: R_EncodePEMBlock_def cs_def pem_chars.simps [of _ 0 0])
  next
    case False
    have "pem_encode p n 0 (word_of_nat n) [] 0 = ([] @ cs, 0 + word_of_nat (length cs))"
      unfolding cs_def by (rule pem_encode_chars [OF assms(2)]) simp_all
    then show ?thesis using False by (simp add: R_EncodePEMBlock_def)
  qed
  show l: "length cs = 4 * ((n + 2) div 3)" by (simp add: cs_def length_pem_chars)
  obtain w where w: "pem_decode cs [] 0 = Inr ([] @ w, 0 + (n - 0))" "length w = 3 * ((n - 0 + 2) div 3)"
      "take (n - 0) w = take (n - 0) (drop 0 p)"
    using pem_decode_chars [OF assms(1), of 0 "[]" 0] unfolding cs_def by blast
  have "R_DecodePEMBlock cs = Inr (w, n)"
  proof (cases "cs = []")
    case True
    then show ?thesis using w by (simp add: R_DecodePEMBlock_def)
  next
    case False
    then have "\<not> length cs < 1" by (simp add: Suc_le_eq)
    moreover have "length cs mod 4 = 0" by (simp add: l)
    ultimately show ?thesis using w(1) by (simp add: R_DecodePEMBlock_def)
  qed
  with w(2,3) show "\<exists>w. R_DecodePEMBlock cs = Inr (w, n) \<and> length w = 3 * ((n + 2) div 3) \<and> take n w = take n p"
    by simp
qed

section \<open>The encoding is that of \<^verbatim>\<open>Base64.cpp\<close>\<close>

lemma bintoasc_chars: "bintoasc = base64_chars"
  by (simp only: bintoasc_def base64_chars_def)

lemma b64_split_masks:
  "map ENC [drop_bit 2 a, push_bit 4 a AND 0x30 OR drop_bit 4 b AND 0x0F, push_bit 2 b AND 0x3C OR drop_bit 6 c AND 0x03, c AND 0x3F] =
   map b64_char (b64_split a b c)"
proof -
  have m: "(0x3F :: u8) = mask 6" "(0x30 :: u8) = push_bit 4 (mask 2)" "(0x0F :: u8) = mask 4"
    "(0x3C :: u8) = push_bit 2 (mask 4)" "(0x03 :: u8) = mask 2" "(0xfc :: u8) = push_bit 2 (mask 6)"
    "(0xf0 :: u8) = push_bit 4 (mask 4)" "(0xc0 :: u8) = push_bit 6 (mask 2)"
    by (simp_all add: mask_eq_exp_minus_1 push_bit_eq_mult)
  have le: "bit w n \<Longrightarrow> n < 8" for w :: u8 and n by (drule bit_imp_le_length) simp
  have p1: "push_bit 4 (a AND mask 2) + drop_bit 4 (b AND push_bit 4 (mask 4)) = push_bit 4 (a AND mask 2) OR drop_bit 4 (b AND push_bit 4 (mask 4))"
    by (rule disjunctive_add) (auto simp: bit_simps)
  have p2: "push_bit 2 (b AND mask 4) + drop_bit 6 (c AND push_bit 6 (mask 2)) = push_bit 2 (b AND mask 4) OR drop_bit 6 (c AND push_bit 6 (mask 2))"
    by (rule disjunctive_add) (auto simp: bit_simps)
  have e: "drop_bit 2 a AND mask 6 = drop_bit 2 (a AND push_bit 2 (mask 6))"
    "(push_bit 4 a AND push_bit 4 (mask 2) OR drop_bit 4 b AND mask 4) AND mask 6 = push_bit 4 (a AND mask 2) OR drop_bit 4 (b AND push_bit 4 (mask 4))"
    "(push_bit 2 b AND push_bit 2 (mask 4) OR drop_bit 6 c AND mask 2) AND mask 6 = push_bit 2 (b AND mask 4) OR drop_bit 6 (c AND push_bit 6 (mask 2))"
    "(c AND mask 6) AND mask 6 = c AND mask 6"
    by (rule bit_eqI, auto simp: bit_simps dest: le)+
  show ?thesis unfolding b64_split_def m p1 p2 list.map ENC_def b64_char_def e bintoasc_chars ..
qed

lemma encode_base64:
  fixes p i
  defines "a \<equiv> p ! i" and "b \<equiv> p ! (i + 1)" and "c \<equiv> p ! (i + 2)"
  shows "encode p i 1 = map b64_char (take 2 (b64_split a b c)) @ [0x3D, 0x3D]"
    "encode p i 2 = map b64_char (take 3 (b64_split a b c)) @ [0x3D]"
    "encode p i 3 = map b64_char (b64_split a b c)"
proof -
  note s = b64_split_masks [of "p ! i" "p ! (i + 1)" "p ! (i + 2)", symmetric]
  have t: "map b64_char (take k xs) = take k (map b64_char xs)" for k xs
    by (rule take_map [symmetric])
  show "encode p i 1 = map b64_char (take 2 (b64_split a b c)) @ [0x3D, 0x3D]"
    "encode p i 2 = map b64_char (take 3 (b64_split a b c)) @ [0x3D]"
    "encode p i 3 = map b64_char (b64_split a b c)"
    unfolding a_def b_def c_def unfolding t s encode_ENC by (simp_all add: PAD_def)
qed

lemma drop_nth3:
  assumes "drop i p = a # b # c # xs"
  shows "p ! i = a" "p ! (i + 1) = b" "p ! (i + 2) = c"
proof -
  have l: "i + 2 < length p" using arg_cong [OF assms, of length] by (simp add: less_diff_conv)
  then have "drop i p ! 0 = p ! i" "drop i p ! 1 = p ! (i + 1)" "drop i p ! 2 = p ! (i + 2)" by simp_all
  then show "p ! i = a" "p ! (i + 1) = b" "p ! (i + 2) = c" by (simp_all add: assms)
qed

lemma pem_chars_base64:
  "drop i p = xs @ [0, 0] \<Longrightarrow> n = i + length xs \<Longrightarrow> pem_chars p i n = H_B64Encode xs"
proof (induction xs arbitrary: i rule: H_B64Encode.induct)
  case (1 a b c xs)
  have "drop (i + 3) p = xs @ [0, 0]"
    using arg_cong [OF 1(2), of "drop 3"] by (simp add: add.commute)
  from 1(1) [OF this] 1(3) have r: "pem_chars p (i + 3) n = H_B64Encode xs" by simp
  have "p ! i = a" "p ! (i + 1) = b" "p ! (i + 2) = c"
    using drop_nth3 [of i p] 1(2) by simp_all
  moreover have "i < n" "min 3 (n - i) = 3" using 1(3) by auto
  ultimately show ?case by (subst pem_chars.simps) (simp only: r encode_base64 if_True H_B64Encode.simps)
next
  case 2
  then show ?case by (simp add: pem_chars.simps)
next
  case (3 a)
  have "p ! i = a" "p ! (i + 1) = 0" "p ! (i + 2) = 0"
    using drop_nth3 [of i p] 3(1) by simp_all
  moreover have "i < n" "min 3 (n - i) = 1" "pem_chars p (i + 3) n = []" using 3(2) by (auto simp: pem_chars.simps)
  ultimately show ?case by (subst pem_chars.simps) (simp only: encode_base64 if_True H_B64Encode.simps append_Nil2)
next
  case (4 a b)
  have "p ! i = a" "p ! (i + 1) = b" "p ! (i + 2) = 0"
    using drop_nth3 [of i p] 4(1) by simp_all
  moreover have "i < n" "min 3 (n - i) = 2" "pem_chars p (i + 3) n = []" using 4(2) by (auto simp: pem_chars.simps)
  ultimately show ?case by (subst pem_chars.simps) (simp only: encode_base64 if_True H_B64Encode.simps append_Nil2)
qed

end
