(* ===== verification/DES.thy ===== *)
theory DES
  imports Prelude
begin

text \<open>
  The Data Encryption Standard of \<^verbatim>\<open>HBase/RSAEuro/desc.c\<close>: the key schedule, the block function and the
  chained modes of DES, DESX and triple DES.

  A block is its two \<^verbatim>\<open>UINT4\<close>.  The block function computes in variables of type
  \<^verbatim>\<open>unsigned long\<close>, which have 32 bits with some compilers and 64 with others: their width is the type
  argument of \<open>desfunc\<close>, and the modes take the block function as an argument.
\<close>

type_synonym des_block = "u32 \<times> u32"

section \<open>Tables\<close>

definition bytebit :: "u8 list" where
  "bytebit = [0x80, 0x40, 0x20, 0x10, 8, 4, 2, 1]"

definition bigbyte :: "u32 list" where
  "bigbyte = [0x800000, 0x400000, 0x200000, 0x100000, 0x80000, 0x40000, 0x20000, 0x10000,
     0x8000, 0x4000, 0x2000, 0x1000, 0x800, 0x400, 0x200, 0x100, 0x80, 0x40, 0x20, 0x10, 8, 4, 2, 1]"

definition totrot :: "nat list" where
  "totrot = [1, 2, 4, 6, 8, 10, 12, 14, 15, 17, 19, 21, 23, 25, 27, 28]"

definition pc1 :: "nat list" where
  "pc1 = [56, 48, 40, 32, 24, 16, 8, 0, 57, 49, 41, 33, 25, 17, 9, 1, 58, 50, 42, 34, 26, 18, 10, 2, 59, 51, 43, 35,
     62, 54, 46, 38, 30, 22, 14, 6, 61, 53, 45, 37, 29, 21, 13, 5, 60, 52, 44, 36, 28, 20, 12, 4, 27, 19, 11, 3]"

definition pc2 :: "nat list" where
  "pc2 = [13, 16, 10, 23, 0, 4, 2, 27, 14, 5, 20, 9, 22, 18, 11, 3, 25, 7, 15, 6, 26, 19, 12, 1,
     40, 51, 30, 36, 46, 54, 29, 39, 50, 44, 32, 47, 43, 48, 38, 55, 33, 52, 45, 41, 49, 35, 28, 31]"

definition Spbox :: "u32 list list" where
  "Spbox = [
     [0x01010400, 0x00000000, 0x00010000, 0x01010404, 0x01010004, 0x00010404, 0x00000004, 0x00010000,
      0x00000400, 0x01010400, 0x01010404, 0x00000400, 0x01000404, 0x01010004, 0x01000000, 0x00000004,
      0x00000404, 0x01000400, 0x01000400, 0x00010400, 0x00010400, 0x01010000, 0x01010000, 0x01000404,
      0x00010004, 0x01000004, 0x01000004, 0x00010004, 0x00000000, 0x00000404, 0x00010404, 0x01000000,
      0x00010000, 0x01010404, 0x00000004, 0x01010000, 0x01010400, 0x01000000, 0x01000000, 0x00000400,
      0x01010004, 0x00010000, 0x00010400, 0x01000004, 0x00000400, 0x00000004, 0x01000404, 0x00010404,
      0x01010404, 0x00010004, 0x01010000, 0x01000404, 0x01000004, 0x00000404, 0x00010404, 0x01010400,
      0x00000404, 0x01000400, 0x01000400, 0x00000000, 0x00010004, 0x00010400, 0x00000000, 0x01010004],
     [0x80108020, 0x80008000, 0x00008000, 0x00108020, 0x00100000, 0x00000020, 0x80100020, 0x80008020,
      0x80000020, 0x80108020, 0x80108000, 0x80000000, 0x80008000, 0x00100000, 0x00000020, 0x80100020,
      0x00108000, 0x00100020, 0x80008020, 0x00000000, 0x80000000, 0x00008000, 0x00108020, 0x80100000,
      0x00100020, 0x80000020, 0x00000000, 0x00108000, 0x00008020, 0x80108000, 0x80100000, 0x00008020,
      0x00000000, 0x00108020, 0x80100020, 0x00100000, 0x80008020, 0x80100000, 0x80108000, 0x00008000,
      0x80100000, 0x80008000, 0x00000020, 0x80108020, 0x00108020, 0x00000020, 0x00008000, 0x80000000,
      0x00008020, 0x80108000, 0x00100000, 0x80000020, 0x00100020, 0x80008020, 0x80000020, 0x00100020,
      0x00108000, 0x00000000, 0x80008000, 0x00008020, 0x80000000, 0x80100020, 0x80108020, 0x00108000],
     [0x00000208, 0x08020200, 0x00000000, 0x08020008, 0x08000200, 0x00000000, 0x00020208, 0x08000200,
      0x00020008, 0x08000008, 0x08000008, 0x00020000, 0x08020208, 0x00020008, 0x08020000, 0x00000208,
      0x08000000, 0x00000008, 0x08020200, 0x00000200, 0x00020200, 0x08020000, 0x08020008, 0x00020208,
      0x08000208, 0x00020200, 0x00020000, 0x08000208, 0x00000008, 0x08020208, 0x00000200, 0x08000000,
      0x08020200, 0x08000000, 0x00020008, 0x00000208, 0x00020000, 0x08020200, 0x08000200, 0x00000000,
      0x00000200, 0x00020008, 0x08020208, 0x08000200, 0x08000008, 0x00000200, 0x00000000, 0x08020008,
      0x08000208, 0x00020000, 0x08000000, 0x08020208, 0x00000008, 0x00020208, 0x00020200, 0x08000008,
      0x08020000, 0x08000208, 0x00000208, 0x08020000, 0x00020208, 0x00000008, 0x08020008, 0x00020200],
     [0x00802001, 0x00002081, 0x00002081, 0x00000080, 0x00802080, 0x00800081, 0x00800001, 0x00002001,
      0x00000000, 0x00802000, 0x00802000, 0x00802081, 0x00000081, 0x00000000, 0x00800080, 0x00800001,
      0x00000001, 0x00002000, 0x00800000, 0x00802001, 0x00000080, 0x00800000, 0x00002001, 0x00002080,
      0x00800081, 0x00000001, 0x00002080, 0x00800080, 0x00002000, 0x00802080, 0x00802081, 0x00000081,
      0x00800080, 0x00800001, 0x00802000, 0x00802081, 0x00000081, 0x00000000, 0x00000000, 0x00802000,
      0x00002080, 0x00800080, 0x00800081, 0x00000001, 0x00802001, 0x00002081, 0x00002081, 0x00000080,
      0x00802081, 0x00000081, 0x00000001, 0x00002000, 0x00800001, 0x00002001, 0x00802080, 0x00800081,
      0x00002001, 0x00002080, 0x00800000, 0x00802001, 0x00000080, 0x00800000, 0x00002000, 0x00802080],
     [0x00000100, 0x02080100, 0x02080000, 0x42000100, 0x00080000, 0x00000100, 0x40000000, 0x02080000,
      0x40080100, 0x00080000, 0x02000100, 0x40080100, 0x42000100, 0x42080000, 0x00080100, 0x40000000,
      0x02000000, 0x40080000, 0x40080000, 0x00000000, 0x40000100, 0x42080100, 0x42080100, 0x02000100,
      0x42080000, 0x40000100, 0x00000000, 0x42000000, 0x02080100, 0x02000000, 0x42000000, 0x00080100,
      0x00080000, 0x42000100, 0x00000100, 0x02000000, 0x40000000, 0x02080000, 0x42000100, 0x40080100,
      0x02000100, 0x40000000, 0x42080000, 0x02080100, 0x40080100, 0x00000100, 0x02000000, 0x42080000,
      0x42080100, 0x00080100, 0x42000000, 0x42080100, 0x02080000, 0x00000000, 0x40080000, 0x42000000,
      0x00080100, 0x02000100, 0x40000100, 0x00080000, 0x00000000, 0x40080000, 0x02080100, 0x40000100],
     [0x20000010, 0x20400000, 0x00004000, 0x20404010, 0x20400000, 0x00000010, 0x20404010, 0x00400000,
      0x20004000, 0x00404010, 0x00400000, 0x20000010, 0x00400010, 0x20004000, 0x20000000, 0x00004010,
      0x00000000, 0x00400010, 0x20004010, 0x00004000, 0x00404000, 0x20004010, 0x00000010, 0x20400010,
      0x20400010, 0x00000000, 0x00404010, 0x20404000, 0x00004010, 0x00404000, 0x20404000, 0x20000000,
      0x20004000, 0x00000010, 0x20400010, 0x00404000, 0x20404010, 0x00400000, 0x00004010, 0x20000010,
      0x00400000, 0x20004000, 0x20000000, 0x00004010, 0x20000010, 0x20404010, 0x00404000, 0x20400000,
      0x00404010, 0x20404000, 0x00000000, 0x20400010, 0x00000010, 0x00004000, 0x20400000, 0x00404010,
      0x00004000, 0x00400010, 0x20004010, 0x00000000, 0x20404000, 0x20000000, 0x00400010, 0x20004010],
     [0x00200000, 0x04200002, 0x04000802, 0x00000000, 0x00000800, 0x04000802, 0x00200802, 0x04200800,
      0x04200802, 0x00200000, 0x00000000, 0x04000002, 0x00000002, 0x04000000, 0x04200002, 0x00000802,
      0x04000800, 0x00200802, 0x00200002, 0x04000800, 0x04000002, 0x04200000, 0x04200800, 0x00200002,
      0x04200000, 0x00000800, 0x00000802, 0x04200802, 0x00200800, 0x00000002, 0x04000000, 0x00200800,
      0x04000000, 0x00200800, 0x00200000, 0x04000802, 0x04000802, 0x04200002, 0x04200002, 0x00000002,
      0x00200002, 0x04000000, 0x04000800, 0x00200000, 0x04200800, 0x00000802, 0x00200802, 0x04200800,
      0x00000802, 0x04000002, 0x04200802, 0x04200000, 0x00200800, 0x00000000, 0x00000002, 0x04200802,
      0x00000000, 0x00200802, 0x04200000, 0x00000800, 0x04000002, 0x04000800, 0x00000800, 0x00200002],
     [0x10001040, 0x00001000, 0x00040000, 0x10041040, 0x10000000, 0x10001040, 0x00000040, 0x10000000,
      0x00040040, 0x10040000, 0x10041040, 0x00041000, 0x10041000, 0x00041040, 0x00001000, 0x00000040,
      0x10040000, 0x10000040, 0x10001000, 0x00001040, 0x00041000, 0x00040040, 0x10040040, 0x10041000,
      0x00001040, 0x00000000, 0x00000000, 0x10040040, 0x10000040, 0x10001000, 0x00041040, 0x00040000,
      0x00041040, 0x00040000, 0x10041000, 0x00001000, 0x00000040, 0x10040040, 0x00001000, 0x00041040,
      0x10001000, 0x00000040, 0x10000040, 0x10040000, 0x10040040, 0x10000000, 0x00040000, 0x10001040,
      0x00000000, 0x10041040, 0x00040040, 0x10000040, 0x10040000, 0x10001000, 0x10001040, 0x00000000,
      0x10041040, 0x00041000, 0x00041000, 0x00001040, 0x00001040, 0x00040040, 0x10000000, 0x10041000]]"

section \<open>Blocks and bytes\<close>

definition scrunch :: "bytes \<Rightarrow> des_block" where
  "scrunch b = (be_word (take 4 b), be_word (take 4 (drop 4 b)))"

definition unscrunch :: "des_block \<Rightarrow> bytes" where
  "unscrunch w = be_bytes 4 (fst w) @ be_bytes 4 (snd w)"

section \<open>The key schedule\<close>

definition des_pc1m :: "bytes \<Rightarrow> bool list" where
  "des_pc1m key = map (\<lambda>l. key ! (l div 8) AND bytebit ! (l mod 8) \<noteq> 0) pc1"

definition des_pcr :: "bool list \<Rightarrow> nat \<Rightarrow> bool list" where
  "des_pcr pc1m i =
     map (\<lambda>j. let l = j + totrot ! i in pc1m ! (if l < 28 then l else l - 28)) [0..<28] @
     map (\<lambda>j. let l = j + totrot ! i in pc1m ! (if l < 56 then l else l - 28)) [28..<56]"

definition des_kn :: "bool list \<Rightarrow> nat \<Rightarrow> u32" where
  "des_kn pcr off = fold (\<lambda>j k. if pcr ! (pc2 ! (j + off)) then k OR bigbyte ! j else k) [0..<24] 0"

definition cook0 :: "u32 \<Rightarrow> u32 \<Rightarrow> u32" where
  "cook0 raw0 raw1 = push_bit 6 (raw0 AND 0x00FC0000) OR push_bit 10 (raw0 AND 0x00000FC0) OR
     drop_bit 10 (raw1 AND 0x00FC0000) OR drop_bit 6 (raw1 AND 0x00000FC0)"

definition cook1 :: "u32 \<Rightarrow> u32 \<Rightarrow> u32" where
  "cook1 raw0 raw1 = push_bit 12 (raw0 AND 0x0003F000) OR push_bit 16 (raw0 AND 0x0000003F) OR
     drop_bit 4 (raw1 AND 0x0003F000) OR (raw1 AND 0x0000003F)"

text \<open>The subkeys go forward into the array to encrypt, and in pairs backward to decrypt.\<close>

definition cookey :: "(u32 \<times> u32) list \<Rightarrow> bool \<Rightarrow> u32 list" where
  "cookey kn encrypt =
     fold (\<lambda>i sub. let p = (if encrypt then 2 * i else 30 - 2 * i); (raw0, raw1) = kn ! i
                    in sub[p := cook0 raw0 raw1, Suc p := cook1 raw0 raw1]) [0..<16] (replicate 32 0)"

definition deskey :: "bytes \<Rightarrow> bool \<Rightarrow> u32 list" where
  "deskey key encrypt =
     (let pc1m = des_pc1m key
      in cookey (map (\<lambda>i. let pcr = des_pcr pc1m i in (des_kn pcr 0, des_kn pcr 24)) [0..<16]) encrypt)"

section \<open>The block function\<close>

definition des_swap :: "nat \<Rightarrow> 'l::len word \<Rightarrow> 'l word \<times> 'l word \<Rightarrow> 'l word \<times> 'l word" where
  "des_swap n m p = (case p of (a, b) \<Rightarrow>
     let work = (drop_bit n a XOR b) AND m in (a XOR push_bit n work, b XOR work))"

definition des_swap0 :: "'l::len word \<times> 'l word \<Rightarrow> 'l word \<times> 'l word" where
  "des_swap0 p = (case p of (left, right) \<Rightarrow>
     let work = (left XOR right) AND 0xAAAAAAAA in (left XOR work, right XOR work))"

definition des_IP :: "'l::len word \<times> 'l word \<Rightarrow> 'l word \<times> 'l word" where
  "des_IP p = (
     let (left, right) = des_swap 4 0x0F0F0F0F p;
         (left, right) = des_swap 16 0xFFFF (left, right);
         (right, left) = des_swap 2 0x33333333 (right, left);
         (right, left) = des_swap 8 0xFF00FF (right, left);
         right = push_bit 1 right OR drop_bit 31 right;
         (left, right) = des_swap0 (left, right);
         left = push_bit 1 left OR drop_bit 31 left
     in (left, right))"

definition des_FP :: "'l::len word \<times> 'l word \<Rightarrow> 'l word \<times> 'l word" where
  "des_FP p = (
     let (left, right) = p;
         right = push_bit 31 right OR drop_bit 1 right;
         (left, right) = des_swap0 (left, right);
         left = drop_bit 1 left OR push_bit 31 left;
         (left, right) = des_swap 8 0xFF00FF (left, right);
         (left, right) = des_swap 2 0x33333333 (left, right);
         (right, left) = des_swap 16 0xFFFF (right, left);
         (right, left) = des_swap 4 0x0F0F0F0F (right, left)
     in (left, right))"

definition sp :: "nat \<Rightarrow> 'l::len word \<Rightarrow> 'l word" where
  "sp i work = ucast (Spbox ! i ! unat (work AND 0x3F))"

text \<open>The macro \<^verbatim>\<open>F\<close>: the new value of its first argument.\<close>

definition des_F :: "'l::len word \<Rightarrow> 'l word \<Rightarrow> u32 \<Rightarrow> u32 \<Rightarrow> 'l word" where
  "des_F l r key0 key1 = (
     let work = (drop_bit 4 r OR push_bit 28 r) XOR ucast key0;
         l = l XOR sp 6 work;
         l = l XOR sp 4 (drop_bit 8 work);
         l = l XOR sp 2 (drop_bit 16 work);
         l = l XOR sp 0 (drop_bit 24 work);
         work = r XOR ucast key1;
         l = l XOR sp 7 work;
         l = l XOR sp 5 (drop_bit 8 work);
         l = l XOR sp 3 (drop_bit 16 work);
         l = l XOR sp 1 (drop_bit 24 work)
     in l)"

text \<open>Two of the sixteen rounds.\<close>

definition des_rounds :: "u32 list \<Rightarrow> nat \<Rightarrow> 'l::len word \<times> 'l word \<Rightarrow> 'l word \<times> 'l word" where
  "des_rounds ks i p = (
     let (left, right) = p;
         left = des_F left right (ks ! i) (ks ! (i + 1));
         right = des_F right left (ks ! (i + 2)) (ks ! (i + 3))
     in (left, right))"

definition desfunc :: "'l::len itself \<Rightarrow> u32 list \<Rightarrow> des_block \<Rightarrow> des_block" where
  "desfunc W ks b = (
     let (left, right) = des_IP (ucast (fst b) :: 'l word, ucast (snd b));
         (left, right) = fold (des_rounds ks) [0, 4, 8, 12, 16, 20, 24, 28] (left, right);
         (left, right) = des_FP (left, right)
     in (ucast right, ucast left))"


text \<open>Each exchange of bits undoes itself when the mask, moved up, stays in the word.\<close>

lemma des_swap_swap:
  assumes "drop_bit n (push_bit n m) = (m :: 'l::len word)"
  shows "des_swap n m (des_swap n m p) = p"
proof -
  have fits: "drop_bit n (push_bit n (x AND m)) = x AND m" for x
  proof (rule bit_eqI)
    fix i have "bit (drop_bit n (push_bit n m)) i = bit m i" using assms by simp
    then show "bit (drop_bit n (push_bit n (x AND m))) i = bit (x AND m) i"
      by (auto simp: bit_simps)
  qed
  obtain a b where p: "p = (a, b)" by (rule prod.exhaust)
  define w where "w = (drop_bit n a XOR b) AND m"
  have d: "drop_bit n (push_bit n w) = w" unfolding w_def by (rule fits)
  have "(drop_bit n (a XOR push_bit n w) XOR (b XOR w)) AND m = ((drop_bit n a XOR b) XOR (w XOR w)) AND m"
    by (simp only: drop_bit_xor d xor.assoc xor.left_commute)
  also have "\<dots> = w" by (simp add: w_def)
  finally have w: "(drop_bit n (a XOR push_bit n w) XOR (b XOR w)) AND m = w" .
  have "des_swap n m p = (a XOR push_bit n w, b XOR w)"
    by (simp only: p des_swap_def prod.case Let_def w_def)
  also have "des_swap n m \<dots> = ((a XOR push_bit n w) XOR push_bit n w, (b XOR w) XOR w)"
    by (simp only: des_swap_def prod.case Let_def w)
  also have "\<dots> = p" by (simp add: p xor.assoc)
  finally show ?thesis by (simp only: \<open>des_swap n m p = (a XOR push_bit n w, b XOR w)\<close>)
qed

lemma des_swap0_swap0: "des_swap0 (des_swap0 p) = p"
proof -
  obtain a b where p: "p = (a, b)" by (rule prod.exhaust)
  show ?thesis unfolding p des_swap0_def Let_def prod.case prod.inject
    by (intro conjI; rule bit_eqI; auto simp: bit_simps)
qed

lemma des_swap0_comm: "des_swap0 (b, a) = prod.swap (des_swap0 (a, b))"
  by (simp add: des_swap0_def Let_def xor.commute)

definition rotl1 :: "u32 \<Rightarrow> u32" where "rotl1 x = push_bit 1 x OR drop_bit 31 x"
definition rotr1 :: "u32 \<Rightarrow> u32" where "rotr1 x = push_bit 31 x OR drop_bit 1 x"

lemma rot_fields: "j + k = 32 \<Longrightarrow> push_bit j (push_bit k x OR drop_bit j x) OR drop_bit k (push_bit k x OR drop_bit j x) = (x :: u32)"
  by (rule bit_eqI) (auto simp: bit_simps dest: bit_imp_le_length)

lemma rot_inverse: "rotr1 (rotl1 x) = x" "rotl1 (rotr1 x) = x"
  using rot_fields [of 31 1 x] rot_fields [of 1 31 x] unfolding rotl1_def rotr1_def by (simp_all only:)



lemmas des_swaps_32 = des_swap_swap [where 'l = 32 and n = 4 and m = "0x0F0F0F0F", simplified]
  des_swap_swap [where 'l = 32 and n = 16 and m = "0xFFFF", simplified]
  des_swap_swap [where 'l = 32 and n = 2 and m = "0x33333333", simplified]
  des_swap_swap [where 'l = 32 and n = 8 and m = "0xFF00FF", simplified]

text \<open>The two permutations as compositions, for 32 bits.\<close>

definition on_fst :: "(u32 \<Rightarrow> u32) \<Rightarrow> u32 \<times> u32 \<Rightarrow> u32 \<times> u32" where "on_fst f p = (f (fst p), snd p)"

lemma des_IP_32: "des_IP (p :: u32 \<times> u32) = on_fst rotl1 (des_swap0 (prod.swap (on_fst rotl1
    (des_swap 8 0xFF00FF (des_swap 2 0x33333333 (prod.swap (des_swap 16 0xFFFF (des_swap 4 0x0F0F0F0F p))))))))"
  by (simp add: des_IP_def on_fst_def rotl1_def Let_def case_prod_unfold prod.swap_def)

lemma des_FP_32: "des_FP (p :: u32 \<times> u32) = prod.swap (des_swap 4 0x0F0F0F0F (des_swap 16 0xFFFF (prod.swap
    (des_swap 2 0x33333333 (des_swap 8 0xFF00FF (on_fst rotr1 (des_swap0 (prod.swap (on_fst rotr1 (prod.swap p)))))))))) "
  by (simp add: des_FP_def on_fst_def rotr1_def Let_def case_prod_unfold prod.swap_def or.commute)

lemma on_fst_rot [simp]: "on_fst rotr1 (on_fst rotl1 p) = p" "on_fst rotl1 (on_fst rotr1 p) = p"
  by (simp_all add: on_fst_def rot_inverse)

lemma swap0_swap [simp]: "des_swap0 (prod.swap (des_swap0 p)) = prod.swap p"
proof -
  obtain a b where p: "p = (a, b)" by (rule prod.exhaust)
  have "des_swap0 (prod.swap (des_swap0 (a, b))) = des_swap0 (des_swap0 (b, a))"
    by (simp only: des_swap0_comm [of b a])
  then show ?thesis by (simp only: p des_swap0_swap0 prod.swap_def fst_conv snd_conv)
qed

lemma des_FP_IP: "prod.swap (des_FP (prod.swap (des_IP p))) = (p :: u32 \<times> u32)"
  by (simp add: des_IP_32 des_FP_32 des_swap0_swap0 des_swaps_32)

lemma des_IP_FP: "des_IP (prod.swap (des_FP (prod.swap p))) = (p :: u32 \<times> u32)"
  by (simp add: des_IP_32 des_FP_32 des_swap0_swap0 des_swaps_32)

text \<open>Four subkeys, and the same four as the other direction uses them.\<close>

lemma des_rounds_inverse:
  assumes "ks' ! i = ks ! (j + 2)" "ks' ! (i + 1) = ks ! (j + 3)" "ks' ! (i + 2) = ks ! j" "ks' ! (i + 3) = ks ! (j + 1)"
  shows "des_rounds ks' i (prod.swap (des_rounds ks j p)) = prod.swap p"
proof -
  have F: "des_F l r a b = l XOR des_F 0 r a b" for l r :: "'a word" and a b
    by (simp only: des_F_def Let_def xor.assoc xor.left_neutral)
  have FF: "des_F (des_F l r a b) r a b = l" for l r :: "'a word" and a b
    by (subst (1 2) F) (simp add: xor.assoc)
  obtain l r where "p = (l, r)" by (rule prod.exhaust)
  then show ?thesis by (simp only: des_rounds_def Let_def prod.case prod.swap_def fst_conv snd_conv assms FF)
qed

definition des_reversed :: "u32 list \<Rightarrow> u32 list \<Rightarrow> bool" where
  "des_reversed ks ks' \<longleftrightarrow> (\<forall>i < 16. ks' ! (30 - 2 * i) = ks ! (2 * i) \<and> ks' ! (31 - 2 * i) = ks ! (2 * i + 1))"

lemma des_reversed_at:
  "des_reversed ks ks' \<Longrightarrow> i < 16 \<Longrightarrow> ks' ! (30 - 2 * i) = ks ! (2 * i)"
  "des_reversed ks ks' \<Longrightarrow> i < 16 \<Longrightarrow> ks' ! (31 - 2 * i) = ks ! (2 * i + 1)"
  by (simp_all add: des_reversed_def)

lemma des_reversed_rounds:
  assumes "des_reversed ks ks'" "j < 8"
  shows "des_rounds ks' (28 - 4 * j) (prod.swap (des_rounds ks (4 * j) p)) = prod.swap p"
proof (rule des_rounds_inverse)
  have e: "2 * (2 * j + 1) = 4 * j + 2" "2 * (2 * j) = 4 * j" "4 * j + 2 + 1 = 4 * j + 3"
    "30 - (4 * j + 2) = 28 - 4 * j" "31 - (4 * j + 2) = 28 - 4 * j + 1"
    "30 - 4 * j = 28 - 4 * j + 2" "31 - 4 * j = 28 - 4 * j + 3" using assms(2) by simp_all
  have j: "2 * j + 1 < 16" "2 * j < 16" using assms(2) by simp_all
  show "ks' ! (28 - 4 * j) = ks ! (4 * j + 2)" "ks' ! (28 - 4 * j + 1) = ks ! (4 * j + 3)"
    by (rule des_reversed_at [OF assms(1) j(1), unfolded e])+
  show "ks' ! (28 - 4 * j + 2) = ks ! (4 * j)" "ks' ! (28 - 4 * j + 3) = ks ! (4 * j + 1)"
    by (rule des_reversed_at [OF assms(1) j(2), unfolded e])+
qed

lemma desfunc_inverse:
  assumes "des_reversed ks ks'"
  shows "desfunc TYPE(32) ks' (desfunc TYPE(32) ks b) = b"
proof -
  note R = des_reversed_rounds [OF assms, of 0] des_reversed_rounds [OF assms, of 1]
    des_reversed_rounds [OF assms, of 2] des_reversed_rounds [OF assms, of 3]
    des_reversed_rounds [OF assms, of 4] des_reversed_rounds [OF assms, of 5]
    des_reversed_rounds [OF assms, of 6] des_reversed_rounds [OF assms, of 7]
  have d: "desfunc TYPE(32) k x = prod.swap (des_FP (fold (des_rounds k) [0, 4, 8, 12, 16, 20, 24, 28] (des_IP x)))" for k x
    by (simp add: desfunc_def case_prod_unfold Let_def prod.swap_def)
  define S where "S = fold (des_rounds ks) [0, 4, 8, 12, 16, 20, 24, 28] (des_IP b)"
  have "des_IP (prod.swap (des_FP S)) = prod.swap S"
    using des_IP_FP [of "prod.swap S"] by simp
  then have "desfunc TYPE(32) ks' (desfunc TYPE(32) ks b)
      = prod.swap (des_FP (fold (des_rounds ks') [0, 4, 8, 12, 16, 20, 24, 28] (prod.swap S)))"
    by (simp only: d S_def)
  also have "fold (des_rounds ks') [0, 4, 8, 12, 16, 20, 24, 28] (prod.swap S) = prod.swap (des_IP b)"
    by (simp add: R [simplified] S_def)
  finally show ?thesis by (simp add: des_FP_IP)
qed



text \<open>The two key schedules of a key are each other reversed.\<close>

lemma cookey_nth:
  assumes "length kn = 16" "i < 16"
  shows "cookey kn True ! (2 * i) = case_prod cook0 (kn ! i)" "cookey kn True ! (2 * i + 1) = case_prod cook1 (kn ! i)"
    "cookey kn False ! (30 - 2 * i) = case_prod cook0 (kn ! i)" "cookey kn False ! (31 - 2 * i) = case_prod cook1 (kn ! i)"
proof -
  define st where "st enc = (\<lambda>i sub. let p = (if enc then 2 * i else 30 - 2 * i); (raw0, raw1) = kn ! i
                    in sub[p := cook0 raw0 raw1, Suc p := cook1 raw0 raw1])" for enc
  have inv: "n \<le> 16 \<Longrightarrow> length (fold (st enc) [0..<n] (replicate 32 0)) = 32 \<and>
    (\<forall>i < n. let p = (if enc then 2 * i else 30 - 2 * i) in
       fold (st enc) [0..<n] (replicate 32 0) ! p = case_prod cook0 (kn ! i) \<and>
       fold (st enc) [0..<n] (replicate 32 0) ! Suc p = case_prod cook1 (kn ! i))" for n enc
  proof (induction n)
    case 0
    then show ?case by simp
  next
    case (Suc n)
    then have IH: "length (fold (st enc) [0..<n] (replicate 32 0)) = 32" 
      "\<And>i. i < n \<Longrightarrow> let p = (if enc then 2 * i else 30 - 2 * i) in
       fold (st enc) [0..<n] (replicate 32 0) ! p = case_prod cook0 (kn ! i) \<and>
       fold (st enc) [0..<n] (replicate 32 0) ! Suc p = case_prod cook1 (kn ! i)" by simp_all
    define p where "p = (if enc then 2 * n else 30 - 2 * n)"
    have e: "fold (st enc) [0..<Suc n] (replicate 32 0) =
      (fold (st enc) [0..<n] (replicate 32 0))[p := case_prod cook0 (kn ! n), Suc p := case_prod cook1 (kn ! n)]"
      by (simp add: st_def Let_def p_def case_prod_unfold)
    have p: "Suc p < 32" using Suc(2) by (cases enc) (simp_all add: p_def)
    show ?case
    proof (intro conjI allI impI)
      show "length (fold (st enc) [0..<Suc n] (replicate 32 0)) = 32" using IH(1) by (simp only: e length_list_update)
      fix i assume i: "i < Suc n"
      define q where "q = (if enc then 2 * i else 30 - 2 * i)"
      show "let p = (if enc then 2 * i else 30 - 2 * i) in
       fold (st enc) [0..<Suc n] (replicate 32 0) ! p = case_prod cook0 (kn ! i) \<and>
       fold (st enc) [0..<Suc n] (replicate 32 0) ! Suc p = case_prod cook1 (kn ! i)"
      proof (cases "i = n")
        case True
        then have "q = p" by (simp add: q_def p_def)
        then show ?thesis using IH(1) p True unfolding e Let_def q_def [symmetric] by simp
      next
        case False
        then have "i < n" using i by simp
        moreover have "q \<noteq> p" "q \<noteq> Suc p" "Suc q \<noteq> p" using \<open>i < n\<close> Suc(2)
          by (auto simp: q_def p_def split: if_splits)
        ultimately show ?thesis using IH(2) [of i] unfolding e Let_def q_def [symmetric] by simp
      qed
    qed
  qed
  have c: "cookey kn enc = fold (st enc) [0..<16] (replicate 32 0)" for enc
    by (simp only: cookey_def st_def)
  note I = conjunct2 [OF inv [of 16 True], simplified Let_def, rule_format, of i]
    conjunct2 [OF inv [of 16 False], simplified Let_def, rule_format, of i]
  show "cookey kn True ! (2 * i) = case_prod cook0 (kn ! i)" "cookey kn True ! (2 * i + 1) = case_prod cook1 (kn ! i)"
    using I(1) assms(2) by (simp_all add: c)
  have "31 - 2 * i = Suc (30 - 2 * i)" using assms(2) by simp
  then show "cookey kn False ! (30 - 2 * i) = case_prod cook0 (kn ! i)" "cookey kn False ! (31 - 2 * i) = case_prod cook1 (kn ! i)"
    using I(2) assms(2) by (simp_all add: c)
qed

lemma deskey_reversed: "des_reversed (deskey key enc) (deskey key (\<not> enc))"
proof -
  obtain kn where l: "length kn = 16" and k: "\<And>e. deskey key e = cookey kn e"
    by (rule that [of "map (\<lambda>i. let pcr = des_pcr (des_pc1m key) i in (des_kn pcr 0, des_kn pcr 24)) [0..<16]"])
      (simp_all add: deskey_def Let_def)
  have fw: "des_reversed (deskey key True) (deskey key False)"
    using cookey_nth [OF l] by (simp add: des_reversed_def k)
  have "des_reversed (deskey key False) (deskey key True)"
    unfolding des_reversed_def
  proof (intro allI impI conjI)
    fix i :: nat assume i: "i < 16"
    have e: "2 * (15 - i) = 30 - 2 * i" "30 - 2 * (15 - i) = 2 * i" "31 - 2 * (15 - i) = 2 * i + 1" "30 - 2 * i + 1 = 31 - 2 * i"
      using i by simp_all
    show "deskey key True ! (30 - 2 * i) = deskey key False ! (2 * i)"
      "deskey key True ! (31 - 2 * i) = deskey key False ! (2 * i + 1)"
      using des_reversed_at [OF fw, of "15 - i"] i by (simp_all only: e) simp_all
  qed
  with fw show ?thesis by (cases enc) simp_all
qed

lemma desfunc_deskey: "desfunc TYPE(32) (deskey key (\<not> enc)) (desfunc TYPE(32) (deskey key enc) b) = b"
  by (rule desfunc_inverse [OF deskey_reversed])

end
