(* ===== verification/DES_Modes.thy ===== *)
theory DES_Modes
  imports DES RSA
begin

text \<open>
  The chained modes of \<^verbatim>\<open>HBase/RSAEuro/desc.c\<close>.  An update with a length that is no multiple of
  eight is refused before anything is written.
\<close>

section \<open>Contexts\<close>

record cbc_ctx =
  iv :: des_block
  originalIV :: des_block
  encrypt :: bool

record DES_CBC_CTX = cbc_ctx +
  subkeys :: "u32 list"

record DESX_CBC_CTX = cbc_ctx +
  x_subkeys :: "u32 list"
  inputWhitener :: des_block
  outputWhitener :: des_block

record DES3_CBC_CTX = cbc_ctx +
  subkeys3 :: "u32 list \<times> u32 list \<times> u32 list"

definition bxor :: "des_block \<Rightarrow> des_block \<Rightarrow> des_block" where
  "bxor a b = (fst a XOR fst b, snd a XOR snd b)"

definition cbc_restart :: "'a cbc_ctx_scheme \<Rightarrow> 'a cbc_ctx_scheme" where
  "cbc_restart c = c\<lparr>iv := originalIV c\<rparr>"

text \<open>The loop over the blocks of the input, given its body.\<close>

function cbc_blocks :: "('c \<Rightarrow> bytes \<Rightarrow> 'c \<times> bytes) \<Rightarrow> 'c \<Rightarrow> bytes \<Rightarrow> 'c \<times> bytes" where
  "cbc_blocks body c input =
     (if length input < 8 then (c, [])
      else let (c, out) = body c (take 8 input); (c, rest) = cbc_blocks body c (drop 8 input)
           in (c, out @ rest))"
  by pat_completeness auto
termination by (relation "measure (\<lambda>(_, _, xs). length xs)") auto

declare cbc_blocks.simps [simp del]

definition cbc_update :: "('c \<Rightarrow> bytes \<Rightarrow> 'c \<times> bytes) \<Rightarrow> 'c \<Rightarrow> bytes \<Rightarrow> int + 'c \<times> bytes" where
  "cbc_update body c input = (if length input mod 8 \<noteq> 0 then Inl RE_LEN else Inr (cbc_blocks body c input))"

section \<open>DES\<close>

definition DES_CBCInit :: "bytes \<Rightarrow> bytes \<Rightarrow> bool \<Rightarrow> DES_CBC_CTX" where
  "DES_CBCInit key v enc = \<lparr>iv = scrunch v, originalIV = scrunch v, encrypt = enc, subkeys = deskey key enc\<rparr>"

definition DES_body :: "'l::len itself \<Rightarrow> DES_CBC_CTX \<Rightarrow> bytes \<Rightarrow> DES_CBC_CTX \<times> bytes" where
  "DES_body W c input =
     (let inputBlock = scrunch input;
          work = (if \<not> encrypt c then inputBlock else bxor inputBlock (iv c));
          work = desfunc W (subkeys c) work;
          (work, v) = (if \<not> encrypt c then (bxor work (iv c), inputBlock) else (work, work))
      in (c\<lparr>iv := v\<rparr>, unscrunch work))"

definition DES_CBCUpdate :: "'l::len itself \<Rightarrow> DES_CBC_CTX \<Rightarrow> bytes \<Rightarrow> int + DES_CBC_CTX \<times> bytes" where
  "DES_CBCUpdate W = cbc_update (DES_body W)"

definition DES_CBCRestart :: "DES_CBC_CTX \<Rightarrow> DES_CBC_CTX" where
  "DES_CBCRestart = cbc_restart"

section \<open>DESX\<close>

definition DESX_CBCInit :: "bytes \<Rightarrow> bytes \<Rightarrow> bool \<Rightarrow> DESX_CBC_CTX" where
  "DESX_CBCInit key v enc =
     \<lparr>iv = scrunch v, originalIV = scrunch v, encrypt = enc, x_subkeys = deskey key enc,
      inputWhitener = scrunch (drop 8 key), outputWhitener = scrunch (drop 16 key)\<rparr>"

definition DESX_body :: "'l::len itself \<Rightarrow> DESX_CBC_CTX \<Rightarrow> bytes \<Rightarrow> DESX_CBC_CTX \<times> bytes" where
  "DESX_body W c input =
     (let inputBlock = scrunch input;
          work = (if \<not> encrypt c then bxor inputBlock (outputWhitener c)
                  else bxor (bxor inputBlock (iv c)) (inputWhitener c));
          work = desfunc W (x_subkeys c) work;
          (work, v) = (if \<not> encrypt c then (bxor work (bxor (iv c) (inputWhitener c)), inputBlock)
                       else let work = bxor work (outputWhitener c) in (work, work))
      in (c\<lparr>iv := v\<rparr>, unscrunch work))"

definition DESX_CBCUpdate :: "'l::len itself \<Rightarrow> DESX_CBC_CTX \<Rightarrow> bytes \<Rightarrow> int + DESX_CBC_CTX \<times> bytes" where
  "DESX_CBCUpdate W = cbc_update (DESX_body W)"

definition DESX_CBCRestart :: "DESX_CBC_CTX \<Rightarrow> DESX_CBC_CTX" where
  "DESX_CBCRestart = cbc_restart"

section \<open>Triple DES\<close>

definition DES3_CBCInit :: "bytes \<Rightarrow> bytes \<Rightarrow> bool \<Rightarrow> DES3_CBC_CTX" where
  "DES3_CBCInit key v enc =
     \<lparr>iv = scrunch v, originalIV = scrunch v, encrypt = enc,
      subkeys3 = (deskey (if enc then key else drop 16 key) enc, deskey (drop 8 key) (\<not> enc),
                  deskey (if enc then drop 16 key else key) enc)\<rparr>"

definition DES3_body :: "'l::len itself \<Rightarrow> DES3_CBC_CTX \<Rightarrow> bytes \<Rightarrow> DES3_CBC_CTX \<times> bytes" where
  "DES3_body W c input =
     (let inputBlock = scrunch input;
          (k0, k1, k2) = subkeys3 c;
          work = (if \<not> encrypt c then inputBlock else bxor inputBlock (iv c));
          work = desfunc W k0 work;
          work = desfunc W k1 work;
          work = desfunc W k2 work;
          (work, v) = (if \<not> encrypt c then (bxor work (iv c), inputBlock) else (work, work))
      in (c\<lparr>iv := v\<rparr>, unscrunch work))"

definition DES3_CBCUpdate :: "'l::len itself \<Rightarrow> DES3_CBC_CTX \<Rightarrow> bytes \<Rightarrow> int + DES3_CBC_CTX \<times> bytes" where
  "DES3_CBCUpdate W = cbc_update (DES3_body W)"

definition DES3_CBCRestart :: "DES3_CBC_CTX \<Rightarrow> DES3_CBC_CTX" where
  "DES3_CBCRestart = cbc_restart"

section \<open>Chaining over an invertible block function\<close>

text \<open>
  What a mode needs of its block function: \<open>D\<close> undoes \<open>E\<close>.  The three modes are
  this one chain over three pairs of functions.
\<close>

fun cbc_encrypt :: "(des_block \<Rightarrow> des_block) \<Rightarrow> des_block \<Rightarrow> des_block list \<Rightarrow> des_block list" where
  "cbc_encrypt E v [] = []"
| "cbc_encrypt E v (b # bs) = (let w = E (bxor b v) in w # cbc_encrypt E w bs)"

fun cbc_decrypt :: "(des_block \<Rightarrow> des_block) \<Rightarrow> des_block \<Rightarrow> des_block list \<Rightarrow> des_block list" where
  "cbc_decrypt D v [] = []"
| "cbc_decrypt D v (b # bs) = bxor (D b) v # cbc_decrypt D b bs"

lemma bxor_bxor [simp]: "bxor (bxor a b) b = a"
  by (cases a) (simp add: bxor_def xor.assoc)

lemma bxor_assoc: "bxor (bxor a b) c = bxor a (bxor b c)"
  by (simp add: bxor_def xor.assoc)

lemma bxor_comm: "bxor a b = bxor b a"
  by (simp add: bxor_def xor.commute)

locale block_cipher =
  fixes E D :: "des_block \<Rightarrow> des_block"
  assumes inverse: "D (E b) = b"
begin

lemma cbc_inverse: "cbc_decrypt D v (cbc_encrypt E v bs) = bs"
  by (induction bs arbitrary: v) (simp_all add: Let_def inverse)

end

text \<open>The blocks of an input, and the last block that went into the chain.\<close>

function des_words :: "bytes \<Rightarrow> des_block list" where
  "des_words xs = (if length xs < 8 then [] else scrunch xs # des_words (drop 8 xs))"
  by pat_completeness auto
termination by (relation "measure length") auto

declare des_words.simps [simp del]

lemma scrunch_take8 [simp]: "scrunch (take 8 xs) = scrunch xs"
  by (simp add: scrunch_def min_def drop_take)

lemma length_unscrunch [simp]: "length (unscrunch b) = 8"
  by (simp add: unscrunch_def)

lemma scrunch_unscrunch [simp]: "scrunch (unscrunch b @ xs) = b"
  by (simp add: scrunch_def unscrunch_def byte_simps)

lemma des_words_concat [simp]: "des_words (concat (map unscrunch bs)) = bs"
  by (induction bs) (subst des_words.simps, simp)+

lemma be_word4: "length xs = 4 \<Longrightarrow> be_bytes 4 (be_word xs :: u32) = xs"
  using be_bytes_be_word [of xs, where 'a = 32] by simp

lemma unscrunch_scrunch: "8 \<le> length xs \<Longrightarrow> unscrunch (scrunch xs) = take 8 xs"
  by (simp add: unscrunch_def scrunch_def be_word4 take_add [of 4 4, simplified])

lemma concat_des_words: "8 dvd length xs \<Longrightarrow> concat (map unscrunch (des_words xs)) = xs"
proof (induction xs rule: des_words.induct)
  case (1 xs)
  show ?case
  proof (cases "length xs < 8")
    case True
    with 1(2) have "xs = []" by (metis dvd_imp_le length_0_conv linorder_not_less neq0_conv)
    then show ?thesis by (simp add: des_words.simps)
  next
    case False
    have "8 dvd length (drop 8 xs)" using 1(2) by (simp add: dvd_diff_nat)
    with 1(1) False show ?thesis by (subst des_words.simps) (simp add: unscrunch_scrunch)
  qed
qed

lemma cbc_blocks_append:
  assumes "8 dvd length xs"
  shows "cbc_blocks body c (xs @ ys) =
    (case cbc_blocks body c xs of (c1, o1) \<Rightarrow> case cbc_blocks body c1 ys of (c2, o2) \<Rightarrow> (c2, o1 @ o2))"
  using assms
proof (induction xs arbitrary: c rule: des_words.induct)
  case (1 xs)
  show ?case
  proof (cases "length xs < 8")
    case True
    with 1(2) have "xs = []" by (metis dvd_imp_le length_0_conv linorder_not_less neq0_conv)
    then show ?thesis by (simp add: cbc_blocks.simps [of _ _ "[]"] split: prod.split)
  next
    case False
    have "8 dvd length (drop 8 xs)" using 1(2) by (simp add: dvd_diff_nat)
    with 1(1) False show ?thesis
      by (subst (1 2) cbc_blocks.simps) (simp add: Let_def split: prod.split)
  qed
qed

text \<open>A body that chains forward, or backward, over its block function.\<close>

lemma cbc_blocks_encrypt:
  assumes "\<And>v x. body (c\<lparr>iv := v\<rparr>) x = (let w = E (bxor (scrunch x) v) in (c\<lparr>iv := w\<rparr>, unscrunch w))"
  shows "cbc_blocks body (c\<lparr>iv := v\<rparr>) xs =
    (c\<lparr>iv := last (v # cbc_encrypt E v (des_words xs))\<rparr>, concat (map unscrunch (cbc_encrypt E v (des_words xs))))"
proof (induction xs arbitrary: v rule: des_words.induct)
  case (1 xs)
  then show ?case
    by (cases "length xs < 8"; subst cbc_blocks.simps; subst (1 2) des_words.simps) (simp_all add: assms Let_def)
qed

lemma cbc_blocks_decrypt:
  assumes "\<And>v x. body (c\<lparr>iv := v\<rparr>) x = (c\<lparr>iv := scrunch x\<rparr>, unscrunch (bxor (D (scrunch x)) v))"
  shows "cbc_blocks body (c\<lparr>iv := v\<rparr>) xs =
    (c\<lparr>iv := last (v # des_words xs)\<rparr>, concat (map unscrunch (cbc_decrypt D v (des_words xs))))"
proof (induction xs arbitrary: v rule: des_words.induct)
  case (1 xs)
  then show ?case
    by (cases "length xs < 8"; subst cbc_blocks.simps; subst (1 2) des_words.simps) (simp_all add: assms Let_def)
qed

text \<open>A message taken through the chain and back.\<close>

context block_cipher
begin

lemma cbc_roundtrip:
  assumes "\<And>v x. enc_body (c\<lparr>iv := v\<rparr>) x = (let w = E (bxor (scrunch x) v) in (c\<lparr>iv := w\<rparr>, unscrunch w))"
    "\<And>v x. dec_body (d\<lparr>iv := v\<rparr>) x = (d\<lparr>iv := scrunch x\<rparr>, unscrunch (bxor (D (scrunch x)) v))"
    "8 dvd length xs" "iv c = iv d"
  shows "snd (cbc_blocks dec_body d (snd (cbc_blocks enc_body c xs))) = xs"
proof -
  have c: "c\<lparr>iv := iv d\<rparr> = c" and d: "d\<lparr>iv := iv d\<rparr> = d" using assms(4) by simp_all
  show ?thesis
    using cbc_blocks_encrypt [of enc_body c E "iv d" xs, OF assms(1)]
      cbc_blocks_decrypt [of dec_body d D "iv d", OF assms(2)] assms(3)
    by (simp add: c d cbc_inverse concat_des_words)
qed

end

section \<open>The three modes are such chains\<close>

definition DESX_E :: "bytes \<Rightarrow> des_block \<Rightarrow> des_block" where
  "DESX_E key b = bxor (desfunc TYPE(32) (deskey key True) (bxor b (scrunch (drop 8 key)))) (scrunch (drop 16 key))"

definition DESX_D :: "bytes \<Rightarrow> des_block \<Rightarrow> des_block" where
  "DESX_D key b = bxor (desfunc TYPE(32) (deskey key False) (bxor b (scrunch (drop 16 key)))) (scrunch (drop 8 key))"

definition DES3_E :: "bytes \<Rightarrow> des_block \<Rightarrow> des_block" where
  "DES3_E key b = desfunc TYPE(32) (deskey (drop 16 key) True)
     (desfunc TYPE(32) (deskey (drop 8 key) False) (desfunc TYPE(32) (deskey key True) b))"

definition DES3_D :: "bytes \<Rightarrow> des_block \<Rightarrow> des_block" where
  "DES3_D key b = desfunc TYPE(32) (deskey key False)
     (desfunc TYPE(32) (deskey (drop 8 key) True) (desfunc TYPE(32) (deskey (drop 16 key) False) b))"

lemmas desfunc_keys = desfunc_deskey [where enc = True, simplified] desfunc_deskey [where enc = False, simplified]

interpretation des: block_cipher "desfunc TYPE(32) (deskey key True)" "desfunc TYPE(32) (deskey key False)" for key
  by unfold_locales (rule desfunc_keys)

interpretation desx: block_cipher "DESX_E key" "DESX_D key" for key
  by unfold_locales (simp add: DESX_E_def DESX_D_def desfunc_keys)

interpretation des3: block_cipher "DES3_E key" "DES3_D key" for key
  by unfold_locales (simp add: DES3_E_def DES3_D_def desfunc_keys)

lemmas body_defs = Let_def DES_body_def DES_CBCInit_def DESX_body_def DESX_CBCInit_def DES3_body_def DES3_CBCInit_def

lemma DES_bodies:
  "DES_body TYPE(32) ((DES_CBCInit key u True)\<lparr>iv := v\<rparr>) x =
     (let w = desfunc TYPE(32) (deskey key True) (bxor (scrunch x) v) in ((DES_CBCInit key u True)\<lparr>iv := w\<rparr>, unscrunch w))"
  "DES_body TYPE(32) ((DES_CBCInit key u False)\<lparr>iv := v\<rparr>) x =
     ((DES_CBCInit key u False)\<lparr>iv := scrunch x\<rparr>, unscrunch (bxor (desfunc TYPE(32) (deskey key False) (scrunch x)) v))"
  by (simp_all add: body_defs)

lemma DESX_bodies:
  "DESX_body TYPE(32) ((DESX_CBCInit key u True)\<lparr>iv := v\<rparr>) x =
     (let w = DESX_E key (bxor (scrunch x) v) in ((DESX_CBCInit key u True)\<lparr>iv := w\<rparr>, unscrunch w))"
  "DESX_body TYPE(32) ((DESX_CBCInit key u False)\<lparr>iv := v\<rparr>) x =
     ((DESX_CBCInit key u False)\<lparr>iv := scrunch x\<rparr>, unscrunch (bxor (DESX_D key (scrunch x)) v))"
  by (simp_all add: body_defs DESX_E_def DESX_D_def bxor_assoc bxor_comm [of v])

lemma DES3_bodies:
  "DES3_body TYPE(32) ((DES3_CBCInit key u True)\<lparr>iv := v\<rparr>) x =
     (let w = DES3_E key (bxor (scrunch x) v) in ((DES3_CBCInit key u True)\<lparr>iv := w\<rparr>, unscrunch w))"
  "DES3_body TYPE(32) ((DES3_CBCInit key u False)\<lparr>iv := v\<rparr>) x =
     ((DES3_CBCInit key u False)\<lparr>iv := scrunch x\<rparr>, unscrunch (bxor (DES3_D key (scrunch x)) v))"
  by (simp_all add: body_defs DES3_E_def DES3_D_def)

lemma init_iv: "iv (DES_CBCInit key v e) = scrunch v" "iv (DESX_CBCInit key v e) = scrunch v"
  "iv (DES3_CBCInit key v e) = scrunch v"
  by (simp_all add: body_defs)

lemma DES_chain:
  "8 dvd length xs \<Longrightarrow> snd (cbc_blocks (DES_body TYPE(32)) (DES_CBCInit key v False)
     (snd (cbc_blocks (DES_body TYPE(32)) (DES_CBCInit key v True) xs))) = xs"
  by (rule des.cbc_roundtrip [OF DES_bodies]) (simp_all add: init_iv)

lemma DESX_chain:
  "8 dvd length xs \<Longrightarrow> snd (cbc_blocks (DESX_body TYPE(32)) (DESX_CBCInit key v False)
     (snd (cbc_blocks (DESX_body TYPE(32)) (DESX_CBCInit key v True) xs))) = xs"
  by (rule desx.cbc_roundtrip [OF DESX_bodies]) (simp_all add: init_iv)

lemma DES3_chain:
  "8 dvd length xs \<Longrightarrow> snd (cbc_blocks (DES3_body TYPE(32)) (DES3_CBCInit key v False)
     (snd (cbc_blocks (DES3_body TYPE(32)) (DES3_CBCInit key v True) xs))) = xs"
  by (rule des3.cbc_roundtrip [OF DES3_bodies]) (simp_all add: init_iv)

text \<open>What a body keeps: it gives eight bytes for eight bytes, and only moves the chain.\<close>

lemma cbc_blocks_length:
  assumes "\<And>c x. length (snd (body c x)) = 8"
  shows "length (snd (cbc_blocks body c xs)) = 8 * (length xs div 8)"
proof (induction xs arbitrary: c rule: des_words.induct)
  case (1 xs)
  show ?case
  proof (cases "length xs < 8")
    case True
    then show ?thesis by (simp add: cbc_blocks.simps)
  next
    case False
    then have "length xs div 8 = length (drop 8 xs) div 8 + 1" by (simp add: le_div_geq)
    then show ?thesis using False 1 assms [of c "take 8 xs"]
      by (subst cbc_blocks.simps) (simp add: Let_def case_prod_unfold)
  qed
qed

lemma cbc_blocks_keeps:
  assumes "\<And>c x. f (fst (body c x)) = f c"
  shows "f (fst (cbc_blocks body c xs)) = f c"
proof (induction xs arbitrary: c rule: des_words.induct)
  case (1 xs)
  then show ?case
    by (cases "length xs < 8"; subst cbc_blocks.simps) (simp_all add: Let_def case_prod_unfold assms)
qed

lemma length_bodies [simp]:
  "length (snd (DES_body W c x)) = 8" "length (snd (DESX_body W d x)) = 8" "length (snd (DES3_body W e x)) = 8"
  by (simp_all add: body_defs case_prod_unfold)

section \<open>Updates in pieces\<close>

fun cbc_stream :: "('c \<Rightarrow> bytes \<Rightarrow> int + 'c \<times> bytes) \<Rightarrow> 'c \<Rightarrow> bytes list \<Rightarrow> int + 'c \<times> bytes" where
  "cbc_stream update c [] = Inr (c, [])"
| "cbc_stream update c (p # ps) =
     (case update c p of
        Inl e \<Rightarrow> Inl e
      | Inr (c, out) \<Rightarrow>
          (case cbc_stream update c ps of Inl e \<Rightarrow> Inl e | Inr (c, rest) \<Rightarrow> Inr (c, out @ rest)))"

lemma cbc_stream_blocks:
  "\<forall>p \<in> set ps. 8 dvd length p \<Longrightarrow> cbc_stream (cbc_update body) c ps = Inr (cbc_blocks body c (concat ps))"
proof (induction ps arbitrary: c)
  case Nil
  then show ?case by (simp add: cbc_blocks.simps)
next
  case (Cons p ps)
  then have "8 dvd length p" by simp
  then have "length p mod 8 = 0" by simp
  with Cons show ?case
    by (simp add: cbc_update_def cbc_blocks_append split: prod.split)
qed

text \<open>
  \<open>update\<close> from the context \<open>c\<close> encrypts and from \<open>d\<close> decrypts: however a message
  of whole blocks is cut to encrypt it and its image cut again, the message comes back.
\<close>

definition cbc_inverts :: "('c \<Rightarrow> bytes \<Rightarrow> int + 'c \<times> bytes) \<Rightarrow> 'c \<Rightarrow> 'c \<Rightarrow> bool" where
  "cbc_inverts update c d \<longleftrightarrow>
     (\<forall>ps. (\<forall>p \<in> set ps. 8 dvd length p) \<longrightarrow>
        (\<exists>c' out. cbc_stream update c ps = Inr (c', out) \<and> length out = length (concat ps) \<and>
           (\<forall>qs. concat qs = out \<and> (\<forall>q \<in> set qs. 8 dvd length q) \<longrightarrow>
              (\<exists>d'. cbc_stream update d qs = Inr (d', concat ps)))))"

lemma length_concat_dvd: "\<forall>p \<in> set ps. 8 dvd length p \<Longrightarrow> 8 dvd length (concat ps)"
  by (induction ps) simp_all

lemma cbc_invertsI:
  assumes "\<And>xs. 8 dvd length xs \<Longrightarrow> snd (cbc_blocks body d (snd (cbc_blocks body c xs))) = xs"
    "\<And>c x. length (snd (body c x)) = 8"
  shows "cbc_inverts (cbc_update body) c d"
  unfolding cbc_inverts_def
proof (intro allI impI)
  fix ps :: "bytes list" assume ps: "\<forall>p \<in> set ps. 8 dvd length p"
  obtain c' out where r: "cbc_blocks body c (concat ps) = (c', out)" by (rule prod.exhaust)
  note dvd = length_concat_dvd [OF ps]
  have "length out = length (concat ps)"
    using cbc_blocks_length [of body c "concat ps"] assms(2) dvd r by simp
  moreover have "\<exists>d'. cbc_stream (cbc_update body) d qs = Inr (d', concat ps)"
    if "concat qs = out" "\<forall>q \<in> set qs. 8 dvd length q" for qs
    using cbc_stream_blocks [OF that(2), of body d] assms(1) [OF dvd] r that(1)
    by (cases "cbc_blocks body d out") simp
  ultimately show "\<exists>c' out. cbc_stream (cbc_update body) c ps = Inr (c', out) \<and> length out = length (concat ps) \<and>
      (\<forall>qs. concat qs = out \<and> (\<forall>q \<in> set qs. 8 dvd length q) \<longrightarrow>
         (\<exists>d'. cbc_stream (cbc_update body) d qs = Inr (d', concat ps)))"
    using cbc_stream_blocks [OF ps, of body c] r by auto
qed

lemma DES_inverts:
  "cbc_inverts (DES_CBCUpdate TYPE(32)) (DES_CBCInit key v True) (DES_CBCInit key v False)"
  "cbc_inverts (DESX_CBCUpdate TYPE(32)) (DESX_CBCInit key v True) (DESX_CBCInit key v False)"
  "cbc_inverts (DES3_CBCUpdate TYPE(32)) (DES3_CBCInit key v True) (DES3_CBCInit key v False)"
  unfolding DES_CBCUpdate_def DESX_CBCUpdate_def DES3_CBCUpdate_def
  by (rule cbc_invertsI, erule DES_chain DESX_chain DES3_chain, rule length_bodies)+

end
