(* ===== verification/Signature.thy ===== *)
theory Signature
  imports MD45 MD2 SHS RSA
begin

text \<open>
  Digests by name and signatures, from \<^verbatim>\<open>HBase/RSAEuro/r_enhanc.c\<close>.  The members of the union in
  \<^verbatim>\<open>R_DIGEST_CTX\<close> stand side by side: only the one that \<open>digestAlgorithm\<close> names is used, and it is
  initialised before that.  An operation returns its context, its status and what it wrote.
\<close>

definition DA_MD2 :: int where "DA_MD2 = 2"
definition DA_SHS :: int where "DA_SHS = 3"
definition DA_MD4 :: int where "DA_MD4 = 4"
definition DA_MD5 :: int where "DA_MD5 = 5"

definition ID_OK :: int where "ID_OK = 0"
definition RE_DIGEST_ALGORITHM :: int where "RE_DIGEST_ALGORITHM = 0x402"
definition RE_PRIVATE_KEY :: int where "RE_PRIVATE_KEY = 0x409"
definition RE_PUBLIC_KEY :: int where "RE_PUBLIC_KEY = 0x40A"
definition RE_SIGNATURE :: int where "RE_SIGNATURE = 0x40B"

definition MAX_SIGNATURE_LEN :: nat where "MAX_SIGNATURE_LEN = MAX_RSA_MODULUS_LEN"

lemmas da_defs = DA_MD2_def DA_SHS_def DA_MD4_def DA_MD5_def

section \<open>Digests\<close>

record R_DIGEST_CTX =
  digestAlgorithm :: int
  ctx_md2 :: MD2_CTX
  ctx_md4 :: MD4_CTX
  ctx_md5 :: MD5_CTX
  ctx_shs :: SHS_CTX

definition R_DIGEST_zero :: R_DIGEST_CTX where
  "R_DIGEST_zero = \<lparr>digestAlgorithm = 0, ctx_md2 = MD2_zero, ctx_md4 = md_zero, ctx_md5 = md_zero, ctx_shs = SHS_zero\<rparr>"

definition R_DigestInit :: "R_DIGEST_CTX \<Rightarrow> int \<Rightarrow> R_DIGEST_CTX \<times> int" where
  "R_DigestInit context digesttype =
     (let context = context\<lparr>digestAlgorithm := digesttype\<rparr>
      in if digesttype = DA_SHS then (context\<lparr>ctx_shs := SHSInit (ctx_shs context)\<rparr>, ID_OK)
         else if digesttype = DA_MD2 then (context\<lparr>ctx_md2 := MD2Init (ctx_md2 context)\<rparr>, ID_OK)
         else if digesttype = DA_MD4 then (context\<lparr>ctx_md4 := MD4Init (ctx_md4 context)\<rparr>, ID_OK)
         else if digesttype = DA_MD5 then (context\<lparr>ctx_md5 := MD5Init (ctx_md5 context)\<rparr>, ID_OK)
         else (context, RE_DIGEST_ALGORITHM))"

definition R_DigestUpdate :: "R_DIGEST_CTX \<Rightarrow> bytes \<Rightarrow> R_DIGEST_CTX \<times> int" where
  "R_DigestUpdate context partIn =
     (let alg = digestAlgorithm context
      in if alg = DA_SHS then (context\<lparr>ctx_shs := SHSUpdate (ctx_shs context) partIn\<rparr>, ID_OK)
         else if alg = DA_MD2 then (context\<lparr>ctx_md2 := MD2Update (ctx_md2 context) partIn\<rparr>, ID_OK)
         else if alg = DA_MD4 then (context\<lparr>ctx_md4 := MD4Update (ctx_md4 context) partIn\<rparr>, ID_OK)
         else if alg = DA_MD5 then (context\<lparr>ctx_md5 := MD5Update (ctx_md5 context) partIn\<rparr>, ID_OK)
         else (context, RE_DIGEST_ALGORITHM))"

text \<open>The result ends in the digest and \<^verbatim>\<open>*digestLen\<close>, which is set in any case.\<close>

definition R_DigestFinal :: "R_DIGEST_CTX \<Rightarrow> R_DIGEST_CTX \<times> int \<times> bytes \<times> nat" where
  "R_DigestFinal context =
     (let alg = digestAlgorithm context; digestLen = (if alg = DA_SHS then 20 else 16)
      in if alg = DA_SHS then let (d, c) = SHSFinal (ctx_shs context) in (context\<lparr>ctx_shs := c\<rparr>, ID_OK, d, digestLen)
         else if alg = DA_MD2 then let (d, c) = MD2Final (ctx_md2 context) in (context\<lparr>ctx_md2 := c\<rparr>, ID_OK, d, digestLen)
         else if alg = DA_MD4 then let (d, c) = MD4Final (ctx_md4 context) in (context\<lparr>ctx_md4 := c\<rparr>, ID_OK, d, digestLen)
         else if alg = DA_MD5 then let (d, c) = MD5Final (ctx_md5 context) in (context\<lparr>ctx_md5 := c\<rparr>, ID_OK, d, digestLen)
         else (context, RE_DIGEST_ALGORITHM, [], digestLen))"

definition R_DigestBlock :: "bytes \<Rightarrow> int \<Rightarrow> int \<times> bytes" where
  "R_DigestBlock block alg =
     (let (context, status) = R_DigestInit R_DIGEST_zero alg
      in if status \<noteq> 0 then (status, [])
         else
           let (context, status) = R_DigestUpdate context block
           in if status \<noteq> 0 then (status, [])
              else let (_, status, digest, _) = R_DigestFinal context in (status, digest))"

section \<open>The encoding of a digest\<close>

definition DIGEST_INFO_A :: bytes where
  "DIGEST_INFO_A = [0x30, 0x20, 0x30, 0x0c, 0x06, 0x08, 0x2a, 0x86, 0x48, 0x86, 0xf7, 0x0d, 0x02]"

definition DIGEST_INFO_B :: bytes where
  "DIGEST_INFO_B = [0x05, 0x00, 0x04, 0x10]"

definition DIGEST_INFO_A_LEN :: nat where "DIGEST_INFO_A_LEN = length DIGEST_INFO_A"
definition DIGEST_INFO_B_LEN :: nat where "DIGEST_INFO_B_LEN = length DIGEST_INFO_B"
definition DIGEST_INFO_LEN :: nat where "DIGEST_INFO_LEN = DIGEST_INFO_A_LEN + 1 + DIGEST_INFO_B_LEN + 16"

definition R_EncodeDigestInfo :: "bytes \<Rightarrow> int \<Rightarrow> bytes \<Rightarrow> bytes" where
  "R_EncodeDigestInfo digestInfo alg digest =
     (if alg = DA_SHS then digestInfo
      else
        let digestInfo = digestInfo[DIGEST_INFO_A_LEN := word_of_int alg];
            digestInfo = mem_write digestInfo (DIGEST_INFO_A_LEN + 1) DIGEST_INFO_B;
            digestInfo = mem_write digestInfo 0 DIGEST_INFO_A
        in mem_write digestInfo (DIGEST_INFO_A_LEN + 1 + DIGEST_INFO_B_LEN) (take 16 digest))"

definition R_CheckDigestInfo :: "bytes \<Rightarrow> bytes \<Rightarrow> int" where
  "R_CheckDigestInfo originaldigestInfo digestInfo =
     (if originaldigestInfo ! DIGEST_INFO_A_LEN = digestInfo ! DIGEST_INFO_A_LEN then ID_OK else RE_SIGNATURE)"

section \<open>Signing and verifying\<close>

type_synonym R_SIGNATURE_CTX = R_DIGEST_CTX

definition R_SignInit :: "R_SIGNATURE_CTX \<Rightarrow> int \<Rightarrow> R_SIGNATURE_CTX \<times> int" where
  "R_SignInit context digesttype =
     (if digesttype = DA_SHS then (context, RE_DIGEST_ALGORITHM) else R_DigestInit context digesttype)"

definition R_SignUpdate :: "R_SIGNATURE_CTX \<Rightarrow> bytes \<Rightarrow> R_SIGNATURE_CTX \<times> int" where
  "R_SignUpdate context partIn =
     (if digestAlgorithm context = DA_SHS then (context, RE_DIGEST_ALGORITHM) else R_DigestUpdate context partIn)"

text \<open>The local array is handed over as it is: \<open>info0\<close> are its \<open>DIGEST_INFO_LEN\<close> bytes.\<close>

definition R_SignFinal ::
  "bytes \<Rightarrow> R_SIGNATURE_CTX \<Rightarrow> R_RSA_PRIVATE_KEY \<Rightarrow> (R_SIGNATURE_CTX \<times> int \<times> bytes) option" where
  "R_SignFinal info0 context privateKey =
     (if digestAlgorithm context = DA_SHS then Some (context, RE_DIGEST_ALGORITHM, [])
      else
        let (context, status, digest, digestLen) = R_DigestFinal context
        in if status \<noteq> 0 then Some (context, status, [])
           else
             let digestInfo = R_EncodeDigestInfo info0 (digestAlgorithm context) digest
             in case RSAPrivateEncrypt digestInfo privateKey of
                  None \<Rightarrow> None
                | Some (Inl _) \<Rightarrow> Some (context, RE_PRIVATE_KEY, [])
                | Some (Inr signature) \<Rightarrow>
                    Some (fst (R_DigestInit context (digestAlgorithm context)), status, signature))"

definition R_VerifyInit :: "R_SIGNATURE_CTX \<Rightarrow> int \<Rightarrow> R_SIGNATURE_CTX \<times> int" where
  "R_VerifyInit context alg =
     (if alg = DA_SHS then (context, RE_DIGEST_ALGORITHM) else R_DigestInit context alg)"

definition R_VerifyUpdate :: "R_SIGNATURE_CTX \<Rightarrow> bytes \<Rightarrow> R_SIGNATURE_CTX \<times> int" where
  "R_VerifyUpdate context partIn =
     (if digestAlgorithm context = DA_SHS then (context, RE_DIGEST_ALGORITHM) else R_DigestUpdate context partIn)"

definition R_VerifyFinal ::
  "bytes \<Rightarrow> R_SIGNATURE_CTX \<Rightarrow> bytes \<Rightarrow> R_RSA_PUBLIC_KEY \<Rightarrow> (R_SIGNATURE_CTX \<times> int) option" where
  "R_VerifyFinal info0 context signature publicKey =
     (let status = 0;
          status = (if length signature > MAX_SIGNATURE_LEN then RE_LEN else status);
          status = (if digestAlgorithm context = DA_SHS then RE_DIGEST_ALGORITHM else status)
      in if status \<noteq> 0 then Some (context, status)
         else
           let (context, status, digest, digestLen) = R_DigestFinal context
           in if status \<noteq> 0 then Some (context, status)
              else
                let digestInfo = R_EncodeDigestInfo info0 (digestAlgorithm context) digest
                in case RSAPublicDecrypt signature publicKey of
                     None \<Rightarrow> None
                   | Some (Inl _) \<Rightarrow> Some (context, RE_PUBLIC_KEY)
                   | Some (Inr originalDigestInfo) \<Rightarrow>
                       if length originalDigestInfo \<noteq> DIGEST_INFO_LEN \<or>
                          R_CheckDigestInfo originalDigestInfo digestInfo \<noteq> 0 \<or>
                          take DIGEST_INFO_LEN originalDigestInfo \<noteq> take DIGEST_INFO_LEN digestInfo
                       then Some (context, RE_SIGNATURE)
                       else Some (fst (R_DigestInit context (digestAlgorithm context)), status))"

definition R_SignBlock :: "bytes \<Rightarrow> bytes \<Rightarrow> int \<Rightarrow> R_RSA_PRIVATE_KEY \<Rightarrow> (int \<times> bytes) option" where
  "R_SignBlock info0 block alg privateKey =
     (let (context, status) = R_SignInit R_DIGEST_zero alg
      in if status \<noteq> 0 then Some (status, [])
         else
           let (context, status) = R_SignUpdate context block
           in if status \<noteq> 0 then Some (status, [])
              else map_option snd (R_SignFinal info0 context privateKey))"

definition R_VerifyBlockSignature ::
  "bytes \<Rightarrow> bytes \<Rightarrow> bytes \<Rightarrow> int \<Rightarrow> R_RSA_PUBLIC_KEY \<Rightarrow> int option" where
  "R_VerifyBlockSignature info0 block signature alg publicKey =
     (let (context, status) = R_VerifyInit R_DIGEST_zero alg
      in if status \<noteq> 0 then Some status
         else
           let (context, status) = R_VerifyUpdate context block
           in if status \<noteq> 0 then Some status
              else map_option snd (R_VerifyFinal info0 context signature publicKey))"

section \<open>The digest of the pieces\<close>

text \<open>The four digests keep the lengths of their arrays.\<close>

definition digest_ctx_ok :: "R_DIGEST_CTX \<Rightarrow> bool" where
  "digest_ctx_ok c \<longleftrightarrow> length (md2_buffer (ctx_md2 c)) = 16 \<and> length (buffer (ctx_md4 c)) = 64 \<and>
     length (buffer (ctx_md5 c)) = 64 \<and> length (shs_data (ctx_shs c)) = 64"

definition digest_pieces :: "R_DIGEST_CTX \<Rightarrow> int \<Rightarrow> bytes list \<Rightarrow> R_DIGEST_CTX" where
  "digest_pieces c alg xss = fold (\<lambda>xs c. fst (R_DigestUpdate c xs)) xss (fst (R_DigestInit c alg))"

context stream_digest
begin

lemma digest_same:
  assumes "inv c" "inv d" "obs c = obs d" "total c = total d" "xss \<noteq> []" "\<forall>xs \<in> set xss. fits xs" "fits (concat xss)"
  shows "final (fold (\<lambda>xs c. upd c xs) xss c) = final (upd d (concat xss))"
  using digest_concat [OF assms(1,6,5)] digest_concat [OF assms(2), of "[concat xss]"] assms(3,4,7) by simp

end

lemma md_init_obs:
  "length (buffer c) = 64 \<Longrightarrow> md_inv (MD5Init c)" "length (buffer c) = 64 \<Longrightarrow> md_inv (MD4Init c)"
  "md_obs (MD5Init c) = md_obs (MD5Init d)" "md_obs (MD4Init c) = md_obs (MD4Init d)"
  "md_bits (MD5Init c) = md_bits (MD5Init d)" "md_bits (MD4Init c) = md_bits (MD4Init d)"
  by (simp_all add: md_inv_def md_obs_def md_bits_def MD5Init_def MD4Init_def count_index_def)

lemma md2_init_obs:
  "length (md2_buffer c) = 16 \<Longrightarrow> md2_inv (MD2Init c)" "md2_obs (MD2Init c) = md2_obs (MD2Init d)"
  by (simp_all add: md2_inv_def md2_obs_def MD2Init_def)

lemma zero_lengths [simp]: "length (buffer md_zero) = 64" "length (md2_buffer MD2_zero) = 16" "length (shs_data SHS_zero) = 64"
  by (simp_all add: md_zero_def MD2_zero_def SHS_zero_def)

text \<open>A property of a chaining state that the transformation establishes.\<close>

lemma absorb_keeps:
  assumes "P st" "\<And>st b. P st \<Longrightarrow> length b = blk \<Longrightarrow> P (T st b)"
  shows "P (fst (absorb blk T st xs))"
  using assms
proof (induction blk T st xs rule: absorb.induct)
  case (1 blk f s xs)
  show ?case
  proof (cases "0 < blk \<and> blk \<le> length xs")
    case True
    then have "length (take blk xs) = blk" by simp
    then have "P (f s (take blk xs))" by (rule 1(3) [OF 1(2)])
    from 1(1) [OF True this 1(3)]
    have "P (fst (absorb blk f (f s (take blk xs)) (drop blk xs)))" .
    then show ?thesis by (subst absorb.simps) (simp only: True simp_thms if_True)
  next
    case False
    then show ?thesis using 1(2) by (simp only: absorb.simps [of blk f s xs] if_False fst_conv)
  qed
qed

lemma length_md_state:
  assumes T: "\<And>st b. length (T st b) = 4" and c: "length (state c) = 4"
  shows "length (state (md_update T c xs)) = 4"
  using c length_absorb_state [of "T st blk" T for st blk, OF T T]
  by (simp add: md_update_def Let_def split: prod.splits) (metis fst_conv)

lemma length_md_final:
  assumes "\<And>st b. length (T st b) = 4" "length (state c) = 4"
  shows "length (fst (md_final T c)) = 16"
proof -
  have "length (md_Encode st 16) = 16" if "length st = 4" for st
    using that by (simp add: md_Encode_def length_concat comp_def sum_list_triv del: le_bytes.simps)
  then show ?thesis
    by (simp add: md_final_def Let_def length_md_state [OF assms(1)] assms(2))
qed

lemma length_transforms: "length (MD5Transform st b) = 4" "length (MD4Transform st b) = 4"
  by (simp_all add: MD5Transform_def MD4Transform_def Let_def)

lemma length_md2_row: "length (fst (md2_row t xs)) = length xs"
  by (induction t xs rule: md2_row.induct) (simp_all add: Let_def case_prod_unfold)

lemma length_md2_encrypt [simp]: "length (md2_encrypt x) = length x"
proof -
  have "length (fst (fold (\<lambda>i (x, t). let (x, t) = md2_row t x in (x, t + of_nat i)) is (y, u))) = length y" for "is" y u
    by (induction "is" arbitrary: y u) (simp_all add: Let_def case_prod_unfold length_md2_row)
  then show ?thesis by (simp only: md2_encrypt_def)
qed

lemma length_MD2Transform: "length (fst sc) = 16 \<Longrightarrow> length b = 16 \<Longrightarrow> length (fst (MD2Transform sc b)) = 16"
  by (simp add: MD2Transform_def case_prod_unfold Let_def)

lemma length_md2_digest:
  assumes "length (fst (fst ob)) = 16" shows "length (md2_digest ob u) = 16"
proof -
  have "length (fst (fst (absorb 16 MD2Transform sc xs))) = 16" if "length (fst sc) = 16" for sc xs
    using absorb_keeps [where P = "\<lambda>sc. length (fst sc) = 16" and T = MD2Transform and blk = 16, OF that length_MD2Transform] .
  then show ?thesis using assms by (simp add: md2_digest_def Let_def)
qed

text \<open>The pieces go to the member that the algorithm names.\<close>

lemma digest_fold:
  "digestAlgorithm c = DA_MD5 \<Longrightarrow> fold (\<lambda>xs c. fst (R_DigestUpdate c xs)) xss c =
     c\<lparr>ctx_md5 := fold (\<lambda>xs c. MD5Update c xs) xss (ctx_md5 c)\<rparr>"
  "digestAlgorithm c = DA_MD4 \<Longrightarrow> fold (\<lambda>xs c. fst (R_DigestUpdate c xs)) xss c =
     c\<lparr>ctx_md4 := fold (\<lambda>xs c. MD4Update c xs) xss (ctx_md4 c)\<rparr>"
  "digestAlgorithm c = DA_MD2 \<Longrightarrow> fold (\<lambda>xs c. fst (R_DigestUpdate c xs)) xss c =
     c\<lparr>ctx_md2 := fold (\<lambda>xs c. MD2Update c xs) xss (ctx_md2 c)\<rparr>"
  by (induction xss arbitrary: c) (simp_all add: R_DigestUpdate_def da_defs)

lemma final_zero: "snd (MD5Final c) = md_zero" "snd (MD4Final c) = md_zero" "snd (MD2Final d) = MD2_zero"
  by (simp_all add: MD5Final_def MD4Final_def md_final_def MD2Final_def Let_def)

definition sign_algorithm :: "int \<Rightarrow> bool" where
  "sign_algorithm alg \<longleftrightarrow> alg = DA_MD2 \<or> alg = DA_MD4 \<or> alg = DA_MD5"

lemma digest_block_val:
  "R_DigestBlock m DA_MD5 = (0, fst (MD5Final (MD5Update (MD5Init md_zero) m)))"
  "R_DigestBlock m DA_MD4 = (0, fst (MD4Final (MD4Update (MD4Init md_zero) m)))"
  "R_DigestBlock m DA_MD2 = (0, fst (MD2Final (MD2Update (MD2Init MD2_zero) m)))"
  by (simp_all add: R_DigestBlock_def R_DigestInit_def R_DigestUpdate_def R_DigestFinal_def da_defs ID_OK_def
      Let_def case_prod_unfold R_DIGEST_zero_def)

lemma length_md2_block: "length (fst (MD2Final (MD2Update (MD2Init MD2_zero) m))) = 16"
proof -
  have i: "md2_inv (MD2Init MD2_zero)" "length (fst (fst (md2_obs (MD2Init MD2_zero)))) = 16"
    by (simp_all add: md2_inv_def md2_obs_def MD2Init_def MD2_zero_def)
  note u = md2_update_obs [OF i(1), of m]
  have "length (fst (fst (md2_obs (MD2Update (MD2Init MD2_zero) m)))) = 16"
    unfolding u(2) by (rule absorb_keeps [where P = "\<lambda>sc. length (fst sc) = 16"]) (simp_all add: i length_MD2Transform)
  then show ?thesis by (simp only: md2_final_obs [OF u(1)] length_md2_digest)
qed

lemma length_digest_block: "sign_algorithm alg \<Longrightarrow> length (snd (R_DigestBlock m alg)) = 16"
proof -
  have "length (fst (md_final T (md_update T (MD5Init md_zero) m))) = 16" 
    "length (fst (md_final T (md_update T (MD4Init md_zero) m))) = 16" if "\<And>st b. length (T st b) = 4" for T
    by (intro length_md_final length_md_state that; simp add: MD5Init_def MD4Init_def)+
  then show "sign_algorithm alg \<Longrightarrow> ?thesis"
    by (auto simp: sign_algorithm_def digest_block_val length_md2_block MD5Final_def MD4Final_def
        MD5Update_def MD4Update_def length_transforms)
qed

lemma digest_pieces_val:
  assumes "sign_algorithm alg" "digest_ctx_ok c" "xss \<noteq> []" "length (concat xss) + 64 \<le> 2 ^ 32"
  shows "\<exists>c'. R_DigestFinal (digest_pieces c alg xss) = (c', 0, snd (R_DigestBlock (concat xss) alg), 16) \<and>
           digestAlgorithm c' = alg \<and> digest_ctx_ok c'" "digestAlgorithm (digest_pieces c alg xss) = alg"
proof -
  have "length xs \<le> length (concat xss)" if "xs \<in> set xss" for xs
    using that by (induction xss) auto
  then have fits: "\<forall>xs \<in> set xss. md_fits xs" "md_fits (concat xss)"
    using assms(4) by (force simp: md_fits_def)+
  have ok: "length (buffer (ctx_md5 c)) = 64" "length (buffer (ctx_md4 c)) = 64" "length (md2_buffer (ctx_md2 c)) = 16"
    using assms(2) by (simp_all add: digest_ctx_ok_def)
  note z = zero_lengths
  note m5 = md5.digest_same [OF md_init_obs(1) [OF ok(1)] md_init_obs(1) [OF z(1)] md_init_obs(3) md_init_obs(5) assms(3) fits]
  note m4 = md4.digest_same [OF md_init_obs(2) [OF ok(2)] md_init_obs(2) [OF z(1)] md_init_obs(4) md_init_obs(6) assms(3) fits]
  have m2: "fst (MD2Final (fold (\<lambda>xs c. MD2Update c xs) xss (MD2Init (ctx_md2 c)))) =
    fst (MD2Final (MD2Update (MD2Init MD2_zero) (concat xss)))"
    by (rule md2.digest_same [OF md2_init_obs(1) [OF ok(3)] md2_init_obs(1) [OF z(2)] md2_init_obs(2) _ assms(3)]) simp_all
  consider "alg = DA_MD5" | "alg = DA_MD4" | "alg = DA_MD2" using assms(1) by (auto simp: sign_algorithm_def)
  then show "\<exists>c'. R_DigestFinal (digest_pieces c alg xss) = (c', 0, snd (R_DigestBlock (concat xss) alg), 16) \<and>
      digestAlgorithm c' = alg \<and> digest_ctx_ok c'"
  proof cases
    case 1
    have "digest_pieces c alg xss = c\<lparr>digestAlgorithm := alg, ctx_md5 := fold (\<lambda>xs c. MD5Update c xs) xss (MD5Init (ctx_md5 c))\<rparr>"
      unfolding 1 digest_pieces_def by (subst digest_fold(1)) (simp_all add: R_DigestInit_def da_defs Let_def)
    then show ?thesis using assms(2) m5
      by (simp add: 1 R_DigestFinal_def da_defs Let_def ID_OK_def digest_block_val [unfolded da_defs] digest_ctx_ok_def case_prod_unfold final_zero)
  next
    case 2
    have "digest_pieces c alg xss = c\<lparr>digestAlgorithm := alg, ctx_md4 := fold (\<lambda>xs c. MD4Update c xs) xss (MD4Init (ctx_md4 c))\<rparr>"
      unfolding 2 digest_pieces_def by (subst digest_fold(2)) (simp_all add: R_DigestInit_def da_defs Let_def)
    then show ?thesis using assms(2) m4
      by (simp add: 2 R_DigestFinal_def da_defs Let_def ID_OK_def digest_block_val [unfolded da_defs] digest_ctx_ok_def case_prod_unfold final_zero)
  next
    case 3
    have "digest_pieces c alg xss = c\<lparr>digestAlgorithm := alg, ctx_md2 := fold (\<lambda>xs c. MD2Update c xs) xss (MD2Init (ctx_md2 c))\<rparr>"
      unfolding 3 digest_pieces_def by (subst digest_fold(3)) (simp_all add: R_DigestInit_def da_defs Let_def)
    then show ?thesis using assms(2) m2
      by (simp add: 3 R_DigestFinal_def da_defs Let_def ID_OK_def digest_block_val [unfolded da_defs] digest_ctx_ok_def case_prod_unfold final_zero)
  qed
  have "digestAlgorithm (fold (\<lambda>xs c. fst (R_DigestUpdate c xs)) xss d) = digestAlgorithm d" for d
    by (induction xss arbitrary: d) (simp_all add: R_DigestUpdate_def Let_def)
  then show "digestAlgorithm (digest_pieces c alg xss) = alg" by (simp add: digest_pieces_def R_DigestInit_def Let_def)
qed

section \<open>A signature is verified by the message it was made for\<close>

lemma encode_digest_info:
  assumes "sign_algorithm alg" "length info0 = DIGEST_INFO_LEN" "length digest = 16"
  shows "R_EncodeDigestInfo info0 alg digest = DIGEST_INFO_A @ [word_of_int alg] @ DIGEST_INFO_B @ digest"
proof -
  have alg: "alg \<noteq> DA_SHS" using assms(1) by (auto simp: sign_algorithm_def da_defs)
  have l: "length info0 = 34" "DIGEST_INFO_A_LEN = 13" "DIGEST_INFO_B_LEN = 4" "length DIGEST_INFO_A = 13" "length DIGEST_INFO_B = 4"
    using assms(2) by (simp_all add: DIGEST_INFO_LEN_def DIGEST_INFO_A_LEN_def DIGEST_INFO_B_LEN_def DIGEST_INFO_A_def DIGEST_INFO_B_def)
  have "drop 13 (take 14 (info0[13 := w])) = [w]" for w
    using take_Suc_conv_app_nth [of 13 "info0[13 := w]"] l(1) by simp
  then show ?thesis
    by (simp add: R_EncodeDigestInfo_def Let_def mem_write_def alg l assms(3))
qed

lemma digest_info_inj:
  assumes "sign_algorithm a" "sign_algorithm b" "length d = 16" "length e = 16"
  shows "DIGEST_INFO_A @ [word_of_int a] @ DIGEST_INFO_B @ d = DIGEST_INFO_A @ [word_of_int b] @ DIGEST_INFO_B @ e \<longleftrightarrow> a = b \<and> d = e"
  using assms(1,2) by (auto simp: sign_algorithm_def da_defs)

lemma length_digest_info: "length (DIGEST_INFO_A @ [w] @ DIGEST_INFO_B @ d) = 18 + length d" "DIGEST_INFO_LEN = 34"
  by (simp_all add: DIGEST_INFO_LEN_def DIGEST_INFO_A_LEN_def DIGEST_INFO_B_LEN_def DIGEST_INFO_A_def DIGEST_INFO_B_def)

lemma sign_pieces:
  assumes key: "rsa_key pk sk" "45 \<le> (pub_bits pk + 7) div 8"
    and c: "sign_algorithm a" "digest_ctx_ok c" "length info = DIGEST_INFO_LEN"
    and ps: "ps \<noteq> []" "length (concat ps) + 64 \<le> 2 ^ 32"
  defines "e \<equiv> DIGEST_INFO_A @ [word_of_int a] @ DIGEST_INFO_B @ snd (R_DigestBlock (concat ps) a)"
  shows "\<exists>c' s. R_SignFinal info (digest_pieces c a ps) sk = Some (c', 0, s) \<and> length s = (pub_bits pk + 7) div 8 \<and>
    RSAPublicDecrypt s pk = Some (Inr e)"
proof -
  obtain c' where d: "R_DigestFinal (digest_pieces c a ps) = (c', 0, snd (R_DigestBlock (concat ps) a), 16)" "digestAlgorithm c' = a"
    using digest_pieces_val(1) [OF c(1,2) ps] by blast
  note l = length_digest_block [OF c(1), of "concat ps"]
  have enc: "R_EncodeDigestInfo info a (snd (R_DigestBlock (concat ps) a)) = e"
    unfolding e_def by (rule encode_digest_info [OF c(1,3) l])
  have "length e + 11 \<le> (pub_bits pk + 7) div 8"
    unfolding e_def length_digest_info(1) using l key(2) by simp
  then obtain s where s: "RSAPrivateEncrypt e sk = Some (Inr s)" "length s = (pub_bits pk + 7) div 8" "RSAPublicDecrypt s pk = Some (Inr e)"
    using rsa_sign_verify [OF key(1)] by blast
  have "digestAlgorithm (digest_pieces c a ps) \<noteq> DA_SHS"
    using c(1) digest_pieces_val(2) [OF c(1,2) ps] by (auto simp: sign_algorithm_def da_defs)
  then show ?thesis using s by (simp add: R_SignFinal_def d enc)
qed

lemma verify_pieces:
  assumes c: "sign_algorithm b" "digest_ctx_ok c" "length info = DIGEST_INFO_LEN"
    and qs: "qs \<noteq> []" "length (concat qs) + 64 \<le> 2 ^ 32"
    and s: "sign_algorithm a" "length d = 16" "length s \<le> MAX_SIGNATURE_LEN"
      "RSAPublicDecrypt s pk = Some (Inr (DIGEST_INFO_A @ [word_of_int a] @ DIGEST_INFO_B @ d))"
  shows "\<exists>c'. R_VerifyFinal info (digest_pieces c b qs) s pk =
    Some (c', if a = b \<and> d = snd (R_DigestBlock (concat qs) b) then ID_OK else RE_SIGNATURE)"
proof -
  obtain c' where f: "R_DigestFinal (digest_pieces c b qs) = (c', 0, snd (R_DigestBlock (concat qs) b), 16)" "digestAlgorithm c' = b"
    using digest_pieces_val(1) [OF c(1,2) qs] by blast
  note l = length_digest_block [OF c(1), of "concat qs"]
  define e g where "e = DIGEST_INFO_A @ [word_of_int b] @ DIGEST_INFO_B @ snd (R_DigestBlock (concat qs) b)"
    and "g = DIGEST_INFO_A @ [word_of_int a] @ DIGEST_INFO_B @ d"
  have enc: "R_EncodeDigestInfo info b (snd (R_DigestBlock (concat qs) b)) = e"
    unfolding e_def by (rule encode_digest_info [OF c(1,3) l])
  have len: "length g = DIGEST_INFO_LEN" "length e = DIGEST_INFO_LEN"
    unfolding e_def g_def length_digest_info using l s(2) by simp_all
  have eq: "g = e \<longleftrightarrow> a = b \<and> d = snd (R_DigestBlock (concat qs) b)"
    unfolding e_def g_def by (rule digest_info_inj [OF s(1) c(1) s(2) l])
  have t: "take DIGEST_INFO_LEN g = g" "take DIGEST_INFO_LEN e = e" using len by simp_all
  have "R_CheckDigestInfo e e = 0" by (simp add: R_CheckDigestInfo_def ID_OK_def)
  moreover have "digestAlgorithm (digest_pieces c b qs) \<noteq> DA_SHS"
    using c(1) digest_pieces_val(2) [OF c(1,2) qs] by (auto simp: sign_algorithm_def da_defs)
  ultimately show ?thesis
    unfolding R_VerifyFinal_def eq [symmetric] using s(3)
    by (simp add: f enc s(4) [folded g_def] len t ID_OK_def RE_SIGNATURE_def Let_def)
qed

text \<open>
  Signing the pieces \<open>ps\<close> with one algorithm and verifying the pieces \<open>qs\<close> with
  another: accepted exactly for equal algorithms and digests.
\<close>

lemma sign_verify_pieces:
  assumes "rsa_key pk sk" "45 \<le> (pub_bits pk + 7) div 8"
    "sign_algorithm a" "digest_ctx_ok c" "length info = DIGEST_INFO_LEN" "ps \<noteq> []" "length (concat ps) + 64 \<le> 2 ^ 32"
    "sign_algorithm b" "digest_ctx_ok d" "length info' = DIGEST_INFO_LEN" "qs \<noteq> []" "length (concat qs) + 64 \<le> 2 ^ 32"
  shows "\<exists>c' s d'. R_SignFinal info (digest_pieces c a ps) sk = Some (c', ID_OK, s) \<and> length s = (pub_bits pk + 7) div 8 \<and>
    R_VerifyFinal info' (digest_pieces d b qs) s pk =
      Some (d', if a = b \<and> R_DigestBlock (concat ps) a = R_DigestBlock (concat qs) b then ID_OK else RE_SIGNATURE)"
proof -
  obtain c' s where s: "R_SignFinal info (digest_pieces c a ps) sk = Some (c', 0, s)" "length s = (pub_bits pk + 7) div 8"
    "RSAPublicDecrypt s pk = Some (Inr (DIGEST_INFO_A @ [word_of_int a] @ DIGEST_INFO_B @ snd (R_DigestBlock (concat ps) a)))"
    using sign_pieces [OF assms(1-7)] by blast
  have len: "length s \<le> MAX_SIGNATURE_LEN"
    using s(2) rsa_len [OF assms(1)] by (simp add: MAX_SIGNATURE_LEN_def MAX_RSA_MODULUS_LEN_def)
  obtain d' where "R_VerifyFinal info' (digest_pieces d b qs) s pk = Some (d',
      if a = b \<and> snd (R_DigestBlock (concat ps) a) = snd (R_DigestBlock (concat qs) b) then ID_OK else RE_SIGNATURE)"
    using verify_pieces [OF assms(8-12) assms(3) length_digest_block [OF assms(3)] len s(3)] by blast
  moreover have "fst (R_DigestBlock m a) = 0" for m
    using assms(3) by (auto simp: sign_algorithm_def digest_block_val)
  ultimately show ?thesis using s(1,2) by (auto simp: prod_eq_iff ID_OK_def)
qed

text \<open>The block operations are the streaming ones on a single piece.\<close>

lemma block_pieces:
  assumes "sign_algorithm a"
  shows "R_SignBlock info m a sk = map_option snd (R_SignFinal info (digest_pieces R_DIGEST_zero a [m]) sk)"
    "R_VerifyBlockSignature info m s a pk = map_option snd (R_VerifyFinal info (digest_pieces R_DIGEST_zero a [m]) s pk)"
  using assms
  by (auto simp: sign_algorithm_def R_SignBlock_def R_VerifyBlockSignature_def R_SignInit_def R_VerifyInit_def
      R_SignUpdate_def R_VerifyUpdate_def R_DigestInit_def R_DigestUpdate_def digest_pieces_def da_defs ID_OK_def Let_def)

lemma digest_zero_ok: "digest_ctx_ok R_DIGEST_zero"
  by (simp add: digest_ctx_ok_def R_DIGEST_zero_def)

lemma block_sign_verify:
  assumes "rsa_key pk sk" "45 \<le> (pub_bits pk + 7) div 8" "sign_algorithm a" "length m + 64 \<le> 2 ^ 32"
    "length info = DIGEST_INFO_LEN" "length info' = DIGEST_INFO_LEN"
  shows "\<exists>s. R_SignBlock info m a sk = Some (0, s) \<and> length s = (pub_bits pk + 7) div 8 \<and>
    R_VerifyBlockSignature info' m s a pk = Some 0"
proof -
  have l: "length (concat [m]) + 64 \<le> 2 ^ 32" using assms(4) by simp
  show ?thesis
    using sign_verify_pieces [OF assms(1,2,3) digest_zero_ok assms(5) _ l assms(3) digest_zero_ok assms(6) _ l]
    unfolding block_pieces [OF assms(3)] by (auto simp: ID_OK_def)
qed

end
