(* ===== verification/Envelope.thy ===== *)
theory Envelope
  imports DES_Modes Signature
begin

text \<open>
  Envelopes, from \<^verbatim>\<open>HBase/RSAEuro/r_enhanc.c\<close>: a message encrypted under a random key, and the key
  under the public keys of the receivers.  As in a digest context, the members of the union of the ciphers
  stand side by side.  \<open>W\<close> is the width of \<^verbatim>\<open>unsigned long\<close>, on which the block
  function depends.
\<close>

definition EA_DES_CBC :: int where "EA_DES_CBC = 1"
definition EA_DES_EDE2_CBC :: int where "EA_DES_EDE2_CBC = 2"
definition EA_DES_EDE3_CBC :: int where "EA_DES_EDE3_CBC = 3"
definition EA_DESX_CBC :: int where "EA_DESX_CBC = 4"

definition RE_KEY :: int where "RE_KEY = 0x404"
definition RE_ENCRYPTION_ALGORITHM :: int where "RE_ENCRYPTION_ALGORITHM = 0x40D"

definition MAX_ENCRYPTED_KEY_LEN :: nat where "MAX_ENCRYPTED_KEY_LEN = MAX_RSA_MODULUS_LEN"

lemmas ea_defs = EA_DES_CBC_def EA_DES_EDE2_CBC_def EA_DES_EDE3_CBC_def EA_DESX_CBC_def

record R_ENVELOPE_CTX =
  encryptionAlgorithm :: int
  ctx_des :: DES_CBC_CTX
  ctx_des3 :: DES3_CBC_CTX
  ctx_desx :: DESX_CBC_CTX
  env_buffer :: bytes
  bufferLen :: nat

section \<open>The cipher of an envelope\<close>

definition CipherInit ::
  "R_ENVELOPE_CTX \<Rightarrow> int \<Rightarrow> bytes \<Rightarrow> bytes \<Rightarrow> bool \<Rightarrow> R_ENVELOPE_CTX \<times> int" where
  "CipherInit context alg key v enc =
     (if alg = EA_DES_CBC then (context\<lparr>ctx_des := DES_CBCInit key v enc\<rparr>, ID_OK)
      else if alg = EA_DESX_CBC then (context\<lparr>ctx_desx := DESX_CBCInit key v enc\<rparr>, ID_OK)
      else if alg = EA_DES_EDE2_CBC \<or> alg = EA_DES_EDE3_CBC then (context\<lparr>ctx_des3 := DES3_CBCInit key v enc\<rparr>, ID_OK)
      else (context, RE_ENCRYPTION_ALGORITHM))"

text \<open>
  The status of the update is dropped, and an update that fails writes nothing; nor does an algorithm that
  is none.
\<close>

definition EncryptBlk :: "'l::len itself \<Rightarrow> R_ENVELOPE_CTX \<Rightarrow> bytes \<Rightarrow> R_ENVELOPE_CTX \<times> bytes" where
  "EncryptBlk W context input =
     (let alg = encryptionAlgorithm context
      in if alg = EA_DES_CBC then
           (case DES_CBCUpdate W (ctx_des context) input of
              Inl _ \<Rightarrow> (context, []) | Inr (c, out) \<Rightarrow> (context\<lparr>ctx_des := c\<rparr>, out))
         else if alg = EA_DESX_CBC then
           (case DESX_CBCUpdate W (ctx_desx context) input of
              Inl _ \<Rightarrow> (context, []) | Inr (c, out) \<Rightarrow> (context\<lparr>ctx_desx := c\<rparr>, out))
         else if alg = EA_DES_EDE2_CBC \<or> alg = EA_DES_EDE3_CBC then
           (case DES3_CBCUpdate W (ctx_des3 context) input of
              Inl _ \<Rightarrow> (context, []) | Inr (c, out) \<Rightarrow> (context\<lparr>ctx_des3 := c\<rparr>, out))
         else (context, []))"

definition RestartCipher :: "R_ENVELOPE_CTX \<Rightarrow> R_ENVELOPE_CTX" where
  "RestartCipher context =
     (let alg = encryptionAlgorithm context
      in if alg = EA_DES_CBC then context\<lparr>ctx_des := DES_CBCRestart (ctx_des context)\<rparr>
         else if alg = EA_DESX_CBC then context\<lparr>ctx_desx := DESX_CBCRestart (ctx_desx context)\<rparr>
         else if alg = EA_DES_EDE2_CBC \<or> alg = EA_DES_EDE3_CBC then context\<lparr>ctx_des3 := DES3_CBCRestart (ctx_des3 context)\<rparr>
         else context)"

section \<open>Sealing\<close>

fun seal_keys ::
  "bytes \<Rightarrow> R_RSA_PUBLIC_KEY list \<Rightarrow> R_RANDOM_STRUCT \<Rightarrow> (bytes list \<times> int \<times> R_RANDOM_STRUCT) option" where
  "seal_keys key [] random = Some ([], 0, random)"
| "seal_keys key (pk # pks) random =
     (case RSAPublicEncrypt key pk random of
        None \<Rightarrow> None
      | Some (Inl _, random) \<Rightarrow> Some ([], RE_PUBLIC_KEY, random)
      | Some (Inr encrypted, random) \<Rightarrow>
          (case seal_keys key pks random of
             None \<Rightarrow> None
           | Some (eks, status, random) \<Rightarrow> Some (encrypted # eks, status, random)))"

text \<open>The context, the encrypted keys, the initialisation vector, the status and the random object.\<close>

definition R_SealInit ::
  "R_ENVELOPE_CTX \<Rightarrow> R_RSA_PUBLIC_KEY list \<Rightarrow> int \<Rightarrow> R_RANDOM_STRUCT \<Rightarrow>
   (R_ENVELOPE_CTX \<times> bytes list \<times> bytes \<times> int \<times> R_RANDOM_STRUCT) option" where
  "R_SealInit context publicKeys alg random =
     (let context = context\<lparr>encryptionAlgorithm := alg\<rparr>;
          keyLen = (if alg = EA_DES_CBC then 8 else 24)
      in case R_GenerateBytes keyLen random of
           Inl status \<Rightarrow> Some (context, [], [], status, random)
         | Inr (key, random) \<Rightarrow>
             (case R_GenerateBytes 8 random of
                Inl status \<Rightarrow> Some (context, [], [], status, random)
              | Inr (v, random) \<Rightarrow>
                  let key = (if alg = EA_DES_EDE2_CBC then mem_write key 16 (take 8 key) else key);
                      (context, status) = CipherInit context alg key v True
                  in if status \<noteq> 0 then Some (context, [], v, status, random)
                     else
                       (case seal_keys key publicKeys random of
                          None \<Rightarrow> None
                        | Some (eks, status, random) \<Rightarrow>
                            Some (if status = 0 then context\<lparr>bufferLen := 0\<rparr> else context, eks, v, status, random))))"

definition R_SealUpdate :: "'l::len itself \<Rightarrow> R_ENVELOPE_CTX \<Rightarrow> bytes \<Rightarrow> R_ENVELOPE_CTX \<times> bytes" where
  "R_SealUpdate W context partIn =
     (let temp = 8 - bufferLen context
      in if length partIn < temp
         then (context\<lparr>env_buffer := mem_write (env_buffer context) (bufferLen context) partIn,
                       bufferLen := bufferLen context + length partIn\<rparr>, [])
         else
           let context = context\<lparr>env_buffer := mem_write (env_buffer context) (bufferLen context) (take temp partIn)\<rparr>;
               (context, out) = EncryptBlk W context (env_buffer context);
               partIn = drop temp partIn;
               temp = 8 * (length partIn div 8);
               (context, out2) = EncryptBlk W context (take temp partIn);
               partIn = drop temp partIn
           in (context\<lparr>env_buffer := mem_write (env_buffer context) 0 partIn, bufferLen := length partIn\<rparr>, out @ out2))"

definition R_SealFinal :: "'l::len itself \<Rightarrow> R_ENVELOPE_CTX \<Rightarrow> R_ENVELOPE_CTX \<times> bytes" where
  "R_SealFinal W context =
     (let padLen = 8 - bufferLen context;
          context = context\<lparr>env_buffer := mem_write (env_buffer context) (bufferLen context) (replicate padLen (word_of_nat padLen))\<rparr>;
          (context, out) = EncryptBlk W context (env_buffer context)
      in ((RestartCipher context)\<lparr>bufferLen := 0\<rparr>, out))"

section \<open>Opening\<close>

definition R_OpenInit ::
  "R_ENVELOPE_CTX \<Rightarrow> int \<Rightarrow> bytes \<Rightarrow> bytes \<Rightarrow> R_RSA_PRIVATE_KEY \<Rightarrow> (R_ENVELOPE_CTX \<times> int) option" where
  "R_OpenInit context alg encryptedKey v privateKey =
     (if length encryptedKey > MAX_ENCRYPTED_KEY_LEN then Some (context, RE_LEN)
      else
        let context = context\<lparr>encryptionAlgorithm := alg\<rparr>
        in case RSAPrivateDecrypt encryptedKey privateKey of
             None \<Rightarrow> None
           | Some (Inl _) \<Rightarrow> Some (context, RE_PRIVATE_KEY)
           | Some (Inr key) \<Rightarrow>
               if length key \<noteq> (if alg = EA_DES_CBC then 8 else 24) then Some (context, RE_PRIVATE_KEY)
               else
                 let (context, status) = CipherInit context alg key v False
                 in Some (if status = 0 then context\<lparr>bufferLen := 0\<rparr> else context, status))"

definition R_OpenUpdate :: "'l::len itself \<Rightarrow> R_ENVELOPE_CTX \<Rightarrow> bytes \<Rightarrow> R_ENVELOPE_CTX \<times> bytes" where
  "R_OpenUpdate W context partIn =
     (let tempLen = 8 - bufferLen context
      in if length partIn \<le> tempLen
         then (context\<lparr>env_buffer := mem_write (env_buffer context) (bufferLen context) partIn,
                       bufferLen := bufferLen context + length partIn\<rparr>, [])
         else
           let context = context\<lparr>env_buffer := mem_write (env_buffer context) (bufferLen context) (take tempLen partIn)\<rparr>;
               (context, out) = EncryptBlk W context (env_buffer context);
               partIn = drop tempLen partIn;
               tempLen = 8 * ((length partIn - 1) div 8);
               (context, out2) = EncryptBlk W context (take tempLen partIn);
               partIn = drop tempLen partIn
           in (context\<lparr>env_buffer := mem_write (env_buffer context) 0 partIn, bufferLen := length partIn\<rparr>, out @ out2))"

text \<open>\<^verbatim>\<open>PADDING[padLen]\<close> is the string of \<open>padLen\<close> bytes \<open>padLen\<close>.\<close>

definition R_OpenFinal :: "'l::len itself \<Rightarrow> R_ENVELOPE_CTX \<Rightarrow> R_ENVELOPE_CTX \<times> int \<times> bytes" where
  "R_OpenFinal W context =
     (if bufferLen context = 0 then (context, 0, [])
      else if bufferLen context \<noteq> 8 then (context, RE_KEY, [])
      else
        let (context, lastPart) = EncryptBlk W context (env_buffer context);
            padLen = unat (lastPart ! 7)
        in if padLen = 0 \<or> padLen > 8 then (context, RE_KEY, [])
           else if drop (8 - padLen) lastPart \<noteq> replicate padLen (word_of_nat padLen) then (context, RE_KEY, [])
           else ((RestartCipher context)\<lparr>bufferLen := 0\<rparr>, 0, take (8 - padLen) lastPart))"

section \<open>The cipher as one function on whole blocks\<close>

text \<open>
  What a context stands for: the cipher without its buffer, and the bytes the buffer holds.
\<close>

definition cip :: "R_ENVELOPE_CTX \<Rightarrow> R_ENVELOPE_CTX" where
  "cip c = c\<lparr>env_buffer := [], bufferLen := 0\<rparr>"

definition pend :: "R_ENVELOPE_CTX \<Rightarrow> bytes" where
  "pend c = take (bufferLen c) (env_buffer c)"

definition cipher_algorithm :: "int \<Rightarrow> bool" where
  "cipher_algorithm alg \<longleftrightarrow> alg = EA_DES_CBC \<or> alg = EA_DESX_CBC \<or> alg = EA_DES_EDE2_CBC \<or> alg = EA_DES_EDE3_CBC"

definition env_ok :: "R_ENVELOPE_CTX \<Rightarrow> bool" where
  "env_ok c \<longleftrightarrow> cipher_algorithm (encryptionAlgorithm c) \<and> length (env_buffer c) = 8 \<and> bufferLen c \<le> 8"

lemma EncryptBlk_buffer:
  "EncryptBlk W (c\<lparr>env_buffer := b, bufferLen := n\<rparr>) xs =
     (case EncryptBlk W c xs of (d, out) \<Rightarrow> (d\<lparr>env_buffer := b, bufferLen := n\<rparr>, out))"
  by (simp add: EncryptBlk_def Let_def split: sum.split prod.split)

lemma EncryptBlk_keeps:
  "env_buffer (fst (EncryptBlk W c xs)) = env_buffer c" "bufferLen (fst (EncryptBlk W c xs)) = bufferLen c"
  "encryptionAlgorithm (fst (EncryptBlk W c xs)) = encryptionAlgorithm c"
  by (simp_all add: EncryptBlk_def Let_def split: sum.split prod.split)

lemma EncryptBlk_cip:
  "snd (EncryptBlk W (cip c) xs) = snd (EncryptBlk W c xs)"
  "fst (EncryptBlk W (cip c) xs) = cip (fst (EncryptBlk W c xs))"
  by (simp_all add: cip_def EncryptBlk_buffer case_prod_unfold)

text \<open>The three kinds of cipher, each with whole blocks.\<close>

lemma EncryptBlk_val:
  "encryptionAlgorithm c = EA_DES_CBC \<Longrightarrow> 8 dvd length xs \<Longrightarrow>
     EncryptBlk W c xs = map_prod (\<lambda>d. c\<lparr>ctx_des := d\<rparr>) id (cbc_blocks (DES_body W) (ctx_des c) xs)"
  "encryptionAlgorithm c = EA_DESX_CBC \<Longrightarrow> 8 dvd length xs \<Longrightarrow>
     EncryptBlk W c xs = map_prod (\<lambda>d. c\<lparr>ctx_desx := d\<rparr>) id (cbc_blocks (DESX_body W) (ctx_desx c) xs)"
  "encryptionAlgorithm c = EA_DES_EDE2_CBC \<or> encryptionAlgorithm c = EA_DES_EDE3_CBC \<Longrightarrow> 8 dvd length xs \<Longrightarrow>
     EncryptBlk W c xs = map_prod (\<lambda>d. c\<lparr>ctx_des3 := d\<rparr>) id (cbc_blocks (DES3_body W) (ctx_des3 c) xs)"
proof -
  assume "8 dvd length xs"
  then have m: "length xs mod 8 = 0" by simp
  show "encryptionAlgorithm c = EA_DES_CBC \<Longrightarrow>
     EncryptBlk W c xs = map_prod (\<lambda>d. c\<lparr>ctx_des := d\<rparr>) id (cbc_blocks (DES_body W) (ctx_des c) xs)"
    by (simp add: EncryptBlk_def DES_CBCUpdate_def cbc_update_def m split: prod.split)
  show "encryptionAlgorithm c = EA_DESX_CBC \<Longrightarrow>
     EncryptBlk W c xs = map_prod (\<lambda>d. c\<lparr>ctx_desx := d\<rparr>) id (cbc_blocks (DESX_body W) (ctx_desx c) xs)"
    by (simp add: EncryptBlk_def ea_defs DESX_CBCUpdate_def cbc_update_def m split: prod.split)
  show "encryptionAlgorithm c = EA_DES_EDE2_CBC \<or> encryptionAlgorithm c = EA_DES_EDE3_CBC \<Longrightarrow>
     EncryptBlk W c xs = map_prod (\<lambda>d. c\<lparr>ctx_des3 := d\<rparr>) id (cbc_blocks (DES3_body W) (ctx_des3 c) xs)"
    by (auto simp: EncryptBlk_def ea_defs DES3_CBCUpdate_def cbc_update_def m split: prod.split)
qed

lemma cipher_cases:
  assumes "cipher_algorithm alg"
  obtains "alg = EA_DES_CBC" | "alg = EA_DESX_CBC" | "alg = EA_DES_EDE2_CBC \<or> alg = EA_DES_EDE3_CBC"
  using assms unfolding cipher_algorithm_def by blast

lemma EncryptBlk_append:
  assumes "cipher_algorithm (encryptionAlgorithm c)" "8 dvd length xs" "8 dvd length ys"
  shows "EncryptBlk W c (xs @ ys) =
    (case EncryptBlk W c xs of (d, o1) \<Rightarrow> case EncryptBlk W d ys of (e, o2) \<Rightarrow> (e, o1 @ o2))"
proof -
  have n: "8 dvd length (xs @ ys)" using assms(2,3) by simp
  from assms(1) show ?thesis
    by (cases rule: cipher_cases)
      (simp_all add: EncryptBlk_val n assms(2,3) cbc_blocks_append [OF assms(2)] case_prod_unfold del: length_append)
qed

lemma EncryptBlk_length:
  assumes "cipher_algorithm (encryptionAlgorithm c)" "8 dvd length xs"
  shows "length (snd (EncryptBlk W c xs)) = length xs"
proof -
  have l: "8 * (length xs div 8) = length xs" using assms(2) by simp
  from assms(1) show ?thesis
    by (cases rule: cipher_cases) (simp_all add: EncryptBlk_val assms(2) cbc_blocks_length l)
qed

lemma EncryptBlk_Nil: "cipher_algorithm (encryptionAlgorithm c) \<Longrightarrow> EncryptBlk W c [] = (c, [])"
  by (auto simp: EncryptBlk_def Let_def DES_CBCUpdate_def DESX_CBCUpdate_def DES3_CBCUpdate_def cbc_update_def
      cbc_blocks.simps)

text \<open>A restart brings back the cipher that was initialised.\<close>

lemma body_restart: "cbc_restart (fst (DES_body W c x)) = cbc_restart c" "cbc_restart (fst (DESX_body W d x)) = cbc_restart d"
  "cbc_restart (fst (DES3_body W e x)) = cbc_restart e"
  by (simp_all add: body_defs cbc_restart_def case_prod_unfold)

lemma RestartCipher_EncryptBlk:
  assumes "cipher_algorithm (encryptionAlgorithm c)" "8 dvd length xs"
  shows "RestartCipher (fst (EncryptBlk W c xs)) = RestartCipher c"
  using assms(1)
  by (cases rule: cipher_cases)
    (auto simp: EncryptBlk_val assms(2) RestartCipher_def ea_defs DES_CBCRestart_def DESX_CBCRestart_def
      DES3_CBCRestart_def cbc_blocks_keeps [where f = cbc_restart, OF body_restart(1)]
      cbc_blocks_keeps [where f = cbc_restart, OF body_restart(2)] cbc_blocks_keeps [where f = cbc_restart, OF body_restart(3)])

section \<open>Sealing and opening in pieces\<close>

text \<open>An update runs the cipher over the whole blocks of what is pending and what is new.\<close>

lemma pend_write:
  assumes "length (env_buffer c) = 8" "bufferLen c + length xs \<le> 8"
  shows "take (bufferLen c + length xs) (mem_write (env_buffer c) (bufferLen c) xs) = pend c @ xs"
  using assms by (simp add: take_mem_write pend_def)


lemma cip_simps [simp]:
  "cip (c\<lparr>env_buffer := b\<rparr>) = cip c" "cip (c\<lparr>bufferLen := n\<rparr>) = cip c"
  "encryptionAlgorithm (cip c) = encryptionAlgorithm c"
  by (simp_all add: cip_def)

text \<open>
  The whole blocks of an update: \<open>n\<close> bytes go through the cipher after the block that fills the
  buffer.
\<close>

definition env_run :: "'l::len itself \<Rightarrow> R_ENVELOPE_CTX \<Rightarrow> bytes \<Rightarrow> nat \<Rightarrow> R_ENVELOPE_CTX \<times> bytes" where
  "env_run W c xs n =
     (let c = c\<lparr>env_buffer := mem_write (env_buffer c) (bufferLen c) (take (8 - bufferLen c) xs)\<rparr>;
          rest = drop (8 - bufferLen c) xs;
          (c, o1) = EncryptBlk W c (env_buffer c);
          (c, o2) = EncryptBlk W c (take n rest)
      in (c\<lparr>env_buffer := mem_write (env_buffer c) 0 (drop n rest), bufferLen := length (drop n rest)\<rparr>, o1 @ o2))"

definition env_step :: "'l::len itself \<Rightarrow> R_ENVELOPE_CTX \<Rightarrow> bytes \<Rightarrow> nat \<Rightarrow> R_ENVELOPE_CTX \<times> bytes \<Rightarrow> bool" where
  "env_step W c t k r \<longleftrightarrow>
     (case r of (c', out) \<Rightarrow>
        EncryptBlk W (cip c) (take k t) = (cip c', out) \<and> pend c' = drop k t \<and> env_ok c' \<and>
        length (pend c') = bufferLen c')"

lemma env_run_step:
  assumes ok: "env_ok c" and n: "8 dvd n" "bufferLen c + length xs \<ge> 8 + n" "bufferLen c + length xs \<le> 16 + n"
  shows "env_step W c (pend c @ xs) (8 + n) (env_run W c xs n)"
proof -
  note o = ok [unfolded env_ok_def]
  define temp where "temp = 8 - bufferLen c"
  define b where "b = mem_write (env_buffer c) (bufferLen c) (take temp xs)"
  have lp: "length (pend c) = bufferLen c" using o by (simp add: pend_def)
  have lt: "length (take temp xs) = temp" using n(2) by (simp add: temp_def)
  have lb: "length b = 8" using o lt by (simp add: b_def temp_def)
  have b: "b = take 8 (pend c @ xs)"
    using o lt lb by (simp add: b_def mem_write_def pend_def temp_def)
  have r: "drop temp xs = drop 8 (pend c @ xs)" using o by (simp add: lp temp_def)
  have t: "take (8 + n) (pend c @ xs) = b @ take n (drop temp xs)" by (simp only: take_add b r)
  define c1 where "c1 = c\<lparr>env_buffer := b\<rparr>"
  have c1: "env_buffer c1 = b" "bufferLen c1 = bufferLen c" by (simp_all add: c1_def)
  obtain c2 o1 where e1: "EncryptBlk W c1 b = (c2, o1)" by (rule prod.exhaust)
  obtain c3 o2 where e2: "EncryptBlk W c2 (take n (drop temp xs)) = (c3, o2)" by (rule prod.exhaust)
  have alg: "encryptionAlgorithm c2 = encryptionAlgorithm c" "encryptionAlgorithm c3 = encryptionAlgorithm c"
    using EncryptBlk_keeps(3) [of W c1 b] EncryptBlk_keeps(3) [of W c2 "take n (drop temp xs)"] e1 e2 by (simp_all add: c1_def)
  have l3: "length (env_buffer c3) = 8"
    using EncryptBlk_keeps(1) [of W c1 b] EncryptBlk_keeps(1) [of W c2 "take n (drop temp xs)"] e1 e2 lb by (simp add: c1_def)
  have e1': "EncryptBlk W (cip c) b = (cip c2, o1)"
    using EncryptBlk_cip [of W c1 b] e1 by (simp add: c1_def prod_eq_iff)
  have e2': "EncryptBlk W (cip c2) (take n (drop temp xs)) = (cip c3, o2)"
    using EncryptBlk_cip [of W c2 "take n (drop temp xs)"] e2 by (simp add: prod_eq_iff)
  have lr: "length (take n (drop temp xs)) = n" "length (drop n (drop temp xs)) \<le> 8"
    using n(2,3) o by (simp_all add: temp_def)
  have "EncryptBlk W (cip c) (take (8 + n) (pend c @ xs)) = (cip c3, o1 @ o2)"
    unfolding t using EncryptBlk_append [of "cip c" b "take n (drop temp xs)" W] o lb n(1) lr
    by (simp add: e1' e2')
  moreover define rest where "rest = drop n (drop temp xs)"
  define c4 where "c4 = c3\<lparr>env_buffer := mem_write (env_buffer c3) 0 rest, bufferLen := length rest\<rparr>"
  have run: "env_run W c xs n = (c4, o1 @ o2)"
    unfolding env_run_def temp_def [symmetric] b_def [symmetric] c1_def [symmetric] c4_def rest_def
    by (simp add: Let_def c1 temp_def [symmetric] e1 e2)
  have "length rest \<le> 8" using lr(2) by (simp only: rest_def)
  then have "pend c4 = rest" "env_ok c4" "bufferLen c4 = length rest" "cip c4 = cip c3"
    using l3 o alg by (simp_all add: c4_def env_ok_def pend_def mem_write_def)
  moreover have "rest = drop (8 + n) (pend c @ xs)" unfolding rest_def by (simp only: r drop_drop add.commute)
  ultimately show ?thesis unfolding run by (simp add: env_step_def del: drop_append take_append)
qed

lemma env_accumulate:
  assumes ok: "env_ok c" and n: "bufferLen c + length xs \<le> 8"
  shows "env_step W c (pend c @ xs) 0
    (c\<lparr>env_buffer := mem_write (env_buffer c) (bufferLen c) xs, bufferLen := bufferLen c + length xs\<rparr>, [])"
  using assms EncryptBlk_Nil [of "cip c" W]
  by (simp add: env_step_def env_ok_def pend_def take_mem_write)

lemma seal_update:
  assumes "env_ok c" "bufferLen c < 8"
  shows "env_step W c (pend c @ xs) (8 * (length (pend c @ xs) div 8)) (R_SealUpdate W c xs)"
proof -
  have lp: "length (pend c) = bufferLen c" using assms(1) by (simp add: pend_def env_ok_def)
  show ?thesis
  proof (cases "length xs < 8 - bufferLen c")
    case True
    then have "R_SealUpdate W c xs =
        (c\<lparr>env_buffer := mem_write (env_buffer c) (bufferLen c) xs, bufferLen := bufferLen c + length xs\<rparr>, [])"
      by (simp add: R_SealUpdate_def)
    moreover have "8 * (length (pend c @ xs) div 8) = 0" using True by (simp add: lp)
    ultimately show ?thesis using env_accumulate [OF assms(1), of xs W] True by simp
  next
    case False
    define r where "r = length (drop (8 - bufferLen c) xs)"
    define n where "n = 8 * (r div 8)"
    have "R_SealUpdate W c xs = env_run W c xs n"
      using False by (simp add: R_SealUpdate_def env_run_def n_def r_def Let_def case_prod_unfold)
    moreover have len: "bufferLen c + length xs = 8 + r" using False assms(2) by (simp add: r_def)
    then have "length (pend c @ xs) = 8 + r" by (simp add: lp)
    then have "8 * (length (pend c @ xs) div 8) = 8 + n" by (simp add: n_def)
    moreover have "bufferLen c + length xs \<ge> 8 + n" "bufferLen c + length xs \<le> 16 + n"
      unfolding len n_def by presburger+
    ultimately show ?thesis using env_run_step [OF assms(1), of n xs W] by (simp add: n_def)
  qed
qed

lemma open_update:
  assumes "env_ok c"
  shows "env_step W c (pend c @ xs) (8 * ((length (pend c @ xs) - 1) div 8)) (R_OpenUpdate W c xs)"
proof -
  have lp: "length (pend c) = bufferLen c" "bufferLen c \<le> 8" using assms(1) by (simp_all add: pend_def env_ok_def)
  show ?thesis
  proof (cases "length xs \<le> 8 - bufferLen c")
    case True
    then have "R_OpenUpdate W c xs =
        (c\<lparr>env_buffer := mem_write (env_buffer c) (bufferLen c) xs, bufferLen := bufferLen c + length xs\<rparr>, [])"
      by (simp add: R_OpenUpdate_def)
    moreover have "8 * ((length (pend c @ xs) - 1) div 8) = 0" using True lp by simp
    ultimately show ?thesis using env_accumulate [OF assms(1), of xs W] True lp by simp
  next
    case False
    define r where "r = length (drop (8 - bufferLen c) xs)"
    define n where "n = 8 * ((r - 1) div 8)"
    have "R_OpenUpdate W c xs = env_run W c xs n"
      using False by (simp add: R_OpenUpdate_def env_run_def n_def r_def Let_def case_prod_unfold)
    moreover have len: "bufferLen c + length xs = 8 + r" "0 < r" using False lp by (simp_all add: r_def)
    then have "length (pend c @ xs) - 1 = 8 + (r - 1)" by (simp add: lp)
    then have "8 * ((length (pend c @ xs) - 1) div 8) = 8 + n" by (simp add: n_def)
    moreover have "bufferLen c + length xs \<ge> 8 + n" "bufferLen c + length xs \<le> 16 + n"
      unfolding len n_def using len(2) by presburger+
    ultimately show ?thesis using env_run_step [OF assms(1), of n xs W] by (simp add: n_def)
  qed
qed


fun env_stream :: "(R_ENVELOPE_CTX \<Rightarrow> bytes \<Rightarrow> R_ENVELOPE_CTX \<times> bytes) \<Rightarrow> R_ENVELOPE_CTX \<Rightarrow> bytes list \<Rightarrow> R_ENVELOPE_CTX \<times> bytes" where
  "env_stream update c [] = (c, [])"
| "env_stream update c (p # ps) =
     (let (c, out) = update c p; (c, rest) = env_stream update c ps in (c, out @ rest))"

lemma env_stepD:
  assumes "env_step W c t k (c', out)"
  shows "EncryptBlk W (cip c) (take k t) = (cip c', out)" "pend c' = drop k t" "env_ok c'" "length (pend c') = bufferLen c'"
  using assms unfolding env_step_def prod.case by blast+

lemma env_step_trans:
  assumes "env_ok c" "env_step W c t k (c1, o1)" "env_step W c1 (pend c1 @ ys) j (c2, o2)"
    and k: "8 dvd k" "k \<le> length t" and j: "8 dvd j" "j \<le> length (pend c1 @ ys)"
  shows "env_step W c (t @ ys) (k + j) (c2, o1 @ o2)"
proof -
  note s1 = env_stepD [OF assms(2)] and s2 = env_stepD [OF assms(3)]
  have e: "drop k (t @ ys) = pend c1 @ ys" "take k (t @ ys) = take k t" using k(2) s1(2) by simp_all
  have l: "8 dvd length (take k t)" "8 dvd length (take j (pend c1 @ ys))"
    using k j by (simp_all add: min_absorb2 del: take_append length_append)
  have alg: "cipher_algorithm (encryptionAlgorithm (cip c))" using assms(1) by (simp add: env_ok_def)
  have "EncryptBlk W (cip c) (take (k + j) (t @ ys)) = (cip c2, o1 @ o2)"
    unfolding take_add e EncryptBlk_append [OF alg l] by (simp add: s1(1) s2(1) del: take_append)
  moreover have "pend c2 = drop (k + j) (t @ ys)"
    unfolding s2(2) e(1) [symmetric] by (simp only: drop_drop add.commute)
  ultimately show ?thesis using s2(3,4) by (simp add: env_step_def del: take_append drop_append)
qed

text \<open>How many bytes an update takes from so many.\<close>

lemma seal_count: "8 * (n div 8) \<le> (n :: nat)" "n < 8 \<Longrightarrow> n div 8 = 0"
  "8 * (n div 8) + 8 * ((n - 8 * (n div 8) + m) div 8) = 8 * ((n + m) div 8)"
proof -
  define q r where "q = n div 8" and "r = n mod 8"
  have n: "n = 8 * q + r" by (simp add: q_def r_def)
  have "(8 * q + r + m) div 8 = q + (r + m) div 8" by (simp add: add.assoc)
  then show "8 * (n div 8) + 8 * ((n - 8 * (n div 8) + m) div 8) = 8 * ((n + m) div 8)"
    unfolding q_def [symmetric] by (simp add: n)
qed simp_all

lemma open_count: "8 * ((n - 1) div 8) \<le> (n :: nat)" "n \<le> 8 \<Longrightarrow> (n - 1) div 8 = 0"
  "8 * ((n - 1) div 8) + 8 * ((n - 8 * ((n - 1) div 8) + m - 1) div 8) = 8 * ((n + m - 1) div 8)"
proof -
  show "8 * ((n - 1) div 8) \<le> n" using times_div_less_eq_dividend [of 8 "n - 1"] by linarith
  show "n \<le> 8 \<Longrightarrow> (n - 1) div 8 = 0" by simp
  show "8 * ((n - 1) div 8) + 8 * ((n - 8 * ((n - 1) div 8) + m - 1) div 8) = 8 * ((n + m - 1) div 8)"
  proof (cases n)
    case 0
    then show ?thesis by simp
  next
    case (Suc l)
    define q r where "q = l div 8" and "r = l mod 8"
    have l: "l = 8 * q + r" by (simp add: q_def r_def)
    have "(8 * q + r + m) div 8 = q + (r + m) div 8" by (simp add: add.assoc)
    then show ?thesis unfolding Suc diff_Suc_1 q_def [symmetric] by (simp add: l)
  qed
qed

lemma env_step_refl:
  "env_ok c \<Longrightarrow> length (pend c) = bufferLen c \<Longrightarrow> env_step W c (pend c) 0 (c, [])"
  using EncryptBlk_Nil [of "cip c" W] by (simp add: env_step_def env_ok_def)

lemma length_pend: "env_ok c \<Longrightarrow> length (pend c) = bufferLen c"
  by (simp add: env_ok_def pend_def)

lemma seal_stream:
  "env_ok c \<Longrightarrow> bufferLen c < 8 \<Longrightarrow>
   env_step W c (pend c @ concat ps) (8 * (length (pend c @ concat ps) div 8)) (env_stream (R_SealUpdate W) c ps)"
proof (induction ps arbitrary: c)
  case Nil
  then show ?case using env_step_refl [of c W] seal_count(2) [of "bufferLen c"] by (simp add: length_pend)
next
  case (Cons p ps)
  obtain c1 o1 where u: "R_SealUpdate W c p = (c1, o1)" by (rule prod.exhaust)
  define t where "t = pend c @ p"
  define k where "k = 8 * (length t div 8)"
  have s1: "env_step W c t k (c1, o1)" using seal_update [OF Cons.prems, of W p] by (simp only: u t_def k_def)
  note d = env_stepD [OF s1]
  have lp: "length (pend c1) = length t - k" by (simp add: d(2))
  have b1: "bufferLen c1 < 8" using d(4) lp by (simp add: k_def)
  obtain c2 o2 where u2: "env_stream (R_SealUpdate W) c1 ps = (c2, o2)" by (rule prod.exhaust)
  have s2: "env_step W c1 (pend c1 @ concat ps) (8 * (length (pend c1 @ concat ps) div 8)) (c2, o2)"
    using Cons.IH [OF d(3) b1] by (simp only: u2)
  have "k + 8 * (length (pend c1 @ concat ps) div 8) = 8 * (length (t @ concat ps) div 8)"
    using seal_count(3) [of "length t" "length (concat ps)"] by (simp add: lp k_def)
  then show ?case
    using env_step_trans [OF Cons.prems(1) s1 s2] seal_count(1) by (simp add: k_def t_def u u2)
qed

lemma open_stream:
  "env_ok c \<Longrightarrow>
   env_step W c (pend c @ concat ps) (8 * ((length (pend c @ concat ps) - 1) div 8)) (env_stream (R_OpenUpdate W) c ps)"
proof (induction ps arbitrary: c)
  case Nil
  then show ?case using env_step_refl [of c W] open_count(2) [of "bufferLen c"] by (simp add: length_pend env_ok_def)
next
  case (Cons p ps)
  obtain c1 o1 where u: "R_OpenUpdate W c p = (c1, o1)" by (rule prod.exhaust)
  define t where "t = pend c @ p"
  define k where "k = 8 * ((length t - 1) div 8)"
  have s1: "env_step W c t k (c1, o1)" using open_update [OF Cons.prems, of W p] by (simp only: u t_def k_def)
  note d = env_stepD [OF s1]
  have lp: "length (pend c1) = length t - k" by (simp add: d(2))
  obtain c2 o2 where u2: "env_stream (R_OpenUpdate W) c1 ps = (c2, o2)" by (rule prod.exhaust)
  have s2: "env_step W c1 (pend c1 @ concat ps) (8 * ((length (pend c1 @ concat ps) - 1) div 8)) (c2, o2)"
    using Cons.IH [OF d(3)] by (simp only: u2)
  have "k + 8 * ((length (pend c1 @ concat ps) - 1) div 8) = 8 * ((length (t @ concat ps) - 1) div 8)"
    using open_count(3) [of "length t" "length (concat ps)"] by (simp only: lp k_def length_append)
  then show ?case
    using env_step_trans [OF Cons.prems s1 s2] open_count(1) by (simp add: k_def t_def u u2)
qed


section \<open>A whole message\<close>

definition seal_pad :: "bytes \<Rightarrow> bytes" where
  "seal_pad m = (let n = 8 - length m mod 8 in m @ replicate n (word_of_nat n))"

lemma seal_pad_length: "8 dvd length (seal_pad m)" "length (seal_pad m) = 8 * (length m div 8) + 8"
proof -
  have "length (seal_pad m) = length m + (8 - length m mod 8)" by (simp add: seal_pad_def Let_def)
  moreover have "length m = 8 * (length m div 8) + length m mod 8" "length m mod 8 < 8" by simp_all
  ultimately show "length (seal_pad m) = 8 * (length m div 8) + 8" by linarith
  then show "8 dvd length (seal_pad m)" by simp
qed

lemma cip_restart: "cip (RestartCipher c) = RestartCipher (cip c)"
  by (simp add: RestartCipher_def cip_def Let_def)

lemma restart_keeps: "env_buffer (RestartCipher c) = env_buffer c" "bufferLen (RestartCipher c) = bufferLen c"
  "encryptionAlgorithm (RestartCipher c) = encryptionAlgorithm c"
  by (simp_all add: RestartCipher_def Let_def)

text \<open>The last block of either direction, given as what the buffer holds.\<close>

lemma final_block:
  assumes "env_ok c" "length b = 8" "EncryptBlk W (cip c) b = (d, out)"
  shows "\<exists>c'. EncryptBlk W (c\<lparr>env_buffer := b\<rparr>) b = (c', out) \<and> cip ((RestartCipher c')\<lparr>bufferLen := 0\<rparr>) = RestartCipher d \<and>
    env_ok ((RestartCipher c')\<lparr>bufferLen := 0\<rparr>)"
proof -
  obtain c' o' where e: "EncryptBlk W (c\<lparr>env_buffer := b\<rparr>) b = (c', o')" by (rule prod.exhaust)
  have "cip c' = d" "o' = out"
    using EncryptBlk_cip [of W "c\<lparr>env_buffer := b\<rparr>" b] assms(3) e by simp_all
  moreover have "encryptionAlgorithm c' = encryptionAlgorithm c" "env_buffer c' = b"
    using EncryptBlk_keeps [of W "c\<lparr>env_buffer := b\<rparr>" b] e by simp_all
  ultimately show ?thesis using assms(1,2) e by (simp add: env_ok_def restart_keeps cip_restart)
qed

lemma seal_message:
  assumes ok: "env_ok c" "bufferLen c = 0" "RestartCipher c = c"
    and run: "env_stream (R_SealUpdate W) c ps = (c1, o1)" "R_SealFinal W c1 = (c2, o2)"
  shows "o1 @ o2 = snd (EncryptBlk W (cip c) (seal_pad (concat ps)))" "cip c2 = cip c" "env_ok c2" "bufferLen c2 = 0"
proof -
  define m where "m = concat ps"
  define k where "k = 8 * (length m div 8)"
  have p0: "pend c = []" using ok(2) by (simp add: pend_def)
  have s: "env_step W c m k (c1, o1)"
    using seal_stream [OF ok(1), of W ps] ok(2) by (simp add: run(1) p0 m_def k_def)
  note d = env_stepD [OF s]
  define n where "n = 8 - length m mod 8"
  have "length (pend c1) = length m mod 8" by (simp add: d(2) k_def minus_mult_div_eq_mod)
  then have b1: "bufferLen c1 = length m mod 8" "8 - bufferLen c1 = n" by (simp_all add: d(4) n_def)
  define b where "b = mem_write (env_buffer c1) (bufferLen c1) (replicate n (word_of_nat n))"
  have "bufferLen c1 + n = 8" by (simp add: b1(1) n_def less_imp_le)
  then have lb: "length b = 8" and b: "b = pend c1 @ replicate n (word_of_nat n)"
    using d(3) by (simp_all add: b_def env_ok_def mem_write_def pend_def)
  have pad: "seal_pad m = take k m @ b"
    by (simp add: b d(2) seal_pad_def n_def Let_def)
  have alg: "cipher_algorithm (encryptionAlgorithm (cip c))" using ok(1) by (simp add: env_ok_def)
  have lk: "8 dvd length (take k m)" using seal_count(1) [of "length m"] by (simp add: k_def min_absorb2)
  obtain d2 o' where e: "EncryptBlk W (cip c1) b = (d2, o')" by (rule prod.exhaust)
  have all: "EncryptBlk W (cip c) (seal_pad m) = (d2, o1 @ o')"
    unfolding pad using EncryptBlk_append [OF alg lk, of b W] lb by (simp add: d(1) e)
  obtain c' where c': "EncryptBlk W (c1\<lparr>env_buffer := b\<rparr>) b = (c', o')"
    "cip ((RestartCipher c')\<lparr>bufferLen := 0\<rparr>) = RestartCipher d2" "env_ok ((RestartCipher c')\<lparr>bufferLen := 0\<rparr>)"
    using final_block [OF d(3) lb e] by blast
  have r: "c2 = (RestartCipher c')\<lparr>bufferLen := 0\<rparr>" "o2 = o'"
    using run(2) c'(1) by (simp_all add: R_SealFinal_def Let_def b1(2) b_def [symmetric])
  have "RestartCipher d2 = cip c"
    using RestartCipher_EncryptBlk [OF alg seal_pad_length(1), of W m] all ok(3) cip_restart [of c] by simp
  then show "o1 @ o2 = snd (EncryptBlk W (cip c) (seal_pad (concat ps)))" "cip c2 = cip c" "env_ok c2" "bufferLen c2 = 0"
    using all c'(2,3) by (simp_all add: r m_def)
qed

text \<open>What the last block of a padded message holds.\<close>

lemma seal_pad_last:
  defines "n m \<equiv> 8 - length m mod 8"
  shows "take (length (seal_pad m) - 8) (seal_pad m) = take (length (seal_pad m) - 8) m"
    "drop (length (seal_pad m) - 8) (seal_pad m) = drop (length (seal_pad m) - 8) m @ replicate (n m) (word_of_nat (n m))"
    "length (drop (length (seal_pad m) - 8) m) = 8 - n m" "1 \<le> n m" "n m \<le> 8"
proof -
  define k where "k = 8 * (length m div 8)"
  have l: "length (seal_pad m) - 8 = k" by (simp add: seal_pad_length(2) k_def)
  have k: "k \<le> length m" using seal_count(1) [of "length m"] by (simp add: k_def)
  show "take (length (seal_pad m) - 8) (seal_pad m) = take (length (seal_pad m) - 8) m"
    "drop (length (seal_pad m) - 8) (seal_pad m) = drop (length (seal_pad m) - 8) m @ replicate (n m) (word_of_nat (n m))"
    unfolding l using k by (simp_all add: seal_pad_def n_def Let_def)
  have "length m - k = length m mod 8" by (simp add: k_def minus_mult_div_eq_mod)
  then show "length (drop (length (seal_pad m) - 8) m) = 8 - n m" unfolding l by (simp add: n_def less_imp_le)
  have "length m mod 8 < 8" by simp
  then show "1 \<le> n m" "n m \<le> 8" unfolding n_def by linarith+
qed

lemma open_message:
  assumes ok: "env_ok c" "bufferLen c = 0" "RestartCipher c = c"
    and image: "snd (EncryptBlk W (cip c) (concat qs)) = seal_pad m" "8 dvd length (concat qs)"
    and run: "env_stream (R_OpenUpdate W) c qs = (c1, o1)" "R_OpenFinal W c1 = (c2, status, o2)"
  shows "status = 0" "o1 @ o2 = m" "cip c2 = cip c" "env_ok c2" "bufferLen c2 = 0"
proof -
  define X where "X = concat qs"
  define k where "k = length (seal_pad m) - 8"
  have alg: "cipher_algorithm (encryptionAlgorithm (cip c))" using ok(1) by (simp add: env_ok_def)
  have lX: "length X = length (seal_pad m)"
    using EncryptBlk_length [OF alg, of "concat qs" W] image by (simp add: X_def)
  have k: "8 * ((length X - 1) div 8) = k" "8 dvd k" "k \<le> length X" "length X = k + 8"
    by (simp_all add: lX k_def seal_pad_length(2))
  have p0: "pend c = []" using ok(2) by (simp add: pend_def)
  have s: "env_step W c X k (c1, o1)"
    using open_stream [OF ok(1), of W qs] by (simp add: run(1) p0 X_def [symmetric] k(1) [simplified])
  note d = env_stepD [OF s]
  have b1: "bufferLen c1 = 8" using d(2,4) k(4) by simp
  then have b: "env_buffer c1 = drop k X" "length (env_buffer c1) = 8"
    using d(2,3) by (simp_all add: pend_def env_ok_def)
  obtain d2 o' where e: "EncryptBlk W (cip c1) (drop k X) = (d2, o')" by (rule prod.exhaust)
  have "8 dvd length (take k X)" "8 dvd length (drop k X)" using k by (simp_all add: min_absorb2)
  from EncryptBlk_append [OF alg this, of W] have all: "EncryptBlk W (cip c) X = (d2, o1 @ o')"
    by (simp add: d(1) e)
  have img: "seal_pad m = o1 @ o'" using image(1) all by (simp add: X_def)
  have "length o1 = k"
    using EncryptBlk_length [OF alg, of "take k X" W] k d(1) by (simp add: min_absorb2)
  then have "take k (seal_pad m) = o1" "drop k (seal_pad m) = o'" by (simp_all add: img)
  then have o: "o1 = take k m" "o' = drop k m @ replicate (8 - length m mod 8) (word_of_nat (8 - length m mod 8))"
    unfolding seal_pad_last(1,2) [of m, folded k_def] by (simp_all only:)
  define n where "n = 8 - length m mod 8"
  note n = seal_pad_last(3-5) [of m, folded n_def k_def]
  have u: "unat (word_of_nat n :: u8) = n" using n(3) by (simp add: unsigned_of_nat take_bit_nat_eq_self)
  define w where "w = drop k m"
  have o': "o' = w @ replicate n (word_of_nat n)" by (simp only: o(2) n_def w_def)
  note lw = n(1) [folded w_def]
  have "\<not> 7 < 8 - n" "7 - (8 - n) < n" using n(2) by linarith+
  then have "o' ! 7 = word_of_nat n" using lw by (simp add: o' nth_append)
  moreover have "drop (8 - n) o' = replicate n (word_of_nat n)" "take (8 - n) o' = w"
    using lw by (simp_all add: o')
  moreover obtain c' where c': "EncryptBlk W (c1\<lparr>env_buffer := drop k X\<rparr>) (drop k X) = (c', o')"
    "cip ((RestartCipher c')\<lparr>bufferLen := 0\<rparr>) = RestartCipher d2" "env_ok ((RestartCipher c')\<lparr>bufferLen := 0\<rparr>)"
    using final_block [OF d(3) _ e] k(4) by auto
  moreover have "c1\<lparr>env_buffer := drop k X\<rparr> = c1" using b(1) by simp
  ultimately have "R_OpenFinal W c1 = ((RestartCipher c')\<lparr>bufferLen := 0\<rparr>, 0, w)"
    using n u by (simp add: R_OpenFinal_def b1 b(1) Let_def)
  then have r: "c2 = (RestartCipher c')\<lparr>bufferLen := 0\<rparr>" "status = 0" "o2 = w" using run(2) by simp_all
  have "RestartCipher d2 = cip c"
    using RestartCipher_EncryptBlk [OF alg, of X W] image(2) all ok(3) cip_restart [of c] by (simp add: X_def)
  then show "status = 0" "o1 @ o2 = m" "cip c2 = cip c" "env_ok c2" "bufferLen c2 = 0"
    using c'(2,3) by (simp_all add: r o(1) w_def)
qed

text \<open>Two contexts initialised with one key, to encrypt and to decrypt.\<close>

definition env_pair :: "R_ENVELOPE_CTX \<Rightarrow> R_ENVELOPE_CTX \<Rightarrow> bool" where
  "env_pair c d \<longleftrightarrow> env_ok c \<and> env_ok d \<and> bufferLen c = 0 \<and> bufferLen d = 0 \<and> RestartCipher c = c \<and> RestartCipher d = d \<and>
     (\<forall>xs. 8 dvd length xs \<longrightarrow>
        snd (EncryptBlk TYPE(32) (cip d) (snd (EncryptBlk TYPE(32) (cip c) xs))) = xs)"

lemma env_pair_cip:
  assumes "env_pair c d" "cip c' = cip c" "env_ok c'" "bufferLen c' = 0" "cip d' = cip d" "env_ok d'" "bufferLen d' = 0"
  shows "env_pair c' d'"
proof -
  have r: "RestartCipher a' = a'" if "RestartCipher a = a" "cip a' = cip a" for a a'
  proof -
    have "cip (RestartCipher a') = cip a'" using cip_restart [of a] cip_restart [of a'] that by simp
    then show ?thesis using restart_keeps [of a'] by (cases a'; cases "RestartCipher a'") (simp add: cip_def)
  qed
  show ?thesis
    using assms r [of c c'] r [of d d'] by (simp add: env_pair_def)
qed

lemma cipher_pair:
  fixes key v
  assumes alg: "cipher_algorithm alg" and l: "length (env_buffer c) = 8" "length (env_buffer d) = 8"
  defines "e \<equiv> (fst (CipherInit (c\<lparr>encryptionAlgorithm := alg\<rparr>) alg key v True))\<lparr>bufferLen := 0\<rparr>"
    and "f \<equiv> (fst (CipherInit (d\<lparr>encryptionAlgorithm := alg\<rparr>) alg key v False))\<lparr>bufferLen := 0\<rparr>"
  shows "env_pair e f" "snd (CipherInit (c\<lparr>encryptionAlgorithm := alg\<rparr>) alg key v b) = 0"
proof -
  note s = DES_CBCRestart_def DESX_CBCRestart_def DES3_CBCRestart_def cbc_restart_def
  show "snd (CipherInit (c\<lparr>encryptionAlgorithm := alg\<rparr>) alg key v b) = 0"
    using alg by (auto simp: CipherInit_def cipher_algorithm_def ID_OK_def)
  have inv: "snd (EncryptBlk TYPE(32) (cip f) (snd (EncryptBlk TYPE(32) (cip e) xs))) = xs" if x: "8 dvd length xs" for xs
  proof -
    have len: "8 dvd length (snd (EncryptBlk TYPE(32) (cip e) xs))"
      using EncryptBlk_length [OF _ x, of "cip e" "TYPE(32)"] alg x
      by (auto simp: e_def CipherInit_def)
    have ea: "encryptionAlgorithm e = alg" "encryptionAlgorithm f = alg"
      by (simp_all add: e_def f_def CipherInit_def)
    from alg show ?thesis
    proof (cases rule: cipher_cases)
      case 1
      have "ctx_des (cip e) = DES_CBCInit key v True" "ctx_des (cip f) = DES_CBCInit key v False"
        by (simp_all add: e_def f_def CipherInit_def 1 cip_def)
      then show ?thesis using EncryptBlk_val(1) [OF _ x, of "cip e" "TYPE(32)"]
          EncryptBlk_val(1) [OF _ len, of "cip f" "TYPE(32)"] DES_chain [OF x]
        by (simp add: ea 1)
    next
      case 2
      have "ctx_desx (cip e) = DESX_CBCInit key v True" "ctx_desx (cip f) = DESX_CBCInit key v False"
        by (simp_all add: e_def f_def CipherInit_def 2 ea_defs cip_def)
      then show ?thesis using EncryptBlk_val(2) [OF _ x, of "cip e" "TYPE(32)"]
          EncryptBlk_val(2) [OF _ len, of "cip f" "TYPE(32)"] DESX_chain [OF x]
        by (simp add: ea 2)
    next
      case 3
      have "ctx_des3 (cip e) = DES3_CBCInit key v True" "ctx_des3 (cip f) = DES3_CBCInit key v False"
        using 3 by (auto simp: e_def f_def CipherInit_def ea_defs cip_def)
      then show ?thesis using EncryptBlk_val(3) [OF _ x, of "cip e" "TYPE(32)"]
          EncryptBlk_val(3) [OF _ len, of "cip f" "TYPE(32)"] DES3_chain [OF x]
        by (simp add: ea 3)
    qed
  qed
  have "env_ok e" "env_ok f" "RestartCipher e = e" "RestartCipher f = f"
    using alg l by (auto simp: e_def f_def CipherInit_def env_ok_def RestartCipher_def cipher_algorithm_def ea_defs s body_defs)
  then show "env_pair e f" using inv by (simp add: env_pair_def e_def f_def)
qed


lemma seal_open:
  assumes p: "env_pair c d"
    and seal: "env_stream (R_SealUpdate TYPE(32)) c ps = (c1, o1)" "R_SealFinal TYPE(32) c1 = (c2, o2)"
    and cut: "concat qs = o1 @ o2"
    and opn: "env_stream (R_OpenUpdate TYPE(32)) d qs = (d1, p1)" "R_OpenFinal TYPE(32) d1 = (d2, status, p2)"
  shows "status = 0" "p1 @ p2 = concat ps" "env_pair c2 d2" "length (o1 @ o2) = 8 * (length (concat ps) div 8) + 8"
proof -
  note P = p [unfolded env_pair_def]
  have c: "env_ok c" "bufferLen c = 0" "RestartCipher c = c" and d: "env_ok d" "bufferLen d = 0" "RestartCipher d = d"
    using P by blast+
  note s = seal_message [OF c seal]
  have alg: "cipher_algorithm (encryptionAlgorithm (cip c))" using c(1) by (simp add: env_ok_def)
  have len: "length (concat qs) = length (seal_pad (concat ps))"
    using EncryptBlk_length [OF alg seal_pad_length(1), of "TYPE(32)" "concat ps"] by (simp only: cut s(1))
  have img: "snd (EncryptBlk TYPE(32) (cip d) (concat qs)) = seal_pad (concat ps)"
    using P seal_pad_length(1) by (simp only: cut s(1))
  have dvd: "8 dvd length (concat qs)" by (simp only: len seal_pad_length(1))
  note o = open_message [OF d img dvd opn]
  show "status = 0" "p1 @ p2 = concat ps" using o by simp_all
  show "env_pair c2 d2" by (rule env_pair_cip [OF p s(2-4) o(3-5)])
  show "length (o1 @ o2) = 8 * (length (concat ps) div 8) + 8"
    using len seal_pad_length(2) [of "concat ps"] by (simp only: cut)
qed

text \<open>The key of an envelope reaches its receiver.\<close>

lemma seal_open_init:
  assumes alg: "cipher_algorithm alg" and key: "rsa_key pk sk"
    and ctx: "length (env_buffer c) = 8" "length (env_buffer d) = 8"
    and rnd: "rnd_inv r" "bytesNeeded r = 0"
  defines "keyLen \<equiv> (if alg = EA_DES_CBC then 8 else 24)"
  defines "r2 \<equiv> snd (rnd_generate 8 (snd (rnd_generate keyLen r)))"
  assumes len: "keyLen + 11 \<le> (pub_bits pk + 7) div 8"
    and pad: "(pub_bits pk + 7) div 8 - keyLen - 3 \<le> length (filter (\<lambda>b. b \<noteq> 0) (fst (rnd_generate N r2)))"
  shows "\<exists>c' ek v r' d'. R_SealInit c [pk] alg r = Some (c', [ek], v, 0, r') \<and>
    R_OpenInit d alg ek v sk = Some (d', 0) \<and> env_pair c' d' \<and> length ek = (pub_bits pk + 7) div 8 \<and> length v = 8"
proof -
  obtain k0 r1 where g1: "rnd_generate keyLen r = (k0, r1)" by (rule prod.exhaust)
  obtain v r2' where g2: "rnd_generate 8 r1 = (v, r2')" by (rule prod.exhaust)
  have r2: "r2' = r2" by (simp add: r2_def g1 g2)
  note i1 = rnd_generate_inv [OF rnd(1) g1]
  have j1: "rnd_inv r1" "length k0 = keyLen" "bytesNeeded r1 = 0" using i1 rnd(2) by simp_all
  have j2: "rnd_inv r2" "length v = 8" "bytesNeeded r2 = 0"
    using rnd_generate_inv [OF j1(1) g2] j1(3) by (simp_all add: r2)
  define k where "k = (if alg = EA_DES_EDE2_CBC then mem_write k0 16 (take 8 k0) else k0)"
  have lk: "length k = keyLen" using j1(2) by (auto simp: k_def keyLen_def ea_defs)
  obtain pd r3 where pd: "random_padding ((pub_bits pk + 7) div 8 - length k - 3) r2 = Some (pd, r3)"
    "length pd = (pub_bits pk + 7) div 8 - length k - 3" "0 \<notin> set pd"
    using random_padding_val [OF j2(1,3), of "(pub_bits pk + 7) div 8 - length k - 3" N] pad lk by auto
  have "0 < keyLen" by (simp add: keyLen_def)
  then have "k \<noteq> []" using lk by (cases k) simp_all
  then obtain ek where ek: "RSAPublicEncrypt k pk r2 = Some (Inr ek, r3)" "length ek = (pub_bits pk + 7) div 8"
    "RSAPrivateDecrypt ek sk = Some (Inr k)"
    using rsa_encrypt_decrypt [OF key _ j2(3) pd] len lk by auto
  note cp = cipher_pair [OF alg ctx, where key = k and v = v]
  define e where "e = fst (CipherInit (c\<lparr>encryptionAlgorithm := alg\<rparr>) alg k v True)"
  define f where "f = fst (CipherInit (d\<lparr>encryptionAlgorithm := alg\<rparr>) alg k v False)"
  have ei: "CipherInit (c\<lparr>encryptionAlgorithm := alg\<rparr>) alg k v True = (e, 0)"
    using cp(2) [of True] by (simp add: e_def prod_eq_iff)
  have fi: "CipherInit (d\<lparr>encryptionAlgorithm := alg\<rparr>) alg k v False = (f, 0)"
    using cipher_pair(2) [OF alg ctx(2,1), where key = k and v = v and b = False] by (simp add: f_def prod_eq_iff)
  have "R_SealInit c [pk] alg r = Some (e\<lparr>bufferLen := 0\<rparr>, [ek], v, 0, r3)"
    unfolding R_SealInit_def Let_def keyLen_def [symmetric]
    using rnd(2) j1(3) g1 g2 by (simp add: R_GenerateBytes_def r2 k_def [symmetric] ei ek(1))
  moreover have "R_OpenInit d alg ek v sk = Some (f\<lparr>bufferLen := 0\<rparr>, 0)"
    unfolding R_OpenInit_def Let_def keyLen_def [symmetric]
    using ek(2) rsa_len [OF key] by (simp add: ek(3) lk fi MAX_ENCRYPTED_KEY_LEN_def MAX_RSA_MODULUS_LEN_def)
  moreover have "env_pair (e\<lparr>bufferLen := 0\<rparr>) (f\<lparr>bufferLen := 0\<rparr>)"
    using cp(1) by (simp only: e_def f_def)
  ultimately show ?thesis using ek(2) j2(2) by blast
qed

end
