(* ===== verification/PEM_Blocks.thy ===== *)
theory PEM_Blocks
  imports PEM Envelope
begin

text \<open>
  The operations of \<^verbatim>\<open>HBase/RSAEuro/r_enhanc.c\<close> that work on whole blocks in printable form.  What the code reads
  from memory it has not written is an argument: \<open>info\<close> and \<open>part\<close> are local arrays,
  \<open>behind\<close> the bytes behind an array, and \<open>unset\<close> the variable \<^verbatim>\<open>status\<close> before the
  first assignment to it.
\<close>

definition RE_CONTENT_ENCODING :: int where "RE_CONTENT_ENCODING = 0x400"
definition RE_KEY_ENCODING :: int where "RE_KEY_ENCODING = 0x405"
definition RE_SIGNATURE_ENCODING :: int where "RE_SIGNATURE_ENCODING = 0x40C"

definition ENCODED_CONTENT_LEN :: "nat \<Rightarrow> nat" where "ENCODED_CONTENT_LEN len = 4 * len div 3 + 3"
definition ENCRYPTED_CONTENT_LEN :: "nat \<Rightarrow> nat" where "ENCRYPTED_CONTENT_LEN len = ENCODED_CONTENT_LEN (len + 8)"
definition MAX_PEM_SIGNATURE_LEN :: nat where "MAX_PEM_SIGNATURE_LEN = ENCODED_CONTENT_LEN MAX_SIGNATURE_LEN"
definition MAX_PEM_ENCRYPTED_KEY_LEN :: nat where "MAX_PEM_ENCRYPTED_KEY_LEN = ENCODED_CONTENT_LEN MAX_ENCRYPTED_KEY_LEN"
definition MAX_PEM_ENCRYPTED_SIGNATURE_LEN :: nat where
  "MAX_PEM_ENCRYPTED_SIGNATURE_LEN = ENCRYPTED_CONTENT_LEN MAX_SIGNATURE_LEN"

section \<open>Signatures\<close>

text \<open>The status, the encoded content if it was asked for, and the encoded signature.\<close>

definition R_SignPEMBlock ::
  "bytes \<Rightarrow> bytes \<Rightarrow> bytes \<Rightarrow> bytes \<Rightarrow> bool \<Rightarrow> int \<Rightarrow> R_RSA_PRIVATE_KEY \<Rightarrow> (int \<times> bytes \<times> bytes) option" where
  "R_SignPEMBlock info behind1 behind2 content recode alg privateKey =
     (case R_SignBlock info content alg privateKey of
        None \<Rightarrow> None
      | Some (status, signature) \<Rightarrow>
          if status \<noteq> 0 then Some (status, [], [])
          else Some (ID_OK, if recode then fst (R_EncodePEMBlock (content @ behind1) (length content)) else [],
                     fst (R_EncodePEMBlock (signature @ behind2) (length signature))))"

text \<open>The status and the content.\<close>

definition R_VerifyPEMSignature ::
  "bytes \<Rightarrow> bytes \<Rightarrow> bytes \<Rightarrow> bool \<Rightarrow> int \<Rightarrow> R_RSA_PUBLIC_KEY \<Rightarrow> (int \<times> bytes) option" where
  "R_VerifyPEMSignature info encodedContent encodedSignature recode alg publicKey =
     (if length encodedSignature > MAX_PEM_SIGNATURE_LEN then Some (RE_SIGNATURE_ENCODING, [])
      else
        case (if recode then R_DecodePEMBlock encodedContent else Inr (encodedContent, length encodedContent)) of
          Inl _ \<Rightarrow> Some (RE_CONTENT_ENCODING, [])
        | Inr (content, contentLen) \<Rightarrow>
            (case R_DecodePEMBlock encodedSignature of
               Inl _ \<Rightarrow> Some (RE_SIGNATURE_ENCODING, take contentLen content)
             | Inr (signature, signatureLen) \<Rightarrow>
                 map_option (\<lambda>status. (status, take contentLen content))
                   (R_VerifyBlockSignature info (take contentLen content) (take signatureLen signature) alg publicKey)))"

section \<open>Encrypted blocks\<close>

text \<open>
  Groups of 24 bytes become 32 characters.  The result holds the context, the local array, the input that is
  left and the characters.
\<close>

function pem_seal_loop ::
  "'l::len itself \<Rightarrow> R_ENVELOPE_CTX \<Rightarrow> bytes \<Rightarrow> bytes \<Rightarrow> R_ENVELOPE_CTX \<times> bytes \<times> bytes \<times> bytes" where
  "pem_seal_loop W context part input =
     (if length input < 24 then (context, part, input, [])
      else
        let (context, out) = R_SealUpdate W context (take 24 input);
            part = mem_write part 0 out;
            chars = fst (R_EncodePEMBlock part 24);
            (context, part, rest, more) = pem_seal_loop W context part (drop 24 input)
        in (context, part, rest, chars @ more))"
  by pat_completeness auto
termination by (relation "measure (\<lambda>(_, _, _, xs). length xs)") auto

declare pem_seal_loop.simps [simp del]

definition R_EncryptOpenPEMBlock ::
  "'l::len itself \<Rightarrow> bytes \<Rightarrow> R_ENVELOPE_CTX \<Rightarrow> bytes \<Rightarrow> R_ENVELOPE_CTX \<times> bytes" where
  "R_EncryptOpenPEMBlock W part context input =
     (let (context, part, rest, chars) = pem_seal_loop W context part input;
          (context, out1) = R_SealUpdate W context rest;
          part = mem_write part 0 out1;
          (context, out2) = R_SealFinal W context;
          part = mem_write part (length out1) out2
      in (context, chars @ fst (R_EncodePEMBlock part (length out1 + length out2))))"

function pem_open_loop ::
  "'l::len itself \<Rightarrow> R_ENVELOPE_CTX \<Rightarrow> int \<Rightarrow> bytes \<Rightarrow> R_ENVELOPE_CTX \<times> int \<times> bytes \<times> bytes" where
  "pem_open_loop W context status input =
     (if length input < 32 then (context, status, input, [])
      else
        case R_DecodePEMBlock (take 32 input) of
          Inl status \<Rightarrow> (context, status, input, [])
        | Inr (encryptedPart, _) \<Rightarrow>
            let (context, out) = R_OpenUpdate W context (take 24 encryptedPart);
                (context, status, rest, more) = pem_open_loop W context 0 (drop 32 input)
            in (context, status, rest, out @ more))"
  by pat_completeness auto
termination by (relation "measure (\<lambda>(_, _, _, xs). length xs)") auto

declare pem_open_loop.simps [simp del]

text \<open>\<^verbatim>\<open>R_memset((POINTER)&context, ...)\<close> clears the local pointer only.\<close>

definition R_DecryptOpenPEMBlock ::
  "'l::len itself \<Rightarrow> int \<Rightarrow> R_ENVELOPE_CTX \<Rightarrow> bytes \<Rightarrow> R_ENVELOPE_CTX \<times> int \<times> bytes" where
  "R_DecryptOpenPEMBlock W unset context input =
     (let (context, status, rest, output) = pem_open_loop W context unset input
      in if status \<noteq> 0 then (context, status, output)
         else
           case R_DecodePEMBlock rest of
             Inl status \<Rightarrow> (context, status, output)
           | Inr (encryptedPart, len) \<Rightarrow>
               let (context, out1) = R_OpenUpdate W context (take len encryptedPart);
                   (context, status, out2) = R_OpenFinal W context
               in (context, status, output @ out1 @ out2))"

section \<open>Sealed blocks\<close>

text \<open>
  The status, the encrypted content, key and signature, the initialisation vector and the random object.
\<close>

definition R_SealPEMBlock ::
  "'l::len itself \<Rightarrow> bytes \<Rightarrow> bytes \<Rightarrow> bytes \<Rightarrow> bytes \<Rightarrow> R_ENVELOPE_CTX \<Rightarrow> bytes \<Rightarrow> int \<Rightarrow> R_RSA_PUBLIC_KEY \<Rightarrow>
   R_RSA_PRIVATE_KEY \<Rightarrow> R_RANDOM_STRUCT \<Rightarrow> (int \<times> bytes \<times> bytes \<times> bytes \<times> bytes \<times> R_RANDOM_STRUCT) option" where
  "R_SealPEMBlock W info behind part1 part2 context content alg publicKey privateKey random =
     (case R_SignBlock info content alg privateKey of
        None \<Rightarrow> None
      | Some (status, signature) \<Rightarrow>
          if status \<noteq> 0 then Some (status, [], [], [], [], random)
          else
            case R_SealInit context [publicKey] EA_DES_CBC random of
              None \<Rightarrow> None
            | Some (context, encryptedKeys, v, status, random) \<Rightarrow>
                if status \<noteq> 0 then Some (status, [], [], [], v, random)
                else
                  let block = encryptedKeys ! 0;
                      encryptedKey = fst (R_EncodePEMBlock (block @ behind) (length block));
                      (context, encryptedContent) = R_EncryptOpenPEMBlock W part1 context content;
                      (context, encryptedSignature) = R_EncryptOpenPEMBlock W part2 context signature
                  in Some (status, encryptedContent, encryptedKey, encryptedSignature, v, random))"

definition R_OpenPEMBlock ::
  "'l::len itself \<Rightarrow> bytes \<Rightarrow> int \<Rightarrow> int \<Rightarrow> R_ENVELOPE_CTX \<Rightarrow> bytes \<Rightarrow> bytes \<Rightarrow> bytes \<Rightarrow> bytes \<Rightarrow> int \<Rightarrow>
   R_RSA_PRIVATE_KEY \<Rightarrow> R_RSA_PUBLIC_KEY \<Rightarrow> (int \<times> bytes) option" where
  "R_OpenPEMBlock W info unset1 unset2 context encryptedContent encryptedKey encryptedSignature v alg privateKey publicKey =
     (if length encryptedSignature > MAX_PEM_ENCRYPTED_SIGNATURE_LEN then Some (RE_SIGNATURE_ENCODING, [])
      else if length encryptedKey > MAX_PEM_ENCRYPTED_KEY_LEN then Some (RE_KEY_ENCODING, [])
      else
        case R_DecodePEMBlock encryptedKey of
          Inl _ \<Rightarrow> Some (RE_KEY_ENCODING, [])
        | Inr (block, blockLen) \<Rightarrow>
            (case R_OpenInit context EA_DES_CBC (take blockLen block) v privateKey of
               None \<Rightarrow> None
             | Some (context, status) \<Rightarrow>
                 if status \<noteq> 0 then Some (status, [])
                 else
                   let (context, status, content) = R_DecryptOpenPEMBlock W unset1 context encryptedContent
                   in if status \<noteq> 0
                      then Some (if status = RE_LEN \<or> status = RE_ENCODING then RE_CONTENT_ENCODING else RE_KEY, content)
                      else
                        let (context, status, signature) = R_DecryptOpenPEMBlock W unset2 context encryptedSignature
                        in if status \<noteq> 0
                           then Some (if status = RE_LEN \<or> status = RE_ENCODING then RE_SIGNATURE_ENCODING else RE_KEY, content)
                           else map_option (\<lambda>status. (status, content))
                                  (R_VerifyBlockSignature info content signature alg publicKey)))"


lemma env_stream_append:
  "env_stream f c (xs @ ys) =
     (case env_stream f c xs of (c, o1) \<Rightarrow> case env_stream f c ys of (c, o2) \<Rightarrow> (c, o1 @ o2))"
  by (induction xs arbitrary: c) (simp_all add: Let_def split: prod.split)

text \<open>A group of 24 bytes is 32 characters, and they decode to it.\<close>

lemma encode_group:
  assumes "n \<le> length part" "n \<le> 24"
  defines "cs \<equiv> fst (R_EncodePEMBlock part n)"
  shows "length cs = 4 * ((n + 2) div 3)" "\<exists>w. R_DecodePEMBlock cs = Inr (w, n) \<and> take n w = take n part \<and> (3 dvd n \<longrightarrow> w = take n part)"
proof -
  have n: "n < 2 ^ 30" using assms(2) by simp
  note r = pem_roundtrip [OF assms(1) n]
  have e: "cs = pem_chars part 0 n" by (simp add: cs_def r(1))
  show "length cs = 4 * ((n + 2) div 3)" using r(2) by (simp only: e)
  obtain w where w: "R_DecodePEMBlock cs = Inr (w, n)" "length w = 3 * ((n + 2) div 3)" "take n w = take n part"
    using r(3) by (auto simp: e)
  have "w = take n part" if "3 dvd n"
  proof -
    have "length w = n" using that w(2) by (auto elim!: dvdE)
    then show ?thesis using w(3) by simp
  qed
  then show "\<exists>w. R_DecodePEMBlock cs = Inr (w, n) \<and> take n w = take n part \<and> (3 dvd n \<longrightarrow> w = take n part)" using w by blast
qed

lemma seal_24:
  assumes "env_ok c" "bufferLen c = 0" "length xs = 24" "R_SealUpdate W c xs = (d, out)"
  shows "length out = 24" "env_ok d" "bufferLen d = 0"
proof -
  have p: "pend c = []" using assms(2) by (simp add: pend_def)
  have "env_step W c xs 24 (d, out)"
    using seal_update [OF assms(1), of W xs] assms(2,3) by (simp add: p assms(4))
  note s = env_stepD [OF this]
  have "cipher_algorithm (encryptionAlgorithm (cip c))" using assms(1) by (simp add: env_ok_def)
  from EncryptBlk_length [OF this, of "take 24 xs" W] show "length out = 24" using s(1) assms(3) by simp
  show "env_ok d" "bufferLen d = 0" using s(2-4) assms(3) by simp_all
qed

definition enc24 :: "bytes \<Rightarrow> bytes" where
  "enc24 xs = fst (R_EncodePEMBlock xs 24)"

lemma pem_seal_loop_stream:
  assumes "env_ok c" "bufferLen c = 0" "length part = 24" "pem_seal_loop W c part input = (c', part', rest, chars)"
  shows "\<exists>xss outs. env_stream (R_SealUpdate W) c xss = (c', concat outs) \<and> concat xss @ rest = input \<and> length rest < 24 \<and>
    (\<forall>x \<in> set outs. length x = 24) \<and> chars = concat (map enc24 outs) \<and> env_ok c' \<and> bufferLen c' = 0 \<and> length part' = 24"
  using assms
proof (induction W c part input arbitrary: chars rule: pem_seal_loop.induct)
  case (1 W c part input)
  show ?case
  proof (cases "length input < 24")
    case True
    then have "env_stream (R_SealUpdate W) c [] = (c', concat [])" "c' = c" "part' = part" "rest = input" "chars = []"
      using 1(5) by (simp_all add: pem_seal_loop.simps)
    then show ?thesis using True 1(2-4) by (intro exI [of _ "[]"]) simp
  next
    case False
    obtain d out where u: "R_SealUpdate W c (take 24 input) = (d, out)" by (rule prod.exhaust)
    have l: "length (take 24 input) = 24" using False by simp
    note s = seal_24 [OF 1(2,3) l u]
    have part: "mem_write part 0 out = out" using 1(4) s(1) by (simp add: mem_write_def)
    obtain more where rec: "pem_seal_loop W d out (drop 24 input) = (c', part', rest, more)" "chars = enc24 out @ more"
      using 1(5) False u by (simp add: pem_seal_loop.simps [of W c part input] part enc24_def Let_def split: prod.splits)
    obtain xss outs where ih: "env_stream (R_SealUpdate W) d xss = (c', concat outs)" "concat xss @ rest = drop 24 input" "length rest < 24"
      "\<forall>x \<in> set outs. length x = 24" "more = concat (map enc24 outs)" "env_ok c'" "bufferLen c' = 0" "length part' = 24"
      using 1(1) [OF False u [symmetric] refl refl refl] s rec(1) part by auto
    have "env_stream (R_SealUpdate W) c (take 24 input # xss) = (c', concat (out # outs))"
      by (simp add: u ih(1))
    moreover have "concat (take 24 input # xss) @ rest = input" by (simp add: ih(2))
    ultimately show ?thesis using ih(3-8) s(1) rec(2)
      by (intro exI [of _ "take 24 input # xss"] exI [of _ "out # outs"]) simp
  qed
qed

lemma pem_open_loop_stream:
  assumes "\<forall>x \<in> set outs. length x = 24" "length tail < 32" "env_stream (R_OpenUpdate W) d outs = (d', out)"
  shows "pem_open_loop W d status (concat (map enc24 outs) @ tail) = (d', if outs = [] then status else 0, tail, out)"
  using assms
proof (induction outs arbitrary: d status out)
  case Nil
  then show ?case by (simp add: pem_open_loop.simps)
next
  case (Cons x outs)
  obtain e o1 where u: "R_OpenUpdate W d x = (e, o1)" by (rule prod.exhaust)
  obtain o2 where r: "env_stream (R_OpenUpdate W) e outs = (d', o2)" "out = o1 @ o2"
    using Cons.prems(3) by (auto simp: u split: prod.splits)
  have x: "length x = 24" using Cons.prems(1) by simp
  note g = encode_group [of 24 x, simplified x, folded enc24_def]
  have l: "length (enc24 x) = 32" using g(1) by simp
  have dec: "R_DecodePEMBlock (enc24 x) = Inr (x, 24)" using g(2) x by auto
  show ?case
    using Cons.IH [OF _ Cons.prems(2) r(1), of 0] Cons.prems(1) x
    by (subst pem_open_loop.simps) (simp add: l dec u r(2))
qed



text \<open>The last part: what the buffer holds and the padding, in one to three blocks.\<close>

lemma seal_last:
  assumes "env_ok c" "bufferLen c = 0" "length rest < 24" "R_SealUpdate W c rest = (c1, o1)" "R_SealFinal W c1 = (c2, o2)"
  shows "length (o1 @ o2) = 8 * (length rest div 8) + 8" "length o1 + length o2 \<le> 24" "length o2 = 8" "bufferLen c1 < 8" "env_ok c1"
proof -
  have p: "pend c = []" using assms(2) by (simp add: pend_def)
  have s: "env_step W c rest (8 * (length rest div 8)) (c1, o1)"
    using seal_update [OF assms(1), of W rest] assms(2) by (simp add: p assms(4))
  note d = env_stepD [OF s]
  have alg: "cipher_algorithm (encryptionAlgorithm (cip c))" using assms(1) by (simp add: env_ok_def)
  have l1: "length o1 = 8 * (length rest div 8)"
    using EncryptBlk_length [OF alg, of "take (8 * (length rest div 8)) rest" W] d(1) seal_count(1) [of "length rest"]
    by (simp add: min_absorb2)
  show b: "bufferLen c1 < 8" using d(2,4) by (simp add: minus_mult_div_eq_mod)
  show ok: "env_ok c1" by (rule d(3))
  define b where "b = mem_write (env_buffer c1) (bufferLen c1) (replicate (8 - bufferLen c1) (word_of_nat (8 - bufferLen c1)))"
  have lb: "length b = 8" using d(3) by (simp add: b_def env_ok_def)
  have a1: "cipher_algorithm (encryptionAlgorithm (c1\<lparr>env_buffer := b\<rparr>))" using d(3) by (simp add: env_ok_def)
  have "o2 = snd (EncryptBlk W (c1\<lparr>env_buffer := b\<rparr>) b)"
    using assms(5) by (simp add: R_SealFinal_def Let_def b_def [symmetric] split: prod.splits)
  then show l2: "length o2 = 8" using EncryptBlk_length [OF a1, of b W] lb by simp
  show "length (o1 @ o2) = 8 * (length rest div 8) + 8" by (simp add: l1 l2)
  have "length rest div 8 \<le> 2" using assms(3) by simp
  then show "length o1 + length o2 \<le> 24" using l1 l2 by linarith
qed

lemma pem_block_roundtrip:
  assumes p: "env_pair c d" and part: "length part = 24"
    and seal: "R_EncryptOpenPEMBlock TYPE(32) part c m = (c', chars)" and first: "unset = 0 \<or> 16 \<le> length m"
  shows "\<exists>d'. R_DecryptOpenPEMBlock TYPE(32) unset d chars = (d', 0, m) \<and> env_pair c' d'"
    "length chars \<le> 4 * ((8 * (length m div 8) + 8) div 3) + 4"
proof -
  have ok: "env_ok c" "bufferLen c = 0" using p by (simp_all add: env_pair_def)
  obtain c0 part0 rest chars0 where loop: "pem_seal_loop TYPE(32) c part m = (c0, part0, rest, chars0)"
    by (metis prod_cases4)
  obtain xss outs where x: "env_stream (R_SealUpdate TYPE(32)) c xss = (c0, concat outs)" "concat xss @ rest = m" "length rest < 24"
    "\<forall>x \<in> set outs. length x = 24" "chars0 = concat (map enc24 outs)" "env_ok c0" "bufferLen c0 = 0" "length part0 = 24"
    using pem_seal_loop_stream [OF ok part loop] by blast
  obtain c1 o1 where u: "R_SealUpdate TYPE(32) c0 rest = (c1, o1)" by (rule prod.exhaust)
  obtain c2 o2 where f: "R_SealFinal TYPE(32) c1 = (c2, o2)" by (rule prod.exhaust)
  note l = seal_last [OF x(6,7,3) u f]
  define last where "last = o1 @ o2"
  define part1 where "part1 = mem_write (mem_write part0 0 o1) (length o1) o2"
  define n where "n = length last"
  define cs where "cs = fst (R_EncodePEMBlock part1 n)"
  have n: "n \<le> 24" "8 \<le> n" "n = 8 * (length rest div 8) + 8" using l(1,2,3) by (simp_all add: n_def last_def)
  have p1: "length part1 = 24" "take n part1 = last"
    using l(2) x(8) by (simp_all add: part1_def n_def last_def mem_write_def)
  have c: "chars = concat (map enc24 outs) @ cs" "c' = c2"
    using seal loop u f by (simp_all add: R_EncryptOpenPEMBlock_def x(5) cs_def part1_def n_def last_def)
  have g: "length cs = 4 * ((n + 2) div 3)" and dec: "\<exists>w. R_DecodePEMBlock cs = Inr (w, n) \<and> take n w = last \<and> (3 dvd n \<longrightarrow> w = last)"
    using encode_group [of n part1] n(1) p1 by (simp_all add: cs_def)
  have s: "env_stream (R_SealUpdate TYPE(32)) c (xss @ [rest]) = (c1, concat outs @ o1)"
    by (simp add: env_stream_append x(1) u)
  \<comment> \<open>the cut of the encrypted bytes that the decoder makes\<close>
  define full where "full = (if n = 24 then outs @ [last] else outs)"
  define tail where "tail = (if n = 24 then [] else cs)"
  define piece where "piece = (if n = 24 then [] else last)"
  have cut: "concat (full @ [piece]) = (concat outs @ o1) @ o2" by (simp add: full_def piece_def last_def)
  obtain d1 q1 where r1: "env_stream (R_OpenUpdate TYPE(32)) d full = (d1, q1)" by (rule prod.exhaust)
  obtain d2 q2 where r2: "R_OpenUpdate TYPE(32) d1 piece = (d2, q2)" by (rule prod.exhaust)
  obtain d3 status q3 where r3: "R_OpenFinal TYPE(32) d2 = (d3, status, q3)" by (metis prod_cases3)
  have r: "env_stream (R_OpenUpdate TYPE(32)) d (full @ [piece]) = (d2, q1 @ q2)"
    by (simp add: env_stream_append r1 r2)
  note so = seal_open [OF p s f cut r r3]
  have m: "concat (xss @ [rest]) = m" using x(2) by simp
  have chars: "chars = concat (map enc24 full) @ tail"
  proof (cases "n = 24")
    case True
    have "part1 = last" using p1 True by simp
    then show ?thesis using True by (simp add: c(1) full_def tail_def cs_def enc24_def)
  qed (simp add: c(1) full_def tail_def)
  have full: "\<forall>x \<in> set full. length x = 24" using x(4) by (simp add: full_def n_def)
  have "length rest div 8 \<le> 2" using x(3) by simp
  then have "length rest div 8 = 0 \<or> length rest div 8 = 1 \<or> length rest div 8 = 2" by linarith
  then have "n = 8 \<or> n = 16 \<or> n = 24" unfolding n(3) by auto
  then have tl: "length tail < 32" using g by (elim disjE) (simp_all add: tail_def)
  have decode: "\<exists>w. R_DecodePEMBlock tail = Inr (w, length piece) \<and> take (length piece) w = piece"
  proof (cases "n = 24")
    case True
    then show ?thesis by (simp add: tail_def piece_def R_DecodePEMBlock_def)
  next
    case False
    then have "tail = cs" "piece = last" "length piece = n" by (simp_all add: tail_def piece_def n_def)
    then show ?thesis using dec by (simp only:) blast
  qed
  then obtain w where w: "R_DecodePEMBlock tail = Inr (w, length piece)" "take (length piece) w = piece" by blast
  have len_m: "length m = length (concat xss) + length rest" using x(2) by auto
  have tot: "length (concat outs) + n = 8 * (length m div 8) + 8"
    using so(4) by (simp only: m) (simp add: n_def last_def)
  have st: "(if full = [] then unset else 0) = 0"
  proof (cases "unset = 0")
    case False
    then have "16 \<le> length m" using first by simp
    then have "24 \<le> length (concat outs) + n" unfolding tot by simp
    then have "n = 24 \<or> outs \<noteq> []" using n(1) by auto
    then show ?thesis by (auto simp: full_def)
  qed simp
  have "R_DecryptOpenPEMBlock TYPE(32) unset d chars = (d3, 0, m)"
    unfolding R_DecryptOpenPEMBlock_def chars pem_open_loop_stream [OF full tl r1] Let_def prod.case st
    using so(1,2) by (simp add: w r2 r3 m [symmetric] del: concat_append)
  then show "\<exists>d'. R_DecryptOpenPEMBlock TYPE(32) unset d chars = (d', 0, m) \<and> env_pair c' d'"
    using so(3) by (auto simp: c(2))
  have e24: "length (concat (map enc24 xs)) = 32 * length xs" if "\<forall>x \<in> set xs. length x = 24" for xs
    using that encode_group(1) [of 24] by (induction xs) (simp_all add: enc24_def)
  have c24: "length (concat xs) = 24 * length xs" if "\<forall>x \<in> set xs. length x = (24 :: nat)" for xs :: "bytes list"
    using that by (induction xs) simp_all
  have "length chars = 32 * length outs + 4 * ((n + 2) div 3)" by (simp add: c(1) e24 [OF x(4)] g)
  moreover have t: "8 * (length m div 8) + 8 = 24 * length outs + n" using tot c24 [OF x(4)] by simp
  have "(24 * length outs + n) div 3 = 8 * length outs + n div 3"
    using div_plus_div_distrib_dvd_left [of 3 "24 * length outs" n] by simp
  moreover have "4 * ((n + 2) div 3) \<le> 4 * (n div 3) + 4" using \<open>n = 8 \<or> n = 16 \<or> n = 24\<close> by auto
  ultimately show "length chars \<le> 4 * ((8 * (length m div 8) + 8) div 3) + 4" unfolding t by linarith
qed


lemma encode_any:
  assumes "length xs < 2 ^ 30"
  shows "length (fst (R_EncodePEMBlock (xs @ ys) (length xs))) = 4 * ((length xs + 2) div 3)"
    "\<exists>w. R_DecodePEMBlock (fst (R_EncodePEMBlock (xs @ ys) (length xs))) = Inr (w, length xs) \<and> take (length xs) w = xs"
  using pem_roundtrip [of "length xs" "xs @ ys"] assms by auto

lemma pem_sign_verify:
  assumes key: "rsa_key pk sk" "45 \<le> (pub_bits pk + 7) div 8" and alg: "sign_algorithm a" and m: "length m < 2 ^ 30"
    and info: "length info = DIGEST_INFO_LEN" "length info' = DIGEST_INFO_LEN"
  shows "\<exists>ec es. R_SignPEMBlock info behind1 behind2 m recode a sk = Some (0, ec, es) \<and>
    R_VerifyPEMSignature info' (if recode then ec else m) es recode a pk = Some (0, m)"
proof -
  have l: "length m + 64 \<le> 2 ^ 32" using m by simp
  obtain s where s: "R_SignBlock info m a sk = Some (0, s)" "length s = (pub_bits pk + 7) div 8"
    "R_VerifyBlockSignature info' m s a pk = Some 0"
    using block_sign_verify [OF key alg l info] by blast
  have ls: "length s \<le> 128" using s(2) rsa_len [OF key(1)] by simp
  then have "length s < 2 ^ 30" by simp
  note es = encode_any [OF this, of behind2] and em = encode_any [OF m, of behind1]
  have "(length s + 2) div 3 \<le> 43" using ls by simp
  then have "length (fst (R_EncodePEMBlock (s @ behind2) (length s))) \<le> MAX_PEM_SIGNATURE_LEN"
    unfolding es(1) by (simp add: MAX_PEM_SIGNATURE_LEN_def ENCODED_CONTENT_LEN_def MAX_SIGNATURE_LEN_def MAX_RSA_MODULUS_LEN_def)
  then show ?thesis
    using es(2) em(2) s(1,3) by (cases recode) (auto simp: R_SignPEMBlock_def R_VerifyPEMSignature_def ID_OK_def)
qed

lemma pem_seal_open:
  assumes key: "rsa_key pk sk" "45 \<le> (pub_bits pk + 7) div 8" and key2: "rsa_key pk2 sk2" "19 \<le> (pub_bits pk2 + 7) div 8"
    and alg: "sign_algorithm a" and m: "length m < 2 ^ 30" and unset: "unset1 = 0 \<or> 16 \<le> length m"
    and info: "length info = DIGEST_INFO_LEN" "length info' = DIGEST_INFO_LEN" and parts: "length part1 = 24" "length part2 = 24"
    and ctx: "length (env_buffer c) = 8" "length (env_buffer d) = 8"
    and rnd: "rnd_inv r" "bytesNeeded r = 0"
      "(pub_bits pk2 + 7) div 8 - 11 \<le> length (filter (\<lambda>b. b \<noteq> 0) (fst (rnd_generate N (snd (rnd_generate 8 (snd (rnd_generate 8 r)))))))"
  shows "\<exists>ec ek es v r'. R_SealPEMBlock TYPE(32) info behind part1 part2 c m a pk2 sk r = Some (0, ec, ek, es, v, r') \<and>
    R_OpenPEMBlock TYPE(32) info' unset1 unset2 d ec ek es v a sk2 pk = Some (0, m)"
proof -
  have l: "length m + 64 \<le> 2 ^ 32" using m by simp
  obtain s where s: "R_SignBlock info m a sk = Some (0, s)" "length s = (pub_bits pk + 7) div 8"
    "R_VerifyBlockSignature info' m s a pk = Some 0"
    using block_sign_verify [OF key alg l info] by blast
  have ls: "45 \<le> length s" "length s \<le> 128" using s(2) rsa_len [OF key(1)] key(2) by simp_all
  have ca: "cipher_algorithm EA_DES_CBC" by (simp add: cipher_algorithm_def)
  obtain c1 ek v r' d1 where i: "R_SealInit c [pk2] EA_DES_CBC r = Some (c1, [ek], v, 0, r')"
    "R_OpenInit d EA_DES_CBC ek v sk2 = Some (d1, 0)" "env_pair c1 d1" "length ek = (pub_bits pk2 + 7) div 8"
    using seal_open_init [OF ca key2(1) ctx rnd(1,2), of N] key2(2) rnd(3) by auto
  have lek: "length ek \<le> 128" using i(4) rsa_len [OF key2(1)] by simp
  then have "length ek < 2 ^ 30" by simp
  note ee = encode_any [OF this, of behind]
  obtain c2 ec where e1: "R_EncryptOpenPEMBlock TYPE(32) part1 c1 m = (c2, ec)" by (rule prod.exhaust)
  obtain d2 where o1: "R_DecryptOpenPEMBlock TYPE(32) unset1 d1 ec = (d2, 0, m)" "env_pair c2 d2"
    using pem_block_roundtrip(1) [OF i(3) parts(1) e1 unset] by blast
  obtain c3 es where e2: "R_EncryptOpenPEMBlock TYPE(32) part2 c2 s = (c3, es)" by (rule prod.exhaust)
  have us: "unset2 = 0 \<or> 16 \<le> length s" using ls by simp
  obtain d3 where o2: "R_DecryptOpenPEMBlock TYPE(32) unset2 d2 es = (d3, 0, s)"
    using pem_block_roundtrip(1) [OF o1(2) parts(2) e2 us] by blast
  have "length s div 8 \<le> 16" using ls(2) by simp
  then have "(8 * (length s div 8) + 8) div 3 \<le> 45" by simp
  then have les: "length es \<le> MAX_PEM_ENCRYPTED_SIGNATURE_LEN"
    using pem_block_roundtrip(2) [OF o1(2) parts(2) e2 us]
    by (simp add: MAX_PEM_ENCRYPTED_SIGNATURE_LEN_def ENCRYPTED_CONTENT_LEN_def ENCODED_CONTENT_LEN_def MAX_SIGNATURE_LEN_def MAX_RSA_MODULUS_LEN_def)
  have "(length ek + 2) div 3 \<le> 43" using lek by simp
  then have lk: "length (fst (R_EncodePEMBlock (ek @ behind) (length ek))) \<le> MAX_PEM_ENCRYPTED_KEY_LEN"
    unfolding ee(1) by (simp add: MAX_PEM_ENCRYPTED_KEY_LEN_def ENCODED_CONTENT_LEN_def MAX_ENCRYPTED_KEY_LEN_def MAX_RSA_MODULUS_LEN_def)
  obtain w where w: "R_DecodePEMBlock (fst (R_EncodePEMBlock (ek @ behind) (length ek))) = Inr (w, length ek)" "take (length ek) w = ek"
    using ee(2) by blast
  have "R_SealPEMBlock TYPE(32) info behind part1 part2 c m a pk2 sk r =
      Some (0, ec, fst (R_EncodePEMBlock (ek @ behind) (length ek)), es, v, r')"
    by (simp add: R_SealPEMBlock_def s(1) i(1) e1 e2 Let_def)
  moreover have "R_OpenPEMBlock TYPE(32) info' unset1 unset2 d ec (fst (R_EncodePEMBlock (ek @ behind) (length ek))) es v a sk2 pk = Some (0, m)"
    using les lk by (simp add: R_OpenPEMBlock_def w i(2) o1(1) o2 s(3) Let_def not_less)
  ultimately show ?thesis by blast
qed

text \<open>Fewer than 32 characters: the loop that sets \<^verbatim>\<open>status\<close> is not entered.\<close>

lemma open_block_unset:
  assumes "length chars < 32" "unset \<noteq> 0"
  shows "R_DecryptOpenPEMBlock W unset d chars = (d, unset, [])"
  using assms by (simp add: R_DecryptOpenPEMBlock_def pem_open_loop.simps)

lemma short_block_chars:
  assumes "env_pair c d" "length part = 24" "length m < 16" "R_EncryptOpenPEMBlock TYPE(32) part c m = (c', chars)"
  shows "length chars < 32"
proof -
  have "length m div 8 \<le> 1" using assms(3) by simp
  then have "4 * ((8 * (length m div 8) + 8) div 3) + 4 \<le> 24" by (cases "length m div 8") auto
  then show ?thesis using pem_block_roundtrip(2) [OF assms(1,2,4), of 0] by linarith
qed

end
