(* ===== verification/DES_Eval.thy ===== *)
theory DES_Eval
  imports DES
begin

text \<open>The block function evaluated with 64-bit variables on one block, for the key of zeros.\<close>

lemma nth8: "8 \<le> n \<Longrightarrow> (a0 # a1 # a2 # a3 # a4 # a5 # a6 # a7 # xs) ! n = xs ! (n - 8)"
  by (simp add: nth_Cons' eval_nat_numeral)
lemma Sp0: "Spbox ! 0 = [
     0x01010400, 0x00000000, 0x00010000, 0x01010404, 0x01010004, 0x00010404, 0x00000004, 0x00010000,
      0x00000400, 0x01010400, 0x01010404, 0x00000400, 0x01000404, 0x01010004, 0x01000000, 0x00000004,
      0x00000404, 0x01000400, 0x01000400, 0x00010400, 0x00010400, 0x01010000, 0x01010000, 0x01000404,
      0x00010004, 0x01000004, 0x01000004, 0x00010004, 0x00000000, 0x00000404, 0x00010404, 0x01000000,
      0x00010000, 0x01010404, 0x00000004, 0x01010000, 0x01010400, 0x01000000, 0x01000000, 0x00000400,
      0x01010004, 0x00010000, 0x00010400, 0x01000004, 0x00000400, 0x00000004, 0x01000404, 0x00010404,
      0x01010404, 0x00010004, 0x01010000, 0x01000404, 0x01000004, 0x00000404, 0x00010404, 0x01010400,
      0x00000404, 0x01000400, 0x01000400, 0x00000000, 0x00010004, 0x00010400, 0x00000000, 0x01010004]"
  by (simp add: Spbox_def)
lemma Sp1: "Spbox ! 1 = [
     0x80108020, 0x80008000, 0x00008000, 0x00108020, 0x00100000, 0x00000020, 0x80100020, 0x80008020,
      0x80000020, 0x80108020, 0x80108000, 0x80000000, 0x80008000, 0x00100000, 0x00000020, 0x80100020,
      0x00108000, 0x00100020, 0x80008020, 0x00000000, 0x80000000, 0x00008000, 0x00108020, 0x80100000,
      0x00100020, 0x80000020, 0x00000000, 0x00108000, 0x00008020, 0x80108000, 0x80100000, 0x00008020,
      0x00000000, 0x00108020, 0x80100020, 0x00100000, 0x80008020, 0x80100000, 0x80108000, 0x00008000,
      0x80100000, 0x80008000, 0x00000020, 0x80108020, 0x00108020, 0x00000020, 0x00008000, 0x80000000,
      0x00008020, 0x80108000, 0x00100000, 0x80000020, 0x00100020, 0x80008020, 0x80000020, 0x00100020,
      0x00108000, 0x00000000, 0x80008000, 0x00008020, 0x80000000, 0x80100020, 0x80108020, 0x00108000]"
  by (simp add: Spbox_def)
lemma Sp2: "Spbox ! 2 = [
     0x00000208, 0x08020200, 0x00000000, 0x08020008, 0x08000200, 0x00000000, 0x00020208, 0x08000200,
      0x00020008, 0x08000008, 0x08000008, 0x00020000, 0x08020208, 0x00020008, 0x08020000, 0x00000208,
      0x08000000, 0x00000008, 0x08020200, 0x00000200, 0x00020200, 0x08020000, 0x08020008, 0x00020208,
      0x08000208, 0x00020200, 0x00020000, 0x08000208, 0x00000008, 0x08020208, 0x00000200, 0x08000000,
      0x08020200, 0x08000000, 0x00020008, 0x00000208, 0x00020000, 0x08020200, 0x08000200, 0x00000000,
      0x00000200, 0x00020008, 0x08020208, 0x08000200, 0x08000008, 0x00000200, 0x00000000, 0x08020008,
      0x08000208, 0x00020000, 0x08000000, 0x08020208, 0x00000008, 0x00020208, 0x00020200, 0x08000008,
      0x08020000, 0x08000208, 0x00000208, 0x08020000, 0x00020208, 0x00000008, 0x08020008, 0x00020200]"
  by (simp add: Spbox_def)
lemma Sp3: "Spbox ! 3 = [
     0x00802001, 0x00002081, 0x00002081, 0x00000080, 0x00802080, 0x00800081, 0x00800001, 0x00002001,
      0x00000000, 0x00802000, 0x00802000, 0x00802081, 0x00000081, 0x00000000, 0x00800080, 0x00800001,
      0x00000001, 0x00002000, 0x00800000, 0x00802001, 0x00000080, 0x00800000, 0x00002001, 0x00002080,
      0x00800081, 0x00000001, 0x00002080, 0x00800080, 0x00002000, 0x00802080, 0x00802081, 0x00000081,
      0x00800080, 0x00800001, 0x00802000, 0x00802081, 0x00000081, 0x00000000, 0x00000000, 0x00802000,
      0x00002080, 0x00800080, 0x00800081, 0x00000001, 0x00802001, 0x00002081, 0x00002081, 0x00000080,
      0x00802081, 0x00000081, 0x00000001, 0x00002000, 0x00800001, 0x00002001, 0x00802080, 0x00800081,
      0x00002001, 0x00002080, 0x00800000, 0x00802001, 0x00000080, 0x00800000, 0x00002000, 0x00802080]"
  by (simp add: Spbox_def)
lemma Sp4: "Spbox ! 4 = [
     0x00000100, 0x02080100, 0x02080000, 0x42000100, 0x00080000, 0x00000100, 0x40000000, 0x02080000,
      0x40080100, 0x00080000, 0x02000100, 0x40080100, 0x42000100, 0x42080000, 0x00080100, 0x40000000,
      0x02000000, 0x40080000, 0x40080000, 0x00000000, 0x40000100, 0x42080100, 0x42080100, 0x02000100,
      0x42080000, 0x40000100, 0x00000000, 0x42000000, 0x02080100, 0x02000000, 0x42000000, 0x00080100,
      0x00080000, 0x42000100, 0x00000100, 0x02000000, 0x40000000, 0x02080000, 0x42000100, 0x40080100,
      0x02000100, 0x40000000, 0x42080000, 0x02080100, 0x40080100, 0x00000100, 0x02000000, 0x42080000,
      0x42080100, 0x00080100, 0x42000000, 0x42080100, 0x02080000, 0x00000000, 0x40080000, 0x42000000,
      0x00080100, 0x02000100, 0x40000100, 0x00080000, 0x00000000, 0x40080000, 0x02080100, 0x40000100]"
  by (simp add: Spbox_def)
lemma Sp5: "Spbox ! 5 = [
     0x20000010, 0x20400000, 0x00004000, 0x20404010, 0x20400000, 0x00000010, 0x20404010, 0x00400000,
      0x20004000, 0x00404010, 0x00400000, 0x20000010, 0x00400010, 0x20004000, 0x20000000, 0x00004010,
      0x00000000, 0x00400010, 0x20004010, 0x00004000, 0x00404000, 0x20004010, 0x00000010, 0x20400010,
      0x20400010, 0x00000000, 0x00404010, 0x20404000, 0x00004010, 0x00404000, 0x20404000, 0x20000000,
      0x20004000, 0x00000010, 0x20400010, 0x00404000, 0x20404010, 0x00400000, 0x00004010, 0x20000010,
      0x00400000, 0x20004000, 0x20000000, 0x00004010, 0x20000010, 0x20404010, 0x00404000, 0x20400000,
      0x00404010, 0x20404000, 0x00000000, 0x20400010, 0x00000010, 0x00004000, 0x20400000, 0x00404010,
      0x00004000, 0x00400010, 0x20004010, 0x00000000, 0x20404000, 0x20000000, 0x00400010, 0x20004010]"
  by (simp add: Spbox_def)
lemma Sp6: "Spbox ! 6 = [
     0x00200000, 0x04200002, 0x04000802, 0x00000000, 0x00000800, 0x04000802, 0x00200802, 0x04200800,
      0x04200802, 0x00200000, 0x00000000, 0x04000002, 0x00000002, 0x04000000, 0x04200002, 0x00000802,
      0x04000800, 0x00200802, 0x00200002, 0x04000800, 0x04000002, 0x04200000, 0x04200800, 0x00200002,
      0x04200000, 0x00000800, 0x00000802, 0x04200802, 0x00200800, 0x00000002, 0x04000000, 0x00200800,
      0x04000000, 0x00200800, 0x00200000, 0x04000802, 0x04000802, 0x04200002, 0x04200002, 0x00000002,
      0x00200002, 0x04000000, 0x04000800, 0x00200000, 0x04200800, 0x00000802, 0x00200802, 0x04200800,
      0x00000802, 0x04000002, 0x04200802, 0x04200000, 0x00200800, 0x00000000, 0x00000002, 0x04200802,
      0x00000000, 0x00200802, 0x04200000, 0x00000800, 0x04000002, 0x04000800, 0x00000800, 0x00200002]"
  by (simp add: Spbox_def)
lemma Sp7: "Spbox ! 7 = [
     0x10001040, 0x00001000, 0x00040000, 0x10041040, 0x10000000, 0x10001040, 0x00000040, 0x10000000,
      0x00040040, 0x10040000, 0x10041040, 0x00041000, 0x10041000, 0x00041040, 0x00001000, 0x00000040,
      0x10040000, 0x10000040, 0x10001000, 0x00001040, 0x00041000, 0x00040040, 0x10040040, 0x10041000,
      0x00001040, 0x00000000, 0x00000000, 0x10040040, 0x10000040, 0x10001000, 0x00041040, 0x00040000,
      0x00041040, 0x00040000, 0x10041000, 0x00001000, 0x00000040, 0x10040040, 0x00001000, 0x00041040,
      0x10001000, 0x00000040, 0x10000040, 0x10040000, 0x10040040, 0x10000000, 0x00040000, 0x10001040,
      0x00000000, 0x10041040, 0x00040040, 0x10000040, 0x10040000, 0x10001000, 0x10001040, 0x00000000,
      0x10041040, 0x00041000, 0x00041000, 0x00001040, 0x00001040, 0x00040040, 0x10000000, 0x10041000]"
  by (simp add: Spbox_def)

lemma des_F_eval:
  "work = (drop_bit 4 r OR push_bit 28 r) XOR ucast k0 \<Longrightarrow> work1 = r XOR ucast k1 \<Longrightarrow>
   l XOR sp 6 work XOR sp 4 (drop_bit 8 work) XOR sp 2 (drop_bit 16 work) XOR sp 0 (drop_bit 24 work) XOR
   sp 7 work1 XOR sp 5 (drop_bit 8 work1) XOR sp 3 (drop_bit 16 work1) XOR sp 1 (drop_bit 24 work1) = v \<Longrightarrow>
   des_F l r k0 k1 = v"
  unfolding des_F_def Let_def by (simp only: xor.assoc)

lemma des_rounds_eval:
  "k = replicate 32 0 \<Longrightarrow> i < 29 \<Longrightarrow> des_F left right 0 0 = a \<Longrightarrow> des_F right a 0 0 = b \<Longrightarrow>
   des_rounds k i (left, right) = (a, b)"
  by (simp add: des_rounds_def)

text \<open>A bound value is computed before it is substituted.\<close>

lemma let_values: "Let (a, b) f = f (a, b)" "Let (numeral n) h = h (numeral n)" "Let 0 g = g 0" "Let 1 k = k 1"
  by (simp_all add: Let_def)

lemmas des_eval = des_IP_def des_FP_def des_swap_def des_swap0_def let_values

lemmas sp_eval = sp_def Sp0 Sp1 Sp1 [unfolded One_nat_def] Sp2 Sp3 Sp4 Sp5 Sp6 Sp7 nth8

lemma desfunc_64_1: "desfunc TYPE(64) (replicate 32 0) (0x1234567, 0x89ABCDEF) = (0x5BE5955D, 0xA36F5AF4)"
proof -
  let ?r = "des_rounds (replicate 32 0) :: nat \<Rightarrow> 64 word \<times> 64 word \<Rightarrow> 64 word \<times> 64 word"
  have "des_IP (0x1234567, 0x89ABCDEF) = ((0x1980199FF, 0x1E155E155) :: 64 word \<times> 64 word)" by (simp add: des_eval cong: let_weak_cong)
  moreover have "?r 0 (0x1980199FF, 0x1E155E155) = (0x1D6B61D8B, 0x1AFA016F5)"
    by (rule des_rounds_eval, simp, simp, (rule des_F_eval, simp, simp, simp add: sp_eval)+)
  moreover have "?r 4 (0x1D6B61D8B, 0x1AFA016F5) = (0x1411E0617, 0x11E4CEE68)"
    by (rule des_rounds_eval, simp, simp, (rule des_F_eval, simp, simp, simp add: sp_eval)+)
  moreover have "?r 8 (0x1411E0617, 0x11E4CEE68) = (0x1D4645394, 0x19E6AB1E7)"
    by (rule des_rounds_eval, simp, simp, (rule des_F_eval, simp, simp, simp add: sp_eval)+)
  moreover have "?r 12 (0x1D4645394, 0x19E6AB1E7) = (0x17BB80455, 0x1B32C1C80)"
    by (rule des_rounds_eval, simp, simp, (rule des_F_eval, simp, simp, simp add: sp_eval)+)
  moreover have "?r 16 (0x17BB80455, 0x1B32C1C80) = (0x1E5117D22, 0x101182D8A)"
    by (rule des_rounds_eval, simp, simp, (rule des_F_eval, simp, simp, simp add: sp_eval)+)
  moreover have "?r 20 (0x1E5117D22, 0x101182D8A) = (0x152FCA9FF, 0x1BB3EF026)"
    by (rule des_rounds_eval, simp, simp, (rule des_F_eval, simp, simp, simp add: sp_eval)+)
  moreover have "?r 24 (0x152FCA9FF, 0x1BB3EF026) = (0x11CB653C5, 0x1ACB404C4)"
    by (rule des_rounds_eval, simp, simp, (rule des_F_eval, simp, simp, simp add: sp_eval)+)
  moreover have "?r 28 (0x11CB653C5, 0x1ACB404C4) = (0x12D64D2E2, 0x1D79B5C7F)"
    by (rule des_rounds_eval, simp, simp, (rule des_F_eval, simp, simp, simp add: sp_eval)+)
  moreover have "des_FP ((0x12D64D2E2, 0x1D79B5C7F) :: 64 word \<times> 64 word) = (0xD7E67D35A36F5AF4, 0xEBCDAE3F5BE5955D)" by (simp add: des_eval cong: let_weak_cong)
  ultimately show ?thesis by (simp add: desfunc_def del: replicate.simps)
qed

lemma desfunc_64_2: "desfunc TYPE(64) (replicate 32 0) (0x5BE5955D, 0xA36F5AF4) = (0xB1CD4D58, 0x2E5C5AE3)"
proof -
  let ?r = "des_rounds (replicate 32 0) :: nat \<Rightarrow> 64 word \<times> 64 word \<Rightarrow> 64 word \<times> 64 word"
  have "des_IP (0x5BE5955D, 0xA36F5AF4) = ((0x1D79B5C7F, 0x12D64D2E3) :: 64 word \<times> 64 word)" by (simp add: des_eval cong: let_weak_cong)
  moreover have "?r 0 (0x1D79B5C7F, 0x12D64D2E3) = (0x1BCB004C4, 0x19DA7F364)"
    by (rule des_rounds_eval, simp, simp, (rule des_F_eval, simp, simp, simp add: sp_eval)+)
  moreover have "?r 4 (0x1BCB004C4, 0x19DA7F364) = (0x15D62A592, 0x1477D4F68)"
    by (rule des_rounds_eval, simp, simp, (rule des_F_eval, simp, simp, simp add: sp_eval)+)
  moreover have "?r 8 (0x15D62A592, 0x1477D4F68) = (0x185E370A8, 0x115BC3DDD)"
    by (rule des_rounds_eval, simp, simp, (rule des_F_eval, simp, simp, simp add: sp_eval)+)
  moreover have "?r 12 (0x185E370A8, 0x115BC3DDD) = (0x1FEE3E722, 0x1A201846A)"
    by (rule des_rounds_eval, simp, simp, (rule des_F_eval, simp, simp, simp add: sp_eval)+)
  moreover have "?r 16 (0x1FEE3E722, 0x1A201846A) = (0x10599C9C1, 0x1A06BDB5F)"
    by (rule des_rounds_eval, simp, simp, (rule des_F_eval, simp, simp, simp add: sp_eval)+)
  moreover have "?r 20 (0x10599C9C1, 0x1A06BDB5F) = (0x164D78FC8, 0x125643AA5)"
    by (rule des_rounds_eval, simp, simp, (rule des_F_eval, simp, simp, simp add: sp_eval)+)
  moreover have "?r 24 (0x164D78FC8, 0x125643AA5) = (0x19BC1C211, 0x1365ED168)"
    by (rule des_rounds_eval, simp, simp, (rule des_F_eval, simp, simp, simp add: sp_eval)+)
  moreover have "?r 28 (0x19BC1C211, 0x1365ED168) = (0x10722FDA0, 0x1DCD26D0E)"
    by (rule des_rounds_eval, simp, simp, (rule des_F_eval, simp, simp, simp add: sp_eval)+)
  moreover have "des_FP ((0x10722FDA0, 0x1DCD26D0E) :: 64 word \<times> 64 word) = (0xD7943BC12E5C5AE3, 0xEE693687B1CD4D58)" by (simp add: des_eval cong: let_weak_cong)
  ultimately show ?thesis by (simp add: desfunc_def del: replicate.simps)
qed

text \<open>The key of zeros has the subkeys of zeros.\<close>

lemma des_tables:
  "l \<in> set pc1 \<Longrightarrow> l < 64" "length pc1 = 56" "i < 16 \<Longrightarrow> totrot ! i \<le> 28" "j < 48 \<Longrightarrow> pc2 ! j < 56"
proof -
  show "l \<in> set pc1 \<Longrightarrow> l < 64" "length pc1 = 56" by (auto simp: pc1_def)
  have "list_all (\<lambda>i. totrot ! i \<le> 28) [0..<16]" by code_simp
  then show "i < 16 \<Longrightarrow> totrot ! i \<le> 28" unfolding list_all_iff set_upt by simp
  have "list_all (\<lambda>i. pc2 ! i < 56) [0..<48]" by code_simp
  then show "j < 48 \<Longrightarrow> pc2 ! j < 56" unfolding list_all_iff set_upt by simp
qed

lemma map_const: "(\<And>x. x \<in> set xs \<Longrightarrow> f x = c) \<Longrightarrow> map f xs = replicate (length xs) c"
  by (induction xs) simp_all

lemma fold_id_on: "(\<And>x. x \<in> set xs \<Longrightarrow> f x a = a) \<Longrightarrow> fold f xs a = a"
  by (induction xs) simp_all

lemma replicate_update: "(replicate n x)[p := x] = replicate n x"
  by (cases "p < n") (use list_update_id [of "replicate n x" p] in simp, simp add: list_update_beyond)

lemma deskey_zero: "deskey (replicate 8 0) e = replicate 32 0"
proof -
  have pc1m: "des_pc1m (replicate 8 0) = replicate 56 False"
    unfolding des_pc1m_def by (subst map_const [where c = False]) (auto dest: des_tables(1) simp: des_tables(2))
  have pcr: "des_pcr (replicate 56 False) i = replicate 56 False" if "i < 16" for i
  proof -
    have "map (\<lambda>j. let l = j + totrot ! i in replicate 56 False ! (if l < 28 then l else l - 28)) [0..<28] = replicate 28 False"
      using des_tables(3) [OF that] by (subst map_const [where c = False]) (auto simp: Let_def simp del: upt_rec_numeral)
    moreover have "map (\<lambda>j. let l = j + totrot ! i in replicate 56 False ! (if l < 56 then l else l - 28)) [28..<56] = replicate 28 False"
      using des_tables(3) [OF that] by (subst map_const [where c = False]) (auto simp: Let_def simp del: upt_rec_numeral)
    ultimately show ?thesis by (simp only: des_pcr_def replicate_add [symmetric]) simp
  qed
  have kn: "des_kn (replicate 56 False) off = 0" if "off \<le> 24" for off
    unfolding des_kn_def by (rule fold_id_on) (use des_tables(4) that in simp)
  have "map (\<lambda>i. let pcr = des_pcr (replicate 56 False) i in (des_kn pcr 0, des_kn pcr 24)) [0..<16] = replicate 16 (0, 0)"
    by (subst map_const [where c = "(0, 0)"]) (simp_all add: pcr kn Let_def del: upt_rec_numeral)
  moreover have "cookey (replicate 16 (0, 0)) e = replicate 32 0"
    unfolding cookey_def
  proof (rule fold_id_on)
    fix i :: nat assume "i \<in> set [0..<16]"
    then have "(replicate 16 (0 :: u32, 0 :: u32)) ! i = (0, 0)" by simp
    moreover have "(replicate 32 (0 :: u32))[p := 0, Suc p := 0] = replicate 32 0" for p
      by (simp only: replicate_update)
    ultimately show "(let p = (if e then 2 * i else 30 - 2 * i); (raw0, raw1) = replicate 16 (0, 0) ! i
      in (replicate 32 0)[p := cook0 raw0 raw1, Suc p := cook1 raw0 raw1]) = replicate 32 0"
      by (simp only: Let_def prod.case cook0_def cook1_def) simp
  qed
  ultimately show ?thesis by (simp only: deskey_def pc1m Let_def)
qed

end
