(* ===== verification/Envelope_Props.thy ===== *)
theory Envelope_Props
  imports PEM_Blocks DES_Eval Example_Keys
begin

text \<open>
  The properties of the ciphers, the printable encoding, the signatures and the envelopes of
  \<^verbatim>\<open>HBase/RSAEuro\<close>.
\<close>

section \<open>The ciphers\<close>

text \<open>C8. With 32-bit variables, each of the chained modes of DES, DESX and triple DES decrypts what it
  encrypted: in whatever multiples of eight bytes a message is handed to the encryption and its
  image to the decryption, both return, the image is as long as the message, and the message comes back.\<close>

theorem DES_cbc_roundtrip:
  "cbc_inverts (DES_CBCUpdate TYPE(32)) (DES_CBCInit key v True) (DES_CBCInit key v False) \<and>
   cbc_inverts (DESX_CBCUpdate TYPE(32)) (DESX_CBCInit key v True) (DESX_CBCInit key v False) \<and>
   cbc_inverts (DES3_CBCUpdate TYPE(32)) (DES3_CBCInit key v True) (DES3_CBCInit key v False)"
  by (intro conjI DES_inverts)


section \<open>The printable encoding\<close>

text \<open>C23. \<^verbatim>\<open>R_DecodePEMBlock\<close> recovers the block that \<^verbatim>\<open>R_EncodePEMBlock\<close> encoded, whatever
  follows it in memory; the length announced is that of the characters, and the decoder writes its last group in full,
  so up to two bytes more than the block has.\<close>

theorem PEM_roundtrip:
  assumes "length block < 2 ^ 30"
  shows "\<exists>cs w. R_EncodePEMBlock (block @ behind) (length block) = (cs, word_of_nat (length cs)) \<and>
    length cs = 4 * ((length block + 2) div 3) \<and>
    R_DecodePEMBlock cs = Inr (w, length block) \<and> take (length block) w = block \<and>
    length w = 3 * ((length block + 2) div 3)"
  using pem_roundtrip [of "length block" "block @ behind"] assms by auto

theorem PEM_roundtrip_witness:
  "let block = [1, 2 :: u8] in
   \<exists>cs w. R_EncodePEMBlock (block @ []) (length block) = (cs, word_of_nat (length cs)) \<and>
    length cs = 4 * ((length block + 2) div 3) \<and> R_DecodePEMBlock cs = Inr (w, length block) \<and>
    take (length block) w = block \<and> length w = 3 * ((length block + 2) div 3)"
  unfolding Let_def by (rule PEM_roundtrip) simp

text \<open>The two encoders of the repository agree: when the two bytes behind the block are zero,
  \<^verbatim>\<open>R_EncodePEMBlock\<close> writes the characters of \<^verbatim>\<open>H_B64Encode\<close>.\<close>

theorem PEM_is_base64:
  assumes "length block < 2 ^ 30"
  shows "fst (R_EncodePEMBlock (block @ [0, 0]) (length block)) = H_B64Encode block"
  using pem_roundtrip(1) [of "length block" "block @ [0, 0]"] pem_chars_base64 [of 0 "block @ [0, 0]" block] assms by simp

theorem PEM_is_base64_witness: "fst (R_EncodePEMBlock [9, 0, 0] 1) = H_B64Encode [9]"
  using PEM_is_base64 [of "[9]"] by simp

text \<open>C39. The encoder looks behind the block: the same block of one byte has different encodings in different
  memory, and only with a zero behind it the one of the standard.  The decoder writes behind its buffer: the
  encoding of a signature of the greatest length, which \<^verbatim>\<open>R_VerifyPEMSignature\<close> admits, takes one byte
  more than the array for it has.\<close>

theorem PEM_outside_buffers:
  "fst (R_EncodePEMBlock [0, 0xF0, 0] 1) \<noteq> fst (R_EncodePEMBlock [0, 0, 0] 1) \<and>
   length (fst (R_EncodePEMBlock (replicate 128 b @ behind) 128)) \<le> MAX_PEM_SIGNATURE_LEN \<and>
   (\<exists>w n. R_DecodePEMBlock (fst (R_EncodePEMBlock (replicate 128 b @ behind) 128)) = Inr (w, n) \<and>
      length w = MAX_SIGNATURE_LEN + 1)"
proof (intro conjI)
  show "fst (R_EncodePEMBlock [0, 0xF0, 0] 1) \<noteq> fst (R_EncodePEMBlock [0, 0, 0] 1)" by code_simp
  have n: "128 \<le> length (replicate 128 b @ behind)" "(128 :: nat) < 2 ^ 30" by simp_all
  note r = pem_roundtrip [OF n]
  show "length (fst (R_EncodePEMBlock (replicate 128 b @ behind) 128)) \<le> MAX_PEM_SIGNATURE_LEN"
    using r(1,2) by (simp add: MAX_PEM_SIGNATURE_LEN_def ENCODED_CONTENT_LEN_def MAX_SIGNATURE_LEN_def MAX_RSA_MODULUS_LEN_def)
  show "\<exists>w n. R_DecodePEMBlock (fst (R_EncodePEMBlock (replicate 128 b @ behind) 128)) = Inr (w, n) \<and>
      length w = MAX_SIGNATURE_LEN + 1"
    using r(1,3) by (auto simp: MAX_SIGNATURE_LEN_def MAX_RSA_MODULUS_LEN_def)
qed

section \<open>Signatures\<close>

text \<open>C15. A message signed in the pieces \<open>ps\<close> with one digest, MD2, MD4 or MD5, is verified in the pieces
  \<open>qs\<close> with another: both operations return, and the answer is \<^verbatim>\<open>ID_OK\<close> exactly when the
  digest is the same and gives the same value for both messages.\<close>

theorem R_sign_verify:
  assumes "rsa_key pk sk" "45 \<le> (pub_bits pk + 7) div 8"
    "sign_algorithm a" "digest_ctx_ok c" "length info = DIGEST_INFO_LEN" "ps \<noteq> []" "length (concat ps) + 64 \<le> 2 ^ 32"
    "sign_algorithm b" "digest_ctx_ok d" "length info' = DIGEST_INFO_LEN" "qs \<noteq> []" "length (concat qs) + 64 \<le> 2 ^ 32"
  shows "\<exists>c' s d'. R_SignFinal info (digest_pieces c a ps) sk = Some (c', ID_OK, s) \<and> length s = (pub_bits pk + 7) div 8 \<and>
    R_VerifyFinal info' (digest_pieces d b qs) s pk =
      Some (d', if a = b \<and> R_DigestBlock (concat ps) a = R_DigestBlock (concat qs) b then ID_OK else RE_SIGNATURE)"
  by (rule sign_verify_pieces [OF assms])

lemma info_len: "length (replicate 34 (0 :: u8)) = DIGEST_INFO_LEN"
  by (simp add: length_digest_info(2))

theorem R_sign_verify_witness:
  "\<exists>c' s d'. R_SignFinal (replicate 34 0) (digest_pieces R_DIGEST_zero DA_MD5 [[1], [2]]) sig_private = Some (c', ID_OK, s) \<and>
    R_VerifyFinal (replicate 34 0) (digest_pieces R_DIGEST_zero DA_MD5 [[1, 2]]) s sig_public = Some (d', ID_OK)"
  using R_sign_verify [OF sig_key _ _ digest_zero_ok info_len _ _ _ digest_zero_ok info_len, of DA_MD5 "[[1], [2]]" DA_MD5 "[[1, 2]]"]
  by (simp add: sign_algorithm_def example_lengths) blast

section \<open>Envelopes\<close>


definition sig_envelope :: R_ENVELOPE_CTX where
  "sig_envelope = \<lparr>encryptionAlgorithm = 0, ctx_des = DES_CBCInit [] [] True, ctx_des3 = DES3_CBCInit [] [] True,
     ctx_desx = DESX_CBCInit [] [] True, env_buffer = replicate 8 0, bufferLen = 0\<rparr>"

definition sig_random :: R_RANDOM_STRUCT where
  "sig_random = \<lparr>bytesNeeded = 0, rnd_state = replicate 16 0, outputAvailable = 16, rnd_output = replicate 16 1\<rparr>"

lemma sig_random_ok: "rnd_inv sig_random" "bytesNeeded sig_random = 0"
  by (simp_all add: sig_random_def rnd_inv_def)

lemma md5_zeros: "take 8 (md5_of (replicate 16 0)) = [0x4A, 0xE7, 0x13, 0x36, 0xE4, 0x4B, 0xF9, 0xBF]"
  by code_simp

lemma sig_random_padding:
  "filter (\<lambda>b. b \<noteq> 0) (fst (rnd_generate 8 (snd (rnd_generate 8 (snd (rnd_generate 8 sig_random)))))) =
     [0x4A, 0xE7, 0x13, 0x36, 0xE4, 0x4B, 0xF9, 0xBF]"
proof -
  have g: "rnd_generate 8 sig_random = (replicate 8 1, sig_random\<lparr>outputAvailable := 8\<rparr>)"
    by (simp add: rnd_generate_ready sig_random_def)
  have h: "rnd_generate 8 (sig_random\<lparr>outputAvailable := 8\<rparr>) = (replicate 8 1, sig_random\<lparr>outputAvailable := 0\<rparr>)"
    by (simp add: rnd_generate_ready sig_random_def)
  have "fst (rnd_generate 8 (sig_random\<lparr>outputAvailable := 0\<rparr>)) = take 8 (md5_of (replicate 16 0))"
    by (simp add: rnd_generate_more rnd_generate_ready rnd_refill_def sig_random_def split: prod.splits)
  then show ?thesis by (simp add: g h md5_zeros)
qed

lemma sig_random_enough:
  "8 \<le> length (filter (\<lambda>b. b \<noteq> 0) (fst (rnd_generate 8 (snd (rnd_generate 8 (snd (rnd_generate 8 sig_random)))))))"
  by (simp only: sig_random_padding) simp




text \<open>C38. \<^verbatim>\<open>status\<close> is uninitialised: of a message of fewer than 16 bytes the encryption has fewer
  than 32 characters, and then \<^verbatim>\<open>R_DecryptOpenPEMBlock\<close>, whose loop is not entered, returns whatever the
  variable held and, unless that is zero, no content.\<close>

theorem PEM_short_unset:
  assumes "env_pair c d" "length part = 24" "length m < 16" "unset \<noteq> 0"
  shows "R_DecryptOpenPEMBlock TYPE(32) unset d (snd (R_EncryptOpenPEMBlock TYPE(32) part c m)) = (d, unset, [])"
proof -
  obtain c' chars where e: "R_EncryptOpenPEMBlock TYPE(32) part c m = (c', chars)" by (rule prod.exhaust)
  show ?thesis using open_block_unset [OF short_block_chars [OF assms(1-3) e] assms(4)] by (simp add: e)
qed

text \<open>A pair of contexts as the two initialisations leave them.\<close>

definition sig_context :: "bool \<Rightarrow> R_ENVELOPE_CTX" where
  "sig_context b = (fst (CipherInit (sig_envelope\<lparr>encryptionAlgorithm := EA_DES_CBC\<rparr>) EA_DES_CBC [] [] b))\<lparr>bufferLen := 0\<rparr>"

lemma sig_pair: "env_pair (sig_context True) (sig_context False)"
  unfolding sig_context_def by (rule cipher_pair(1)) (simp_all add: cipher_algorithm_def sig_envelope_def)

theorem PEM_short_unset_witness:
  "R_DecryptOpenPEMBlock TYPE(32) 0x401 (sig_context False)
     (snd (R_EncryptOpenPEMBlock TYPE(32) (replicate 24 0) (sig_context True) [1, 2])) = (sig_context False, 0x401, [])"
  by (rule PEM_short_unset [OF sig_pair]) simp_all

end
