(* ===== verification/HRSA.thy ===== *)
theory HRSA
  imports KeyGen
begin

text \<open>
  \<^verbatim>\<open>HBase/HRSA.cpp\<close> and \<^verbatim>\<open>HBase/RSAKey.cpp\<close>: what the scripts use of the RSA library.  A message of
  any length is encrypted in pieces that leave the eleven bytes of the format, and decrypted block by block.
  \<^verbatim>\<open>abort()\<close> is the result \<open>Inl ()\<close>.
\<close>

record CRSAKey =
  m_stPublicKey :: R_RSA_PUBLIC_KEY
  m_stPrivateKey :: R_RSA_PRIVATE_KEY
  key_stRandom :: R_RANDOM_STRUCT

definition RSAKeyMinLen :: nat where "RSAKeyMinLen = 512"
definition RSAKeyMaxLen :: nat where "RSAKeyMaxLen = 1024"

definition creatKey ::
  "(nat \<Rightarrow> int \<times> bytes \<times> bytes) \<Rightarrow> int \<Rightarrow> CRSAKey \<Rightarrow> nat \<Rightarrow> (unit + CRSAKey \<times> int) option" where
  "creatKey env idums key usKeyLens =
     (if \<not> (usKeyLens \<ge> RSAKeyMinLen \<and> usKeyLens \<le> RSAKeyMaxLen) then Some (Inl ())
      else
        let (random, idums) = R_RandomCreate env idums (key_stRandom key)
        in do {
          (result, random) \<leftarrow> R_GeneratePEMKeys \<lparr>proto_bits = usKeyLens, useFermat4 = True\<rparr> random;
          case result of
            Inl _ \<Rightarrow> Some (Inl ())
          | Inr (pk, sk) \<Rightarrow>
              Some (Inr (\<lparr>m_stPublicKey = pk, m_stPrivateKey = sk, key_stRandom = random\<rparr>, idums))
        })"

record CRSA =
  m_stPubKey :: R_RSA_PUBLIC_KEY
  m_stPriKey :: R_RSA_PRIVATE_KEY
  m_stRandom :: R_RANDOM_STRUCT

definition CRSA_setKey :: "CRSAKey \<Rightarrow> CRSA" where
  "CRSA_setKey key = \<lparr>m_stPubKey = m_stPublicKey key, m_stPriKey = m_stPrivateKey key, m_stRandom = key_stRandom key\<rparr>"

datatype RSAEnType = EnType_Pub | EnType_Pri
datatype RSADeType = DeType_Pub | DeType_Pri

section \<open>Encryption\<close>

text \<open>The loop over the data, with the random object threaded through it; on an error the result is empty.\<close>

partial_function (option) RSAEncrypt_loop ::
  "RSAEnType \<Rightarrow> nat \<Rightarrow> bytes \<Rightarrow> nat \<Rightarrow> CRSA \<Rightarrow> bytes \<Rightarrow> (bytes \<times> CRSA) option" where
  "RSAEncrypt_loop emEnType iStep pszData i c strRtn =
     (if i < length pszData then
        let iBufLens = (if i + iStep > length pszData then length pszData - i else iStep);
            pTmp = take iBufLens (drop i pszData)
        in do {
          (iRtn, c) \<leftarrow>
            (case emEnType of
               EnType_Pub \<Rightarrow> map_option (\<lambda>(iRtn, random). (iRtn, c\<lparr>m_stRandom := random\<rparr>))
                               (RSAPublicEncrypt pTmp (m_stPubKey c) (m_stRandom c))
             | EnType_Pri \<Rightarrow> map_option (\<lambda>iRtn. (iRtn, c)) (RSAPrivateEncrypt pTmp (m_stPriKey c)));
          case iRtn of
            Inl _ \<Rightarrow> Some ([], c)
          | Inr acOutBuf \<Rightarrow> RSAEncrypt_loop emEnType iStep pszData (i + iStep) c (strRtn @ acOutBuf)
        }
      else Some (strRtn, c))"

text \<open>\<^verbatim>\<open>iStep\<close> is an \<^verbatim>\<open>unsigned int\<close>.\<close>

definition RSAEncrypt :: "RSAEnType \<Rightarrow> bytes \<Rightarrow> CRSA \<Rightarrow> (bytes \<times> CRSA) option" where
  "RSAEncrypt emEnType pszData c =
     (let n = (case emEnType of EnType_Pub \<Rightarrow> pub_bits (m_stPubKey c) | EnType_Pri \<Rightarrow> bits (m_stPriKey c));
          iStep = unat (word_of_nat ((n + 7) div 8) - 11 :: u32)
      in RSAEncrypt_loop emEnType iStep pszData 0 c [])"

section \<open>Decryption\<close>

partial_function (option) RSADecrypt_loop ::
  "RSADeType \<Rightarrow> nat \<Rightarrow> bytes \<Rightarrow> nat \<Rightarrow> CRSA \<Rightarrow> bytes \<Rightarrow> bytes option" where
  "RSADecrypt_loop emEnType iStep pszData i c strRtn =
     (if i < length pszData then
        let iBufLens = (if i + iStep > length pszData then length pszData - i else iStep);
            pTmp = take iBufLens (drop i pszData)
        in do {
          iRtn \<leftarrow> (case emEnType of
                     DeType_Pub \<Rightarrow> RSAPublicDecrypt pTmp (m_stPubKey c)
                   | DeType_Pri \<Rightarrow> RSAPrivateDecrypt pTmp (m_stPriKey c));
          case iRtn of
            Inl _ \<Rightarrow> Some []
          | Inr acOutBuf \<Rightarrow> RSADecrypt_loop emEnType iStep pszData (i + iStep) c (strRtn @ acOutBuf)
        }
      else Some strRtn)"

definition RSADecrypt :: "RSADeType \<Rightarrow> bytes \<Rightarrow> CRSA \<Rightarrow> bytes option" where
  "RSADecrypt emEnType pszData c =
     (let n = (case emEnType of DeType_Pub \<Rightarrow> pub_bits (m_stPubKey c) | DeType_Pri \<Rightarrow> bits (m_stPriKey c));
          iStep = (n + 7) div 8
      in RSADecrypt_loop emEnType iStep pszData 0 c [])"

definition pubEncrypt :: "bytes \<Rightarrow> CRSA \<Rightarrow> (bytes \<times> CRSA) option" where "pubEncrypt = RSAEncrypt EnType_Pub"
definition priDecrypt :: "bytes \<Rightarrow> CRSA \<Rightarrow> bytes option" where "priDecrypt = RSADecrypt DeType_Pri"
definition priEncrypt :: "bytes \<Rightarrow> CRSA \<Rightarrow> (bytes \<times> CRSA) option" where "priEncrypt = RSAEncrypt EnType_Pri"
definition pubDecrypt :: "bytes \<Rightarrow> CRSA \<Rightarrow> bytes option" where "pubDecrypt = RSADecrypt DeType_Pub"

section \<open>The pieces of a message\<close>

function rsa_pieces :: "nat \<Rightarrow> bytes \<Rightarrow> bytes list" where
  "rsa_pieces n xs = (if xs = [] \<or> n = 0 then [] else take n xs # rsa_pieces n (drop n xs))"
  by pat_completeness auto
termination by (relation "measure (\<lambda>(n, xs). length xs)") auto

declare rsa_pieces.simps [simp del]

lemma rsa_pieces_Nil [simp]: "rsa_pieces n [] = []"
  by (simp add: rsa_pieces.simps)

lemma rsa_pieces_more: "0 < n \<Longrightarrow> i < length xs \<Longrightarrow> rsa_pieces n (drop i xs) = take n (drop i xs) # rsa_pieces n (drop (i + n) xs)"
  by (subst rsa_pieces.simps) (simp add: add.commute)

lemma rsa_pieces_concat: "0 < n \<Longrightarrow> concat (rsa_pieces n xs) = xs"
  by (induction n xs rule: rsa_pieces.induct) (subst rsa_pieces.simps, simp)

text \<open>What the two loops read at \<open>i\<close>.\<close>

lemma buf_lens: "i < length xs \<Longrightarrow> take (if i + n > length xs then length xs - i else n) (drop i xs) = take n (drop i xs)"
  by auto

section \<open>Decryption of blocks\<close>

lemma decrypt_loop_blocks:
  assumes "0 < k" "list_all2 (\<lambda>b p. length b = k \<and>
      (case de of DeType_Pub \<Rightarrow> RSAPublicDecrypt b (m_stPubKey c) | DeType_Pri \<Rightarrow> RSAPrivateDecrypt b (m_stPriKey c)) = Some (Inr p)) bs ps"
  shows "RSADecrypt_loop de k (pre @ concat bs) (length pre) c acc = Some (acc @ concat ps)"
  using assms(2)
proof (induction bs ps arbitrary: pre acc rule: list_all2_induct)
  case Nil
  then show ?case by (subst RSADecrypt_loop.simps) simp
next
  case (Cons b bs p ps)
  let ?data = "pre @ concat (b # bs)"
  have b: "length b = k" using Cons.hyps by simp
  have "take (if length pre + k > length ?data then length ?data - length pre else k) (drop (length pre) ?data) = b"
    using b assms(1) by simp
  then have "RSADecrypt_loop de k ?data (length pre) c acc = RSADecrypt_loop de k ?data (length pre + k) c (acc @ p)"
    using Cons.hyps assms(1) b by (subst RSADecrypt_loop.simps) (cases de; simp add: Let_def)
  also have "\<dots> = Some ((acc @ p) @ concat ps)" using Cons.IH [of "pre @ b" "acc @ p"] b by simp
  finally show ?case by simp
qed

lemma piece_fits: "n + 11 \<le> k \<Longrightarrow> length (take n (drop i data)) + 11 \<le> (k :: nat)"
  using length_take [of n "drop i data"] by linarith

section \<open>Encryption with the private key\<close>

lemma encrypt_loop_pri:
  assumes key: "rsa_key (m_stPubKey c) (m_stPriKey c)" and n: "0 < n" "n + 11 \<le> (pub_bits (m_stPubKey c) + 7) div 8"
  shows "\<exists>bs. RSAEncrypt_loop EnType_Pri n data i c acc = Some (acc @ concat bs, c) \<and>
    list_all2 (\<lambda>b p. length b = (pub_bits (m_stPubKey c) + 7) div 8 \<and> RSAPublicDecrypt b (m_stPubKey c) = Some (Inr p))
      bs (rsa_pieces n (drop i data))"
proof (induction "length data - i" arbitrary: i acc rule: less_induct)
  case less
  show ?case
  proof (cases "i < length data")
    case False
    then show ?thesis by (subst RSAEncrypt_loop.simps) simp
  next
    case True
    let ?p = "take n (drop i data)"
    obtain s where s: "RSAPrivateEncrypt ?p (m_stPriKey c) = Some (Inr s)" "length s = (pub_bits (m_stPubKey c) + 7) div 8"
      "RSAPublicDecrypt s (m_stPubKey c) = Some (Inr ?p)"
      using rsa_sign_verify [OF key] piece_fits [OF n(2)] by blast
    have "length data - (i + n) < length data - i" using True n(1) by simp
    from less.hyps [OF this, of "acc @ s"] obtain bs where bs:
      "RSAEncrypt_loop EnType_Pri n data (i + n) c (acc @ s) = Some ((acc @ s) @ concat bs, c)"
      "list_all2 (\<lambda>b p. length b = (pub_bits (m_stPubKey c) + 7) div 8 \<and> RSAPublicDecrypt b (m_stPubKey c) = Some (Inr p))
        bs (rsa_pieces n (drop (i + n) data))" by blast
    have "RSAEncrypt_loop EnType_Pri n data i c acc = RSAEncrypt_loop EnType_Pri n data (i + n) c (acc @ s)"
      using True s(1) by (subst RSAEncrypt_loop.simps) (simp add: Let_def buf_lens [OF True])
    then show ?thesis
      using bs s(2,3) rsa_pieces_more [OF n(1) True] by (intro exI [of _ "s # bs"]) simp
  qed
qed

lemma step_val: "rsa_key pk sk \<Longrightarrow> 11 \<le> (pub_bits pk + 7) div 8 \<Longrightarrow>
  unat (word_of_nat ((pub_bits pk + 7) div 8) - 11 :: u32) = (pub_bits pk + 7) div 8 - 11"
  using rsa_len [of pk sk] by (simp add: unat_sub word_le_nat_alt unat_of_nat)

lemma rsa_key_bits: "rsa_key pk sk \<Longrightarrow> bits sk = pub_bits pk"
  by (simp add: rsa_key_def Let_def)

lemma pri_pub:
  assumes key: "rsa_key (m_stPubKey c) (m_stPriKey c)" and n: "12 \<le> (pub_bits (m_stPubKey c) + 7) div 8"
  shows "\<exists>s. priEncrypt data c = Some (s, c) \<and> pubDecrypt s c = Some data"
proof -
  let ?k = "(pub_bits (m_stPubKey c) + 7) div 8"
  let ?n = "?k - 11"
  have st: "unat (word_of_nat ?k - 11 :: u32) = ?n" using step_val [OF key] n by simp
  obtain bs where bs: "RSAEncrypt_loop EnType_Pri ?n data 0 c [] = Some ([] @ concat bs, c)"
    "list_all2 (\<lambda>b p. length b = ?k \<and> RSAPublicDecrypt b (m_stPubKey c) = Some (Inr p)) bs (rsa_pieces ?n (drop 0 data))"
    using encrypt_loop_pri [OF key, of ?n data 0 "[]"] n by auto
  have "RSADecrypt_loop DeType_Pub ?k ([] @ concat bs) (length ([] :: bytes)) c [] = Some ([] @ concat (rsa_pieces ?n data))"
    by (rule decrypt_loop_blocks) (use bs(2) n in simp_all)
  then have "pubDecrypt (concat bs) c = Some data"
    using n by (simp add: pubDecrypt_def RSADecrypt_def rsa_pieces_concat)
  moreover have "priEncrypt data c = Some (concat bs, c)"
    using bs(1) st rsa_key_bits [OF key] by (simp add: priEncrypt_def RSAEncrypt_def)
  ultimately show ?thesis by blast
qed

section \<open>Encryption with the public key\<close>

text \<open>The padding of several blocks is cut from one run of nonzero random bytes.\<close>

lemma random_nonzero_keeps: "random_nonzero r = Some x \<Longrightarrow> rnd_inv r \<Longrightarrow> rnd_inv (snd x) \<and> bytesNeeded (snd x) = bytesNeeded r"
proof (rule random_nonzero.raw_induct [where P = "\<lambda>r x. rnd_inv r \<longrightarrow> rnd_inv (snd x) \<and> bytesNeeded (snd x) = bytesNeeded r", THEN mp],
    intro impI, goal_cases)
  case (1 f r x)
  obtain b r1 where g: "R_GenerateBytes 1 r = Inr (b, r1)" using 1(4) by (cases "R_GenerateBytes 1 r") auto
  then have "rnd_generate 1 r = (b, r1)" by (simp add: R_GenerateBytes_def split: if_splits)
  note k = rnd_generate_inv [OF 1(5) this]
  show ?case
  proof (cases "b ! 0 = 0")
    case True
    then have "f r1 = Some x" using 1(4) g by simp
    then show ?thesis using 1(3) k by auto
  next
    case False
    then have "x = (b ! 0, r1)" using 1(4) g by simp
    then show ?thesis using k by simp
  qed
qed auto

lemma random_padding_split:
  "random_padding (m + n) r = Some (p, r'') \<Longrightarrow> rnd_inv r \<Longrightarrow>
     \<exists>r'. random_padding m r = Some (take m p, r') \<and> random_padding n r' = Some (drop m p, r'') \<and>
       rnd_inv r' \<and> bytesNeeded r' = bytesNeeded r"
proof (induction m arbitrary: r p)
  case 0
  then show ?case by simp
next
  case (Suc m)
  then obtain b r1 rest where b: "random_nonzero r = Some (b, r1)" "random_padding (m + n) r1 = Some (rest, r'')" "p = b # rest"
    by (auto split: Option.bind_splits)
  have k: "rnd_inv r1" "bytesNeeded r1 = bytesNeeded r" using random_nonzero_keeps [OF b(1) Suc.prems(2)] by simp_all
  show ?case using Suc.IH [OF b(2) k(1)] b(1,3) k(2) by auto
qed

text \<open>How many random bytes the padding of \<open>len\<close> bytes takes.\<close>

fun padding_total :: "nat \<Rightarrow> bytes list \<Rightarrow> nat" where
  "padding_total k [] = 0"
| "padding_total k (p # ps) = k - length p - 3 + padding_total k ps"

lemma encrypt_loop_pub:
  assumes key: "rsa_key pk sk" and n: "0 < n" "n + 11 \<le> (pub_bits pk + 7) div 8"
    and c: "m_stPubKey c = pk" "rnd_inv (m_stRandom c)" "bytesNeeded (m_stRandom c) = 0"
    and pad: "random_padding (padding_total ((pub_bits pk + 7) div 8) (rsa_pieces n (drop i data))) (m_stRandom c) = Some (pd, r')"
      "length pd = padding_total ((pub_bits pk + 7) div 8) (rsa_pieces n (drop i data))" "0 \<notin> set pd"
  shows "\<exists>bs. RSAEncrypt_loop EnType_Pub n data i c acc = Some (acc @ concat bs, c\<lparr>m_stRandom := r'\<rparr>) \<and>
    list_all2 (\<lambda>b p. length b = (pub_bits pk + 7) div 8 \<and> RSAPrivateDecrypt b sk = Some (Inr p)) bs (rsa_pieces n (drop i data))"
  using c pad
proof (induction "length data - i" arbitrary: i acc c pd rule: less_induct)
  case less
  let ?k = "(pub_bits pk + 7) div 8"
  show ?case
  proof (cases "i < length data")
    case False
    then have "m_stRandom c = r'" using less.prems(4) by simp
    then show ?thesis using False by (subst RSAEncrypt_loop.simps) auto
  next
    case True
    let ?p = "take n (drop i data)"
    let ?m = "?k - length ?p - 3"
    let ?t = "padding_total ?k (rsa_pieces n (drop (i + n) data))"
    note more = rsa_pieces_more [OF n(1) True]
    have "random_padding (?m + ?t) (m_stRandom c) = Some (pd, r')" using less.prems(4) by (simp only: more padding_total.simps)
    from random_padding_split [OF this less.prems(2)] obtain r1 where
      r1: "random_padding ?m (m_stRandom c) = Some (take ?m pd, r1)" "random_padding ?t r1 = Some (drop ?m pd, r')"
        "rnd_inv r1" "bytesNeeded r1 = 0" using less.prems(3) by auto
    have pd: "length (take ?m pd) = ?m" "0 \<notin> set (take ?m pd)" "length (drop ?m pd) = ?t" "0 \<notin> set (drop ?m pd)"
      using less.prems(5,6) by (simp_all only: more padding_total.simps) (auto dest: in_set_takeD in_set_dropD)
    have ne: "?p \<noteq> []" using True n(1) by simp
    obtain s where s: "RSAPublicEncrypt ?p pk (m_stRandom c) = Some (Inr s, r1)" "length s = ?k" "RSAPrivateDecrypt s sk = Some (Inr ?p)"
      using rsa_encrypt_decrypt [OF key piece_fits [OF n(2)] less.prems(3) r1(1) pd(1,2)] ne by auto
    let ?c = "c\<lparr>m_stRandom := r1\<rparr>"
    have lt: "length data - (i + n) < length data - i" using True n(1) by simp
    obtain bs where bs: "RSAEncrypt_loop EnType_Pub n data (i + n) ?c (acc @ s) = Some ((acc @ s) @ concat bs, ?c\<lparr>m_stRandom := r'\<rparr>)"
      "list_all2 (\<lambda>b p. length b = ?k \<and> RSAPrivateDecrypt b sk = Some (Inr p)) bs (rsa_pieces n (drop (i + n) data))"
      using less.hyps [OF lt, of ?c "drop ?m pd" "acc @ s"] less.prems(1) r1(2-4) pd(3,4) by auto
    have "RSAEncrypt_loop EnType_Pub n data i c acc = RSAEncrypt_loop EnType_Pub n data (i + n) ?c (acc @ s)"
      using True s(1) less.prems(1) by (subst RSAEncrypt_loop.simps) (simp add: Let_def buf_lens [OF True])
    then show ?thesis using bs s(2,3) more by (intro exI [of _ "s # bs"]) simp
  qed
qed

lemma pub_pri:
  assumes key: "rsa_key (m_stPubKey c) (m_stPriKey c)" and n: "12 \<le> (pub_bits (m_stPubKey c) + 7) div 8"
    and rnd: "rnd_inv (m_stRandom c)" "bytesNeeded (m_stRandom c) = 0"
      "padding_total ((pub_bits (m_stPubKey c) + 7) div 8) (rsa_pieces ((pub_bits (m_stPubKey c) + 7) div 8 - 11) data) \<le>
         length (filter (\<lambda>b. b \<noteq> 0) (fst (rnd_generate N (m_stRandom c))))"
  shows "\<exists>s c'. pubEncrypt data c = Some (s, c') \<and> priDecrypt s c = Some data \<and> priDecrypt s c' = Some data"
proof -
  let ?k = "(pub_bits (m_stPubKey c) + 7) div 8"
  let ?n = "?k - 11"
  have st: "unat (word_of_nat ?k - 11 :: u32) = ?n" using step_val [OF key] n by simp
  obtain pd r' where pd: "random_padding (padding_total ?k (rsa_pieces ?n data)) (m_stRandom c) = Some (pd, r')"
    "length pd = padding_total ?k (rsa_pieces ?n data)" "0 \<notin> set pd"
    using random_padding_val [OF rnd] by blast
  obtain bs where bs: "RSAEncrypt_loop EnType_Pub ?n data 0 c [] = Some (concat bs, c\<lparr>m_stRandom := r'\<rparr>)"
    "list_all2 (\<lambda>b p. length b = ?k \<and> RSAPrivateDecrypt b (m_stPriKey c) = Some (Inr p)) bs (rsa_pieces ?n data)"
    using encrypt_loop_pub [OF key, of ?n c 0 data pd r' "[]"] n rnd(1,2) pd by auto
  have dec: "priDecrypt (concat bs) d = Some data" if d: "m_stPriKey d = m_stPriKey c" for d
  proof -
    have "RSADecrypt_loop DeType_Pri ?k ([] @ concat bs) (length ([] :: bytes)) d [] = Some ([] @ concat (rsa_pieces ?n data))"
      by (rule decrypt_loop_blocks) (use bs(2) n d in simp_all)
    then show ?thesis using n d rsa_key_bits [OF key] by (simp add: priDecrypt_def RSADecrypt_def rsa_pieces_concat)
  qed
  have "pubEncrypt data c = Some (concat bs, c\<lparr>m_stRandom := r'\<rparr>)"
    using bs(1) st by (simp add: pubEncrypt_def RSAEncrypt_def)
  then show ?thesis using dec [of c] dec [of "c\<lparr>m_stRandom := r'\<rparr>"] by auto
qed

section \<open>The keys that \<^verbatim>\<open>creatKey\<close> makes\<close>

lemma rnd_seed_ready:
  "rnd_inv r \<Longrightarrow> rnd_seed env k idums r = (r', idums') \<Longrightarrow> rnd_inv r' \<and> bytesNeeded r' = 0"
proof (induction env k idums r rule: rnd_seed.induct)
  case (1 env k idums r)
  show ?case
  proof (cases "bytesNeeded r = 0")
    case True
    then show ?thesis using "1.prems" by (subst (asm) rnd_seed.simps) simp
  next
    case False
    obtain t gmt cnow where e: "env k = (t, gmt, cnow)" by (metis prod_cases3)
    obtain temp i where s: "subrand t idums = (temp, i)" by (rule prod.exhaust)
    let ?r = "R_RandomUpdate (R_RandomUpdate (R_RandomUpdate r (le_bytes 4 temp)) gmt) cnow"
    have "rnd_seed env (k + 1) i ?r = (r', idums')"
      using "1.prems"(2) False e s by (subst (asm) rnd_seed.simps) (simp add: Let_def)
    then show ?thesis
      using "1.IH" [OF False e [symmetric] refl refl s [symmetric] refl refl refl refl] rnd_inv_update "1.prems"(1) by blast
  qed
qed

lemma creatKey_pair:
  assumes "creatKey env idums key n = Some (Inr (key', idums'))" "length (rnd_output (key_stRandom key)) = 16"
    "is_prime (be_val (prime0 (m_stPrivateKey key')))" "is_prime (be_val (prime1 (m_stPrivateKey key')))"
    "be_val (prime0 (m_stPrivateKey key')) \<noteq> be_val (prime1 (m_stPrivateKey key'))"
  shows "rsa_key_pair (m_stPublicKey key') (m_stPrivateKey key')"
proof -
  obtain random i where c: "R_RandomCreate env idums (key_stRandom key) = (random, i)" by (rule prod.exhaust)
  have r: "rnd_inv random \<and> bytesNeeded random = 0"
    by (rule rnd_seed_ready [OF _ c [unfolded R_RandomCreate_def]]) (simp add: rnd_inv_def assms(2))
  obtain pk sk r' where g: "R_GeneratePEMKeys \<lparr>proto_bits = n, useFermat4 = True\<rparr> random = Some (Inr (pk, sk), r')"
    "m_stPublicKey key' = pk" "m_stPrivateKey key' = sk"
    using assms(1) c by (auto simp: creatKey_def split: if_splits Option.bind_splits sum.splits)
  show ?thesis using R_GeneratePEMKeys_pair [OF g(1) r] assms(3-5) g(2,3) by simp
qed

end
