(* ===== verification/HRSA_Props.thy ===== *)
theory HRSA_Props
  imports HRSA Envelope_Props
begin

text \<open>The properties of \<^verbatim>\<open>HBase/HRSA.cpp\<close>.\<close>

text \<open>C10. With keys that belong together and a modulus of at least twelve bytes, \<^verbatim>\<open>CRSA\<close> recovers messages of
  every length, also of none: \<^verbatim>\<open>priEncrypt\<close> returns and \<^verbatim>\<open>pubDecrypt\<close> inverts it, and with a
  seeded random object whose output has enough nonzero bytes for the padding of all blocks, \<^verbatim>\<open>pubEncrypt\<close>
  returns and \<^verbatim>\<open>priDecrypt\<close> inverts it.\<close>

theorem CRSA_roundtrip:
  assumes "rsa_key (m_stPubKey c) (m_stPriKey c)" "12 \<le> (pub_bits (m_stPubKey c) + 7) div 8"
    "rnd_inv (m_stRandom c)" "bytesNeeded (m_stRandom c) = 0"
    "padding_total ((pub_bits (m_stPubKey c) + 7) div 8) (rsa_pieces ((pub_bits (m_stPubKey c) + 7) div 8 - 11) data) \<le>
       length (filter (\<lambda>b. b \<noteq> 0) (fst (rnd_generate N (m_stRandom c))))"
  shows "(\<exists>s. priEncrypt data c = Some (s, c) \<and> pubDecrypt s c = Some data) \<and>
    (\<exists>s c'. pubEncrypt data c = Some (s, c') \<and> priDecrypt s c = Some data \<and> priDecrypt s c' = Some data)"
  using pri_pub [OF assms(1,2)] pub_pri [OF assms] by blast

definition sig_crsa :: CRSA where
  "sig_crsa = \<lparr>m_stPubKey = env_public, m_stPriKey = env_private, m_stRandom = sig_random\<rparr>"

lemma sig_random_24: "fst (rnd_generate 24 sig_random) = replicate 16 1 @ [0x4A, 0xE7, 0x13, 0x36, 0xE4, 0x4B, 0xF9, 0xBF]"
proof -
  have "fst (rnd_generate 24 sig_random) = replicate 16 1 @ take 8 (md5_of (replicate 16 0))"
    by (simp add: rnd_generate_more rnd_generate_ready rnd_refill_def sig_random_def split: prod.splits)
  then show ?thesis by (simp only: md5_zeros)
qed

theorem CRSA_roundtrip_witness:
  "(\<exists>s. priEncrypt [1, 2, 3, 4, 5, 6, 7, 8, 9, 10] sig_crsa = Some (s, sig_crsa) \<and>
      pubDecrypt s sig_crsa = Some [1, 2, 3, 4, 5, 6, 7, 8, 9, 10]) \<and>
   (\<exists>s c'. pubEncrypt [1, 2, 3, 4, 5, 6, 7, 8, 9, 10] sig_crsa = Some (s, c') \<and>
      priDecrypt s sig_crsa = Some [1, 2, 3, 4, 5, 6, 7, 8, 9, 10] \<and> priDecrypt s c' = Some [1, 2, 3, 4, 5, 6, 7, 8, 9, 10])"
proof (rule CRSA_roundtrip [where N = 24])
  have k: "(152 + 7) div 8 = (19 :: nat)" by simp
  show "rsa_key (m_stPubKey sig_crsa) (m_stPriKey sig_crsa)" by (simp add: sig_crsa_def env_key)
  show "rnd_inv (m_stRandom sig_crsa)" "bytesNeeded (m_stRandom sig_crsa) = 0" by (simp_all add: sig_crsa_def sig_random_ok)
  have "padding_total 19 (rsa_pieces 8 [1, 2, 3, 4, 5, 6, 7, 8, 9, 10]) = 22"
    by (simp add: rsa_pieces.simps)
  then show "padding_total ((pub_bits (m_stPubKey sig_crsa) + 7) div 8)
      (rsa_pieces ((pub_bits (m_stPubKey sig_crsa) + 7) div 8 - 11) [1, 2, 3, 4, 5, 6, 7, 8, 9, 10]) \<le>
    length (filter (\<lambda>b. b \<noteq> 0) (fst (rnd_generate 24 (m_stRandom sig_crsa))))"
    by (simp add: sig_crsa_def example_lengths sig_random_24)
qed (simp add: sig_crsa_def example_lengths)

end
