(* ===== verification/Funcs.thy ===== *)
theory Funcs
  imports Prelude
begin

text \<open>
  The string functions of \<^verbatim>\<open>HBase/Funcs.cpp\<close> and the byte order of 64-bit integers.

  A \<^verbatim>\<open>std::string\<close> is its bytes.  A \<^verbatim>\<open>char *\<close> is the memory that can be read from it on;
  \<open>c_string\<close> is the C string that starts there, \<open>None\<close> when no terminator is in that
  memory, where the functions of \<^verbatim>\<open>string.h\<close> have no defined result.
\<close>

section \<open>C strings\<close>

definition c_string :: "bytes \<Rightarrow> bytes option" where
  "c_string mem = (if 0 \<in> set mem then Some (takeWhile (\<lambda>b. b \<noteq> 0) mem) else None)"

definition strlen :: "bytes \<Rightarrow> nat option" where
  "strlen mem = map_option length (c_string mem)"

text \<open>The first position of \<open>pat\<close> in \<open>s\<close>: \<^verbatim>\<open>std::string::find\<close>.\<close>

fun find_sub :: "bytes \<Rightarrow> bytes \<Rightarrow> nat option" where
  "find_sub pat [] = (if pat = [] then Some 0 else None)"
| "find_sub pat (c # s) =
     (if take (length pat) (c # s) = pat then Some 0 else map_option Suc (find_sub pat s))"

text \<open>
  \<^verbatim>\<open>strstr\<close> stops at the first match or at the terminator; when the memory has neither it
  reads past its end, \<open>None\<close>.
\<close>

definition strstr :: "bytes \<Rightarrow> bytes \<Rightarrow> nat option option" where
  "strstr mem pat =
     (case find_sub pat (takeWhile (\<lambda>b. b \<noteq> 0) mem) of
        Some i \<Rightarrow> Some (Some i)
      | None \<Rightarrow> if 0 \<in> set mem then Some None else None)"

lemma strstr_c_string: "c_string mem = Some s \<Longrightarrow> strstr mem pat = Some (find_sub pat s)"
  by (auto simp: c_string_def strstr_def split: if_splits option.splits)

definition tolower :: "u8 \<Rightarrow> u8" where
  "tolower c = (if 65 \<le> c \<and> c \<le> 90 then c + 32 else c)"

text \<open>\<^verbatim>\<open>H_StrStr\<close>: \<^verbatim>\<open>strstr\<close> without regard to case; an empty pattern is not found.\<close>

fun strstr_nocase :: "bytes \<Rightarrow> bytes \<Rightarrow> nat option" where
  "strstr_nocase pat [] = None"
| "strstr_nocase pat (c # s) =
     (if map tolower (take (length pat) (c # s)) = map tolower pat then Some 0
      else map_option Suc (strstr_nocase pat s))"

definition H_StrStr :: "bytes option \<Rightarrow> bytes option \<Rightarrow> nat option option" where
  "H_StrStr pszStr pszsubStr =
     (case (pszStr, pszsubStr) of
        (Some mem, Some pat) \<Rightarrow>
          if pat = [] then Some None
          else (case strstr_nocase pat (takeWhile (\<lambda>b. b \<noteq> 0) mem) of
                  Some i \<Rightarrow> Some (Some i)
                | None \<Rightarrow> if 0 \<in> set mem then Some None else None)
      | _ \<Rightarrow> Some None)"

section \<open>Splitting and trimming\<close>

function split_at :: "bytes \<Rightarrow> bytes \<Rightarrow> bytes list" where
  "split_at flag s =
     (case find_sub flag s of
        None \<Rightarrow> [s]
      | Some loc \<Rightarrow> if flag = [] then [s] else take loc s # split_at flag (drop (loc + length flag) s))"
  by pat_completeness auto

lemma find_sub_SomeD:
  "find_sub pat s = Some i \<Longrightarrow> i + length pat \<le> length s \<and> take (length pat) (drop i s) = pat"
proof (induction s arbitrary: i)
  case Nil
  then show ?case by (auto split: if_splits)
next
  case (Cons c s)
  show ?case
  proof (cases "take (length pat) (c # s) = pat")
    case True
    then have "i = 0" using Cons.prems by simp
    moreover from True have "length pat \<le> length (c # s)" by (metis length_take min.cobounded1)
    ultimately show ?thesis using True by simp
  next
    case False
    then obtain j where "i = Suc j" "find_sub pat s = Some j" using Cons.prems by auto
    with Cons.IH [of j] show ?thesis by simp
  qed
qed

termination split_at
proof (relation "measure (\<lambda>(f, s). length s)")
  fix flag s loc assume a: "find_sub flag s = Some loc" "flag \<noteq> []"
  from find_sub_SomeD [OF a(1)] have "loc + length flag \<le> length s" by blast
  moreover have "0 < length flag" using a(2) by simp
  ultimately have "length (drop (loc + length flag) s) < length s" unfolding length_drop by linarith
  then show "((flag, drop (loc + length flag) s), (flag, s)) \<in> measure (\<lambda>(f, s). length s)" by simp
qed simp

declare split_at.simps [simp del]

definition H_Split :: "bytes \<Rightarrow> bytes option \<Rightarrow> bytes list" where
  "H_Split strSource pszFlag =
     (case pszFlag of
        None \<Rightarrow> []
      | Some flag \<Rightarrow> if flag = [] \<or> strSource = [] then [] else split_at flag strSource)"

definition is_trim :: "u8 \<Rightarrow> bool" where
  "is_trim c \<longleftrightarrow> c = 0x20 \<or> c = 0x0a \<or> c = 0x0d"

fun H_TrimLeft :: "bytes \<Rightarrow> bytes" where
  "H_TrimLeft [] = []"
| "H_TrimLeft (c # s) = (if is_trim c then H_TrimLeft s else c # s)"

text \<open>The number of bytes to erase at the end, counted on the reversed string.\<close>

fun trim_count :: "bytes \<Rightarrow> nat" where
  "trim_count [] = 0"
| "trim_count (c # s) = (if is_trim c then Suc (trim_count s) else 0)"

definition H_TrimRight :: "bytes \<Rightarrow> bytes" where
  "H_TrimRight strSource =
     (let iSize = length strSource; iFlag = trim_count (rev strSource)
      in if iFlag = 0 then strSource
         else if iSize = iFlag then []
         else take (iSize - iFlag) strSource)"

definition H_Trim :: "bytes \<Rightarrow> bytes" where
  "H_Trim strSource = H_TrimLeft (H_TrimRight strSource)"

text \<open>
  \<^verbatim>\<open>find_first_of\<close> and \<^verbatim>\<open>find_last_of\<close> look for any one of the bytes of the flag.
  \<^verbatim>\<open>substr\<close> throws when its start is past the end: \<open>None\<close>.
\<close>

definition H_GetFrontOfFlag :: "bytes \<Rightarrow> bytes \<Rightarrow> bytes" where
  "H_GetFrontOfFlag strSource flag = takeWhile (\<lambda>c. c \<notin> set flag) strSource"

definition find_last_of :: "bytes \<Rightarrow> bytes \<Rightarrow> nat option" where
  "find_last_of s flag =
     (let n = length (takeWhile (\<lambda>c. c \<notin> set flag) (rev s))
      in if n = length s then None else Some (length s - 1 - n))"

definition H_GetLastOfFlag :: "bytes \<Rightarrow> bytes \<Rightarrow> bytes option" where
  "H_GetLastOfFlag strSource flag =
     (case find_last_of strSource flag of
        None \<Rightarrow> Some strSource
      | Some iPos \<Rightarrow>
          if iPos + length flag \<le> length strSource then Some (drop (iPos + length flag) strSource) else None)"

section \<open>The byte order of 64-bit integers\<close>

definition ntohl64 :: "u64 \<Rightarrow> u64" where
  "ntohl64 host =
     (let ulLow = ucast (host AND 0xFFFFFFFF); ulHigh = ucast (drop_bit 32 host AND 0xFFFFFFFF)
      in push_bit 32 (ucast (ntohl ulLow)) OR ucast (ntohl ulHigh))"

section \<open>Properties\<close>

lemma find_sub_Some:
  assumes "find_sub pat s = Some i"
  shows "s = take i s @ pat @ drop (i + length pat) s" "i + length pat \<le> length s"
proof -
  from find_sub_SomeD [OF assms] have l: "i + length pat \<le> length s"
    and t: "take (length pat) (drop i s) = pat" by auto
  show "i + length pat \<le> length s" by (rule l)
  have "s = take i s @ drop i s" by simp
  also have "drop i s = take (length pat) (drop i s) @ drop (length pat) (drop i s)" by (rule append_take_drop_id [symmetric])
  finally show "s = take i s @ pat @ drop (i + length pat) s" by (simp only: t drop_drop add.commute)
qed

lemma find_sub_None:
  "find_sub pat s = None \<Longrightarrow> s \<noteq> u @ pat @ v"
proof (induction s arbitrary: u)
  case Nil
  then show ?case by (auto split: if_splits)
next
  case (Cons c s)
  then have n: "take (length pat) (c # s) \<noteq> pat" "find_sub pat s = None" by (auto split: if_splits)
  show ?case
  proof
    assume e: "c # s = u @ pat @ v"
    show False
    proof (cases u)
      case Nil
      then have "take (length pat) (c # s) = pat" using e by simp
      with n show False by simp
    next
      case (Cons a u')
      with e have "s = u' @ pat @ v" by simp
      with Cons.IH n show False by blast
    qed
  qed
qed

fun join :: "bytes \<Rightarrow> bytes list \<Rightarrow> bytes" where
  "join flag [] = []"
| "join flag [s] = s"
| "join flag (s # t # ss) = s @ flag @ join flag (t # ss)"

lemma split_at_ne: "split_at flag s \<noteq> []"
  by (subst split_at.simps) (auto split: option.splits)

lemma join_Cons: "ss \<noteq> [] \<Longrightarrow> join flag (s # ss) = s @ flag @ join flag ss"
  by (cases ss) auto

lemma join_split_at: "join flag (split_at flag s) = s"
proof (induction flag s rule: split_at.induct)
  case (1 flag s)
  show ?case
  proof (cases "find_sub flag s")
    case None
    then show ?thesis by (simp add: split_at.simps)
  next
    case (Some loc)
    show ?thesis
    proof (cases "flag = []")
      case True
      then show ?thesis using Some by (simp add: split_at.simps)
    next
      case False
      then show ?thesis
        using 1 [OF Some False] Some find_sub_Some(1) [OF Some]
        by (subst split_at.simps) (simp add: join_Cons split_at_ne)
    qed
  qed
qed

lemma H_TrimLeft_dropWhile: "H_TrimLeft s = dropWhile is_trim s"
  by (induction s) auto

lemma trim_count_takeWhile: "trim_count s = length (takeWhile is_trim s)"
  by (induction s) auto

lemma H_TrimRight_rev: "H_TrimRight s = rev (dropWhile is_trim (rev s))"
proof -
  have "dropWhile is_trim (rev s) = drop (trim_count (rev s)) (rev s)"
    by (simp add: trim_count_takeWhile dropWhile_eq_drop)
  then show ?thesis by (simp add: H_TrimRight_def Let_def rev_drop)
qed

lemma le_bytes_add: "le_bytes (m + n) w = le_bytes m w @ le_bytes n (drop_bit (8 * m) w)"
  by (induction m w rule: le_bytes.induct) (simp_all add: ac_simps)

lemma le_word_append:
  "(le_word (xs @ ys) :: 'a::len word) = le_word xs OR push_bit (8 * length xs) (le_word ys)"
  by (induction xs) (simp_all add: push_bit_or ac_simps)

lemma ucast_le_word:
  assumes "8 * length xs \<le> LENGTH('b)" "LENGTH('b::len) \<le> LENGTH('a::len)"
  shows "ucast (le_word xs :: 'b word) = (le_word xs :: 'a word)"
proof (rule word_unat_eq_iff [THEN iffD2])
  have "unat (ucast (le_word xs :: 'b word) :: 'a word) = unat (le_word xs :: 'b word)"
    using assms(2) by (simp add: unsigned_ucast_eq take_bit_nat_eq_self less_le_trans [OF unsigned_less] power_increasing)
  then show "unat (ucast (le_word xs :: 'b word) :: 'a word) = unat (le_word xs :: 'a word)"
    using assms by (simp add: unat_le_word)
qed

lemma le_bytes_ucast:
  "8 * n \<le> LENGTH('b::len) \<Longrightarrow> LENGTH('b) \<le> LENGTH('a::len) \<Longrightarrow>
   le_bytes n (ucast (w :: 'a word) :: 'b word) = le_bytes n w"
proof (induction n w rule: le_bytes.induct)
  case (2 n w)
  have "(ucast (ucast w :: 'b word) :: u8) = ucast w"
    using 2 by (intro bit_word_eqI) (auto simp: bit_simps)
  moreover have "le_bytes n (drop_bit 8 (ucast w :: 'b word)) = le_bytes n (ucast (drop_bit 8 w) :: 'b word)"
  proof -
    have "drop_bit 8 (ucast w :: 'b word) = take_bit (LENGTH('b) - 8) (ucast (drop_bit 8 w) :: 'b word)"
      using 2 by (intro bit_word_eqI) (auto simp: bit_simps)
    then show ?thesis using 2 by (simp add: le_bytes_take_bit)
  qed
  ultimately show ?case using 2 by simp
qed simp

lemma ntohl64_be: "ntohl64 w = be_word (le_bytes 8 w)"
proof -
  let ?lo = "ucast (w AND 0xFFFFFFFF) :: u32" and ?hi = "ucast (drop_bit 32 w AND 0xFFFFFFFF) :: u32"
  have m: "(0xFFFFFFFF :: u64) = mask 32" by (simp add: mask_eq_exp_minus_1)
  have lo: "?lo = ucast w" and hi: "?hi = ucast (drop_bit 32 w)"
    unfolding m by (intro bit_word_eqI; auto simp: bit_simps)+
  have "le_bytes 8 w = le_bytes 4 w @ le_bytes 4 (drop_bit 32 w)"
    using le_bytes_add [of 4 4 w] by simp
  also have "\<dots> = le_bytes 4 ?lo @ le_bytes 4 ?hi"
    by (simp only: lo hi) (simp add: le_bytes_ucast del: le_bytes.simps)
  finally have e: "le_bytes 8 w = le_bytes 4 ?lo @ le_bytes 4 ?hi" .
  have "be_word (le_bytes 8 w) =
      (le_word (rev (le_bytes 4 ?hi)) :: u64) OR push_bit 32 (le_word (rev (le_bytes 4 ?lo)))"
    by (simp only: be_word_def e rev_append le_word_append) simp
  also have "\<dots> = ucast (ntohl ?hi) OR push_bit 32 (ucast (ntohl ?lo))"
    by (simp add: ntohl_def be_word_def ucast_le_word)
  finally show ?thesis by (simp add: ntohl64_def Let_def or.commute)
qed

lemma ntohl64_le_word: "length bs = 8 \<Longrightarrow> ntohl64 (le_word bs) = be_word bs"
  using le_bytes_le_word [of bs, where 'a = 64] by (simp add: ntohl64_be)

end
