(* ===== verification/Binary.thy ===== *)
theory Binary
  imports Funcs "HOL-Library.Monad_Syntax"
begin

text \<open>
  \<^verbatim>\<open>CBinary\<close> of \<^verbatim>\<open>HBase/Binary.h\<close> and \<^verbatim>\<open>HBase/Binary.cpp\<close>: a cursor over a buffer that is
  read and a string that is written, with integers in network order.

  \<^verbatim>\<open>m_pParseBuffer\<close> is the memory that can be read from the pointer on (\<open>None\<close> for
  \<^verbatim>\<open>NULL\<close>); it may extend past \<^verbatim>\<open>m_iParseBufLens\<close>.  A read that leaves that memory has no
  defined result: the operation is \<open>None\<close>.  Lengths are \<^verbatim>\<open>size_t\<close>: additions and
  subtractions wrap modulo \<open>2^64\<close>.  A \<^verbatim>\<open>double\<close> or \<^verbatim>\<open>float\<close> is its bit pattern, a signed integer
  the word with its bits.
\<close>

definition size_add :: "nat \<Rightarrow> nat \<Rightarrow> nat" where
  "size_add a b = (a + b) mod 2 ^ 64"

definition size_sub :: "nat \<Rightarrow> nat \<Rightarrow> nat" where
  "size_sub a b = (if b \<le> a then a - b else a + 2 ^ 64 - b)"

record binary =
  m_pParseBuffer :: "bytes option"
  m_pTmpBuf :: "bytes option"
  m_iParseBufLens :: nat
  m_iTmpBufLens :: nat
  m_iCurParseLens :: nat
  m_iTmpParseLens :: nat
  m_strWritBuffer :: bytes

text \<open>\<^verbatim>\<open>H_LBinary\<close>: a pointer into the parse buffer, as an offset, and a length.\<close>

record lbinary =
  pBufer :: "nat option"
  iLens :: nat

definition no_lbinary :: lbinary where
  "no_lbinary = \<lparr>pBufer = None, iLens = 0\<rparr>"

definition CBinary :: binary where
  "CBinary = \<lparr>m_pParseBuffer = None, m_pTmpBuf = None, m_iParseBufLens = 0, m_iTmpBufLens = 0,
     m_iCurParseLens = 0, m_iTmpParseLens = 0, m_strWritBuffer = replicate (4 * 1024) 0\<rparr>"

definition setReadBuffer :: "bytes option \<Rightarrow> nat \<Rightarrow> binary \<Rightarrow> binary" where
  "setReadBuffer pszBuf lens b = b\<lparr>m_pParseBuffer := pszBuf, m_iParseBufLens := lens, m_iCurParseLens := 0\<rparr>"

definition getRBufLens :: "binary \<Rightarrow> nat" where
  "getRBufLens b = m_iParseBufLens b"

definition getReadedLens :: "binary \<Rightarrow> nat" where
  "getReadedLens b = m_iCurParseLens b"

definition reSetWrite :: "binary \<Rightarrow> binary" where
  "reSetWrite b = b\<lparr>m_strWritBuffer := []\<rparr>"

definition skipRead :: "nat \<Rightarrow> binary \<Rightarrow> binary" where
  "skipRead lens b = b\<lparr>m_iCurParseLens := size_add (m_iCurParseLens b) lens\<rparr>"

definition getSurpLens :: "binary \<Rightarrow> nat" where
  "getSurpLens b = size_sub (m_iParseBufLens b) (m_iCurParseLens b)"

section \<open>Writing\<close>

definition setVal :: "bytes \<Rightarrow> binary \<Rightarrow> binary" where
  "setVal bs b = (if bs = [] then b else b\<lparr>m_strWritBuffer := m_strWritBuffer b @ bs\<rparr>)"

definition skipWrite :: "nat \<Rightarrow> binary \<Rightarrow> binary" where
  "skipWrite lens b = (if lens > 1024 div 8 then b else setVal (replicate lens 0) b)"

definition setUint8 :: "u8 \<Rightarrow> binary \<Rightarrow> binary" where
  "setUint8 v = setVal (le_bytes 1 v)"

definition setSint8 :: "u8 \<Rightarrow> binary \<Rightarrow> binary" where
  "setSint8 v = setVal (le_bytes 1 v)"

definition setBool :: "bool \<Rightarrow> binary \<Rightarrow> binary" where
  "setBool v = (let ucVal = (if v then 1 else 0) :: u8 in setVal (le_bytes 1 ucVal))"

definition setUint16 :: "u16 \<Rightarrow> binary \<Rightarrow> binary" where
  "setUint16 v = setVal (le_bytes 2 (ntohs v))"

definition setSint16 :: "u16 \<Rightarrow> binary \<Rightarrow> binary" where
  "setSint16 v = setVal (le_bytes 2 (ntohs v))"

definition setUint32 :: "u32 \<Rightarrow> binary \<Rightarrow> binary" where
  "setUint32 v = setVal (le_bytes 4 (ntohl v))"

definition setSint32 :: "u32 \<Rightarrow> binary \<Rightarrow> binary" where
  "setSint32 v = setVal (le_bytes 4 (ntohl v))"

definition setUint64 :: "u64 \<Rightarrow> binary \<Rightarrow> binary" where
  "setUint64 v = setVal (le_bytes 8 (ntohl64 v))"

definition setSint64 :: "u64 \<Rightarrow> binary \<Rightarrow> binary" where
  "setSint64 v = setVal (le_bytes 8 (ntohl64 v))"

definition setDouble :: "u64 \<Rightarrow> binary \<Rightarrow> binary" where
  "setDouble v = setVal (le_bytes 8 v)"

definition setFloat :: "u32 \<Rightarrow> binary \<Rightarrow> binary" where
  "setFloat v = setVal (le_bytes 4 v)"

text \<open>The argument is the C string of the pointer, without its terminator.\<close>

definition setString :: "bytes \<Rightarrow> binary \<Rightarrow> binary" where
  "setString s b = skipWrite 1 (setVal s b)"

definition setByte :: "bytes \<Rightarrow> binary \<Rightarrow> binary" where
  "setByte bs = setVal bs"

definition getWritedBuf :: "binary \<Rightarrow> bytes" where
  "getWritedBuf b = m_strWritBuffer b"

text \<open>
  \<^verbatim>\<open>m_strWritBuffer.c_str()\<close> can be read to its terminator.  The pointer stays into the
  string, so the string is not to be written before \<^verbatim>\<open>resetW2R\<close>.
\<close>

definition setW2R :: "binary \<Rightarrow> binary" where
  "setW2R b =
     setReadBuffer (Some (m_strWritBuffer b @ [0])) (length (m_strWritBuffer b))
       (b\<lparr>m_pTmpBuf := m_pParseBuffer b, m_iTmpBufLens := m_iParseBufLens b,
          m_iTmpParseLens := m_iCurParseLens b\<rparr>)"

definition resetW2R :: "binary \<Rightarrow> binary" where
  "resetW2R b =
     (setReadBuffer (m_pTmpBuf b) (m_iTmpBufLens b) b)\<lparr>m_iCurParseLens := m_iTmpParseLens b\<rparr>"

definition Append :: "binary \<Rightarrow> binary \<Rightarrow> binary" where
  "Append pBinary b = b\<lparr>m_strWritBuffer := m_strWritBuffer b @ getWritedBuf pBinary\<rparr>"

section \<open>Reading\<close>

text \<open>\<open>n\<close> bytes at an offset from the parse pointer.\<close>

definition mem_at :: "bytes option \<Rightarrow> nat \<Rightarrow> nat \<Rightarrow> bytes option" where
  "mem_at p off n =
     (case p of None \<Rightarrow> None
      | Some mem \<Rightarrow> if off + n \<le> length mem then Some (mem_read mem off n) else None)"

text \<open>The memory from an offset on, for the string functions.\<close>

definition mem_from :: "bytes option \<Rightarrow> nat \<Rightarrow> bytes option" where
  "mem_from p off =
     (case p of None \<Rightarrow> None | Some mem \<Rightarrow> if off \<le> length mem then Some (drop off mem) else None)"

definition readNumber :: "nat \<Rightarrow> binary \<Rightarrow> ('a::len word \<times> binary) option" where
  "readNumber sz b =
     (if size_add (m_iCurParseLens b) sz > m_iParseBufLens b then Some (0, b)
      else case mem_at (m_pParseBuffer b) (m_iCurParseLens b) sz of
             None \<Rightarrow> None
           | Some bs \<Rightarrow> Some (le_word bs, b\<lparr>m_iCurParseLens := size_add (m_iCurParseLens b) sz\<rparr>))"

definition getUint8 :: "binary \<Rightarrow> (u8 \<times> binary) option" where
  "getUint8 b = readNumber 1 b"

definition getSint8 :: "binary \<Rightarrow> (u8 \<times> binary) option" where
  "getSint8 b = readNumber 1 b"

definition getBool :: "binary \<Rightarrow> (bool \<times> binary) option" where
  "getBool b = map_option (apfst (\<lambda>v :: u8. if 0 = v then False else True)) (readNumber 1 b)"

definition getUint16 :: "binary \<Rightarrow> (u16 \<times> binary) option" where
  "getUint16 b = map_option (apfst ntohs) (readNumber 2 b)"

definition getSint16 :: "binary \<Rightarrow> (u16 \<times> binary) option" where
  "getSint16 b = map_option (apfst ntohs) (readNumber 2 b)"

definition getUint32 :: "binary \<Rightarrow> (u32 \<times> binary) option" where
  "getUint32 b = map_option (apfst ntohl) (readNumber 4 b)"

definition getSint32 :: "binary \<Rightarrow> (u32 \<times> binary) option" where
  "getSint32 b = map_option (apfst ntohl) (readNumber 4 b)"

definition getUint64 :: "binary \<Rightarrow> (u64 \<times> binary) option" where
  "getUint64 b = map_option (apfst ntohl64) (readNumber 8 b)"

definition getSint64 :: "binary \<Rightarrow> (u64 \<times> binary) option" where
  "getSint64 b = map_option (apfst ntohl64) (readNumber 8 b)"

definition getDouble :: "binary \<Rightarrow> (u64 \<times> binary) option" where
  "getDouble b = readNumber 8 b"

definition getFloat :: "binary \<Rightarrow> (u32 \<times> binary) option" where
  "getFloat b = readNumber 4 b"

text \<open>
  A string that is not terminated inside the buffer moves the cursor to the end, and its
  length is taken from \<^verbatim>\<open>getSurpLens\<close> after that: it is returned with length 0.
\<close>

definition getString :: "binary \<Rightarrow> (lbinary \<times> binary) option" where
  "getString b =
     (if m_iCurParseLens b \<ge> m_iParseBufLens b then Some (no_lbinary, b)
      else do {
        mem \<leftarrow> mem_from (m_pParseBuffer b) (m_iCurParseLens b);
        len \<leftarrow> strlen mem;
        let pBuf = Some (m_iCurParseLens b);
        if size_add (size_add (m_iCurParseLens b) len) 1 > m_iParseBufLens b
        then let b = b\<lparr>m_iCurParseLens := m_iParseBufLens b\<rparr>
             in Some (\<lparr>pBufer = pBuf, iLens = getSurpLens b\<rparr>, b)
        else Some (\<lparr>pBufer = pBuf, iLens = len\<rparr>,
                   b\<lparr>m_iCurParseLens := size_add (m_iCurParseLens b) (size_add len 1)\<rparr>)
      })"

definition getByte :: "nat \<Rightarrow> binary \<Rightarrow> nat option \<times> binary" where
  "getByte lens b =
     (if size_add (m_iCurParseLens b) lens > m_iParseBufLens b then (None, b)
      else if lens = 0 then (None, b)
      else (Some (m_iCurParseLens b), b\<lparr>m_iCurParseLens := size_add (m_iCurParseLens b) lens\<rparr>))"

definition getLByte :: "nat \<Rightarrow> binary \<Rightarrow> lbinary \<times> binary" where
  "getLByte lens b =
     (case getByte lens b of
        (Some pBuf, b) \<Rightarrow> (\<lparr>pBufer = Some pBuf, iLens = lens\<rparr>, b)
      | (None, b) \<Rightarrow> (no_lbinary, b))"

definition H_LINEEFLAG :: bytes where
  "H_LINEEFLAG = [0x0d, 0x0a]"

definition readLine :: "binary \<Rightarrow> (lbinary \<times> binary) option" where
  "readLine b =
     (if m_iCurParseLens b \<ge> m_iParseBufLens b then Some (no_lbinary, b)
      else do {
        mem \<leftarrow> mem_from (m_pParseBuffer b) (m_iCurParseLens b);
        pPos \<leftarrow> strstr mem H_LINEEFLAG;
        let pBuf = Some (m_iCurParseLens b);
        case pPos of
          None \<Rightarrow> Some (\<lparr>pBufer = pBuf, iLens = getSurpLens b\<rparr>,
                         b\<lparr>m_iCurParseLens := m_iParseBufLens b\<rparr>)
        | Some n \<Rightarrow> Some (\<lparr>pBufer = pBuf, iLens = n\<rparr>,
                           b\<lparr>m_iCurParseLens := size_add (m_iCurParseLens b) (n + length H_LINEEFLAG)\<rparr>)
      })"

text \<open>The result is the offset from the cursor, \<open>-1\<close> when the text is not found.\<close>

definition Find :: "bytes \<Rightarrow> binary \<Rightarrow> int option" where
  "Find pFlag b =
     (if m_pParseBuffer b = None \<and> m_iCurParseLens b = 0 then Some (-1)
      else do {
        mem \<leftarrow> mem_from (m_pParseBuffer b) (m_iCurParseLens b);
        pPos \<leftarrow> H_StrStr (Some mem) (Some pFlag);
        Some (case pPos of None \<Rightarrow> -1 | Some n \<Rightarrow> sint (word_of_nat n :: 32 word))
      })"

text \<open>The bytes that an \<^verbatim>\<open>H_LBinary\<close> hands to Lua.\<close>

definition lbinary_bytes :: "binary \<Rightarrow> lbinary \<Rightarrow> bytes" where
  "lbinary_bytes b v =
     (case (pBufer v, m_pParseBuffer b) of
        (Some off, Some mem) \<Rightarrow> mem_read mem off (iLens v)
      | _ \<Rightarrow> [])"

section \<open>Reading stays inside the buffer\<close>

text \<open>
  A buffer that is followed by a zero byte, as \<^verbatim>\<open>c_str\<close> of a string is, and a cursor
  inside it.
\<close>

definition binary_ok :: "binary \<Rightarrow> bool" where
  "binary_ok b \<longleftrightarrow> m_iCurParseLens b \<le> m_iParseBufLens b \<and> m_iParseBufLens b < 2 ^ 63 \<and>
     (case m_pParseBuffer b of
        None \<Rightarrow> m_iParseBufLens b = 0
      | Some mem \<Rightarrow> m_iParseBufLens b < length mem \<and> mem ! m_iParseBufLens b = 0)"

datatype read_op = ReadNumber nat | ReadString | ReadLine | ReadByte nat

text \<open>The bytes an operation consumes as data; a number out of range reads no byte.\<close>

fun read_step :: "read_op \<Rightarrow> binary \<Rightarrow> (bytes \<times> binary) option" where
  "read_step (ReadNumber sz) b =
     map_option (\<lambda>(v :: u64, b'). (if b' = b then [] else le_bytes sz v, b')) (readNumber sz b)"
| "read_step ReadString b = map_option (\<lambda>(v, b'). (lbinary_bytes b v, b')) (getString b)"
| "read_step ReadLine b = map_option (\<lambda>(v, b'). (lbinary_bytes b v, b')) (readLine b)"
| "read_step (ReadByte lens) b = (case getLByte lens b of (v, b') \<Rightarrow> Some (lbinary_bytes b v, b'))"

lemma size_add_small: "a + b < 2 ^ 64 \<Longrightarrow> size_add a b = a + b"
  by (simp add: size_add_def)

lemma binary_okD:
  assumes "binary_ok b" "m_iCurParseLens b < m_iParseBufLens b"
  obtains mem s where "m_pParseBuffer b = Some mem" "m_iParseBufLens b < length mem"
    "mem_from (m_pParseBuffer b) (m_iCurParseLens b) = Some (drop (m_iCurParseLens b) mem)"
    "c_string (drop (m_iCurParseLens b) mem) = Some s"
    "length s \<le> m_iParseBufLens b - m_iCurParseLens b"
proof -
  obtain mem where m: "m_pParseBuffer b = Some mem" "m_iParseBufLens b < length mem" "mem ! m_iParseBufLens b = 0"
    using assms by (auto simp: binary_ok_def split: option.splits)
  let ?n = "m_iParseBufLens b - m_iCurParseLens b" and ?d = "drop (m_iCurParseLens b) mem"
  have z: "?d ! ?n = 0" "?n < length ?d" using m assms(2) by simp_all
  then have "0 \<in> set ?d" by (metis nth_mem)
  moreover have "length (takeWhile (\<lambda>b. b \<noteq> 0) ?d) \<le> ?n"
  proof (rule ccontr)
    assume "\<not> ?thesis"
    then have "?n < length (takeWhile (\<lambda>b. b \<noteq> 0) ?d)" by simp
    then have t: "?n < length (takeWhile (\<lambda>b. b \<noteq> 0) ?d)" .
    from nth_mem [OF t] have "takeWhile (\<lambda>b. b \<noteq> 0) ?d ! ?n \<noteq> 0" by (blast dest: set_takeWhileD)
    moreover from t have "takeWhile (\<lambda>b. b \<noteq> 0) ?d ! ?n = ?d ! ?n" by (rule takeWhile_nth)
    ultimately show False using z(1) by argo
  qed
  ultimately have "c_string ?d = Some (takeWhile (\<lambda>b. b \<noteq> 0) ?d)"
    "length (takeWhile (\<lambda>b. b \<noteq> 0) ?d) \<le> ?n" by (simp_all add: c_string_def)
  moreover have "mem_from (m_pParseBuffer b) (m_iCurParseLens b) = Some ?d"
    using m assms(2) by (simp add: mem_from_def)
  ultimately show thesis using m that by blast
qed

lemma binary_ok_move:
  "binary_ok b \<Longrightarrow> n \<le> m_iParseBufLens b \<Longrightarrow> binary_ok (b\<lparr>m_iCurParseLens := n\<rparr>)"
  by (simp add: binary_ok_def split: option.splits)

lemma readNumber_ok:
  assumes "binary_ok b" "0 < sz" "sz \<le> 8"
  shows "\<exists>v. readNumber sz b =
     (if m_iCurParseLens b + sz > m_iParseBufLens b then Some (0 :: 'a::len word, b)
      else Some (v, b\<lparr>m_iCurParseLens := m_iCurParseLens b + sz\<rparr>))"
proof -
  have s: "size_add (m_iCurParseLens b) sz = m_iCurParseLens b + sz"
    using assms by (intro size_add_small) (simp add: binary_ok_def)
  show ?thesis
  proof (cases "m_iCurParseLens b + sz > m_iParseBufLens b")
    case True
    then show ?thesis by (simp add: readNumber_def s)
  next
    case False
    show ?thesis
    proof (cases "m_pParseBuffer b")
      case None
      then have "m_iParseBufLens b = 0" using assms by (simp add: binary_ok_def)
      then show ?thesis using False assms(2) by simp
    next
      case (Some mem)
      then show ?thesis using assms False by (simp add: readNumber_def s mem_at_def binary_ok_def)
    qed
  qed
qed

lemma getString_ok:
  assumes "binary_ok b"
  shows "\<exists>v b'. getString b = Some (v, b') \<and> binary_ok b' \<and> m_iCurParseLens b \<le> m_iCurParseLens b' \<and>
           m_pParseBuffer b' = m_pParseBuffer b \<and> m_iParseBufLens b' = m_iParseBufLens b \<and>
           iLens v \<le> m_iCurParseLens b' - m_iCurParseLens b \<and>
           (pBufer v = None \<or> pBufer v = Some (m_iCurParseLens b))"
proof (cases "m_iCurParseLens b \<ge> m_iParseBufLens b")
  case True
  then show ?thesis using assms by (simp add: getString_def no_lbinary_def)
next
  case False
  then obtain mem s where m: "mem_from (m_pParseBuffer b) (m_iCurParseLens b) = Some (drop (m_iCurParseLens b) mem)"
    "c_string (drop (m_iCurParseLens b) mem) = Some s" "length s \<le> m_iParseBufLens b - m_iCurParseLens b"
    using binary_okD [OF assms] by (metis not_le)
  have b: "m_iParseBufLens b < 2 ^ 63" using assms by (simp add: binary_ok_def)
  have "size_add (m_iCurParseLens b) (length s) = m_iCurParseLens b + length s"
    "size_add (m_iCurParseLens b + length s) 1 = m_iCurParseLens b + length s + 1"
    "size_add (length s) 1 = length s + 1"
    "size_add (m_iCurParseLens b) (length s + 1) = m_iCurParseLens b + length s + 1"
    using m(3) b False by (simp_all add: size_add_small)
  then show ?thesis
    using False m assms
    by (auto simp: getString_def strlen_def Let_def getSurpLens_def size_sub_def intro: binary_ok_move)
qed

lemma find_sub_le: "find_sub pat s = Some n \<Longrightarrow> n + length pat \<le> length s"
  by (drule find_sub_SomeD) simp

lemma readLine_ok:
  assumes "binary_ok b"
  shows "\<exists>v b'. readLine b = Some (v, b') \<and> binary_ok b' \<and> m_iCurParseLens b \<le> m_iCurParseLens b' \<and>
           m_pParseBuffer b' = m_pParseBuffer b \<and> m_iParseBufLens b' = m_iParseBufLens b \<and>
           iLens v \<le> m_iCurParseLens b' - m_iCurParseLens b \<and>
           (pBufer v = None \<or> pBufer v = Some (m_iCurParseLens b))"
proof (cases "m_iCurParseLens b \<ge> m_iParseBufLens b")
  case True
  then show ?thesis using assms by (simp add: readLine_def no_lbinary_def)
next
  case False
  then obtain mem s where m: "mem_from (m_pParseBuffer b) (m_iCurParseLens b) = Some (drop (m_iCurParseLens b) mem)"
    "c_string (drop (m_iCurParseLens b) mem) = Some s" "length s \<le> m_iParseBufLens b - m_iCurParseLens b"
    using binary_okD [OF assms] by (metis not_le)
  have b: "m_iParseBufLens b < 2 ^ 63" using assms by (simp add: binary_ok_def)
  show ?thesis
  proof (cases "find_sub H_LINEEFLAG s")
    case None
    then show ?thesis
      using False m assms
      by (auto simp: readLine_def strstr_c_string Let_def getSurpLens_def size_sub_def intro: binary_ok_move)
  next
    case (Some n)
    then have n: "n + 2 \<le> length s" using find_sub_le [OF Some] by (simp add: H_LINEEFLAG_def)
    then have "size_add (m_iCurParseLens b) (n + 2) = m_iCurParseLens b + n + 2"
      using m(3) b False by (simp add: size_add_small)
    then show ?thesis
      using False m assms Some n
      by (auto simp: readLine_def strstr_c_string Let_def H_LINEEFLAG_def intro!: binary_ok_move)
  qed
qed

lemma getLByte_ok:
  assumes "binary_ok b" "n < 2 ^ 32"
  shows "\<exists>v b'. getLByte n b = (v, b') \<and> binary_ok b' \<and> m_iCurParseLens b \<le> m_iCurParseLens b' \<and>
           m_pParseBuffer b' = m_pParseBuffer b \<and> m_iParseBufLens b' = m_iParseBufLens b \<and>
           iLens v \<le> m_iCurParseLens b' - m_iCurParseLens b \<and>
           (pBufer v = None \<or> pBufer v = Some (m_iCurParseLens b))"
proof -
  have "size_add (m_iCurParseLens b) n = m_iCurParseLens b + n"
    using assms by (intro size_add_small) (simp add: binary_ok_def)
  then show ?thesis
    using assms by (auto simp: getLByte_def getByte_def no_lbinary_def intro: binary_ok_move)
qed

lemma length_lbinary_bytes:
  "iLens v \<le> n \<Longrightarrow> length (lbinary_bytes b v) \<le> n"
  by (auto simp: lbinary_bytes_def mem_read_def split: option.splits)

end
