(* ===== verification/Binary_Fields.thy ===== *)
theory Binary_Fields
  imports Binary
begin

text \<open>
  Messages as sequences of fields: what the writers of \<^verbatim>\<open>CBinary\<close> put into a buffer the
  readers take out again in the same order.
\<close>

datatype field =
    FUint8 u8 | FBool bool | FUint16 u16 | FUint32 u32 | FUint64 u64
  | FDouble u64 | FFloat u32 | FString bytes | FByte bytes

fun put_field :: "field \<Rightarrow> binary \<Rightarrow> binary" where
  "put_field (FUint8 v) = setUint8 v"
| "put_field (FBool v) = setBool v"
| "put_field (FUint16 v) = setUint16 v"
| "put_field (FUint32 v) = setUint32 v"
| "put_field (FUint64 v) = setUint64 v"
| "put_field (FDouble v) = setDouble v"
| "put_field (FFloat v) = setFloat v"
| "put_field (FString s) = setString s"
| "put_field (FByte bs) = setByte bs"

text \<open>The reader of the kind of a field; for raw bytes the caller knows the length.\<close>

fun get_field :: "field \<Rightarrow> binary \<Rightarrow> (field \<times> binary) option" where
  "get_field (FUint8 _) b = map_option (apfst FUint8) (getUint8 b)"
| "get_field (FBool _) b = map_option (apfst FBool) (getBool b)"
| "get_field (FUint16 _) b = map_option (apfst FUint16) (getUint16 b)"
| "get_field (FUint32 _) b = map_option (apfst FUint32) (getUint32 b)"
| "get_field (FUint64 _) b = map_option (apfst FUint64) (getUint64 b)"
| "get_field (FDouble _) b = map_option (apfst FDouble) (getDouble b)"
| "get_field (FFloat _) b = map_option (apfst FFloat) (getFloat b)"
| "get_field (FString _) b = map_option (\<lambda>(v, b'). (FString (lbinary_bytes b v), b')) (getString b)"
| "get_field (FByte bs) b =
     (case getLByte (length bs) b of (v, b') \<Rightarrow> Some (FByte (lbinary_bytes b v), b'))"

fun get_fields :: "field list \<Rightarrow> binary \<Rightarrow> (field list \<times> binary) option" where
  "get_fields [] b = Some ([], b)"
| "get_fields (f # fs) b = do {
     (g, b) \<leftarrow> get_field f b;
     (gs, b) \<leftarrow> get_fields fs b;
     Some (g # gs, b)
   }"

fun field_ok :: "field \<Rightarrow> bool" where
  "field_ok (FString s) \<longleftrightarrow> 0 \<notin> set s"
| "field_ok _ \<longleftrightarrow> True"

text \<open>The bytes of a field: network order for integers, a terminator after a string.\<close>

fun field_bytes :: "field \<Rightarrow> bytes" where
  "field_bytes (FUint8 v) = [v]"
| "field_bytes (FBool v) = [if v then 1 else 0]"
| "field_bytes (FUint16 v) = be_bytes 2 v"
| "field_bytes (FUint32 v) = be_bytes 4 v"
| "field_bytes (FUint64 v) = be_bytes 8 v"
| "field_bytes (FDouble v) = le_bytes 8 v"
| "field_bytes (FFloat v) = le_bytes 4 v"
| "field_bytes (FString s) = s @ [0]"
| "field_bytes (FByte bs) = bs"

lemma le_bytes_ntohl64: "le_bytes 8 (ntohl64 w) = be_bytes 8 w"
  using le_bytes_le_word [of "rev (le_bytes 8 w)", where 'a = 64]
  by (simp add: ntohl64_be be_word_def be_bytes_def del: le_bytes.simps)

lemma le_bytes_1: "le_bytes (Suc 0) (v :: u8) = [v]"
  by simp

lemma setVal_buf: "m_strWritBuffer (setVal bs b) = m_strWritBuffer b @ bs"
  by (simp add: setVal_def)

lemma setVal_id: "setVal bs b = b\<lparr>m_strWritBuffer := m_strWritBuffer b @ bs\<rparr>"
  by (simp add: setVal_def)

lemma put_field_bytes:
  "put_field f b = b\<lparr>m_strWritBuffer := m_strWritBuffer b @ field_bytes f\<rparr>"
  by (cases f)
    (simp_all add: setUint8_def setBool_def setUint16_def setUint32_def setUint64_def setDouble_def
      setFloat_def setString_def setByte_def skipWrite_def setVal_id byte_simps le_bytes_ntohl64
      le_bytes_1 Let_def del: le_bytes.simps)

lemma put_fields_bytes:
  "fold put_field fs b = b\<lparr>m_strWritBuffer := m_strWritBuffer b @ concat (map field_bytes fs)\<rparr>"
  by (induction fs arbitrary: b) (simp_all add: put_field_bytes)

text \<open>A reader that stands before \<open>xs\<close>.\<close>

definition reads :: "binary \<Rightarrow> bytes \<Rightarrow> bool" where
  "reads b xs \<longleftrightarrow> m_iParseBufLens b < 2 ^ 63 \<and>
     m_iCurParseLens b + length xs \<le> m_iParseBufLens b \<and>
     (\<exists>mem. m_pParseBuffer b = Some mem \<and> m_iParseBufLens b < length mem \<and>
            take (length xs) (drop (m_iCurParseLens b) mem) = xs)"

lemma readsD:
  assumes "reads b xs"
  obtains mem where "m_pParseBuffer b = Some mem" "m_iCurParseLens b + length xs < length mem"
    "mem_read mem (m_iCurParseLens b) (length xs) = xs" "m_iCurParseLens b + length xs \<le> m_iParseBufLens b"
    "size_add (m_iCurParseLens b) (length xs) = m_iCurParseLens b + length xs"
  using assms by (fastforce simp: reads_def mem_read_def size_add_small)

lemma reads_append:
  assumes "reads b (xs @ ys)"
  shows "reads b xs" "reads (b\<lparr>m_iCurParseLens := m_iCurParseLens b + length xs\<rparr>) ys"
proof -
  obtain mem where m: "m_pParseBuffer b = Some mem" "m_iParseBufLens b < length mem"
    "take (length (xs @ ys)) (drop (m_iCurParseLens b) mem) = xs @ ys"
    using assms by (auto simp: reads_def)
  have x: "take (length xs) (drop (m_iCurParseLens b) mem) = xs"
    using arg_cong [OF m(3), of "take (length xs)"] by (simp add: min_def)
  have y: "take (length ys) (drop (m_iCurParseLens b + length xs) mem) = ys"
    using arg_cong [OF m(3), of "drop (length xs)"] by (simp add: drop_take add.commute)
  show "reads b xs" "reads (b\<lparr>m_iCurParseLens := m_iCurParseLens b + length xs\<rparr>) ys"
    using assms m x y by (auto simp: reads_def)
qed

lemma readNumber_reads:
  assumes "reads b bs" "bs \<noteq> []"
  shows "readNumber (length bs) b =
    Some (le_word bs, b\<lparr>m_iCurParseLens := m_iCurParseLens b + length bs\<rparr>)"
proof -
  obtain mem where "m_pParseBuffer b = Some mem" "m_iCurParseLens b + length bs < length mem"
    "mem_read mem (m_iCurParseLens b) (length bs) = bs" "m_iCurParseLens b + length bs \<le> m_iParseBufLens b"
    "size_add (m_iCurParseLens b) (length bs) = m_iCurParseLens b + length bs"
    using readsD [OF assms(1)] .
  then show ?thesis by (simp add: readNumber_def mem_at_def)
qed

lemma getLByte_reads:
  assumes "reads b bs"
  shows "\<exists>v. getLByte (length bs) b = (v, b\<lparr>m_iCurParseLens := m_iCurParseLens b + length bs\<rparr>) \<and>
           lbinary_bytes b v = bs"
proof -
  obtain mem where m: "m_pParseBuffer b = Some mem"
    "mem_read mem (m_iCurParseLens b) (length bs) = bs" "m_iCurParseLens b + length bs \<le> m_iParseBufLens b"
    "size_add (m_iCurParseLens b) (length bs) = m_iCurParseLens b + length bs"
    using readsD [OF assms] .
  show ?thesis
  proof (cases "bs = []")
    case True
    then show ?thesis using m by (simp add: getLByte_def getByte_def no_lbinary_def lbinary_bytes_def)
  next
    case False
    then show ?thesis using m by (simp add: getLByte_def getByte_def lbinary_bytes_def)
  qed
qed

lemma getString_reads:
  assumes "reads b (s @ [0])" "0 \<notin> set s"
  shows "\<exists>v. getString b = Some (v, b\<lparr>m_iCurParseLens := m_iCurParseLens b + length (s @ [0])\<rparr>) \<and>
           lbinary_bytes b v = s"
proof -
  obtain mem where m: "m_pParseBuffer b = Some mem" "m_iCurParseLens b + length (s @ [0]) < length mem"
    "mem_read mem (m_iCurParseLens b) (length (s @ [0])) = s @ [0]"
    "m_iCurParseLens b + length (s @ [0]) \<le> m_iParseBufLens b"
    "size_add (m_iCurParseLens b) (length (s @ [0])) = m_iCurParseLens b + length (s @ [0])"
    using readsD [OF assms(1)] .
  have lt: "m_iParseBufLens b < 2 ^ 63" using assms(1) by (simp add: reads_def)
  have d: "drop (m_iCurParseLens b) mem = s @ 0 # drop (m_iCurParseLens b + length (s @ [0])) mem"
    using append_take_drop_id [of "length (s @ [0])" "drop (m_iCurParseLens b) mem"] m(3)
    by (simp add: mem_read_def add.commute)
  have tw: "takeWhile (\<lambda>b. b \<noteq> 0) (s @ 0 # t) = s" for t
    using assms(2) by (metis (mono_tags, lifting) takeWhile_append2 takeWhile.simps(2) append_Nil2)
  have "strlen (drop (m_iCurParseLens b) mem) = Some (length s)"
    unfolding d strlen_def c_string_def tw by simp
  moreover have "size_add (size_add (m_iCurParseLens b) (length s)) 1 = m_iCurParseLens b + length s + 1"
    "size_add (length s) 1 = length s + 1"
    "size_add (m_iCurParseLens b) (length s + 1) = m_iCurParseLens b + (length s + 1)"
    using m(4) lt by (simp_all add: size_add_small)
  moreover have "mem_read mem (m_iCurParseLens b) (length s) = s" by (simp add: mem_read_def d)
  ultimately show ?thesis
    using m(1,2,4) by (simp add: getString_def mem_from_def Let_def lbinary_bytes_def)
qed

lemma get_field_reads:
  assumes "reads b (field_bytes f)" "field_ok f"
  shows "get_field f b = Some (f, b\<lparr>m_iCurParseLens := m_iCurParseLens b + length (field_bytes f)\<rparr>)"
proof (cases f)
  case (FString s)
  then show ?thesis using getString_reads [of b s] assms by auto
next
  case (FByte bs)
  then show ?thesis using getLByte_reads [of b bs] assms by auto
next
  case (FBool v)
  then show ?thesis using readNumber_reads [OF assms(1), where 'a = 8] by (simp add: getBool_def)
qed (use assms readNumber_reads [OF assms(1), where 'a = 8] readNumber_reads [OF assms(1), where 'a = 16]
       readNumber_reads [OF assms(1), where 'a = 32] readNumber_reads [OF assms(1), where 'a = 64] in
     \<open>simp_all add: getUint8_def getUint16_def getUint32_def getUint64_def getDouble_def getFloat_def
       byte_simps ntohl64_le_word flip: length_greater_0_conv del: le_bytes.simps\<close>)

lemma get_fields_reads:
  assumes "reads b (concat (map field_bytes fs))" "\<forall>f \<in> set fs. field_ok f"
  shows "get_fields fs b =
    Some (fs, b\<lparr>m_iCurParseLens := m_iCurParseLens b + length (concat (map field_bytes fs))\<rparr>)"
  using assms
proof (induction fs arbitrary: b)
  case Nil
  then show ?case by simp
next
  case (Cons f fs)
  from Cons.prems reads_append [of b "field_bytes f" "concat (map field_bytes fs)"]
  have "reads b (field_bytes f)"
    "reads (b\<lparr>m_iCurParseLens := m_iCurParseLens b + length (field_bytes f)\<rparr>) (concat (map field_bytes fs))"
    by simp_all
  with get_field_reads [of b f] Cons.IH Cons.prems(2) show ?case by (simp add: add.assoc)
qed

end
