(* ===== verification/Binary_Props.thy ===== *)
theory Binary_Props
  imports Binary_Fields
begin

text \<open>The properties of \<^verbatim>\<open>CBinary\<close> and of the string functions of \<^verbatim>\<open>Funcs.cpp\<close>.\<close>

text \<open>C24. A message written field by field is read back field by field from the buffer
  it was written to: \<^verbatim>\<open>setW2R\<close> followed by the getters returns every field, in order, and
  leaves nothing unread.\<close>

theorem binary_fields_roundtrip:
  assumes "\<forall>f \<in> set fs. field_ok f" "length (concat (map field_bytes fs)) < 2 ^ 63"
  shows "\<exists>b'. get_fields fs (setW2R (fold put_field fs (reSetWrite b))) = Some (fs, b') \<and>
              getSurpLens b' = 0"
proof -
  let ?bs = "concat (map field_bytes fs)"
  let ?b = "setW2R (fold put_field fs (reSetWrite b))"
  have "reads ?b ?bs"
    using assms(2) by (simp add: reads_def put_fields_bytes setW2R_def setReadBuffer_def reSetWrite_def)
  from get_fields_reads [OF this assms(1)] show ?thesis
    by (simp add: getSurpLens_def size_sub_def put_fields_bytes setW2R_def setReadBuffer_def reSetWrite_def)
qed

theorem binary_fields_roundtrip_witness:
  "\<exists>b'. get_fields [FUint16 0x1234, FString [0x41, 0x42], FBool True, FByte [0, 1], FUint64 5]
      (setW2R (fold put_field [FUint16 0x1234, FString [0x41, 0x42], FBool True, FByte [0, 1], FUint64 5]
        (reSetWrite CBinary))) =
      Some ([FUint16 0x1234, FString [0x41, 0x42], FBool True, FByte [0, 1], FUint64 5], b') \<and>
    getSurpLens b' = 0"
  by (rule binary_fields_roundtrip) simp_all

text \<open>C36. No reader touches memory outside the buffer or moves the cursor out of it, whatever
  the bytes are, when the buffer is followed by a zero byte: each returns, hands over at most
  the bytes it moves the cursor by, and never moves it backwards.\<close>

theorem binary_reads_inside:
  assumes "binary_ok b"
    "case op of ReadNumber sz \<Rightarrow> sz \<in> {1, 2, 4, 8} | ReadByte n \<Rightarrow> n < 2 ^ 32 | _ \<Rightarrow> True"
  shows "\<exists>bs b'. read_step op b = Some (bs, b') \<and> binary_ok b' \<and>
           m_iCurParseLens b \<le> m_iCurParseLens b' \<and> m_iParseBufLens b' = m_iParseBufLens b \<and>
           length bs \<le> m_iCurParseLens b' - m_iCurParseLens b"
proof (cases op)
  case (ReadNumber sz)
  with assms obtain v :: u64 where "readNumber sz b =
     (if m_iCurParseLens b + sz > m_iParseBufLens b then Some (0, b)
      else Some (v, b\<lparr>m_iCurParseLens := m_iCurParseLens b + sz\<rparr>))"
    using readNumber_ok [of b sz] by auto
  then show ?thesis
    using ReadNumber assms by (auto simp del: le_bytes.simps intro: binary_ok_move)
next
  case ReadString
  then show ?thesis using getString_ok [OF assms(1)] by (auto intro: length_lbinary_bytes)
next
  case ReadLine
  then show ?thesis using readLine_ok [OF assms(1)] by (auto intro: length_lbinary_bytes)
next
  case (ReadByte n)
  then show ?thesis using getLByte_ok [OF assms(1), of n] assms(2) by (auto intro: length_lbinary_bytes)
qed

theorem binary_reads_inside_witness:
  "\<exists>bs b'. read_step ReadLine (setReadBuffer (Some [0x41, 0x0d, 0x0a, 0]) 3 CBinary) = Some (bs, b') \<and>
     binary_ok b' \<and> length bs \<le> m_iCurParseLens b'"
  using binary_reads_inside [of "setReadBuffer (Some [0x41, 0x0d, 0x0a, 0]) 3 CBinary" ReadLine]
  by (auto simp: binary_ok_def setReadBuffer_def)

text \<open>\<^verbatim>\<open>skipRead\<close> does not check its argument: from every cursor there is a skip after
  which the bound check of the next number wraps around, passes, and the read leaves the
  memory of the buffer.\<close>

theorem binary_skip_unchecked:
  assumes "m_pParseBuffer b = Some mem" "length mem < 2 ^ 63" "m_iCurParseLens b < 2 ^ 63"
  shows "getUint8 (skipRead (2 ^ 64 - 1 - m_iCurParseLens b) b) = None"
  using assms by (simp add: getUint8_def readNumber_def skipRead_def size_add_def mem_at_def)

theorem binary_skip_unchecked_witness:
  "getUint8 (skipRead (2 ^ 64 - 1) (setReadBuffer (Some [1, 2, 3]) 3 CBinary)) = None"
  using binary_skip_unchecked [of "setReadBuffer (Some [1, 2, 3]) 3 CBinary" "[1, 2, 3]"]
  by (simp add: setReadBuffer_def)

text \<open>A string without terminator in the rest of the buffer is lost: the cursor moves to
  the end, and the length handed over is 0, since it is computed after the cursor has moved.\<close>

theorem binary_string_unterminated:
  assumes "m_pParseBuffer b = Some (xs @ s @ 0 # ys)" "0 \<notin> set s" "s \<noteq> []"
    "m_iCurParseLens b = length xs" "m_iParseBufLens b = length xs + length s"
    "length xs + length s < 2 ^ 63"
  shows "getString b = Some (\<lparr>pBufer = Some (length xs), iLens = 0\<rparr>,
                             b\<lparr>m_iCurParseLens := m_iParseBufLens b\<rparr>)"
proof -
  have tw: "takeWhile (\<lambda>b. b \<noteq> 0) (s @ 0 # ys) = s"
    using assms(2) by (metis (mono_tags, lifting) takeWhile_append2 takeWhile.simps(2) append_Nil2)
  have "strlen (s @ 0 # ys) = Some (length s)" by (simp only: strlen_def c_string_def tw) simp
  moreover have "size_add (size_add (length xs) (length s)) 1 = length xs + length s + 1"
    using assms(6) by (simp add: size_add_small)
  ultimately show ?thesis
    using assms by (simp add: getString_def mem_from_def Let_def getSurpLens_def size_sub_def)
qed

theorem binary_string_unterminated_witness:
  "\<exists>b'. getString (setReadBuffer (Some [0x41, 0x42, 0]) 2 CBinary) =
          Some (\<lparr>pBufer = Some 0, iLens = 0\<rparr>, b') \<and> m_iCurParseLens b' = 2"
  using binary_string_unterminated [of "setReadBuffer (Some [0x41, 0x42, 0]) 2 CBinary" "[]" "[0x41, 0x42]" "[]"]
  by (simp add: setReadBuffer_def)

text \<open>\<^verbatim>\<open>H_Split\<close> loses nothing: joining the pieces with the flag gives the source.\<close>

theorem split_join:
  assumes "flag \<noteq> []" "strSource \<noteq> []"
  shows "join flag (H_Split strSource (Some flag)) = strSource"
  using assms by (simp add: H_Split_def join_split_at)

theorem split_join_witness:
  "join [0x2c] (H_Split [0x61, 0x2c, 0x62, 0x2c] (Some [0x2c])) = [0x61, 0x2c, 0x62, 0x2c]"
  by (rule split_join) simp_all

end
