(* ===== verification/Net_Read.thy ===== *)
theory Net_Read
  imports Binary
begin

text \<open>
  Reading packets from a connection: \<^verbatim>\<open>CLNetDisp::onTcpRead\<close> of \<^verbatim>\<open>Humble/LNetDisp.cpp\<close> on the
  read buffer of \<^verbatim>\<open>HBase/EvBuffer.h\<close>, over the virtual \<^verbatim>\<open>parsePack\<close> of
  \<^verbatim>\<open>HBase/NetParser.h\<close>.

  A parser gets the state of the session, the unread bytes and the shared \<^verbatim>\<open>CBinary\<close>, and
  returns the new session state, its \<^verbatim>\<open>int\<close> result and the \<^verbatim>\<open>CBinary\<close>; \<open>None\<close> means that
  it reads memory that is not its own.  The result is 0 for \<^emph>\<open>more bytes are needed\<close>,
  \<open>-1\<close> for \<^emph>\<open>give up\<close>, and otherwise the number of bytes of the packet.
\<close>

type_synonym 's parser = "'s \<Rightarrow> bytes \<Rightarrow> binary \<Rightarrow> ('s \<times> int \<times> binary) option"

text \<open>\<^verbatim>\<open>(int)\<close> of a \<^verbatim>\<open>size_t\<close>.\<close>

definition c_int :: "nat \<Rightarrow> int" where
  "c_int n = sint (word_of_nat n :: 32 word)"

text \<open>\<^verbatim>\<open>evbuffer_drain\<close> removes at most what is there.\<close>

definition delBuffer :: "nat \<Rightarrow> bytes \<Rightarrow> bytes" where
  "delBuffer lens buf = (if lens = 0 then buf else drop lens buf)"

text \<open>What a packet shows to the Lua handler: the data to read and the header fields.\<close>

definition packet_view :: "binary \<Rightarrow> bytes \<times> bytes" where
  "packet_view b =
     (case m_pParseBuffer b of None \<Rightarrow> [] | Some mem \<Rightarrow> take (m_iParseBufLens b) mem, m_strWritBuffer b)"

text \<open>
  The loop of \<^verbatim>\<open>onTcpRead\<close>.  The handler may change the shared object: \<open>lua\<close> is what it
  leaves.  The list collects the views that the handler was called with.  The result is the
  session state, what stays in the read buffer, the shared object and the list.
\<close>

partial_function (option) tcp_read_loop ::
  "(binary \<Rightarrow> binary) \<Rightarrow> 's parser \<Rightarrow> nat \<Rightarrow> bytes \<Rightarrow> 's \<Rightarrow> binary \<Rightarrow> (bytes \<times> bytes) list \<Rightarrow>
   ('s \<times> bytes \<times> binary \<times> (bytes \<times> bytes) list) option" where
  "tcp_read_loop lua parse iParsed buf s bin out =
     (if iParsed \<ge> length buf then Some (s, delBuffer iParsed buf, bin, out)
      else case parse s (drop iParsed buf) (setReadBuffer None 0 (reSetWrite bin)) of
             None \<Rightarrow> None
           | Some (s, iCurParsed, bin) \<Rightarrow>
               if iCurParsed = 0 then Some (s, delBuffer iParsed buf, bin, out)
               else if iCurParsed = -1 then Some (s, buf, bin, out)
               else
                 let iParsed = nat ((int iParsed + iCurParsed) mod 2 ^ 64)
                 in if getRBufLens bin = 0 \<and> getWritedBuf bin = []
                    then tcp_read_loop lua parse iParsed buf s bin out
                    else tcp_read_loop lua parse iParsed buf s (lua bin) (out @ [packet_view bin]))"

text \<open>One read event: the bytes that arrive join those that stayed in the buffer.\<close>

definition onTcpRead ::
  "(binary \<Rightarrow> binary) \<Rightarrow> 's parser \<Rightarrow> bytes \<Rightarrow> 's \<times> bytes \<times> binary \<times> (bytes \<times> bytes) list \<Rightarrow>
   ('s \<times> bytes \<times> binary \<times> (bytes \<times> bytes) list) option" where
  "onTcpRead lua parse chunk st =
     (case st of (s, evbuf, bin, out) \<Rightarrow>
        if evbuf @ chunk = [] then Some (s, [], bin, out)
        else tcp_read_loop lua parse 0 (evbuf @ chunk) s bin out)"

fun tcp_reads ::
  "(binary \<Rightarrow> binary) \<Rightarrow> 's parser \<Rightarrow> bytes list \<Rightarrow> 's \<times> bytes \<times> binary \<times> (bytes \<times> bytes) list \<Rightarrow>
   ('s \<times> bytes \<times> binary \<times> (bytes \<times> bytes) list) option" where
  "tcp_reads lua parse [] st = Some st"
| "tcp_reads lua parse (c # cs) st = do {
     st \<leftarrow> onTcpRead lua parse c st;
     tcp_reads lua parse cs st
   }"

section \<open>The stream a parser cuts\<close>

text \<open>
  \<open>core\<close> is a parser without the shared object: session state and bytes to session state,
  result and view.  \<open>pull\<close> cuts a stream into packets with it; the flag says that the
  parser did not give up.
\<close>

function pull ::
  "('s \<Rightarrow> bytes \<Rightarrow> 's \<times> int \<times> (bytes \<times> bytes)) \<Rightarrow> 's \<Rightarrow> bytes \<Rightarrow>
   (bytes \<times> bytes) list \<times> bytes \<times> 's \<times> bool" where
  "pull core s buf =
     (if buf = [] then ([], [], s, True)
      else case core s buf of
             (s', n, p) \<Rightarrow>
               if n = 0 then ([], buf, s', True)
               else if n < 0 \<or> n > int (length buf) then ([], buf, s', False)
               else case pull core s' (drop (nat n) buf) of
                      (ps, rest, s'', ok) \<Rightarrow> (if p = ([], []) then ps else p # ps, rest, s'', ok))"
  by pat_completeness auto
termination by (relation "measure (\<lambda>(c, s, b). length b)") auto

declare pull.simps [simp del]

locale packet_parser =
  fixes parse :: "'s parser"
    and core :: "'s \<Rightarrow> bytes \<Rightarrow> 's \<times> int \<times> (bytes \<times> bytes)"
    and good :: "'s \<Rightarrow> bytes \<Rightarrow> bool"
  assumes parse_core: "good s buf \<Longrightarrow> buf \<noteq> [] \<Longrightarrow> core s buf = (s', n, p) \<Longrightarrow>
      \<exists>bin'. parse s buf (setReadBuffer None 0 (reSetWrite bin)) = Some (s', n, bin') \<and>
             (0 < n \<longrightarrow> packet_view bin' = p \<and> (p = ([], []) \<longleftrightarrow> getRBufLens bin' = 0 \<and> getWritedBuf bin' = []))"
    and result: "good s buf \<Longrightarrow> buf \<noteq> [] \<Longrightarrow> core s buf = (s', n, p) \<Longrightarrow> n = -1 \<or> 0 \<le> n \<and> n \<le> int (length buf)"
    and need_more: "good s buf \<Longrightarrow> buf \<noteq> [] \<Longrightarrow> core s buf = (s', 0, p) \<Longrightarrow> s' = s"
    and stable: "good s (buf @ x) \<Longrightarrow> buf \<noteq> [] \<Longrightarrow> core s buf = (s', n, p) \<Longrightarrow> n \<noteq> 0 \<Longrightarrow>
      core s (buf @ x) = (s', n, p)"
    and good_prefix: "good s (buf @ x) \<Longrightarrow> good s buf"
    and good_next: "good s buf \<Longrightarrow> buf \<noteq> [] \<Longrightarrow> core s buf = (s', n, p) \<Longrightarrow> 0 < n \<Longrightarrow> good s' (drop (nat n) buf)"
    and good_length: "good s buf \<Longrightarrow> length buf < 2 ^ 63"
begin

text \<open>Cutting a stream does not depend on where it is interrupted.\<close>

lemma pull_append:
  assumes "good s (buf @ x)" "pull core s buf = (ps, rest, s', True)"
  shows "good s' (rest @ x) \<and>
    pull core s (buf @ x) = (case pull core s' (rest @ x) of (qs, r, t, ok) \<Rightarrow> (ps @ qs, r, t, ok))"
  using assms
proof (induction "length buf" arbitrary: s buf ps rest s' rule: less_induct)
  case less
  show ?case
  proof (cases "buf = []")
    case True
    with less.prems show ?thesis by (simp add: pull.simps [of core s "[]"] split: prod.splits)
  next
    case ne: False
    obtain t n p where c: "core s buf = (t, n, p)" by (metis prod_cases3)
    note g = good_prefix [OF less.prems(1)]
    show ?thesis
    proof (cases "n = 0")
      case True
      with need_more [OF g ne] c have "t = s" by simp
      with less.prems True c ne show ?thesis
        by (simp add: pull.simps [of core s buf] split: prod.splits)
    next
      case False
      have p: "0 < n" "n \<le> int (length buf)"
        using less.prems(2) c ne False by (auto simp: pull.simps [of core s buf] split: if_splits)
      obtain qs where q: "pull core t (drop (nat n) buf) = (qs, rest, s', True)"
        "ps = (if p = ([], []) then qs else p # qs)"
        using less.prems(2) c ne p by (auto simp: pull.simps [of core s buf] split: prod.splits)
      have st: "core s (buf @ x) = (t, n, p)" by (rule stable [OF less.prems(1) ne c False])
      have "good t (drop (nat n) (buf @ x))" by (rule good_next [OF less.prems(1) _ st p(1)]) (use ne in simp)
      then have "good t (drop (nat n) buf @ x)" using p by simp
      from less.hyps [OF _ this q(1)] p ne
      have "good s' (rest @ x)" "pull core t (drop (nat n) buf @ x) =
          (case pull core s' (rest @ x) of (rs, r, u, ok) \<Rightarrow> (qs @ rs, r, u, ok))"
        by simp_all
      then show ?thesis
        using st p ne q(2) by (simp add: pull.simps [of core s "buf @ x"] split: prod.splits)
    qed
  qed
qed

text \<open>The loop delivers what \<open>pull\<close> cuts; it always ends.\<close>

lemma tcp_read_loop_pull:
  assumes "good s (drop k buf)" "k \<le> length buf" "length buf < 2 ^ 63" "pull core s (drop k buf) = (ps, rest, s', ok)"
  shows "\<exists>bin'. tcp_read_loop lua parse k buf s bin out =
    Some (s', if ok then rest else buf, bin', out @ ps)"
  using assms
proof (induction "length buf - k" arbitrary: k s bin out ps rest rule: less_induct)
  case less
  show ?case
  proof (cases "k = length buf")
    case True
    with less.prems(4) show ?thesis
      by (subst tcp_read_loop.simps) (simp add: pull.simps [of core s "[]"] delBuffer_def)
  next
    case False
    with less.prems(2) have k: "k < length buf" by simp
    then have ne: "drop k buf \<noteq> []" by simp
    obtain t n p where c: "core s (drop k buf) = (t, n, p)" by (metis prod_cases3)
    obtain bin1 where b: "parse s (drop k buf) (setReadBuffer None 0 (reSetWrite bin)) = Some (t, n, bin1)"
      "0 < n \<longrightarrow> packet_view bin1 = p \<and> (p = ([], []) \<longleftrightarrow> getRBufLens bin1 = 0 \<and> getWritedBuf bin1 = [])"
      using parse_core [OF less.prems(1) ne c] by blast
    consider "n = 0" | "n = -1" | "0 < n" "n \<le> int (length buf - k)"
      using result [OF less.prems(1) ne c] by fastforce
    then show ?thesis
    proof cases
      case 1
      then show ?thesis using less.prems(4) c b ne k
        by (subst tcp_read_loop.simps) (auto simp: pull.simps [of core s "drop k buf"] delBuffer_def)
    next
      case 2
      then show ?thesis using less.prems(4) c b ne k
        by (subst tcp_read_loop.simps) (auto simp: pull.simps [of core s "drop k buf"])
    next
      case 3
      then obtain qs where q: "pull core t (drop (nat n) (drop k buf)) = (qs, rest, s', ok)"
        "ps = (if p = ([], []) then qs else p # qs)"
        using less.prems(4) c ne by (auto simp: pull.simps [of core s "drop k buf"] split: prod.splits)
      have m: "nat ((int k + n) mod 2 ^ 64) = k + nat n" "nat (int k + n) = k + nat n"
        using 3 k less.prems(3) by (simp_all add: nat_add_distrib)
      have g: "good t (drop (k + nat n) buf)"
        using good_next [OF less.prems(1) ne c 3(1)] by (simp add: add.commute)
      have q': "pull core t (drop (k + nat n) buf) = (qs, rest, s', ok)" using q(1) by (simp add: add.commute)
      have kn: "k + nat n \<le> length buf" "length buf - (k + nat n) < length buf - k" using 3 k by linarith+
      note IH = less.hyps [OF kn(2) g kn(1) less.prems(3) q']
      show ?thesis
      proof (cases "p = ([], [])")
        case True
        with IH [of bin1 out] b 3 k m q(2) show ?thesis
          by (subst tcp_read_loop.simps) (simp add: Let_def)
      next
        case False
        with IH [of "lua bin1" "out @ [p]"] b 3 k m q(2) show ?thesis
          by (subst tcp_read_loop.simps) (auto simp: Let_def)
      qed
    qed
  qed
qed

lemma onTcpRead_pull:
  assumes "good s (evbuf @ chunk)" "pull core s (evbuf @ chunk) = (ps, rest, s', ok)"
  shows "\<exists>bin'. onTcpRead lua parse chunk (s, evbuf, bin, out) =
    Some (s', if ok then rest else evbuf @ chunk, bin', out @ ps)"
proof (cases "evbuf @ chunk = []")
  case True
  with assms(2) show ?thesis by (simp add: onTcpRead_def pull.simps [of core s "[]"])
next
  case False
  with tcp_read_loop_pull [of s 0 "evbuf @ chunk"] assms good_length [OF assms(1)] show ?thesis
    by (auto simp: onTcpRead_def)
qed

text \<open>A parser that gives up on a part gives up on the whole.\<close>

lemma pull_append_fail:
  assumes "good s (buf @ x)" "pull core s buf = (ps, rest, s', False)"
  shows "\<exists>qs r t. pull core s (buf @ x) = (qs, r, t, False)"
  using assms
proof (induction "length buf" arbitrary: s buf ps rule: less_induct)
  case less
  have ne: "buf \<noteq> []" using less.prems(2) by (auto simp: pull.simps [of core s "[]"])
  obtain u n p where cr: "core s buf = (u, n, p)" by (metis prod_cases3)
  have n0: "n \<noteq> 0" using less.prems(2) cr ne by (auto simp: pull.simps [of core s buf])
  have st: "core s (buf @ x) = (u, n, p)" by (rule stable [OF less.prems(1) ne cr n0])
  consider "n = -1" | "0 < n" "n \<le> int (length buf)"
    using result [OF good_prefix [OF less.prems(1)] ne cr] n0 by fastforce
  then show ?case
  proof cases
    case 1
    then show ?thesis using st ne by (simp add: pull.simps [of core s "buf @ x"])
  next
    case 2
    then obtain qs where q: "pull core u (drop (nat n) buf) = (qs, rest, s', False)"
      using less.prems(2) cr ne by (auto simp: pull.simps [of core s buf] split: prod.splits)
    have "good u (drop (nat n) (buf @ x))"
      by (rule good_next [OF less.prems(1) _ st 2(1)]) (use ne in simp)
    then have "good u (drop (nat n) buf @ x)" using 2 by simp
    from less.hyps [OF _ this q] 2 ne st show ?thesis
      by (auto simp: pull.simps [of core s "buf @ x"] split: prod.splits)
  qed
qed

text \<open>Chunking does not matter: the handler sees the packets of the whole stream.\<close>

lemma tcp_reads_pull:
  assumes "good s (evbuf @ concat cs)" "pull core s (evbuf @ concat cs) = (ps, rest, s', True)"
    "pull core s evbuf = ([], evbuf, s, True)"
  shows "\<exists>bin'. tcp_reads lua parse cs (s, evbuf, bin, out) = Some (s', rest, bin', out @ ps)"
  using assms
proof (induction cs arbitrary: s evbuf bin out ps)
  case Nil
  then show ?case by simp
next
  case (Cons c cs)
  obtain qs r t ok where q: "pull core s (evbuf @ c) = (qs, r, t, ok)" by (metis prod_cases4)
  have g: "good s ((evbuf @ c) @ concat cs)" using Cons.prems(1) by simp
  note g1 = good_prefix [OF g]
  have okT: "ok"
  proof (rule ccontr)
    assume "\<not> ok"
    with q have f: "pull core s (evbuf @ c) = (qs, r, t, False)" by simp
    from pull_append_fail [OF g f] Cons.prems(2) show False by simp
  qed
  with q have q: "pull core s (evbuf @ c) = (qs, r, t, True)" by simp
  obtain bin1 where r1: "onTcpRead lua parse c (s, evbuf, bin, out) = Some (t, r, bin1, out @ qs)"
    using onTcpRead_pull [OF g1 q, of lua bin out] by auto
  from pull_append [OF g q] Cons.prems(2)
  obtain ps' where p': "pull core t (r @ concat cs) = (ps', rest, s', True)" "ps = qs @ ps'" "good t (r @ concat cs)"
    by (auto split: prod.splits)
  have idle: "pull core t r = ([], r, t, True)"
    using pull_append [of s "evbuf @ c" "[]"] g1 q by (auto split: prod.splits)
  from Cons.IH [OF p'(3,1) idle, of bin1 "out @ qs"] r1 p'(2) show ?case by simp
qed

end

end
