(* ===== verification/Tcp_Parsers.thy ===== *)
theory Tcp_Parsers
  imports Net_Read
begin

text \<open>
  The length-prefixed packet formats: \<^verbatim>\<open>HBase/Tcp1.cpp\<close>, \<^verbatim>\<open>HBase/Tcp2.cpp\<close> and
  \<^verbatim>\<open>HBase/mqtt.cpp\<close>.  \<^verbatim>\<open>char\<close> is signed.
\<close>

section \<open>Tcp1\<close>

definition TCPBUFLENS_125 :: int where "TCPBUFLENS_125 = 125"
definition TCPBUFLENS_126 :: int where "TCPBUFLENS_126 = 126"
definition TCPBUFLENS_127 :: int where "TCPBUFLENS_127 = 127"

text \<open>\<^verbatim>\<open>readHead\<close>: the length of the data and of the head, unless it fails.\<close>

definition tcp1_readHead :: "bytes \<Rightarrow> (nat \<times> nat) option" where
  "tcp1_readHead pBuffer =
     (let cFlag = sint (pBuffer ! 0); iLens = length pBuffer
      in if cFlag \<le> TCPBUFLENS_125 then Some (nat (cFlag mod 2 ^ 64), 1)
         else if TCPBUFLENS_126 = cFlag then
           if iLens < 1 + 2 then None
           else Some (unat (ntohs (le_word (mem_read pBuffer 1 2))), 1 + 2)
         else if TCPBUFLENS_127 = cFlag then
           if iLens < 1 + 4 then None
           else Some (unat (ntohl (le_word (mem_read pBuffer 1 4))), 1 + 4)
         else None)"

definition tcp1_parsePack :: "'s parser" where
  "tcp1_parsePack s pAllBuf b =
     (case tcp1_readHead pAllBuf of
        None \<Rightarrow> Some (s, 0, b)
      | Some (iBufLens, iHeadLens) \<Rightarrow>
          if iBufLens = 0 then Some (s, c_int iHeadLens, b)
          else if iBufLens > size_sub (length pAllBuf) iHeadLens then Some (s, 0, b)
          else Some (s, c_int (size_add iBufLens iHeadLens),
                     setReadBuffer (Some (drop iHeadLens pAllBuf)) iBufLens b))"

definition tcp1_creatHead :: "bytes \<Rightarrow> nat \<Rightarrow> bytes" where
  "tcp1_creatHead pOutBuf lens =
     (let acHead =
        (if int lens \<le> TCPBUFLENS_125 then [word_of_nat lens]
         else if int lens > TCPBUFLENS_125 \<and> lens \<le> 0xFFFF
         then word_of_int TCPBUFLENS_126 # le_bytes 2 (ntohs (word_of_nat lens))
         else word_of_int TCPBUFLENS_127 # le_bytes 4 (ntohl (word_of_nat lens)))
      in pOutBuf @ acHead)"

section \<open>Tcp2\<close>

definition tcp2_parsePack :: "'s parser" where
  "tcp2_parsePack s pAllBuf b =
     (let iHeadLens = 2
      in if iHeadLens > length pAllBuf then Some (s, 0, b)
         else
           let uiBufLens = unat (ntohs (le_word (mem_read pAllBuf 0 2)))
           in if uiBufLens = 0 then Some (s, c_int iHeadLens, b)
              else if size_add uiBufLens iHeadLens > length pAllBuf then Some (s, 0, b)
              else Some (s, c_int (size_add uiBufLens iHeadLens),
                         setReadBuffer (Some (drop iHeadLens pAllBuf)) uiBufLens b))"

section \<open>Length-prefixed formats\<close>

definition lp_core :: "(bytes \<Rightarrow> (nat \<times> nat) option) \<Rightarrow> 's \<Rightarrow> bytes \<Rightarrow> 's \<times> int \<times> (bytes \<times> bytes)" where
  "lp_core head s buf =
     (case head buf of
        None \<Rightarrow> (s, 0, ([], []))
      | Some (l, h) \<Rightarrow>
          if l = 0 then (s, int h, ([], []))
          else if l > length buf - h then (s, 0, ([], []))
          else (s, int (l + h), (take l (drop h buf), [])))"

definition short_stream :: "'s \<Rightarrow> bytes \<Rightarrow> bool" where
  "short_stream s buf \<longleftrightarrow> length buf < 2 ^ 31"

locale length_prefixed =
  fixes parse :: "'s parser" and head :: "bytes \<Rightarrow> (nat \<times> nat) option"
  assumes parse_head: "buf \<noteq> [] \<Longrightarrow> length buf < 2 ^ 31 \<Longrightarrow> parse s buf b =
      (case head buf of
         None \<Rightarrow> Some (s, 0, b)
       | Some (l, h) \<Rightarrow>
           if l = 0 then Some (s, int h, b)
           else if l > length buf - h then Some (s, 0, b)
           else Some (s, int (l + h), setReadBuffer (Some (drop h buf)) l b))"
    and head_length: "buf \<noteq> [] \<Longrightarrow> head buf = Some (l, h) \<Longrightarrow> 0 < h \<and> h \<le> length buf"
    and head_stable: "buf \<noteq> [] \<Longrightarrow> head buf = Some (l, h) \<Longrightarrow> head (buf @ x) = Some (l, h)"
begin

lemma lp_parse_core:
  assumes "short_stream s buf" "buf \<noteq> []" "lp_core head s buf = (s', n, p)"
  shows "\<exists>bin'. parse s buf (setReadBuffer None 0 (reSetWrite bin)) = Some (s', n, bin') \<and>
           (0 < n \<longrightarrow> packet_view bin' = p \<and>
             (p = ([], []) \<longleftrightarrow> getRBufLens bin' = 0 \<and> getWritedBuf bin' = []))"
proof -
  have *: "parse s buf (setReadBuffer None 0 (reSetWrite bin)) =
      (case head buf of
         None \<Rightarrow> Some (s, 0, setReadBuffer None 0 (reSetWrite bin))
       | Some (l, h) \<Rightarrow>
           if l = 0 then Some (s, int h, setReadBuffer None 0 (reSetWrite bin))
           else if l > length buf - h then Some (s, 0, setReadBuffer None 0 (reSetWrite bin))
           else Some (s, int (l + h), setReadBuffer (Some (drop h buf)) l (setReadBuffer None 0 (reSetWrite bin))))"
    using assms(1) by (intro parse_head [OF assms(2)]) (simp add: short_stream_def)
  show ?thesis
  proof (cases "head buf")
    case None
    then show ?thesis using * assms(3) by (simp add: lp_core_def)
  next
    case (Some a)
    obtain l h where a: "a = (l, h)" by fastforce
    with head_length [OF assms(2), of l h] Some have h: "0 < h" "h \<le> length buf" by simp_all
    consider "l = 0" | "l > length buf - h" | "0 < l" "l \<le> length buf - h" by linarith
    then show ?thesis
    proof cases
      case 1
      then show ?thesis using * Some a assms(3)
        by (auto simp: lp_core_def packet_view_def setReadBuffer_def reSetWrite_def getRBufLens_def getWritedBuf_def)
    next
      case 2
      then show ?thesis using * Some a assms(3) by (auto simp: lp_core_def)
    next
      case 3
      then have "take l (drop h buf) \<noteq> []" using h by (cases "drop h buf") auto
      then show ?thesis using * Some a assms(3) 3
        by (auto simp: lp_core_def packet_view_def setReadBuffer_def reSetWrite_def getRBufLens_def getWritedBuf_def)
    qed
  qed
qed

end

sublocale length_prefixed \<subseteq> packet_parser parse "lp_core head" short_stream
proof
  show "\<exists>bin'. parse s buf (setReadBuffer None 0 (reSetWrite bin)) = Some (s', n, bin') \<and>
           (0 < n \<longrightarrow> packet_view bin' = p \<and>
             (p = ([], []) \<longleftrightarrow> getRBufLens bin' = 0 \<and> getWritedBuf bin' = []))"
    if "short_stream s buf" "buf \<noteq> []" "lp_core head s buf = (s', n, p)" for s buf s' n p bin
    using that by (rule lp_parse_core)
  show "n = - 1 \<or> 0 \<le> n \<and> n \<le> int (length buf)"
    if "short_stream s buf" "buf \<noteq> []" "lp_core head s buf = (s', n, p)" for s buf s' n p
    using that(3) head_length [OF that(2)]
    by (auto simp: lp_core_def split: option.splits prod.splits if_splits)
  show "s' = s" if "short_stream s buf" "buf \<noteq> []" "lp_core head s buf = (s', 0, p)" for s buf s' p
    using that(3) by (auto simp: lp_core_def split: option.splits prod.splits if_splits)
  show "lp_core head s (buf @ x) = (s', n, p)"
    if "short_stream s (buf @ x)" "buf \<noteq> []" "lp_core head s buf = (s', n, p)" "n \<noteq> 0" for s buf x s' n p
  proof (cases "head buf")
    case None
    then show ?thesis using that(3,4) by (simp add: lp_core_def)
  next
    case (Some a)
    obtain l h where "a = (l, h)" by fastforce
    with Some head_length [OF that(2), of l h] head_stable [OF that(2), of l h x] that(3,4) show ?thesis
      by (auto simp: lp_core_def split: if_splits)
  qed
  show "short_stream s buf" if "short_stream s (buf @ x)" for s buf x
    using that by (simp add: short_stream_def)
  show "short_stream s' (drop (nat n) buf)" if "short_stream s buf" for s s' n buf
    using that by (simp add: short_stream_def)
  show "length buf < 2 ^ 63" if "short_stream s buf" for s buf
    using that by (simp add: short_stream_def)
qed

text \<open>A format with a writer of heads for all lengths up to a bound.\<close>

locale length_prefixed_writer = length_prefixed +
  fixes mk_head :: "nat \<Rightarrow> bytes" and max_len :: nat
  assumes head_mk: "l \<le> max_len \<Longrightarrow> head (mk_head l @ x) = Some (l, length (mk_head l))"
    and mk_ne: "mk_head l \<noteq> []"
begin

lemma pull_packets:
  assumes "\<forall>m \<in> set ms. length m \<le> max_len"
  shows "pull (lp_core head) s (concat (map (\<lambda>m. mk_head (length m) @ m) ms)) =
    (map (\<lambda>m. (m, [])) (filter (\<lambda>m. m \<noteq> []) ms), [], s, True)"
  using assms
proof (induction ms)
  case Nil
  then show ?case by (simp add: pull.simps)
next
  case (Cons m ms)
  let ?r = "concat (map (\<lambda>m. mk_head (length m) @ m) ms)"
  let ?b = "mk_head (length m) @ m @ ?r"
  have h: "head ?b = Some (length m, length (mk_head (length m)))"
    by (rule head_mk) (use Cons.prems in simp)
  have c: "lp_core head s ?b = (s, int (length (mk_head (length m)) + length m), (m, []))"
    by (simp add: lp_core_def h)
  have "pull (lp_core head) s ?b =
     (case pull (lp_core head) s ?r of (ps, rest, s'', ok) \<Rightarrow> (if m = [] then ps else (m, []) # ps, rest, s'', ok))"
    using mk_ne [of "length m"] by (subst pull.simps) (simp add: c nat_add_distrib del: of_nat_add)
  with Cons show ?case by simp
qed

text \<open>Whatever the packets are and however the network cuts them, they are delivered in order.\<close>

lemma delivery:
  assumes "\<forall>m \<in> set ms. length m \<le> max_len" "concat cs = concat (map (\<lambda>m. mk_head (length m) @ m) ms)"
    "length (concat cs) < 2 ^ 31"
  shows "\<exists>bin'. tcp_reads lua parse cs (s, [], bin, []) =
    Some (s, [], bin', map (\<lambda>m. (m, [])) (filter (\<lambda>m. m \<noteq> []) ms))"
  using tcp_reads_pull [of s "[]" cs _ "[]" s lua bin "[]"] pull_packets [OF assms(1), of s] assms(2,3)
  by (simp add: short_stream_def pull.simps [of _ s "[]"])

end

section \<open>Tcp1 and Tcp2 are length-prefixed\<close>

lemma c_int_small: "n < 2 ^ 31 \<Longrightarrow> c_int n = int n"
  by (simp add: c_int_def signed_of_nat signed_take_bit_int_eq_self)

lemma size_sub_le: "b \<le> a \<Longrightarrow> size_sub a b = a - b"
  by (simp add: size_sub_def)

lemma mem_read_append:
  "off + n \<le> length xs \<Longrightarrow> mem_read (xs @ ys) off n = mem_read xs off n"
  by (simp add: mem_read_def)

lemma tcp1_head_bounds:
  assumes "tcp1_readHead buf = Some (l, h)" "buf \<noteq> []"
  shows "0 < h" "h \<le> length buf" "h \<le> 5" "l < 2 ^ 64"
  using assms unat_u32_less [of "ntohl (le_word (mem_read buf 1 4))"]
    unat_u16_less [of "ntohs (le_word (mem_read buf 1 2))"]
  by (auto simp: tcp1_readHead_def Let_def Suc_le_eq split: if_splits)

lemma tcp1_length_prefixed: "length_prefixed tcp1_parsePack tcp1_readHead"
proof
  show "0 < h \<and> h \<le> length buf" if "buf \<noteq> []" "tcp1_readHead buf = Some (l, h)" for buf l h
    using tcp1_head_bounds [OF that(2,1)] by simp
  show "tcp1_readHead (buf @ x) = Some (l, h)" if "buf \<noteq> []" "tcp1_readHead buf = Some (l, h)" for buf l h x
    using that by (auto simp: tcp1_readHead_def Let_def nth_append mem_read_append split: if_splits)
  show "tcp1_parsePack s buf b =
      (case tcp1_readHead buf of
         None \<Rightarrow> Some (s, 0, b)
       | Some (l, h) \<Rightarrow>
           if l = 0 then Some (s, int h, b)
           else if l > length buf - h then Some (s, 0, b)
           else Some (s, int (l + h), setReadBuffer (Some (drop h buf)) l b))"
    if "buf \<noteq> []" "length buf < 2 ^ 31" for s :: 's and buf b
  proof (cases "tcp1_readHead buf")
    case None
    then show ?thesis by (simp add: tcp1_parsePack_def)
  next
    case (Some a)
    obtain l h where a: "a = (l, h)" by fastforce
    with tcp1_head_bounds [of buf l h] Some that have h: "0 < h" "h \<le> length buf" "h \<le> 5" by auto
    have "size_add l h = l + h" "c_int (l + h) = int (l + h)" if "l \<le> length buf - h"
      using that h(2) \<open>length buf < 2 ^ 31\<close> by (simp_all add: size_add_small c_int_small del: of_nat_add)
    then show ?thesis
      using Some a h by (simp add: tcp1_parsePack_def size_sub_le c_int_small)
  qed
qed

interpretation tcp1: length_prefixed_writer tcp1_parsePack tcp1_readHead "tcp1_creatHead []" "2 ^ 32 - 1"
proof (rule length_prefixed_writer.intro [OF tcp1_length_prefixed], unfold_locales)
  show "tcp1_creatHead [] l \<noteq> []" for l by (simp add: tcp1_creatHead_def Let_def)
  show "tcp1_readHead (tcp1_creatHead [] l @ x) = Some (l, length (tcp1_creatHead [] l))"
    if "l \<le> 2 ^ 32 - 1" for l x
  proof -
    have "l < 2 ^ 32" using that by simp
    then consider "l \<le> 125" | "125 < l" "l \<le> 65535" | "65535 < l" "l < 2 ^ 32" by linarith
    then show ?thesis
    proof cases
      case 1
      then have "sint (word_of_nat l :: 8 word) = int l" by (simp add: signed_of_nat signed_take_bit_int_eq_self)
      with 1 show ?thesis by (simp add: tcp1_creatHead_def tcp1_readHead_def Let_def TCPBUFLENS_125_def)
    next
      case 2
      have "mem_read (126 # le_bytes 2 (ntohs (word_of_nat l)) @ x) 1 2 = le_bytes 2 (ntohs (word_of_nat l))"
        by (simp add: mem_read_def del: le_bytes.simps)
      moreover have "ntohs (le_word (le_bytes 2 (ntohs (word_of_nat l)))) = (word_of_nat l :: u16)"
        by (simp add: byte_simps del: le_bytes.simps)
      moreover have "unat (word_of_nat l :: u16) = l" using 2 by (simp add: unat_of_nat)
      ultimately show ?thesis using 2
        by (simp add: tcp1_creatHead_def tcp1_readHead_def Let_def TCPBUFLENS_125_def TCPBUFLENS_126_def del: le_bytes.simps)
    next
      case 3
      have "mem_read (127 # le_bytes 4 (ntohl (word_of_nat l)) @ x) 1 4 = le_bytes 4 (ntohl (word_of_nat l))"
        by (simp add: mem_read_def del: le_bytes.simps)
      moreover have "ntohl (le_word (le_bytes 4 (ntohl (word_of_nat l)))) = (word_of_nat l :: u32)"
        by (simp add: byte_simps del: le_bytes.simps)
      moreover have "unat (word_of_nat l :: u32) = l" using 3 by (simp add: unat_of_nat)
      ultimately show ?thesis using 3
        by (simp add: tcp1_creatHead_def tcp1_readHead_def Let_def TCPBUFLENS_125_def TCPBUFLENS_126_def TCPBUFLENS_127_def del: le_bytes.simps)
    qed
  qed
qed

definition tcp2_readHead :: "bytes \<Rightarrow> (nat \<times> nat) option" where
  "tcp2_readHead buf =
     (if 2 > length buf then None else Some (unat (ntohs (le_word (mem_read buf 0 2))), 2))"

interpretation tcp2: length_prefixed tcp2_parsePack tcp2_readHead
proof
  show "0 < h \<and> h \<le> length buf" if "buf \<noteq> []" "tcp2_readHead buf = Some (l, h)" for buf l h
    using that by (auto simp: tcp2_readHead_def split: if_splits)
  show "tcp2_readHead (buf @ x) = Some (l, h)" if "buf \<noteq> []" "tcp2_readHead buf = Some (l, h)" for buf l h x
    using that by (auto simp: tcp2_readHead_def mem_read_append split: if_splits)
  show "tcp2_parsePack s buf b =
      (case tcp2_readHead buf of
         None \<Rightarrow> Some (s, 0, b)
       | Some (l, h) \<Rightarrow>
           if l = 0 then Some (s, int h, b)
           else if l > length buf - h then Some (s, 0, b)
           else Some (s, int (l + h), setReadBuffer (Some (drop h buf)) l b))"
    if "buf \<noteq> []" "length buf < 2 ^ 31" for s :: 's and buf b
  proof (cases "2 > length buf")
    case True
    then show ?thesis by (simp add: tcp2_parsePack_def tcp2_readHead_def)
  next
    case False
    let ?l = "unat (ntohs (le_word (mem_read buf 0 2)))"
    have s: "size_add ?l 2 = ?l + 2"
      using unat_u16_less [of "ntohs (le_word (mem_read buf 0 2))"] by (intro size_add_small) simp
    have "c_int (?l + 2) = int (?l + 2)"
      using unat_u16_less [of "ntohs (le_word (mem_read buf 0 2))"] by (intro c_int_small) simp
    moreover have "c_int 2 = 2" by (simp add: c_int_small)
    ultimately show ?thesis
      using False s by (auto simp: tcp2_parsePack_def tcp2_readHead_def Let_def)
  qed
qed

lemma tcp2_head_mk:
  assumes "l \<le> 65535"
  shows "tcp2_readHead (be_bytes 2 (word_of_nat l :: u16) @ x) = Some (l, length (be_bytes 2 (word_of_nat l :: u16)))"
proof -
  have "mem_read (be_bytes 2 (word_of_nat l :: u16) @ x) 0 2 = be_bytes 2 (word_of_nat l :: u16)"
    by (simp add: mem_read_def)
  moreover have "ntohs (le_word (be_bytes 2 (word_of_nat l :: u16))) = (word_of_nat l :: u16)"
    by (simp add: ntohs_le_word be_word_be_bytes_id)
  moreover have "unat (word_of_nat l :: u16) = l" using assms by (simp add: unat_of_nat)
  ultimately show ?thesis by (simp add: tcp2_readHead_def)
qed

interpretation tcp2w: length_prefixed_writer tcp2_parsePack tcp2_readHead
    "\<lambda>l. be_bytes 2 (word_of_nat l :: u16)" 65535
proof unfold_locales
  show "be_bytes 2 (word_of_nat l :: u16) \<noteq> []" for l
    using length_be_bytes [of 2 "word_of_nat l :: u16"] by (metis list.size(3) zero_neq_numeral)
qed (rule tcp2_head_mk)

lemma u8_sint_neg:
  assumes "128 \<le> unat c" "unat c < 256"
  shows "sint (c :: u8) = int (unat c) - 256"
proof -
  have "sint (word_of_nat n :: u8) = int n - 256" if "128 \<le> n" "n < 256" for n
  proof -
    have "list_all (\<lambda>n. sint (word_of_nat n :: u8) = int n - 256) [128..<256]" by code_simp
    then show ?thesis using that unfolding list_all_iff set_upt by (meson atLeastLessThan_iff)
  qed
  from this [OF assms] show ?thesis by simp
qed

lemma tcp1_head_negative:
  assumes "128 \<le> unat c"
  shows "\<exists>l. tcp1_readHead (c # x) = Some (l, 1) \<and> 2 ^ 63 \<le> l"
proof -
  have c: "sint c = int (unat c) - 256" using assms unat_u8_less [of c] by (rule u8_sint_neg)
  moreover from c have "sint c \<le> 125" using unat_u8_less [of c] by linarith
  ultimately have h: "tcp1_readHead (c # x) = Some (nat ((int (unat c) - 256) mod 2 ^ 64), 1)"
    by (simp only: tcp1_readHead_def Let_def TCPBUFLENS_125_def nth_Cons_0 if_True)
  have "(n - 256) mod 2 ^ 64 \<ge> 2 ^ 63" if "128 \<le> n" "n < 256" for n :: int
  proof -
    have "(n - 256) mod 2 ^ 64 = (n - 256 + 2 ^ 64) mod 2 ^ 64" by (rule mod_add_self2 [symmetric])
    with that show ?thesis by simp
  qed
  from this [of "int (unat c)"] have "(2 :: int) ^ 63 \<le> (int (unat c) - 256) mod 2 ^ 64"
    using assms unat_u8_less [of c] by linarith
  from nat_mono [OF this] have "2 ^ 63 \<le> nat ((int (unat c) - 256) mod 2 ^ 64)" by (simp only: nat_power_eq) simp
  with h show ?thesis by blast
qed

end
