(* ===== verification/Mqtt.thy ===== *)
theory Mqtt
  imports Tcp_Parsers
begin

text \<open>
  \<^verbatim>\<open>HBase/mqtt.cpp\<close>: packets with a type byte and a length in groups of seven bits.  The
  number of groups is not limited, and the length is accumulated modulo \<open>2^64\<close>.
\<close>

definition H_MQTTHEADLENS :: nat where "H_MQTTHEADLENS = 2"

text \<open>The \<^verbatim>\<open>do\<close> loop; it is entered with an offset inside the buffer.\<close>

function mqtt_length :: "bytes \<Rightarrow> nat \<Rightarrow> nat \<Rightarrow> nat \<Rightarrow> (nat \<times> nat) option" where
  "mqtt_length pAllBuf iHeadLens iMultiplier iBufLens =
     (let ucByte = pAllBuf ! iHeadLens;
          iBufLens = (iBufLens + unat (ucByte AND 127) * iMultiplier) mod 2 ^ 64;
          iMultiplier = iMultiplier * 128 mod 2 ^ 64;
          iHeadLens = iHeadLens + 1
      in if iHeadLens + 1 > length pAllBuf then None
         else if ucByte AND 128 \<noteq> 0 then mqtt_length pAllBuf iHeadLens iMultiplier iBufLens
         else Some (iHeadLens, iBufLens))"
  by pat_completeness auto
termination by (relation "measure (\<lambda>(b, h, m, l). length b - h)") auto

declare mqtt_length.simps [simp del]

text \<open>\<^verbatim>\<open>parseHead\<close>: the lengths of the head and of the data; \<open>None\<close> is the result 0.\<close>

definition mqtt_parseHead :: "bytes \<Rightarrow> (nat \<times> nat) option" where
  "mqtt_parseHead pAllBuf =
     (if H_MQTTHEADLENS > length pAllBuf then None else mqtt_length pAllBuf 1 1 0)"

definition parseByte1 :: "u8 \<Rightarrow> binary \<Rightarrow> binary" where
  "parseByte1 ucByte b =
     (let b = setUint8 (drop_bit 4 (ucByte AND 0xF0)) b;
          b = setUint8 (drop_bit 3 (ucByte AND 0x8)) b;
          b = setUint8 (drop_bit 1 (ucByte AND 0x6)) b
      in setUint8 (ucByte AND 0x1) b)"

definition mqtt_parsePack :: "'s parser" where
  "mqtt_parsePack s pAllBuf b =
     (case mqtt_parseHead pAllBuf of
        None \<Rightarrow> Some (s, 0, b)
      | Some (iHeadLens, iBufferLens) \<Rightarrow>
          let ucByte = pAllBuf ! 0
          in if iBufferLens = 0 then Some (s, c_int iHeadLens, parseByte1 ucByte b)
             else if size_add iHeadLens iBufferLens > length pAllBuf then Some (s, 0, b)
             else
               let b = setReadBuffer (Some (drop iHeadLens pAllBuf)) iBufferLens b;
                   b = parseByte1 ucByte b;
                   b = setUint32 (word_of_nat iBufferLens) b
               in Some (s, c_int (size_add iHeadLens iBufferLens), b))"

section \<open>The packets of a peer\<close>

text \<open>The length field as MQTT defines it, at most four bytes for lengths below \<open>2^28\<close>.\<close>

fun mqtt_len :: "nat \<Rightarrow> bytes" where
  "mqtt_len n = (if n < 128 then [word_of_nat n]
                 else word_of_nat (n mod 128 + 128) # mqtt_len (n div 128))"

declare mqtt_len.simps [simp del]

definition mqtt_packet :: "u8 \<times> bytes \<Rightarrow> bytes" where
  "mqtt_packet p = fst p # mqtt_len (length (snd p)) @ snd p"

definition mqtt_flags :: "u8 \<Rightarrow> bytes" where
  "mqtt_flags t = [drop_bit 4 (t AND 0xF0), drop_bit 3 (t AND 0x8), drop_bit 1 (t AND 0x6), t AND 0x1]"

definition mqtt_shown :: "u8 \<times> bytes \<Rightarrow> bytes \<times> bytes" where
  "mqtt_shown p =
     (snd p, mqtt_flags (fst p) @
        (if snd p = [] then [] else be_bytes 4 (word_of_nat (length (snd p)) :: u32)))"

definition mqtt_core :: "'s \<Rightarrow> bytes \<Rightarrow> 's \<times> int \<times> (bytes \<times> bytes)" where
  "mqtt_core s buf =
     (case mqtt_parseHead buf of
        None \<Rightarrow> (s, 0, ([], []))
      | Some (h, l) \<Rightarrow>
          if h + l > length buf then (s, 0, ([], []))
          else (s, int (h + l), mqtt_shown (buf ! 0, take l (drop h buf))))"

lemma parseByte1_buf:
  "parseByte1 t b = b\<lparr>m_strWritBuffer := m_strWritBuffer b @ mqtt_flags t\<rparr>"
  by (simp add: parseByte1_def setUint8_def setVal_def mqtt_flags_def Let_def)

text \<open>The length field of a buffer does not change when bytes are added.\<close>

lemma mqtt_length_append:
  "mqtt_length buf h m l = Some r \<Longrightarrow> h < length buf \<Longrightarrow> mqtt_length (buf @ x) h m l = Some r"
proof (induction buf h m l rule: mqtt_length.induct)
  case (1 buf h m l)
  let ?c = "buf ! h"
  let ?l = "(l + unat (?c AND 127) * m) mod 2 ^ 64" and ?m = "m * 128 mod 2 ^ 64"
  have le: "\<not> h + 1 + 1 > length buf"
    using "1.prems"(1) by (subst (asm) mqtt_length.simps) (auto simp: Let_def split: if_splits)
  show ?case
  proof (cases "?c AND 128 = 0")
    case True
    then show ?thesis
      using "1.prems" le by (subst mqtt_length.simps, subst (asm) mqtt_length.simps) (simp add: Let_def nth_append)
  next
    case False
    then have "mqtt_length buf (h + 1) ?m ?l = Some r"
      using "1.prems"(1) le by (subst (asm) mqtt_length.simps) (simp add: Let_def)
    from "1.IH" [OF refl refl refl refl le False this] le False "1.prems"(2) show ?thesis
      by (subst mqtt_length.simps) (simp add: Let_def nth_append)
  qed
qed

lemma mqtt_parseHead_append:
  "mqtt_parseHead buf = Some r \<Longrightarrow> mqtt_parseHead (buf @ x) = Some r"
  by (auto simp: mqtt_parseHead_def H_MQTTHEADLENS_def intro: mqtt_length_append split: if_splits)

lemma mqtt_length_bounds:
  "mqtt_length buf h m l = Some r \<Longrightarrow> h < fst r \<and> fst r < length buf \<and> snd r < 2 ^ 64"
proof (induction buf h m l rule: mqtt_length.induct)
  case (1 buf h m l)
  let ?c = "buf ! h"
  let ?l = "(l + unat (?c AND 127) * m) mod 2 ^ 64" and ?m = "m * 128 mod 2 ^ 64"
  have le: "\<not> h + 1 + 1 > length buf"
    using "1.prems" by (subst (asm) mqtt_length.simps) (auto simp: Let_def split: if_splits)
  show ?case
  proof (cases "?c AND 128 = 0")
    case True
    then show ?thesis
      using "1.prems" le by (subst (asm) mqtt_length.simps) (auto simp: Let_def)
  next
    case False
    then have "mqtt_length buf (h + 1) ?m ?l = Some r"
      using "1.prems" le by (subst (asm) mqtt_length.simps) (simp add: Let_def)
    from "1.IH" [OF refl refl refl refl le False this] show ?thesis by simp
  qed
qed

text \<open>The loop reads back the length field of a packet.\<close>

lemma u8_and_127: "unat (w AND 127 :: u8) = unat w mod 128"
proof -
  have "w AND 127 = take_bit 7 w" by (simp add: take_bit_eq_mask mask_eq_exp_minus_1)
  then show ?thesis by (simp only: unsigned_take_bit_eq) (simp add: take_bit_eq_mod)
qed

lemma u8_and_128: "w AND 128 = 0 \<longleftrightarrow> unat (w :: u8) < 128"
proof -
  have "(128 :: u8) = 2 ^ 7" by simp
  then have "w AND 128 = 0 \<longleftrightarrow> \<not> bit w 7" by (simp only: and_exp_eq_0_iff_not_bit)
  also have "\<dots> \<longleftrightarrow> \<not> bit (unat w) 7" by (simp add: bit_simps)
  also have "\<dots> \<longleftrightarrow> even (unat w div 128)" by (simp add: bit_iff_odd)
  also have "unat w div 128 = (if unat w < 128 then 0 else 1)"
    using unat_u8_less [of w] by (simp add: div_nat_eqI)
  finally show ?thesis by simp
qed

lemma mqtt_length_len:
  assumes "n < 2 ^ 28" "i + length (mqtt_len n) \<le> 4" "drop h buf = mqtt_len n @ y" "y \<noteq> []" "l < 128 ^ i"
  shows "mqtt_length buf h (128 ^ i) l = Some (h + length (mqtt_len n), l + n * 128 ^ i)"
  using assms
proof (induction n arbitrary: i h l rule: mqtt_len.induct)
  case (1 n)
  have h: "h < length buf" using "1.prems"(3) by (cases "h < length buf") (auto simp: mqtt_len.simps [of n] split: if_splits)
  show ?case
  proof (cases "n < 128")
    case True
    then have e: "mqtt_len n = [word_of_nat n]" by (simp add: mqtt_len.simps)
    with "1.prems"(3) h have c: "buf ! h = word_of_nat n" and y: "drop (h + 1) buf = y"
      by (metis Cons_nth_drop_Suc append_Cons list.inject append_Nil Suc_eq_plus1)+
    have len: "\<not> h + 1 + 1 > length buf" using y "1.prems"(4) by (cases "h + 1 < length buf") auto
    have u: "unat (word_of_nat n :: u8) = n" using True by (simp add: unat_of_nat)
    have i: "i \<le> 3" using "1.prems"(2) e by simp
    have "l + n * 128 ^ i < 128 ^ Suc i"
    proof -
      have "l + n * 128 ^ i < (n + 1) * 128 ^ i" using "1.prems"(5) by (simp add: algebra_simps)
      also have "(n + 1) * 128 ^ i \<le> 128 * 128 ^ i" using True by (intro mult_le_mono1) simp
      finally show ?thesis by simp
    qed
    also have "(128 :: nat) ^ Suc i \<le> 128 ^ 4" using i by (intro power_increasing) auto
    finally have "l + n * 128 ^ i < 2 ^ 64" by simp
    then show ?thesis
      using c len True by (subst mqtt_length.simps) (simp add: Let_def e u8_and_127 u8_and_128 u)
  next
    case False
    let ?n = "n div 128" and ?r = "n mod 128"
    have e: "mqtt_len n = word_of_nat (?r + 128) # mqtt_len ?n" using False by (subst mqtt_len.simps) simp
    with "1.prems"(3) h have c: "buf ! h = word_of_nat (?r + 128)" and d: "drop (h + 1) buf = mqtt_len ?n @ y"
      by (metis Cons_nth_drop_Suc append_Cons list.inject Suc_eq_plus1)+
    have len: "\<not> h + 1 + 1 > length buf" using d "1.prems"(4) by (cases "h + 1 < length buf") auto
    have "?r < 128" by simp
    then have "?r + 128 < 256" by linarith
    then have u: "unat (word_of_nat (?r + 128) :: u8) = ?r + 128" by (simp only: unat_of_nat) simp
    have i: "i \<le> 3" using "1.prems"(2) e by simp
    have b: "l + ?r * 128 ^ i < 128 ^ Suc i"
    proof -
      have "l + ?r * 128 ^ i < (?r + 1) * 128 ^ i" using "1.prems"(5) by (simp add: algebra_simps)
      also have "(?r + 1) * 128 ^ i \<le> 128 * 128 ^ i" by (intro mult_le_mono1) (simp add: Suc_le_eq)
      finally show ?thesis by simp
    qed
    also have le4: "(128 :: nat) ^ Suc i \<le> 128 ^ 4" using i by (intro power_increasing) auto
    finally have s: "l + ?r * 128 ^ i < 2 ^ 64" by simp
    have m: "(128 ^ i * 128) mod 2 ^ 64 = (128 ^ Suc i :: nat)" using le4 by simp
    have IH: "mqtt_length buf (h + 1) (128 ^ Suc i) (l + ?r * 128 ^ i) =
        Some (h + 1 + length (mqtt_len ?n), l + ?r * 128 ^ i + ?n * 128 ^ Suc i)"
      by (rule "1.IH" [OF False _ _ d "1.prems"(4) b]) (use "1.prems" e in simp_all)
    have "r * a + q * (128 * a) = (q * 128 + r) * a" for r q a :: nat by (simp add: algebra_simps)
    from this [of ?r "128 ^ i" ?n] have "?r * 128 ^ i + ?n * 128 ^ Suc i = (?n * 128 + ?r) * 128 ^ i"
      by (simp only: power_Suc)
    also have "?n * 128 + ?r = n" by (rule div_mult_mod_eq)
    finally have v: "l + ?r * 128 ^ i + ?n * 128 ^ Suc i = l + n * 128 ^ i" by simp
    have "mqtt_length buf h (128 ^ i) l = mqtt_length buf (h + 1) (128 ^ Suc i) (l + ?r * 128 ^ i)"
      using c len s m u by (subst mqtt_length.simps) (simp add: Let_def u8_and_127 u8_and_128)
    then show ?thesis using IH e v by simp
  qed
qed

section \<open>Streams of packets\<close>

definition mqtt_stream_ok :: "(u8 \<times> bytes) list \<Rightarrow> bool" where
  "mqtt_stream_ok ps \<longleftrightarrow> (\<forall>p \<in> set ps. length (snd p) < 2 ^ 28)"

text \<open>A buffer that is a prefix of a stream of packets.\<close>

definition mqtt_good :: "'s \<Rightarrow> bytes \<Rightarrow> bool" where
  "mqtt_good s buf \<longleftrightarrow> length buf < 2 ^ 31 \<and>
     (\<exists>ps x. mqtt_stream_ok ps \<and> buf @ x = concat (map mqtt_packet ps))"

lemma mqtt_len_ne [simp]: "mqtt_len n \<noteq> []"
  by (simp add: mqtt_len.simps [of n])

lemma length_mqtt_len: "n < 128 ^ Suc i \<Longrightarrow> length (mqtt_len n) \<le> Suc i"
proof (induction i arbitrary: n)
  case 0
  then show ?case by (simp add: mqtt_len.simps)
next
  case (Suc i)
  show ?case
  proof (cases "n < 128")
    case True
    then show ?thesis by (simp add: mqtt_len.simps)
  next
    case False
    have "n div 128 < 128 ^ Suc i" using Suc.prems by (simp add: less_mult_imp_div_less mult.commute)
    from Suc.IH [OF this] False show ?thesis by (subst mqtt_len.simps) simp
  qed
qed

lemma mqtt_parseHead_packet:
  assumes "length m < 2 ^ 28" "m @ y \<noteq> []"
  shows "mqtt_parseHead (t # mqtt_len (length m) @ m @ y) = Some (1 + length (mqtt_len (length m)), length m)"
proof -
  have "length (mqtt_len (length m)) \<le> 4" using length_mqtt_len [of "length m" 3] assms(1) by simp
  with mqtt_length_len [OF assms(1), of 0 1 "t # mqtt_len (length m) @ m @ y" "m @ y" 0] assms(2)
  show ?thesis by (simp add: mqtt_parseHead_def H_MQTTHEADLENS_def)
qed

text \<open>The head of a good buffer is the one of its first packet.\<close>

lemma mqtt_good_head:
  assumes "mqtt_good s buf" "mqtt_parseHead buf = Some (h, l)"
  obtains t m ps x where "mqtt_stream_ok ps" "length m < 2 ^ 28" "h = 1 + length (mqtt_len (length m))"
    "l = length m" "buf @ x = t # mqtt_len (length m) @ m @ concat (map mqtt_packet ps)" "h < length buf"
    "length buf < 2 ^ 31"
proof -
  obtain ps x where ps: "mqtt_stream_ok ps" "buf @ x = concat (map mqtt_packet ps)" "length buf < 2 ^ 31"
    using assms(1) by (auto simp: mqtt_good_def)
  have len: "2 \<le> length buf" "h < length buf"
    using assms(2) mqtt_length_bounds [of buf 1 1 0 "(h, l)"]
    by (auto simp: mqtt_parseHead_def H_MQTTHEADLENS_def split: if_splits)
  then obtain p qs where p: "ps = p # qs" using ps(2) by (cases ps) auto
  obtain t m where tm: "p = (t, m)" by fastforce
  have e: "buf @ x = t # mqtt_len (length m) @ m @ concat (map mqtt_packet qs)"
    using ps(2) p tm by (simp add: mqtt_packet_def)
  have m: "length m < 2 ^ 28" "mqtt_stream_ok qs" using ps(1) p tm by (auto simp: mqtt_stream_ok_def)
  have hd: "mqtt_parseHead (t # mqtt_len (length m) @ m @ concat (map mqtt_packet qs)) = Some (h, l)"
    using mqtt_parseHead_append [OF assms(2), of x] e by simp
  have "m @ concat (map mqtt_packet qs) \<noteq> []"
  proof
    assume n: "m @ concat (map mqtt_packet qs) = []"
    then have "buf @ x = [t, 0]" using e by (simp add: mqtt_len.simps)
    then have "length buf \<le> 2" by (metis length_append le_add1 list.size(3,4) numeral_2_eq_2 One_nat_def add_0 plus_1_eq_Suc)
    with len have "length buf = 2" by simp
    then have "mqtt_parseHead buf = None"
      by (simp add: mqtt_parseHead_def H_MQTTHEADLENS_def mqtt_length.simps [of buf] Let_def)
    with assms(2) show False by simp
  qed
  from mqtt_parseHead_packet [OF m(1) this, of t] hd
  have "h = 1 + length (mqtt_len (length m))" "l = length m" by simp_all
  with that m e len ps(3) show thesis by blast
qed

interpretation mqtt: packet_parser mqtt_parsePack mqtt_core mqtt_good
proof
  fix s s' :: 's and buf x :: bytes and n :: int and p bin
  show "mqtt_good s buf" if "mqtt_good s (buf @ x)"
    using that unfolding mqtt_good_def by (metis append.assoc length_append le_add1 le_less_trans)
  show "length buf < 2 ^ 63" if "mqtt_good s buf" using that by (simp add: mqtt_good_def)
  show "s' = s" if "mqtt_core s buf = (s', 0, p)"
    using that by (auto simp: mqtt_core_def split: option.splits prod.splits if_splits)
  show "n = - 1 \<or> 0 \<le> n \<and> n \<le> int (length buf)" if "mqtt_core s buf = (s', n, p)"
    using that by (auto simp: mqtt_core_def split: option.splits prod.splits if_splits)
  show "mqtt_core s (buf @ x) = (s', n, p)"
    if "buf \<noteq> []" "mqtt_core s buf = (s', n, p)" "n \<noteq> 0"
    using that
    by (auto simp: mqtt_core_def mqtt_parseHead_append nth_append split: option.splits prod.splits if_splits)
  show "mqtt_good s' (drop (nat n) buf)"
    if g: "mqtt_good s buf" and c: "mqtt_core s buf = (s', n, p)" and n: "0 < n"
  proof -
    obtain h l where hl: "mqtt_parseHead buf = Some (h, l)" "n = int (h + l)" "h + l \<le> length buf"
      using c n by (auto simp: mqtt_core_def split: option.splits prod.splits if_splits)
    from mqtt_good_head [OF g hl(1)] obtain t m ps y where
      ps: "mqtt_stream_ok ps" "h = 1 + length (mqtt_len (length m))" "l = length m"
      "buf @ y = t # mqtt_len (length m) @ m @ concat (map mqtt_packet ps)" "length buf < 2 ^ 31" by metis
    have "drop (nat n) (buf @ y) = concat (map mqtt_packet ps)"
      unfolding ps(4) using hl(2) ps(2,3) by (simp add: nat_add_distrib)
    then have "drop (nat n) buf @ y = concat (map mqtt_packet ps)" using hl(2,3) by simp
    with ps(1,5) show ?thesis by (auto simp: mqtt_good_def)
  qed
  show "\<exists>bin'. mqtt_parsePack s buf (setReadBuffer None 0 (reSetWrite bin)) = Some (s', n, bin') \<and>
      (0 < n \<longrightarrow> packet_view bin' = p \<and>
        (p = ([], []) \<longleftrightarrow> getRBufLens bin' = 0 \<and> getWritedBuf bin' = []))"
    if g: "mqtt_good s buf" and c: "mqtt_core s buf = (s', n, p)"
  proof (cases "mqtt_parseHead buf")
    case None
    then show ?thesis using c by (simp add: mqtt_core_def mqtt_parsePack_def)
  next
    case (Some a)
    obtain h l where "a = (h, l)" by fastforce
    with Some have hl: "mqtt_parseHead buf = Some (h, l)" by simp
    obtain t m ps x where "mqtt_stream_ok ps" and m: "length m < 2 ^ 28"
      "h = 1 + length (mqtt_len (length m))" "l = length m"
      "buf @ x = t # mqtt_len (length m) @ m @ concat (map mqtt_packet ps)" "h < length buf"
      "length buf < 2 ^ 31"
      using mqtt_good_head [OF g hl] .
    have sz: "size_add h l = h + l" using m by (intro size_add_small) simp
    have ci: "h + l \<le> length buf \<Longrightarrow> c_int (h + l) = int (h + l)" "c_int h = int h"
      using m by (simp_all add: c_int_small del: of_nat_add)
    have w: "setUint32 v b = b\<lparr>m_strWritBuffer := m_strWritBuffer b @ be_bytes 4 v\<rparr>" for v b
      by (simp add: setUint32_def setVal_def byte_simps be_bytes_def del: le_bytes.simps)
    have "min (length buf - h) l = l" if "h + l \<le> length buf" using that by simp
    then show ?thesis
      using hl c sz ci m
      by (auto simp: mqtt_core_def mqtt_parsePack_def Let_def w parseByte1_buf packet_view_def mqtt_shown_def
          setReadBuffer_def reSetWrite_def getRBufLens_def getWritedBuf_def mqtt_flags_def
          simp del: le_bytes.simps of_nat_add)
  qed
qed

lemma mqtt_pull_packets:
  assumes "mqtt_stream_ok ps" "ps = [] \<or> snd (last ps) \<noteq> []"
  shows "pull mqtt_core s (concat (map mqtt_packet ps)) = (map mqtt_shown ps, [], s, True)"
  using assms
proof (induction ps)
  case Nil
  then show ?case by (simp add: pull.simps)
next
  case (Cons p ps)
  obtain t m where p: "p = (t, m)" by fastforce
  let ?r = "concat (map mqtt_packet ps)"
  let ?b = "t # mqtt_len (length m) @ m @ ?r" and ?n = "1 + length (mqtt_len (length m)) + length m"
  have ne: "m @ ?r \<noteq> []" using Cons.prems(2) p by (cases ps) (auto simp: mqtt_packet_def)
  have "length m < 2 ^ 28" "mqtt_stream_ok ps" using Cons.prems(1) p by (simp_all add: mqtt_stream_ok_def)
  with mqtt_parseHead_packet [OF _ ne, of t] have
    c: "mqtt_core s ?b = (s, int ?n, mqtt_shown (t, m))"
    by (simp add: mqtt_core_def)
  have sh: "mqtt_shown (t, m) \<noteq> ([], [])" by (simp add: mqtt_shown_def mqtt_flags_def)
  have d: "drop ?n ?b = ?r" by simp
  have "ps = [] \<or> snd (last ps) \<noteq> []" using Cons.prems(2) by (cases ps) auto
  with Cons.IH [OF \<open>mqtt_stream_ok ps\<close>] have "pull mqtt_core s ?r = (map mqtt_shown ps, [], s, True)" .
  then have "pull mqtt_core s ?b = (mqtt_shown (t, m) # map mqtt_shown ps, [], s, True)"
    using sh by (subst pull.simps) (simp only: c d nat_int prod.case, simp)
  moreover have "concat (map mqtt_packet (p # ps)) = ?b" by (simp add: p mqtt_packet_def [of "(t, m)"])
  ultimately show ?case by (simp add: p)
qed

end
