(* ===== verification/Net_Props.thy ===== *)
theory Net_Props
  imports Mqtt
begin

text \<open>
  The properties of reading packets: the bytes of a connection arrive in chunks that the
  network chooses, and the Lua handler must see the packets that the peer sent.
\<close>

text \<open>The head of a packet whose length field has ten bytes.\<close>

definition mqtt_wrap_head :: "u8 \<Rightarrow> bytes" where
  "mqtt_wrap_head t = [t, 0xfb, 0xff, 0xff, 0xff, 0xff, 0xff, 0xff, 0xff, 0xff, 1]"

lemma be_bytes_examples:
  "be_bytes 2 (1 :: u16) = [0, 1]" "be_bytes 2 (2 :: u16) = [0, 2]"
  "be_bytes 4 (1 :: u32) = [0, 0, 0, 1]" "be_bytes 4 (2 :: u32) = [0, 0, 0, 2]"
  by code_simp+

text \<open>C21. The Tcp1 format is delivered intact: however the network cuts the bytes of a sequence
  of packets, the handler is called exactly with the data of the non-empty ones, in order,
  and nothing stays in the buffer.\<close>

theorem tcp1_delivery:
  assumes "concat cs = concat (map (\<lambda>m. tcp1_creatHead [] (length m) @ m) ms)" "length (concat cs) < 2 ^ 31"
  shows "\<exists>bin'. tcp_reads lua tcp1_parsePack cs (s, [], bin, []) =
    Some (s, [], bin', map (\<lambda>m. (m, [])) (filter (\<lambda>m. m \<noteq> []) ms))"
proof (rule tcp1.delivery [OF _ assms])
  have "length m \<le> length (concat (map (\<lambda>m. tcp1_creatHead [] (length m) @ m) ms))" if "m \<in> set ms" for m
    using that by (induction ms) auto
  with assms show "\<forall>m \<in> set ms. length m \<le> 2 ^ 32 - 1" by fastforce
qed

theorem tcp1_delivery_witness:
  "\<exists>bin'. tcp_reads (\<lambda>b. b) tcp1_parsePack [[2, 7], [8, 0], [1], [9]] ((), [], CBinary, []) =
    Some ((), [], bin', [([7, 8], []), ([9], [])])"
  using tcp1_delivery [of "[[2, 7], [8, 0], [1], [9]]" "[[7, 8], [], [9]]" "\<lambda>b. b" "()" CBinary]
  by (simp add: tcp1_creatHead_def TCPBUFLENS_125_def del: tcp_reads.simps)

text \<open>The Tcp2 format, a length of two bytes in network order, is delivered intact under
  every cut of the bytes.\<close>

theorem tcp2_delivery:
  assumes "concat cs = concat (map (\<lambda>m. be_bytes 2 (word_of_nat (length m) :: u16) @ m) ms)"
    "\<forall>m \<in> set ms. length m < 2 ^ 16" "length (concat cs) < 2 ^ 31"
  shows "\<exists>bin'. tcp_reads lua tcp2_parsePack cs (s, [], bin, []) =
    Some (s, [], bin', map (\<lambda>m. (m, [])) (filter (\<lambda>m. m \<noteq> []) ms))"
proof (rule tcp2w.delivery [OF _ assms(1,3)])
  show "\<forall>m \<in> set ms. length m \<le> 65535" using assms(2) by fastforce
qed

theorem tcp2_delivery_witness:
  "\<exists>bin'. tcp_reads (\<lambda>b. b) tcp2_parsePack [[0], [2, 7], [8, 0], [1, 9]] ((), [], CBinary, []) =
    Some ((), [], bin', [([7, 8], []), ([9], [])])"
  using tcp2_delivery [of "[[0], [2, 7], [8, 0], [1, 9]]" "[[7, 8], [9]]" "\<lambda>b. b" "()" CBinary]
  by (simp add: be_bytes_examples del: tcp_reads.simps)

text \<open>The MQTT framing is delivered intact: under every cut of the bytes the handler sees, for
  each packet, its data and the fields of its type byte, in order.  The last packet must not
  be an empty one.\<close>

theorem mqtt_delivery:
  assumes "concat cs = concat (map mqtt_packet ps)" "length (concat cs) < 2 ^ 28"
    "ps = [] \<or> snd (last ps) \<noteq> []"
  shows "\<exists>bin'. tcp_reads lua mqtt_parsePack cs (s, [], bin, []) = Some (s, [], bin', map mqtt_shown ps)"
proof -
  have len: "length (snd p) \<le> length (concat (map mqtt_packet ps))" if "p \<in> set ps" for p
    using that by (induction ps) (auto simp: mqtt_packet_def)
  with assms(1,2) have ok: "mqtt_stream_ok ps" by (fastforce simp: mqtt_stream_ok_def)
  have "length (concat cs) < 2 ^ 31" using assms(2) by simp
  with ok assms(1) have "mqtt_good s (concat cs)" unfolding mqtt_good_def by (metis append_Nil2)
  with mqtt.tcp_reads_pull [of s "[]" cs "map mqtt_shown ps" "[]" s lua bin "[]"] mqtt_pull_packets [OF ok assms(3), where s = s] assms(1)
  show ?thesis by (simp add: pull.simps [of _ s "[]"])
qed

theorem mqtt_delivery_witness:
  "\<exists>bin'. tcp_reads (\<lambda>b. b) mqtt_parsePack [[0x31], [2, 7], [8, 0xc0], [0, 0x30, 1, 9]] ((), [], CBinary, []) =
    Some ((), [], bin', [([7, 8], [3, 0, 0, 1, 0, 0, 0, 2]), ([], [12, 0, 0, 0]), ([9], [3, 0, 0, 0, 0, 0, 0, 1])])"
  using mqtt_delivery [of "[[0x31], [2, 7], [8, 0xc0], [0, 0x30, 1, 9]]"
      "[(0x31, [7, 8]), (0xc0, []), (0x30, [9])]" "\<lambda>b. b" "()" CBinary]
  by (simp add: mqtt_packet_def mqtt_len.simps mqtt_shown_def mqtt_flags_def be_bytes_examples del: tcp_reads.simps)

text \<open>A Tcp1 connection whose next byte has its top bit set is dead: the byte, a signed
  \<^verbatim>\<open>char\<close>, is taken for a length near \<open>2^64\<close>, the parser asks for more bytes for ever, and
  everything that arrives stays in the buffer.\<close>

theorem tcp1_negative_stall:
  assumes "concat cs = c # x" "128 \<le> unat c" "length (concat cs) < 2 ^ 31"
  shows "\<exists>bin'. tcp_reads lua tcp1_parsePack cs (s, [], bin, []) = Some (s, concat cs, bin', [])"
proof -
  obtain l where "tcp1_readHead (c # x) = Some (l, 1)" "2 ^ 63 \<le> l"
    using tcp1_head_negative [OF assms(2)] by blast
  with assms(1,3) have "lp_core tcp1_readHead s (c # x) = (s, 0, ([], []))" by (simp add: lp_core_def)
  then have "pull (lp_core tcp1_readHead) s (c # x) = ([], c # x, s, True)"
    by (simp add: pull.simps)
  with tcp1.tcp_reads_pull [of s "[]" cs "[]" "c # x" s lua bin "[]"] assms show ?thesis
    by (simp add: short_stream_def pull.simps [of _ s "[]"])
qed

theorem tcp1_negative_stall_witness:
  "\<exists>bin'. tcp_reads (\<lambda>b. b) tcp1_parsePack [[0x80, 1], [2]] ((), [], CBinary, []) =
    Some ((), [0x80, 1, 2], bin', [])"
  using tcp1_negative_stall [of "[[0x80, 1], [2]]" "0x80" "[1, 2]" "\<lambda>b. b" "()" CBinary]
  by (simp del: tcp_reads.simps)

text \<open>An MQTT length field of ten bytes is accepted and wraps around: the packet passes the
  length check although it declares \<open>2^64 - 5\<close> bytes, the handler gets a read buffer of that
  length, and only six bytes are consumed.\<close>

theorem mqtt_length_wraps:
  "mqtt_parsePack s (mqtt_wrap_head t @ x # xs) b =
     Some (s, 6, setUint32 (word_of_nat (2 ^ 64 - 5))
       (parseByte1 t (setReadBuffer (Some (x # xs)) (2 ^ 64 - 5) b)))"
proof -
  have "mqtt_parseHead (mqtt_wrap_head t @ x # xs) = Some (11, 2 ^ 64 - 5)"
    by (simp add: mqtt_parseHead_def H_MQTTHEADLENS_def mqtt_wrap_head_def Let_def mqtt_length.simps)
  then show ?thesis
    by (simp add: mqtt_parsePack_def Let_def mqtt_wrap_head_def size_add_def c_int_def)
qed

end
