(* ===== verification/SHA1.thy ===== *)
theory SHA1
  imports MD45 Digest_Stream SHS
begin

text \<open>
  \<^verbatim>\<open>CSHA1\<close> of \<^verbatim>\<open>HBase/SHA1.cpp\<close> and \<^verbatim>\<open>HBase/SHA1.h\<close>, in its default configuration (little
  endian, wiping).  The workspace is the block as sixteen words, which the rounds overwrite.
\<close>

record CSHA1 =
  m_state :: "u32 list"
  m_count0 :: u32
  m_count1 :: u32
  m_buffer :: bytes
  m_digest :: bytes

definition Reset :: "CSHA1 \<Rightarrow> CSHA1" where
  "Reset c = c\<lparr>m_state := [0x67452301, 0xEFCDAB89, 0x98BADCFE, 0x10325476, 0xC3D2E1F0],
               m_count0 := 0, m_count1 := 0\<rparr>"

definition ROL32 :: "u32 \<Rightarrow> nat \<Rightarrow> u32" where
  "ROL32 v n = push_bit n v OR drop_bit (32 - n) v"

definition SHABLK0 :: "nat \<Rightarrow> u32 list \<Rightarrow> u32 list" where
  "SHABLK0 i l = l[i := (ROL32 (l ! i) 24 AND 0xFF00FF00) OR (ROL32 (l ! i) 8 AND 0x00FF00FF)]"

definition SHABLK :: "nat \<Rightarrow> u32 list \<Rightarrow> u32 list" where
  "SHABLK i l = l[i mod 16 := ROL32 (l ! ((i + 13) mod 16) XOR l ! ((i + 8) mod 16) XOR
                                      l ! ((i + 2) mod 16) XOR l ! (i mod 16)) 1]"

type_synonym sha1_regs = "u32 \<times> u32 \<times> u32 \<times> u32 \<times> u32"

text \<open>
  \<^verbatim>\<open>S_R0\<close> to \<^verbatim>\<open>S_R4\<close>: they differ in the function and the constant.  The next round is
  called with the registers turned by one place.
\<close>

definition S_R :: "(u32 \<Rightarrow> u32 \<Rightarrow> u32 \<Rightarrow> u32) \<Rightarrow> u32 \<Rightarrow> u32 \<Rightarrow> sha1_regs \<Rightarrow> sha1_regs" where
  "S_R f k blk r =
     (case r of (v, w, x, y, z) \<Rightarrow> (z + (f w x y + blk + k + ROL32 v 5), v, ROL32 w 30, x, y))"

definition sha1_f0 :: "u32 \<Rightarrow> u32 \<Rightarrow> u32 \<Rightarrow> u32" where
  "sha1_f0 w x y = ((w AND (x XOR y)) XOR y)"

definition sha1_f2 :: "u32 \<Rightarrow> u32 \<Rightarrow> u32 \<Rightarrow> u32" where
  "sha1_f2 w x y = (w XOR x XOR y)"

definition sha1_f3 :: "u32 \<Rightarrow> u32 \<Rightarrow> u32 \<Rightarrow> u32" where
  "sha1_f3 w x y = (((w OR x) AND y) OR (w AND x))"

definition sha1_round :: "nat \<Rightarrow> u32 list \<times> sha1_regs \<Rightarrow> u32 list \<times> sha1_regs" where
  "sha1_round i lr =
     (let l = (if i < 16 then SHABLK0 i (fst lr) else SHABLK i (fst lr));
          blk = l ! (i mod 16);
          r = snd lr
      in (l, if i < 20 then S_R sha1_f0 0x5A827999 blk r
             else if i < 40 then S_R sha1_f2 0x6ED9EBA1 blk r
             else if i < 60 then S_R sha1_f3 0x8F1BBCDC blk r
             else S_R sha1_f2 0xCA62C1D6 blk r))"

definition Transform :: "u32 list \<Rightarrow> bytes \<Rightarrow> u32 list" where
  "Transform st buf =
     (let r = (st ! 0, st ! 1, st ! 2, st ! 3, st ! 4);
          lr = fold sha1_round [0..<80] (md_Decode buf 16, r)
      in case snd lr of (a, b, c, d, e) \<Rightarrow>
           [st ! 0 + a, st ! 1 + b, st ! 2 + c, st ! 3 + d, st ! 4 + e])"

definition Update :: "CSHA1 \<Rightarrow> bytes \<Rightarrow> CSHA1" where
  "Update c pbData =
     (let uLen = length pbData;
          j = count_index (m_count0 c);
          (lo, hi) = add_bits (m_count0 c) (m_count1 c) uLen;
          c = c\<lparr>m_count0 := lo, m_count1 := hi\<rparr>
      in if j + uLen > 63
         then let i = 64 - j;
                  buf = mem_write (m_buffer c) j (take i pbData);
                  st = Transform (m_state c) buf;
                  (st, rest) = absorb 64 Transform st (drop i pbData)
              in c\<lparr>m_state := st, m_buffer := mem_write buf 0 rest\<rparr>
         else c\<lparr>m_buffer := mem_write (m_buffer c) j pbData\<rparr>)"

text \<open>\<^verbatim>\<open>while((m_count[0] & 504) != 448) Update("\0", 1);\<close>\<close>

partial_function (option) sha1_pad_loop :: "CSHA1 \<Rightarrow> CSHA1 option" where
  "sha1_pad_loop c = (if m_count0 c AND 504 \<noteq> 448 then sha1_pad_loop (Update c [0]) else Some c)"

definition Final :: "CSHA1 \<Rightarrow> CSHA1 option" where
  "Final c =
     (let pbFinalCount = be_bytes 4 (m_count1 c) @ be_bytes 4 (m_count0 c)
      in case sha1_pad_loop (Update c [0x80]) of
           None \<Rightarrow> None
         | Some c \<Rightarrow>
             let c = Update c pbFinalCount;
                 c = c\<lparr>m_digest := concat (map (be_bytes 4) (m_state c))\<rparr>;
                 c = c\<lparr>m_buffer := replicate 64 0, m_state := replicate 5 0, m_count0 := 0, m_count1 := 0\<rparr>
             in Some (c\<lparr>m_state := Transform (m_state c) (m_buffer c)\<rparr>))"

definition GetHash :: "CSHA1 \<Rightarrow> bytes" where
  "GetHash c = m_digest c"

section \<open>The update as absorption\<close>

definition sha1_md :: "CSHA1 \<Rightarrow> md_ctx" where
  "sha1_md c = \<lparr>state = m_state c, count0 = m_count0 c, count1 = m_count1 c, buffer = m_buffer c\<rparr>"

definition sha1_inv :: "CSHA1 \<Rightarrow> bool" where "sha1_inv c \<longleftrightarrow> md_inv (sha1_md c)"
definition sha1_obs :: "CSHA1 \<Rightarrow> u32 list \<times> bytes" where "sha1_obs c = md_obs (sha1_md c)"
definition sha1_bits :: "CSHA1 \<Rightarrow> nat" where "sha1_bits c = md_bits (sha1_md c)"

lemma sha1_md_Update: "sha1_md (Update c xs) = md_update Transform (sha1_md c) xs"
  using count_index_less [of "m_count0 c"]
  by (auto simp: Update_def md_update_def sha1_md_def Let_def split: prod.splits)

lemma sha1_update_obs:
  assumes "sha1_inv c" "md_fits xs"
  shows "sha1_inv (Update c xs)"
    and "sha1_obs (Update c xs) = absorb 64 Transform (fst (sha1_obs c)) (snd (sha1_obs c) @ xs)"
    and "sha1_bits (Update c xs) = md_bump (sha1_bits c) (length xs)"
  using md_update_obs [of "sha1_md c" xs Transform] assms
  by (simp_all add: sha1_inv_def sha1_obs_def sha1_bits_def sha1_md_Update md_bump_def)

lemma sha1_pending: "length (snd (sha1_obs c)) < 64"
  by (simp add: sha1_obs_def md_pending)

lemma sha1_index: "sha1_inv c \<Longrightarrow> length (snd (sha1_obs c)) = count_index (m_count0 c)"
  using count_index_less [of "m_count0 c"]
  by (simp add: sha1_inv_def sha1_obs_def sha1_md_def md_inv_def md_obs_def)

section \<open>The padding loop ends\<close>

lemma count_504: "w AND 504 = 448 \<longleftrightarrow> count_index w = 56"
proof -
  have c: "(504 :: u32) = push_bit 3 (mask 6)" "(0x3F :: u32) = mask 6"
    by (simp_all add: mask_eq_exp_minus_1 push_bit_eq_mult)
  have "w AND push_bit 3 (mask 6) = push_bit 3 (drop_bit 3 w AND mask 6)"
    by (intro bit_word_eqI) (auto simp: bit_simps)
  then have "w AND 504 = push_bit 3 (drop_bit 3 w AND 0x3F)" by (simp only: c)
  moreover have "unat (push_bit 3 (drop_bit 3 w AND 0x3F)) = count_index w mod 2 ^ 29 * 2 ^ 3"
    unfolding count_index_def by (subst u32_push) simp_all
  ultimately have "unat (w AND 504) = count_index w mod 2 ^ 29 * 2 ^ 3" by (simp only:)
  then have u: "unat (w AND 504) = 8 * count_index w"
    using count_index_less [of w] by simp
  have "w AND 504 = 448 \<longleftrightarrow> unat (w AND 504) = 448" by (simp add: word_unat_eq_iff)
  then show ?thesis by (simp add: u)
qed

lemma sha1_byte: "sha1_inv c \<Longrightarrow> sha1_inv (Update c [b]) \<and>
   sha1_obs (Update c [b]) = absorb 64 Transform (fst (sha1_obs c)) (snd (sha1_obs c) @ [b]) \<and>
   sha1_bits (Update c [b]) = md_bump (sha1_bits c) 1"
  using sha1_update_obs [of c "[b]"] by (simp add: md_fits_def)

lemma sha1_bytes: "sha1_inv c \<Longrightarrow>
   sha1_inv (((\<lambda>c. Update c [b]) ^^ n) c) \<and>
   sha1_obs (((\<lambda>c. Update c [b]) ^^ n) c) =
     absorb 64 Transform (fst (sha1_obs c)) (snd (sha1_obs c) @ replicate n b)"
proof (induction n)
  case 0
  then show ?case by (simp add: absorb_short sha1_pending)
next
  case (Suc n)
  let ?c = "((\<lambda>c. Update c [b]) ^^ n) c"
  have i: "sha1_inv ?c" "sha1_obs ?c = absorb 64 Transform (fst (sha1_obs c)) (snd (sha1_obs c) @ replicate n b)"
    using Suc by simp_all
  have "absorb 64 Transform (fst (sha1_obs ?c)) (snd (sha1_obs ?c) @ [b]) =
      absorb 64 Transform (fst (sha1_obs c)) ((snd (sha1_obs c) @ replicate n b) @ [b])"
    unfolding i(2) by (rule absorb_append [symmetric]) simp
  with sha1_byte [OF i(1), of b] show ?case by (simp add: replicate_append_same)
qed

lemma sha1_pad_loop_val:
  "sha1_inv c \<Longrightarrow> (56 + 64 - count_index (m_count0 c)) mod 64 = n \<Longrightarrow>
   sha1_pad_loop c = Some (((\<lambda>c. Update c [0]) ^^ n) c)"
proof (induction n arbitrary: c)
  case 0
  then have "count_index (m_count0 c) = 56"
    using count_index_less [of "m_count0 c"] by presburger
  then show ?case by (subst sha1_pad_loop.simps) (simp add: count_504)
next
  case (Suc n)
  let ?i = "count_index (m_count0 c)" and ?d = "Update c [0]"
  have ne: "?i \<noteq> 56" using Suc.prems(2) by auto
  have inv: "sha1_inv ?d" using sha1_byte [OF Suc.prems(1)] by blast
  have "count_index (m_count0 ?d) = length (snd (absorb 64 Transform (fst (sha1_obs c)) (snd (sha1_obs c) @ [0])))"
    using sha1_index [OF inv] sha1_byte [OF Suc.prems(1), where b = 0] by simp
  also have "\<dots> = Suc ?i mod 64" using sha1_index [OF Suc.prems(1)] by (simp add: absorb_rest)
  finally have i: "count_index (m_count0 ?d) = Suc ?i mod 64" .
  consider "?i < 56" | "56 < ?i" "?i < 63" | "?i = 63"
    using ne count_index_less [of "m_count0 c"] by linarith
  then have "(56 + 64 - Suc ?i mod 64) mod 64 = n"
  proof cases
    case 1
    then have "(120 - ?i) mod 64 = 56 - ?i" "(119 - ?i) mod 64 = 55 - ?i" by (simp_all add: le_mod_geq)
    with Suc.prems(2) 1 show ?thesis by simp
  qed (use Suc.prems(2) in simp_all)
  with Suc.IH [OF inv] i have "sha1_pad_loop ?d = Some (((\<lambda>c. Update c [0]) ^^ n) ?d)" by simp
  moreover have "((\<lambda>c. Update c [0]) ^^ n) ?d = Update (((\<lambda>c. Update c [0]) ^^ n) c) [0]"
    by (induction n) simp_all
  ultimately show ?case using ne
    by (subst sha1_pad_loop.simps) (simp add: count_504)
qed

lemma m_state_obs: "m_state c = fst (sha1_obs c)"
  by (simp add: sha1_obs_def sha1_md_def md_obs_def)

text \<open>The digest, from the chaining state, the pending input and the bit count.\<close>

definition sha1_fin :: "u32 list \<times> bytes \<Rightarrow> nat \<Rightarrow> bytes" where
  "sha1_fin ob n = concat (map (be_bytes 4) (fst (absorb 64 Transform (fst ob)
     (snd ob @ 0x80 # replicate ((119 - length (snd ob)) mod 64) 0 @ be_bytes 8 (of_nat n :: u64)))))"

text \<open>The object after the wipe: not the one of \<^verbatim>\<open>Reset\<close>.\<close>

definition sha1_wiped :: "bytes \<Rightarrow> CSHA1" where
  "sha1_wiped d = \<lparr>m_state = Transform (replicate 5 0) (replicate 64 0), m_count0 = 0, m_count1 = 0,
     m_buffer = replicate 64 0, m_digest = d\<rparr>"

lemma sha1_wipe:
  "x\<lparr>m_digest := d, m_buffer := replicate 64 0, m_state := replicate 5 0, m_count0 := 0, m_count1 := 0,
     m_state := Transform
       (m_state (x\<lparr>m_digest := d, m_buffer := replicate 64 0, m_state := replicate 5 0, m_count0 := 0, m_count1 := 0\<rparr>))
       (m_buffer (x\<lparr>m_digest := d, m_buffer := replicate 64 0, m_state := replicate 5 0, m_count0 := 0, m_count1 := 0\<rparr>))\<rparr> =
   sha1_wiped d"
proof -
  define st buf where "st = replicate 5 (0 :: u32)" and "buf = replicate 64 (0 :: u8)"
  show ?thesis
    unfolding sha1_wiped_def st_def [symmetric] buf_def [symmetric] by (cases x) simp
qed

lemma sha1_final:
  assumes "sha1_inv c"
  shows "Final c = Some (sha1_wiped (sha1_fin (sha1_obs c) (sha1_bits c)))"
proof -
  let ?i = "length (snd (sha1_obs c))"
  have i: "?i < 64" by (rule sha1_pending)
  note b = sha1_byte [OF assms, where b = "0x80"]
  let ?c1 = "Update c [0x80]" and ?n = "(119 - ?i) mod 64"
  have "count_index (m_count0 ?c1) = Suc ?i mod 64"
    using sha1_index [where c = ?c1] b by (simp add: absorb_rest)
  then have n: "(56 + 64 - count_index (m_count0 ?c1)) mod 64 = ?n" using i by (cases "?i = 63") auto
  let ?c2 = "((\<lambda>c. Update c [0]) ^^ ?n) ?c1"
  have loop: "sha1_pad_loop ?c1 = Some ?c2" by (rule sha1_pad_loop_val) (use b n in simp_all)
  have c2: "sha1_inv ?c2" "sha1_obs ?c2 =
      absorb 64 Transform (fst (sha1_obs ?c1)) (snd (sha1_obs ?c1) @ replicate ?n 0)"
    using sha1_bytes [where c = ?c1 and b = 0 and n = ?n] b by simp_all
  let ?f = "be_bytes 4 (m_count1 c) @ be_bytes 4 (m_count0 c)"
  have fits: "md_fits ?f" by (simp add: md_fits_def)
  have f: "?f = be_bytes 8 (of_nat (sha1_bits c) :: u64)"
    by (simp add: sha1_bits_def sha1_md_def md_bits_def be_bytes_bits64)
  have "sha1_obs (Update ?c2 ?f) = absorb 64 Transform (fst (sha1_obs c))
      (snd (sha1_obs c) @ 0x80 # replicate ?n 0 @ ?f)"
  proof -
    let ?o = "snd (sha1_obs c)"
    have A: "absorb 64 Transform t (u @ v) =
        absorb 64 Transform (fst (absorb 64 Transform t u)) (snd (absorb 64 Transform t u) @ v)" for t u v
      by (rule absorb_append) simp
    have "sha1_obs ?c1 = absorb 64 Transform (fst (sha1_obs c)) (?o @ [0x80])" using b by simp
    with c2(2) A [of "fst (sha1_obs c)" "?o @ [0x80]" "replicate ?n 0"]
    have "sha1_obs ?c2 = absorb 64 Transform (fst (sha1_obs c)) ((?o @ [0x80]) @ replicate ?n 0)" by simp
    with A [of "fst (sha1_obs c)" "(?o @ [0x80]) @ replicate ?n 0" ?f]
    have "absorb 64 Transform (fst (sha1_obs c)) (((?o @ [0x80]) @ replicate ?n 0) @ ?f) =
        absorb 64 Transform (fst (sha1_obs ?c2)) (snd (sha1_obs ?c2) @ ?f)" by simp
    then show ?thesis using sha1_update_obs(2) [OF c2(1) fits] by simp
  qed
  then have "m_state (Update ?c2 ?f) = fst (absorb 64 Transform (fst (sha1_obs c))
      (snd (sha1_obs c) @ 0x80 # replicate ?n 0 @ be_bytes 8 (of_nat (sha1_bits c) :: u64)))"
    unfolding f [symmetric] by (metis m_state_obs)
  then have d: "concat (map (be_bytes 4) (m_state (Update ?c2 ?f))) = sha1_fin (sha1_obs c) (sha1_bits c)"
    by (simp only: sha1_fin_def)
  show ?thesis
    unfolding Final_def Let_def loop option.case d by (rule arg_cong [OF sha1_wipe])
qed

interpretation sha1: stream_digest Update sha1_obs sha1_bits md_bump sha1_inv md_fits 64 Transform
    "\<lambda>c. case Final c of None \<Rightarrow> [] | Some c \<Rightarrow> GetHash c" sha1_fin
  by unfold_locales
    (simp_all add: sha1_update_obs md_bump_add sha1_pending sha1_final GetHash_def sha1_wiped_def)

end
