(* ===== verification/WebSock.thy ===== *)
theory WebSock
  imports Base64 SHA1 Tcp_Parsers
begin

text \<open>
  \<^verbatim>\<open>CWebSock\<close> of \<^verbatim>\<open>HBase/WebSock.cpp\<close>: the handshake of RFC 6455 and the frames.

  The state of the parser is the part of \<^verbatim>\<open>H_Session\<close> that it uses, what it does to the
  connection, and the SHA-1 object, which is one member shared by all connections.
\<close>

section \<open>State\<close>

datatype ws_status = WSS_INIT | WSS_SHAKEHANDS

record websock =
  uiStatus :: ws_status
  bLinker :: bool
  ws_sent :: bytes
  ws_closed :: bool
  m_objSha1 :: CSHA1

definition PAYLOADLENS_125 :: nat where "PAYLOADLENS_125 = 125"
definition PAYLOADLENS_126 :: nat where "PAYLOADLENS_126 = 126"
definition PAYLOADLENS_127 :: nat where "PAYLOADLENS_127 = 127"
definition FRAME_HEAD_BASE_LEN :: nat where "FRAME_HEAD_BASE_LEN = 6"
definition FRAME_HEAD_EXT16_LEN :: nat where "FRAME_HEAD_EXT16_LEN = 8"
definition FRAME_HEAD_EXT64_LEN :: nat where "FRAME_HEAD_EXT64_LEN = 14"

text \<open>The text literals of the source.\<close>

definition text_bytes :: "string \<Rightarrow> bytes" where
  "text_bytes s = map (\<lambda>c. word_of_nat (of_char c)) s"

definition WebSock_ShakeHands_EndFlag :: bytes where
  "WebSock_ShakeHands_EndFlag = [0x0d, 0x0a, 0x0d, 0x0a]"

section \<open>The handshake\<close>

text \<open>
  \<^verbatim>\<open>parseKey\<close>: the colon is looked for in all of the memory, and one that is found past the
  line makes the length of the key wrap around, for which \<^verbatim>\<open>std::string\<close> throws: \<open>None\<close>.
\<close>

definition parseKey :: "binary \<Rightarrow> bytes option" where
  "parseKey pBinary = do {
     iLen \<leftarrow> Find (text_bytes ''Sec-WebSocket-Key'') pBinary;
     if iLen = -1 then Some []
     else do {
       (stBin, b) \<leftarrow> readLine (skipRead (nat (iLen mod 2 ^ 64)) pBinary);
       p \<leftarrow> pBufer stBin;
       line \<leftarrow> mem_from (m_pParseBuffer b) p;
       colon \<leftarrow> strstr line [0x3a];
       case colon of
         None \<Rightarrow> Some []
       | Some pPos \<Rightarrow>
           if pPos + 1 > iLens stBin then None
           else Some (H_Trim (mem_read line (pPos + 1) (iLens stBin - (pPos + 1))))
     }
   }"

definition ws_guid :: bytes where
  "ws_guid = text_bytes ''258EAFA5-E914-47DA-95CA-C5AB0DC85B11''"

definition createKey :: "bytes \<Rightarrow> CSHA1 \<Rightarrow> (bytes \<times> CSHA1) option" where
  "createKey strKey sha = do {
     sha \<leftarrow> Final (Update sha (strKey @ ws_guid));
     Some (H_B64Encode (GetHash sha), sha)
   }"

definition m_strVersion :: bytes where
  "m_strVersion = text_bytes ''1-0-0''"

definition crlf :: bytes where "crlf = [0x0d, 0x0a]"

definition createResponse :: "bytes \<Rightarrow> bytes" where
  "createResponse strKey =
     text_bytes ''HTTP/1.1 101 Switching Protocols'' @ crlf @
     text_bytes ''Upgrade: websocket'' @ crlf @
     text_bytes ''Connection: Upgrade'' @ crlf @
     text_bytes ''Server: QServer version:'' @ m_strVersion @ crlf @
     text_bytes ''Sec-WebSocket-Accept: '' @ strKey @ crlf @
     text_bytes ''Sec-WebSocket-Origin: null'' @ crlf @
     crlf"

definition shakeHands :: "websock parser" where
  "shakeHands s pAllBuf b = do {
     pPos \<leftarrow> strstr pAllBuf WebSock_ShakeHands_EndFlag;
     case pPos of
       None \<Rightarrow> Some (s, 0, b)
     | Some pPos \<Rightarrow> do {
         let iParsed = pPos + length WebSock_ShakeHands_EndFlag;
         strVal \<leftarrow> parseKey (setReadBuffer (Some pAllBuf) iParsed CBinary);
         if strVal = [] then Some (s\<lparr>ws_closed := True\<rparr>, -1, b)
         else do {
           (strVal, sha) \<leftarrow> createKey strVal (m_objSha1 s);
           let s = s\<lparr>m_objSha1 := sha\<rparr>;
           if strVal = [] then Some (s\<lparr>ws_closed := True\<rparr>, -1, b)
           else Some (s\<lparr>ws_sent := ws_sent s @ createResponse strVal, uiStatus := WSS_SHAKEHANDS\<rparr>,
                      c_int iParsed, b)
         }
       }
   }"

section \<open>Frames\<close>

record WebSockFram =
  cFin :: u8
  cRsv1 :: u8
  cRsv2 :: u8
  cRsv3 :: u8
  emOpCode :: u8
  cMask :: u8
  ucPayloadLen :: u8
  uiDataLens :: nat
  acMaskKey :: bytes

definition WebSockFram0 :: WebSockFram where
  "WebSockFram0 = \<lparr>cFin = 0, cRsv1 = 0, cRsv2 = 0, cRsv3 = 0, emOpCode = 0, cMask = 0, ucPayloadLen = 0,
     uiDataLens = 0, acMaskKey = [0, 0, 0, 0]\<rparr>"

definition ws_flags :: "u8 \<Rightarrow> u8 \<Rightarrow> WebSockFram \<Rightarrow> WebSockFram" where
  "ws_flags b0 b1 pFram = pFram\<lparr>cFin := drop_bit 7 (b0 AND 0x80),
                                cRsv1 := drop_bit 6 (b0 AND 0x40),
                                cRsv2 := drop_bit 5 (b0 AND 0x20),
                                cRsv3 := drop_bit 4 (b0 AND 0x10),
                                emOpCode := b0 AND 0xF,
                                cMask := drop_bit 7 (b1 AND 0x80),
                                ucPayloadLen := b1 AND 0x7F\<rparr>"

definition ws_parseHead :: "WebSockFram \<Rightarrow> bytes \<Rightarrow> WebSockFram \<times> int" where
  "ws_parseHead pFram pBuffer =
     (let iLens = length pBuffer
      in if FRAME_HEAD_BASE_LEN > iLens then (pFram, 0)
         else
           let pFram = ws_flags (pBuffer ! 0) (pBuffer ! 1) pFram
           in if 1 \<noteq> cMask pFram \<or> 0 \<noteq> cRsv1 pFram \<or> 0 \<noteq> cRsv2 pFram \<or> 0 \<noteq> cRsv3 pFram then (pFram, -1)
              else if unat (ucPayloadLen pFram) \<le> PAYLOADLENS_125 then
                (pFram\<lparr>acMaskKey := [pBuffer ! 2, pBuffer ! 3, pBuffer ! 4, pBuffer ! 5],
                       uiDataLens := unat (ucPayloadLen pFram)\<rparr>, int FRAME_HEAD_BASE_LEN)
              else if PAYLOADLENS_126 = unat (ucPayloadLen pFram) then
                (if iLens < FRAME_HEAD_EXT16_LEN then (pFram, 0)
                 else (pFram\<lparr>acMaskKey := [pBuffer ! 4, pBuffer ! 5, pBuffer ! 6, pBuffer ! 7],
                             uiDataLens := unat (ntohs (le_word (mem_read pBuffer 2 2)))\<rparr>,
                       int FRAME_HEAD_EXT16_LEN))
              else if PAYLOADLENS_127 = unat (ucPayloadLen pFram) then
                (if iLens < FRAME_HEAD_EXT64_LEN then (pFram, 0)
                 else (pFram\<lparr>acMaskKey := [pBuffer ! 10, pBuffer ! 11, pBuffer ! 12, pBuffer ! 13],
                             uiDataLens := unat (ntohl64 (le_word (mem_read pBuffer 2 8)))\<rparr>,
                       int FRAME_HEAD_EXT64_LEN))
              else (pFram, -1))"

text \<open>\<^verbatim>\<open>parseData\<close> rewrites the buffer in place; \<open>None\<close> when it runs past its end.\<close>

definition ws_unmask :: "bytes \<Rightarrow> bytes \<Rightarrow> bytes" where
  "ws_unmask key xs = map (\<lambda>i. xs ! i XOR key ! (i mod 4)) [0..<length xs]"

definition parseData :: "WebSockFram \<Rightarrow> bytes \<Rightarrow> nat \<Rightarrow> bytes option" where
  "parseData pFram pBuffer lens =
     (if lens > length pBuffer then None
      else Some (ws_unmask (acMaskKey pFram) (take lens pBuffer) @ drop lens pBuffer))"

definition ws_parsePack :: "websock parser" where
  "ws_parsePack s pAllBuf b =
     (if WSS_SHAKEHANDS \<noteq> uiStatus s then
        if bLinker s then do {
          pPos \<leftarrow> strstr pAllBuf WebSock_ShakeHands_EndFlag;
          case pPos of
            None \<Rightarrow> Some (s, 0, b)
          | Some pPos \<Rightarrow>
              Some (s\<lparr>uiStatus := WSS_SHAKEHANDS\<rparr>, c_int (pPos + length WebSock_ShakeHands_EndFlag), b)
        }
        else shakeHands s pAllBuf b
      else
        case ws_parseHead WebSockFram0 pAllBuf of
          (stFram, iHeadLens) \<Rightarrow>
            if iHeadLens = 0 then Some (s, 0, b)
            else if iHeadLens = -1 then Some (s\<lparr>ws_closed := True\<rparr>, -1, b)
            else
              let iParsed = size_add (uiDataLens stFram) (nat iHeadLens)
              in if iParsed > length pAllBuf then Some (s, 0, b)
                 else do {
                   b \<leftarrow> (if uiDataLens stFram \<noteq> 0
                         then map_option (\<lambda>pParsed. setReadBuffer (Some pParsed) (uiDataLens stFram) b)
                                (parseData stFram (drop (nat iHeadLens) pAllBuf) (uiDataLens stFram))
                         else Some b);
                   let b = setUint8 (emOpCode stFram) b;
                   let b = setUint8 (cFin stFram) b;
                   Some (s, c_int iParsed, b)
                 })"

definition ws_createHead :: "bytes \<Rightarrow> u8 \<Rightarrow> u8 \<Rightarrow> nat \<Rightarrow> bytes" where
  "ws_createHead pBuf fin cCode iDataLens =
     (let b0 = cCode OR 0x80;
          b0 = (if 0 = fin then b0 AND 0x7f else b0)
      in if iDataLens \<le> PAYLOADLENS_125 then pBuf @ [b0, word_of_nat iDataLens]
         else if iDataLens > PAYLOADLENS_125 \<and> iDataLens \<le> 0xFFFF
         then pBuf @ [b0, word_of_nat PAYLOADLENS_126] @ le_bytes 2 (ntohs (word_of_nat iDataLens))
         else pBuf @ [b0, word_of_nat PAYLOADLENS_127] @ le_bytes 8 (ntohl64 (word_of_nat iDataLens)))"


section \<open>The frames of a client\<close>

text \<open>A frame: the FIN bit, the code, the mask and the data.\<close>

type_synonym ws_frame = "u8 \<times> u8 \<times> bytes \<times> bytes"

definition ws_frame_ok :: "ws_frame \<Rightarrow> bool" where
  "ws_frame_ok f = (case f of (fin, code, key, m) \<Rightarrow>
     (fin = 0 \<or> fin = 1) \<and> code < 16 \<and> length key = 4 \<and> length m < 2 ^ 31)"

definition ws_len :: "nat \<Rightarrow> bytes" where
  "ws_len n =
     (if n \<le> 125 then [0x80 OR word_of_nat n]
      else if n \<le> 65535 then 0xFE # be_bytes 2 (word_of_nat n :: u16)
      else 0xFF # be_bytes 8 (word_of_nat n :: u64))"

definition ws_packet :: "ws_frame \<Rightarrow> bytes" where
  "ws_packet f = (case f of (fin, code, key, m) \<Rightarrow>
     (push_bit 7 fin OR code) # ws_len (length m) @ key @ ws_unmask key m)"

definition ws_shown :: "ws_frame \<Rightarrow> bytes \<times> bytes" where
  "ws_shown f = (case f of (fin, code, key, m) \<Rightarrow> (m, [code, fin]))"

definition ws_core :: "websock \<Rightarrow> bytes \<Rightarrow> websock \<times> int \<times> (bytes \<times> bytes)" where
  "ws_core s buf =
     (case ws_parseHead WebSockFram0 buf of
        (fr, h) \<Rightarrow>
          if h = 0 then (s, 0, ([], []))
          else if h = -1 then (s\<lparr>ws_closed := True\<rparr>, -1, ([], []))
          else let n = uiDataLens fr + nat h
               in if n > length buf then (s, 0, ([], []))
                  else (s, int n, (ws_unmask (acMaskKey fr) (take (uiDataLens fr) (drop (nat h) buf)),
                                   [emOpCode fr, cFin fr])))"

lemma length_ws_unmask [simp]: "length (ws_unmask key xs) = length xs"
  by (simp add: ws_unmask_def)

lemma ws_unmask_twice [simp]: "ws_unmask key (ws_unmask key xs) = xs"
  by (rule nth_equalityI) (simp_all add: ws_unmask_def xor.assoc)

lemmas ws_frame_lens = FRAME_HEAD_BASE_LEN_def FRAME_HEAD_EXT16_LEN_def FRAME_HEAD_EXT64_LEN_def
  PAYLOADLENS_125_def PAYLOADLENS_126_def PAYLOADLENS_127_def

text \<open>The result of the head depends on the first fourteen bytes, once it is there.\<close>

lemma ws_parseHead_cases:
  "ws_parseHead WebSockFram0 buf = (fr, h) \<Longrightarrow>
     h = 0 \<or> h = -1 \<or> (h \<in> {6, 8, 14} \<and> nat h \<le> length buf)"
  by (auto simp: ws_parseHead_def Let_def ws_frame_lens split: if_splits)

lemma ws_parseHead_append:
  assumes "ws_parseHead WebSockFram0 buf = (fr, h)" "h \<noteq> 0"
  shows "ws_parseHead WebSockFram0 (buf @ x) = (fr, h)"
proof -
  have len: "6 \<le> length buf" using assms by (auto simp: ws_parseHead_def Let_def ws_frame_lens split: if_splits)
  have n: "k < length buf \<Longrightarrow> (buf @ x) ! k = buf ! k" for k by (simp add: nth_append)
  define f where "f = ws_flags (buf ! 0) (buf ! Suc 0) WebSockFram0"
  have f': "buf \<noteq> []" using len by auto
  consider "1 \<noteq> cMask f \<or> 0 \<noteq> cRsv1 f \<or> 0 \<noteq> cRsv2 f \<or> 0 \<noteq> cRsv3 f"
    | "\<not> (1 \<noteq> cMask f \<or> 0 \<noteq> cRsv1 f \<or> 0 \<noteq> cRsv2 f \<or> 0 \<noteq> cRsv3 f)" "unat (ucPayloadLen f) \<le> 125"
    | "\<not> (1 \<noteq> cMask f \<or> 0 \<noteq> cRsv1 f \<or> 0 \<noteq> cRsv2 f \<or> 0 \<noteq> cRsv3 f)" "unat (ucPayloadLen f) = 126"
    | "\<not> (1 \<noteq> cMask f \<or> 0 \<noteq> cRsv1 f \<or> 0 \<noteq> cRsv2 f \<or> 0 \<noteq> cRsv3 f)" "unat (ucPayloadLen f) > 126"
    by linarith
  then show ?thesis
  proof cases
    case 1
    then show ?thesis using assms len
      by (simp add: ws_parseHead_def Let_def ws_frame_lens f_def [symmetric] f' n)
  next
    case 2
    then show ?thesis using assms len
      by (simp add: ws_parseHead_def Let_def ws_frame_lens f_def [symmetric] f' n)
  next
    case 3
    then have "8 \<le> length buf" using assms len
      by (auto simp: ws_parseHead_def Let_def ws_frame_lens f_def [symmetric] split: if_splits)
    with 3 show ?thesis using assms len
      by (simp add: ws_parseHead_def Let_def ws_frame_lens f_def [symmetric] f' n mem_read_append)
  next
    case 4
    show ?thesis
    proof (cases "unat (ucPayloadLen f) = 127")
      case True
      with 4 have "14 \<le> length buf" using assms len
        by (auto simp: ws_parseHead_def Let_def ws_frame_lens f_def [symmetric] split: if_splits)
      with 4 True show ?thesis using assms len
        by (simp add: ws_parseHead_def Let_def ws_frame_lens f_def [symmetric] f' n mem_read_append)
    next
      case False
      with 4 show ?thesis using assms len
        by (simp add: ws_parseHead_def Let_def ws_frame_lens f_def [symmetric] f' n)
    qed
  qed
qed

lemma ws_flags_first:
  assumes "fin = 0 \<or> fin = 1" "code < 16"
  shows "ws_flags (push_bit 7 fin OR code) b1 f =
    f\<lparr>cFin := fin, cRsv1 := 0, cRsv2 := 0, cRsv3 := 0, emOpCode := code,
      cMask := drop_bit 7 (b1 AND 0x80), ucPayloadLen := b1 AND 0x7F\<rparr>"
proof -
  let ?ok = "\<lambda>fin code. drop_bit 7 ((push_bit 7 fin OR code) AND 0x80) = (fin :: u8) \<and>
      drop_bit 6 ((push_bit 7 fin OR code) AND 0x40) = 0 \<and> drop_bit 5 ((push_bit 7 fin OR code) AND 0x20) = 0 \<and>
      drop_bit 4 ((push_bit 7 fin OR code) AND 0x10) = 0 \<and> (push_bit 7 fin OR code) AND 0xF = code"
  have "list_all (\<lambda>i. ?ok 0 (word_of_nat i) \<and> ?ok 1 (word_of_nat i)) [0..<16]" by code_simp
  then have "\<forall>i < 16. ?ok 0 (word_of_nat i) \<and> ?ok 1 (word_of_nat i)" unfolding list_all_iff set_upt by simp
  moreover have "unat code < 16" using assms(2) by (simp add: word_less_nat_alt)
  ultimately have "?ok fin code" using assms(1) by (auto dest: spec [of _ "unat code"])
  then show ?thesis by (simp add: ws_flags_def)
qed

lemma ws_len_flags:
  assumes "n < 128"
  shows "drop_bit 7 ((0x80 OR word_of_nat n) AND 0x80 :: u8) = 1" "unat ((0x80 OR word_of_nat n) AND 0x7F :: u8) = n"
proof -
  have "list_all (\<lambda>n. drop_bit 7 ((0x80 OR word_of_nat n) AND 0x80 :: u8) = 1 \<and>
      unat ((0x80 OR word_of_nat n) AND 0x7F :: u8) = n) [0..<128]" by code_simp
  then have "\<forall>n < 128. drop_bit 7 ((0x80 OR word_of_nat n) AND 0x80 :: u8) = 1 \<and>
      unat ((0x80 OR word_of_nat n) AND 0x7F :: u8) = n" unfolding list_all_iff set_upt by simp
  with assms show "drop_bit 7 ((0x80 OR word_of_nat n) AND 0x80 :: u8) = 1"
    "unat ((0x80 OR word_of_nat n) AND 0x7F :: u8) = n" by blast+
qed

lemma list4E: "length xs = 4 \<Longrightarrow> \<exists>a b c d. xs = [a, b, c, d]"
  by (simp add: length_Suc_conv numeral_eq_Suc) blast

lemma ws_head_packet:
  assumes "ws_frame_ok (fin, code, key, m)"
  shows "\<exists>fr. ws_parseHead WebSockFram0 ((push_bit 7 fin OR code) # ws_len (length m) @ key @ x) =
      (fr, int (1 + length (ws_len (length m)) + 4)) \<and> uiDataLens fr = length m \<and> acMaskKey fr = key \<and>
      emOpCode fr = code \<and> cFin fr = fin"
proof -
  have ok: "fin = 0 \<or> fin = 1" "code < 16" "length m < 2 ^ 31" using assms by (simp_all add: ws_frame_ok_def)
  obtain k0 k1 k2 k3 where k: "key = [k0, k1, k2, k3]" using assms list4E [of key] by (auto simp: ws_frame_ok_def)
  note F = ws_flags_first [OF ok(1,2)]
  consider "length m \<le> 125" | "125 < length m" "length m \<le> 65535" | "65535 < length m" by linarith
  then show ?thesis
  proof cases
    case 1
    then show ?thesis using ws_len_flags [of "length m"]
      by (simp add: ws_parseHead_def Let_def ws_frame_lens ws_len_def F k WebSockFram0_def)
  next
    case 2
    have "length (be_bytes 2 (word_of_nat (length m) :: u16)) = 2" by simp
    then obtain a b where ab: "be_bytes 2 (word_of_nat (length m) :: u16) = [a, b]"
      unfolding length_Suc_conv numeral_eq_Suc pred_numeral_simps arith_simps by blast
    have "unat (ntohs (le_word [a, b])) = length m"
      using 2 unfolding ab [symmetric] by (simp add: ntohs_le_word be_word_be_bytes_id unat_of_nat)
    then show ?thesis using 2 ws_len_flags [of 126]
      by (simp add: ws_parseHead_def Let_def ws_frame_lens ws_len_def F k WebSockFram0_def ab mem_read_def)
  next
    case 3
    let ?v = "word_of_nat (length m) :: u64"
    have "length (be_bytes 8 ?v) = 8" by simp
    then obtain a b c d e f g h where ab: "be_bytes 8 ?v = [a, b, c, d, e, f, g, h]"
      unfolding length_Suc_conv numeral_eq_Suc pred_numeral_simps arith_simps by blast
    have "unat (ntohl64 (le_word [a, b, c, d, e, f, g, h])) = length m"
      using ok(3) unfolding ab [symmetric] by (simp add: ntohl64_le_word be_word_be_bytes_id unat_of_nat)
    then show ?thesis using 3 ws_len_flags [of 127]
      by (simp add: ws_parseHead_def Let_def ws_frame_lens ws_len_def F k WebSockFram0_def ab mem_read_def)
  qed
qed

section \<open>Streams of frames\<close>

text \<open>A buffer that is a prefix of a stream of frames, after the handshake.\<close>

definition ws_good :: "websock \<Rightarrow> bytes \<Rightarrow> bool" where
  "ws_good s buf \<longleftrightarrow> uiStatus s = WSS_SHAKEHANDS \<and> length buf < 2 ^ 31 \<and>
     (\<exists>fs x. list_all ws_frame_ok fs \<and> buf @ x = concat (map ws_packet fs))"

lemma ws_packet_head:
  "ws_frame_ok f \<Longrightarrow> \<exists>fr h. ws_parseHead WebSockFram0 (ws_packet f @ x) = (fr, int h) \<and>
     0 < h \<and> h \<le> 14 \<and> ws_packet f = take h (ws_packet f) @ ws_unmask (acMaskKey fr) (fst (ws_shown f)) \<and>
     h + uiDataLens fr = length (ws_packet f) \<and> uiDataLens fr < 2 ^ 31 \<and>
     uiDataLens fr = length (fst (ws_shown f)) \<and> snd (ws_shown f) = [emOpCode fr, cFin fr]"
proof -
  assume ok: "ws_frame_ok f"
  obtain fin code key m where f: "f = (fin, code, key, m)" by (metis prod_cases4)
  let ?h = "1 + length (ws_len (length m)) + 4"
  have k: "length key = 4" "length m < 2 ^ 31" using ok f by (simp_all add: ws_frame_ok_def)
  obtain fr where fr: "ws_parseHead WebSockFram0 (ws_packet f @ x) = (fr, int ?h)" "uiDataLens fr = length m"
    "acMaskKey fr = key" "emOpCode fr = code" "cFin fr = fin"
    using ws_head_packet [of fin code key m "ws_unmask key m @ x"] ok f by (auto simp: ws_packet_def)
  have h: "?h \<le> 14" by (simp add: ws_len_def)
  have p: "ws_packet f = ((push_bit 7 fin OR code) # ws_len (length m) @ key) @ ws_unmask key m"
    by (simp add: ws_packet_def f)
  have l: "length ((push_bit 7 fin OR code) # ws_len (length m) @ key) = ?h" using k by simp
  from p l have "take ?h (ws_packet f) = (push_bit 7 fin OR code) # ws_len (length m) @ key"
    by (metis append_eq_conv_conj)
  with p have "ws_packet f = take ?h (ws_packet f) @ ws_unmask key m" by metis
  moreover have "length (ws_packet f) = ?h + length m" unfolding p length_append using l by simp
  moreover have "ws_shown f = (m, [code, fin])" by (simp add: ws_shown_def f)
  ultimately show ?thesis using fr h k(2) by (metis fst_conv snd_conv zero_less_Suc plus_1_eq_Suc add_Suc)
qed

text \<open>The first frame of a good buffer.\<close>

lemma ws_good_first:
  assumes "ws_good s buf" "ws_parseHead WebSockFram0 buf = (fr, h)" "h \<noteq> 0"
  obtains f fs x where "ws_frame_ok f" "list_all ws_frame_ok fs" "buf @ x = ws_packet f @ concat (map ws_packet fs)"
    "0 < h" "h \<le> 14" "nat h + uiDataLens fr = length (ws_packet f)" "uiDataLens fr < 2 ^ 31" "nat h \<le> length buf"
    "uiDataLens fr = length (fst (ws_shown f))" "snd (ws_shown f) = [emOpCode fr, cFin fr]"
    "ws_packet f = take (nat h) (ws_packet f) @ ws_unmask (acMaskKey fr) (fst (ws_shown f))"
proof -
  obtain fs x where fs: "list_all ws_frame_ok fs" "buf @ x = concat (map ws_packet fs)"
    using assms(1) by (auto simp: ws_good_def)
  have h2: "h = -1 \<or> h \<in> {6, 8, 14} \<and> nat h \<le> length buf" using ws_parseHead_cases [OF assms(2)] assms(3) by blast
  have "buf \<noteq> []"
  proof
    assume "buf = []"
    with assms(2,3) show False by (simp add: ws_parseHead_def Let_def ws_frame_lens)
  qed
  then obtain f gs where f: "fs = f # gs" using fs(2) by (cases fs) auto
  have e: "buf @ x = ws_packet f @ concat (map ws_packet gs)" using fs(2) f by simp
  have ok: "ws_frame_ok f" "list_all ws_frame_ok gs" using fs(1) f by simp_all
  from ws_packet_head [OF ok(1), of "concat (map ws_packet gs)"] ws_parseHead_append [OF assms(2,3), of x] e
  obtain n where n: "h = int n" "0 < n" "n \<le> 14" "n + uiDataLens fr = length (ws_packet f)" "uiDataLens fr < 2 ^ 31"
    "uiDataLens fr = length (fst (ws_shown f))" "snd (ws_shown f) = [emOpCode fr, cFin fr]"
    "ws_packet f = take n (ws_packet f) @ ws_unmask (acMaskKey fr) (fst (ws_shown f))"
    by auto
  with h2 that [OF ok e] show thesis by auto
qed

lemma ws_core_cases:
  assumes "ws_core s buf = (s', n, p)"
  obtains (none) fr where "ws_parseHead WebSockFram0 buf = (fr, 0)" "n = 0" "s' = s"
  | (fail) fr where "ws_parseHead WebSockFram0 buf = (fr, -1)" "n = -1"
  | (more) fr h where "ws_parseHead WebSockFram0 buf = (fr, int h)" "0 < h" "uiDataLens fr + h > length buf"
      "n = 0" "s' = s"
  | (frame) fr h where "ws_parseHead WebSockFram0 buf = (fr, int h)" "0 < h" "uiDataLens fr + h \<le> length buf"
      "n = int (uiDataLens fr + h)" "s' = s"
      "p = (ws_unmask (acMaskKey fr) (take (uiDataLens fr) (drop h buf)), [emOpCode fr, cFin fr])"
proof -
  obtain fr k where k: "ws_parseHead WebSockFram0 buf = (fr, k)" by (rule prod.exhaust)
  have "k = 0 \<or> k = -1 \<or> 0 < k" using ws_parseHead_cases [OF k] by auto
  then consider "k = 0" | "k = -1" | "0 < k" by blast
  then show thesis
  proof cases
    case 1
    with assms k have "n = 0" "s' = s" by (simp_all add: ws_core_def)
    with k 1 show thesis by (intro none) simp_all
  next
    case 2
    with assms k have "n = -1" by (simp add: ws_core_def)
    with k 2 show thesis by (intro fail) simp_all
  next
    case 3
    define h where "h = nat k"
    have h: "k = int h" "0 < h" using 3 by (simp_all add: h_def)
    show thesis
    proof (cases "uiDataLens fr + h > length buf")
      case True
      with assms k h have "n = 0" "s' = s" by (simp_all add: ws_core_def Let_def)
      with k h True show thesis by (intro more [of fr h]) simp_all
    next
      case False
      with assms k h have "n = int (uiDataLens fr + h)" "s' = s"
        "p = (ws_unmask (acMaskKey fr) (take (uiDataLens fr) (drop h buf)), [emOpCode fr, cFin fr])"
        by (simp_all add: ws_core_def Let_def)
      with k h False show thesis by (intro frame [of fr h]) simp_all
    qed
  qed
qed

lemma ws_core_append:
  assumes "ws_core s buf = (s', n, p)" "n \<noteq> 0"
  shows "ws_core s (buf @ x) = (s', n, p)"
  using assms(1)
proof (cases rule: ws_core_cases)
  case (fail fr)
  from ws_parseHead_append [OF fail(1), of x] fail assms(1) show ?thesis by (simp add: ws_core_def)
next
  case (frame fr h)
  from ws_parseHead_append [OF frame(1), of x] frame(2) have "ws_parseHead WebSockFram0 (buf @ x) = (fr, int h)" by simp
  with frame show ?thesis by (simp add: ws_core_def Let_def)
qed (use assms(2) in simp_all)

lemma ws_good_next:
  assumes g: "ws_good s buf" and c: "ws_core s buf = (s', n, p)" and n: "0 < n"
  shows "ws_good s' (drop (nat n) buf)"
  using c
proof (cases rule: ws_core_cases)
  case (frame fr h)
  then have h: "ws_parseHead WebSockFram0 buf = (fr, int h)" "int h \<noteq> 0" by simp_all
  obtain f fs y where f: "list_all ws_frame_ok fs" "buf @ y = ws_packet f @ concat (map ws_packet fs)"
    "nat (int h) + uiDataLens fr = length (ws_packet f)"
    by (rule ws_good_first [OF g h])
  have l: "nat n = length (ws_packet f)" "length (ws_packet f) \<le> length buf" using frame f(3) by simp_all
  have "drop (length (ws_packet f)) (buf @ y) = concat (map ws_packet fs)" unfolding f(2) by simp
  then have "drop (nat n) buf @ y = concat (map ws_packet fs)" using l by simp
  moreover have "length (drop (nat n) buf) < 2 ^ 31" "uiStatus s' = WSS_SHAKEHANDS"
    using g frame(5) by (auto simp: ws_good_def)
  ultimately show ?thesis using f(1) unfolding ws_good_def by blast
qed (use n in simp_all)

lemma ws_parse_core:
  assumes g: "ws_good s buf" and c: "ws_core s buf = (s', n, p)"
  shows "\<exists>bin'. ws_parsePack s buf (setReadBuffer None 0 (reSetWrite bin)) = Some (s', n, bin') \<and>
      (0 < n \<longrightarrow> packet_view bin' = p \<and>
        (p = ([], []) \<longleftrightarrow> getRBufLens bin' = 0 \<and> getWritedBuf bin' = []))"
proof -
  have st: "uiStatus s = WSS_SHAKEHANDS" using g by (simp add: ws_good_def)
  have small: "length buf < 2 ^ 31" using g by (simp add: ws_good_def)
  have sz: "size_add (uiDataLens fr) h = uiDataLens fr + h"
    if h: "ws_parseHead WebSockFram0 buf = (fr, int h)" "0 < h" for fr h
  proof -
    have k: "int h \<noteq> 0" using h(2) by simp
    have "uiDataLens fr < 2 ^ 31" by (rule ws_good_first [OF g h(1) k])
    moreover have "int h \<le> 14" by (rule ws_good_first [OF g h(1) k])
    ultimately show ?thesis by (intro size_add_small) simp
  qed
  show ?thesis
    using c
  proof (cases rule: ws_core_cases)
    case none
    then show ?thesis using st by (simp add: ws_parsePack_def)
  next
    case fail
    then show ?thesis using st c by (simp add: ws_parsePack_def ws_core_def)
  next
    case (more fr h)
    then show ?thesis using st sz [OF more(1,2)] by (simp add: ws_parsePack_def)
  next
    case (frame fr h)
    have ci: "c_int (uiDataLens fr + h) = int (uiDataLens fr + h)"
      using frame(3) small by (intro c_int_small) linarith
    have d: "uiDataLens fr \<le> length (drop h buf)" using frame(3) by simp
    show ?thesis
    proof (cases "uiDataLens fr = 0")
      case True
      with frame st sz [OF frame(1,2)] ci show ?thesis
        by (simp add: ws_parsePack_def Let_def packet_view_def setReadBuffer_def reSetWrite_def
            getRBufLens_def getWritedBuf_def setUint8_def setVal_def ws_unmask_def)
    next
      case False
      with frame st sz [OF frame(1,2)] ci d show ?thesis
        by (simp add: ws_parsePack_def parseData_def Let_def packet_view_def setReadBuffer_def reSetWrite_def
            getRBufLens_def getWritedBuf_def setUint8_def setVal_def)
    qed
  qed
qed

lemma ws_good_prefix:
  assumes "ws_good s (buf @ x)"
  shows "ws_good s buf"
proof -
  obtain fs y where "list_all ws_frame_ok fs" "buf @ (x @ y) = concat (map ws_packet fs)"
    using assms by (auto simp: ws_good_def)
  then show ?thesis using assms unfolding ws_good_def by (intro conjI exI) auto
qed

interpretation ws: packet_parser ws_parsePack ws_core ws_good
proof
  fix s s' :: websock and buf x :: bytes and n :: int and p bin
  show "ws_good s buf" if "ws_good s (buf @ x)"
    using that by (rule ws_good_prefix)
  show "length buf < 2 ^ 63" if "ws_good s buf" using that by (simp add: ws_good_def)
  show "s' = s" if "ws_core s buf = (s', 0, p)" using that by (cases rule: ws_core_cases) simp_all
  show "n = - 1 \<or> 0 \<le> n \<and> n \<le> int (length buf)" if "ws_core s buf = (s', n, p)"
    using that by (cases rule: ws_core_cases) simp_all
  show "ws_core s (buf @ x) = (s', n, p)" if "ws_core s buf = (s', n, p)" "n \<noteq> 0"
    using that by (rule ws_core_append)
  show "ws_good s' (drop (nat n) buf)" if "ws_good s buf" "ws_core s buf = (s', n, p)" "0 < n"
    using that by (rule ws_good_next)
  show "\<exists>bin'. ws_parsePack s buf (setReadBuffer None 0 (reSetWrite bin)) = Some (s', n, bin') \<and>
      (0 < n \<longrightarrow> packet_view bin' = p \<and>
        (p = ([], []) \<longleftrightarrow> getRBufLens bin' = 0 \<and> getWritedBuf bin' = []))"
    if "ws_good s buf" "ws_core s buf = (s', n, p)"
    using that by (rule ws_parse_core)
qed

lemma ws_pull_packets:
  assumes "uiStatus s = WSS_SHAKEHANDS" "list_all ws_frame_ok fs"
  shows "pull ws_core s (concat (map ws_packet fs)) = (map ws_shown fs, [], s, True)"
  using assms(2)
proof (induction fs)
  case Nil
  then show ?case by (simp add: pull.simps)
next
  case (Cons f fs)
  let ?r = "concat (map ws_packet fs)"
  obtain fr h where h: "ws_parseHead WebSockFram0 (ws_packet f @ ?r) = (fr, int h)"
     "0 < h" "h \<le> 14" "ws_packet f = take h (ws_packet f) @ ws_unmask (acMaskKey fr) (fst (ws_shown f))"
     "h + uiDataLens fr = length (ws_packet f)" "uiDataLens fr < 2 ^ 31"
     "uiDataLens fr = length (fst (ws_shown f))" "snd (ws_shown f) = [emOpCode fr, cFin fr]"
    using ws_packet_head [of f ?r] Cons.prems by auto
  have "drop h (ws_packet f) = ws_unmask (acMaskKey fr) (fst (ws_shown f))"
    using h(4,5) by (metis append_take_drop_id same_append_eq)
  then have t: "take (uiDataLens fr) (drop h (ws_packet f @ ?r)) = ws_unmask (acMaskKey fr) (fst (ws_shown f))"
    using h(5,7) by simp
  then have "ws_core s (ws_packet f @ ?r) = (s, int (length (ws_packet f)), fst (ws_shown f), [emOpCode fr, cFin fr])"
    unfolding ws_core_def h(1) using h(2,5) t by (simp add: Let_def add.commute del: take_append drop_append)
  then have c: "ws_core s (ws_packet f @ ?r) = (s, int (length (ws_packet f)), ws_shown f)"
    by (simp add: h(8) [symmetric])
  have "ws_packet f \<noteq> []" "ws_shown f \<noteq> ([], [])"
    using h(2,5) h(8) by auto
  then have "pull ws_core s (ws_packet f @ ?r) = (ws_shown f # map ws_shown fs, [], s, True)"
    using Cons by (subst pull.simps) (simp add: c)
  then show ?case by simp
qed

end
