(* ===== verification/WebSock_Props.thy ===== *)
theory WebSock_Props
  imports WebSock SHS
begin

text \<open>The properties of SHA-1 and of the WebSocket parser.\<close>

text \<open>The digest of a message from a chaining state.\<close>

definition sha1_hash :: "u32 list \<Rightarrow> bytes \<Rightarrow> bytes" where
  "sha1_hash iv m = concat (map (be_bytes 4) (fst (absorb 64 Transform iv (shs_pad m))))"

definition sha1_stale :: "u32 list" where
  "sha1_stale = Transform (replicate 5 0) (replicate 64 0)"

definition ws_accept :: "u32 list \<Rightarrow> bytes \<Rightarrow> bytes" where
  "ws_accept iv key = H_B64Encode (sha1_hash iv (key @ ws_guid))"

text \<open>The answers to a series of handshakes by one parser object.\<close>

fun ws_answers :: "CSHA1 \<Rightarrow> bytes list \<Rightarrow> bytes list option" where
  "ws_answers sha [] = Some []"
| "ws_answers sha (key # keys) =
     (case createKey key sha of None \<Rightarrow> None | Some (a, sha) \<Rightarrow> map_option ((#) a) (ws_answers sha keys))"

lemma sha1_fresh:
  assumes "length (m_buffer c) = 64"
  shows "sha1_inv (Reset c)" "sha1_obs (Reset c) = (shs_IV, [])" "sha1_bits (Reset c) = 0"
  using assms
  by (simp_all add: sha1_inv_def sha1_obs_def sha1_bits_def sha1_md_def md_inv_def md_obs_def md_bits_def
      Reset_def shs_IV_def bits64_def count_index_def)

lemma sha1_wiped_obs: "sha1_inv (sha1_wiped d)" "sha1_obs (sha1_wiped d) = (sha1_stale, [])"
    "sha1_bits (sha1_wiped d) = 0"
  by (simp_all add: sha1_inv_def sha1_obs_def sha1_bits_def sha1_md_def md_inv_def md_obs_def md_bits_def
      sha1_wiped_def sha1_stale_def bits64_def count_index_def)

text \<open>A message that is fed to an object without pending input.\<close>

lemma sha1_fin_hash:
  "sha1_fin (absorb 64 Transform iv m) (md_bump 0 (length m)) = sha1_hash iv m"
  by (simp only: sha1_fin_def sha1_hash_def shs_pad_def md_bump_def add_0 of_nat_mod_64 digest_pad)

lemma sha1_message:
  assumes "sha1_inv c" "sha1_obs c = (iv, [])" "sha1_bits c = 0" "\<forall>xs \<in> set xss. md_fits xs" "xss \<noteq> []"
  shows "Final (fold (\<lambda>xs c. Update c xs) xss c) = Some (sha1_wiped (sha1_hash iv (concat xss)))"
proof -
  let ?c = "fold (\<lambda>xs c. Update c xs) xss c"
  from sha1.fold_obs [OF assms(1,4)] assms(2,3,5)
  have "sha1_inv ?c" "sha1_obs ?c = absorb 64 Transform iv (concat xss)"
    "sha1_bits ?c = md_bump 0 (length (concat xss))" by simp_all
  then show ?thesis by (simp only: sha1_final sha1_fin_hash)
qed

lemma createKey_message:
  assumes "sha1_inv c" "sha1_obs c = (iv, [])" "sha1_bits c = 0" "length key < 2 ^ 31"
  shows "createKey key c = Some (ws_accept iv key, sha1_wiped (sha1_hash iv (key @ ws_guid)))"
proof -
  have "length ws_guid = 36" by (simp add: ws_guid_def text_bytes_def)
  then have "md_fits (key @ ws_guid)" using assms(4) by (simp add: md_fits_def)
  with sha1_message [OF assms(1,2,3), of "[key @ ws_guid]"]
  have "Final (Update c (key @ ws_guid)) = Some (sha1_wiped (sha1_hash iv (key @ ws_guid)))" by simp
  then show ?thesis by (simp add: createKey_def ws_accept_def GetHash_def sha1_wiped_def)
qed

lemma length_absorb_Transform: "length st = 5 \<Longrightarrow> length (fst (absorb 64 Transform st xs)) = 5"
proof (induction "64 :: nat" Transform st xs rule: absorb.induct)
  case (1 st xs)
  have "length (Transform st (take 64 xs)) = 5" by (simp add: Transform_def Let_def split: prod.split)
  with 1 show ?case by (subst absorb.simps) simp
qed

lemma ws_accept_ne: "length iv = 5 \<Longrightarrow> ws_accept iv key \<noteq> []"
proof -
  assume "length iv = 5"
  then obtain w ws where "fst (absorb 64 Transform iv (shs_pad (key @ ws_guid))) = w # ws"
    using length_absorb_Transform [of iv "shs_pad (key @ ws_guid)"]
    by (cases "fst (absorb 64 Transform iv (shs_pad (key @ ws_guid)))") auto
  moreover have "be_bytes 4 w \<noteq> []" by (metis length_be_bytes list.size(3) zero_neq_numeral)
  ultimately have "sha1_hash iv (key @ ws_guid) \<noteq> []" by (simp add: sha1_hash_def)
  then show ?thesis
    unfolding ws_accept_def by (cases "sha1_hash iv (key @ ws_guid)" rule: H_B64Encode.cases) (simp_all add: b64_split_def)
qed

lemma ws_answers_stale:
  "\<forall>k \<in> set keys. length k < 2 ^ 31 \<Longrightarrow>
   ws_answers (sha1_wiped d) keys = Some (map (ws_accept sha1_stale) keys)"
proof (induction keys arbitrary: d)
  case (Cons k keys)
  have "length k < 2 ^ 31" using Cons.prems by simp
  from createKey_message [OF sha1_wiped_obs this] Cons show ?case by simp
qed simp

text \<open>The chaining state that \<^verbatim>\<open>Final\<close> leaves: the transformation of a zero state by a zero
  block, whose message schedule is zero.\<close>

lemma sha1_round_zero:
  "sha1_round i (replicate 16 0, r) = (replicate 16 0,
     if i < 20 then S_R sha1_f0 0x5A827999 0 r
     else if i < 40 then S_R sha1_f2 0x6ED9EBA1 0 r
     else if i < 60 then S_R sha1_f3 0x8F1BBCDC 0 r
     else S_R sha1_f2 0xCA62C1D6 0 r)"
proof -
  have rol: "ROL32 0 n = 0" for n by (simp add: ROL32_def)
  have r: "(replicate 16 (0 :: u32)) ! j = 0" if "j < 16" for j using that by (rule nth_replicate)
  have u: "(replicate 16 (0 :: u32))[j := 0] = replicate 16 0" for j
    by (cases "j < 16") (simp_all add: list_update_same_conv list_update_beyond)
  have m: "j mod 16 < 16" for j :: nat by simp
  have "SHABLK0 i (replicate 16 0) = replicate 16 0" if "i < 16"
    unfolding SHABLK0_def r [OF that] rol by (simp add: u)
  moreover have "SHABLK i (replicate 16 0) = replicate 16 0"
    unfolding SHABLK_def r [OF m] rol by (simp add: u rol)
  ultimately have "(if i < 16 then SHABLK0 i (replicate 16 0) else SHABLK i (replicate 16 0)) = replicate 16 0"
    by (simp)
  then show ?thesis unfolding sha1_round_def Let_def fst_conv snd_conv by (simp only: r [OF m])
qed

lemma sha1_rounds_zero:
  assumes "\<And>i r. i \<in> set is \<Longrightarrow> sha1_round i (replicate 16 0, r) = (replicate 16 0, g r)"
  shows "fold sha1_round is (replicate 16 0, r) = (replicate 16 0, (g ^^ length is) r)"
  using assms
proof (induction "is" arbitrary: r)
  case (Cons i js)
  then show ?case by (simp add: funpow_swap1)
qed simp

lemma sha1_rounds20:
  assumes "\<And>i r. a \<le> i \<Longrightarrow> i < a + 20 \<Longrightarrow> sha1_round i (replicate 16 0, r) = (replicate 16 0, g r)"
  shows "fold sha1_round [a..<a + 20] (replicate 16 0, r) = (replicate 16 0, (g ^^ 20) r)"
  using sha1_rounds_zero [of "[a..<a + 20]" g r] assms by simp

lemma sha1_stale_value: "sha1_stale = [2652194797, 1475121602, 821726152, 3346553428, 2817500643]"
proof -
  let ?z = "replicate 16 (0 :: u32)"
  let ?f = "fold sha1_round"
  have 1: "?f [0..<20] (?z, 0, 0, 0, 0, 0) = (?z, 4005918226, 133720937, 2957732703, 4086698205, 3351676987)"
  proof -
    have "(S_R sha1_f0 0x5A827999 0 ^^ 20) (0, 0, 0, 0, 0) =
      (4005918226, 133720937, 2957732703, 4086698205, 3351676987)" by code_simp
    with sha1_rounds20 [of 0 "S_R sha1_f0 0x5A827999 0"] show ?thesis
      by (simp add: sha1_round_zero del: upt_rec_numeral)
  qed
  have 2: "?f [20..<40] (?z, 4005918226, 133720937, 2957732703, 4086698205, 3351676987) =
      (?z, 2078076151, 2352833088, 3144677536, 2465103991, 746733994)"
  proof -
    have "(S_R sha1_f2 0x6ED9EBA1 0 ^^ 20) (4005918226, 133720937, 2957732703, 4086698205, 3351676987) =
      (2078076151, 2352833088, 3144677536, 2465103991, 746733994)" by code_simp
    with sha1_rounds20 [of 20 "S_R sha1_f2 0x6ED9EBA1 0"] show ?thesis
      by (simp add: sha1_round_zero del: upt_rec_numeral)
  qed
  have 3: "?f [40..<60] (?z, 2078076151, 2352833088, 3144677536, 2465103991, 746733994) =
      (?z, 4101783361, 129714148, 1302308911, 2925281768, 625290977)"
  proof -
    have "(S_R sha1_f3 0x8F1BBCDC 0 ^^ 20) (2078076151, 2352833088, 3144677536, 2465103991, 746733994) =
      (4101783361, 129714148, 1302308911, 2925281768, 625290977)" by code_simp
    with sha1_rounds20 [of 40 "S_R sha1_f3 0x8F1BBCDC 0"] show ?thesis
      by (simp add: sha1_round_zero del: upt_rec_numeral)
  qed
  have 4: "?f [60..<80] (?z, 4101783361, 129714148, 1302308911, 2925281768, 625290977) =
      (?z, 2652194797, 1475121602, 821726152, 3346553428, 2817500643)"
  proof -
    have "(S_R sha1_f2 0xCA62C1D6 0 ^^ 20) (4101783361, 129714148, 1302308911, 2925281768, 625290977) =
      (2652194797, 1475121602, 821726152, 3346553428, 2817500643)" by code_simp
    with sha1_rounds20 [of 60 "S_R sha1_f2 0xCA62C1D6 0"] show ?thesis
      by (simp add: sha1_round_zero del: upt_rec_numeral)
  qed
  have "[0..<80] = [0..<20] @ [20..<40] @ [40..<60] @ [60..<80]"
    using upt_add_eq_append [of 0 20 60] upt_add_eq_append [of 20 40 40] upt_add_eq_append [of 40 60 20]
    by (simp del: upt_rec_numeral)
  then have "?f [0..<80] (?z, 0, 0, 0, 0, 0) = (?z, 2652194797, 1475121602, 821726152, 3346553428, 2817500643)"
    by (simp only: fold_append o_apply 1 2 3 4)
  moreover have "md_Decode (replicate 64 0) 16 = ?z" by code_simp
  moreover have "(replicate 5 (0 :: u32)) ! n = 0" if "n < 5" for n using that by (rule nth_replicate)
  ultimately show ?thesis
    unfolding sha1_stale_def Transform_def Let_def by simp
qed

section \<open>The request of a client\<close>

lemma find_sub_skip:
  "c \<notin> set xs \<Longrightarrow> find_sub (c # pat) (xs @ s) = map_option (\<lambda>i. length xs + i) (find_sub (c # pat) s)"
proof (induction xs)
  case Nil
  then show ?case by (simp add: option.map_ident)
next
  case (Cons x xs)
  then show ?case by (cases "find_sub (c # pat) s") auto
qed

lemma takeWhile_no_zero: "0 \<notin> set s \<Longrightarrow> takeWhile (\<lambda>b. b \<noteq> 0) s = (s :: bytes)"
  by (induction s) auto

lemma strstr_no_zero:
  "0 \<notin> set mem \<Longrightarrow> strstr mem pat = map_option Some (find_sub pat mem)"
  "0 \<notin> set mem \<Longrightarrow> pat \<noteq> [] \<Longrightarrow> H_StrStr (Some mem) (Some pat) = map_option Some (strstr_nocase pat mem)"
  by (simp_all add: strstr_def H_StrStr_def takeWhile_no_zero del: takeWhile_eq_all_conv split: option.split)

lemma H_TrimLeft_id: "\<forall>c \<in> set s. \<not> is_trim c \<Longrightarrow> H_TrimLeft s = s"
  by (cases s) simp_all

lemma H_Trim_id:
  assumes "\<forall>c \<in> set s. \<not> is_trim c"
  shows "H_Trim (0x20 # s) = s" "H_Trim s = s"
proof -
  have t: "trim_count (rev s) = 0" using assms by (cases s rule: rev_cases) simp_all
  show "H_Trim s = s" using assms t by (simp add: H_Trim_def H_TrimRight_def H_TrimLeft_id)
  show "H_Trim (0x20 # s) = s"
  proof (cases "s = []")
    case True
    then show ?thesis by (simp add: H_Trim_def H_TrimRight_def is_trim_def)
  next
    case False
    then have "trim_count (rev s @ [0x20]) = 0" using assms
      by (cases s rule: rev_cases) auto
    then show ?thesis using assms by (simp add: H_Trim_def H_TrimRight_def H_TrimLeft_id is_trim_def)
  qed
qed

definition ws_key_name :: bytes where "ws_key_name = text_bytes ''Sec-WebSocket-Key''"

text \<open>
  A request: its text has no zero byte, the key field is the first place where the name
  of the field occurs, and the empty line follows it.
\<close>

definition ws_request :: "bytes \<Rightarrow> bytes \<Rightarrow> bytes \<Rightarrow> bytes" where
  "ws_request pre key post = pre @ ws_key_name @ [0x3a, 0x20] @ key @ crlf @ post"

lemma ws_parseKey_request:
  fixes pre key post :: bytes
  defines "req \<equiv> ws_request pre key post"
  assumes "0 \<notin> set req" "strstr_nocase ws_key_name req = Some (length pre)"
    "\<forall>c \<in> set key. \<not> is_trim c" "length pre < n" "n \<le> length req" "length req < 2 ^ 31"
  shows "parseKey (setReadBuffer (Some req) n CBinary) = Some key"
proof -
  let ?b = "setReadBuffer (Some req) n CBinary"
  let ?line = "drop (length pre) req"
  have nz: "0 \<notin> set (drop k req)" for k using assms(2) by (meson in_set_dropD)
  have line: "?line = ws_key_name @ [0x3a, 0x20] @ key @ crlf @ post"
    by (simp add: req_def ws_request_def)
  have nm: "0x0d \<notin> set ws_key_name" "0x3a \<notin> set ws_key_name" "length ws_key_name = 17"
    by (simp_all add: ws_key_name_def text_bytes_def)
  have key: "0x0d \<notin> set key" using assms(4) by (auto simp: is_trim_def)
  have f: "Find ws_key_name ?b = Some (int (length pre))"
  proof -
    have "ws_key_name \<noteq> []" using nm(3) by auto
    moreover have "sint (word_of_nat (length pre) :: 32 word) = int (length pre)"
      using assms(5,6,7) by (simp add: signed_of_nat signed_take_bit_int_eq_self)
    ultimately show ?thesis
      using assms(2,3) by (simp add: Find_def setReadBuffer_def CBinary_def mem_from_def strstr_no_zero)
  qed
  have e: "size_add 0 (nat (int (length pre) mod 2 ^ 64)) = length pre"
    using assms(5,6,7) by (simp add: size_add_def)
  have crlf: "find_sub [0x0d, 0x0a] ?line = Some (19 + length key)"
  proof -
    have "find_sub [0x0d, 0x0a] ((ws_key_name @ [0x3a, 0x20] @ key) @ crlf @ post) = Some (19 + length key)"
      using nm key by (subst find_sub_skip) (simp_all add: crlf_def)
    then show ?thesis by (simp add: line)
  qed
  have rd: "readLine (skipRead (nat (int (length pre) mod 2 ^ 64)) ?b) =
     Some (\<lparr>pBufer = Some (length pre), iLens = 19 + length key\<rparr>,
           ?b\<lparr>m_iCurParseLens := size_add (length pre) (19 + length key + 2)\<rparr>)"
    using assms(5,6) e crlf nz [of "length pre"]
    by (simp add: readLine_def skipRead_def setReadBuffer_def CBinary_def mem_from_def strstr_no_zero H_LINEEFLAG_def
        del: drop_append)
  have colon: "find_sub [0x3a] ?line = Some 17"
    unfolding line using nm find_sub_skip [of "0x3a" ws_key_name "[]" "[0x3a, 0x20] @ key @ crlf @ post"] by simp
  have "mem_read ?line 18 (19 + length key - 18) = 0x20 # key"
    unfolding line using nm by (simp add: mem_read_def)
  then show ?thesis
    using f rd colon nz [of "length pre"] assms(5,6) H_Trim_id(1) [OF assms(4)]
    by (simp add: parseKey_def ws_key_name_def [symmetric] setReadBuffer_def mem_from_def strstr_no_zero)
qed

text \<open>The SHA-1 digest of a message does not depend on how it was cut into calls of
  \<^verbatim>\<open>Update\<close>; \<^verbatim>\<open>Final\<close>, whose padding loop ends, computes the fold of the transformation over
  the padded message.\<close>

theorem SHA1_streaming:
  assumes "length (m_buffer c) = 64" "\<forall>xs \<in> set xss. length xs + 64 \<le> 2 ^ 32" "xss \<noteq> []"
  shows "map_option GetHash (Final (fold (\<lambda>xs c. Update c xs) xss (Reset c))) =
    Some (sha1_hash shs_IV (concat xss))"
proof -
  have "\<forall>xs \<in> set xss. md_fits xs" using assms(2) by (simp add: md_fits_def)
  from sha1_message [OF sha1_fresh [OF assms(1)] this assms(3)] show ?thesis
    by (simp add: GetHash_def sha1_wiped_def)
qed

theorem SHA1_streaming_witness:
  "map_option GetHash (Final (fold (\<lambda>xs c. Update c xs) [[0x61], [0x62, 0x63]] (Reset (sha1_wiped [])))) =
    Some (sha1_hash shs_IV [0x61, 0x62, 0x63])"
  using SHA1_streaming [of "sha1_wiped []" "[[0x61], [0x62, 0x63]]"] by (simp add: sha1_wiped_def)

text \<open>\<^verbatim>\<open>createKey\<close> answers only the first handshake of the process as RFC 6455 demands:
  \<^verbatim>\<open>Final\<close> wipes the shared object and nobody calls \<^verbatim>\<open>Reset\<close>, so every later digest starts
  from another chaining state.\<close>

theorem websocket_answers:
  assumes "length (m_buffer c) = 64" "\<forall>k \<in> set (key # keys). length k < 2 ^ 31"
  shows "ws_answers (Reset c) (key # keys) =
    Some (ws_accept shs_IV key # map (ws_accept sha1_stale) keys) \<and> sha1_stale \<noteq> shs_IV"
proof -
  have "length key < 2 ^ 31" "\<forall>k \<in> set keys. length k < 2 ^ 31" using assms(2) by simp_all
  with createKey_message [OF sha1_fresh [OF assms(1)], of key] ws_answers_stale [of keys]
  have "ws_answers (Reset c) (key # keys) = Some (ws_accept shs_IV key # map (ws_accept sha1_stale) keys)"
    by simp
  moreover have "sha1_stale \<noteq> shs_IV" unfolding sha1_stale_value shs_IV_def by simp
  ultimately show ?thesis by blast
qed

theorem websocket_answers_witness:
  "ws_answers (Reset (sha1_wiped [])) [[0x61], [0x61]] =
    Some [ws_accept shs_IV [0x61], ws_accept sha1_stale [0x61]]"
  using websocket_answers [of "sha1_wiped []" "[0x61]" "[[0x61]]"] by (simp add: sha1_wiped_def)



text \<open>C11. In an established session the frames of the client are delivered intact: however the
  network cuts the bytes, the handler sees the unmasked data, the code and the FIN bit of
  every frame, in order.\<close>

theorem websocket_delivery:
  assumes "uiStatus s = WSS_SHAKEHANDS" "list_all ws_frame_ok fs" "concat cs = concat (map ws_packet fs)"
    "length (concat cs) < 2 ^ 31"
  shows "\<exists>bin'. tcp_reads lua ws_parsePack cs (s, [], bin, []) = Some (s, [], bin', map ws_shown fs)"
proof -
  have "ws_good s (concat cs)" unfolding ws_good_def using assms by (metis append_Nil2)
  with ws.tcp_reads_pull [of s "[]" cs "map ws_shown fs" "[]" s lua bin "[]"] ws_pull_packets [OF assms(1,2)] assms(3)
  show ?thesis by (simp add: pull.simps [of _ s "[]"])
qed

theorem websocket_delivery_witness:
  "\<exists>bin'. tcp_reads (\<lambda>b. b) ws_parsePack [[0x81], [0x82, 1, 2, 3, 4, 0x60], [0x60]]
      (\<lparr>uiStatus = WSS_SHAKEHANDS, bLinker = False, ws_sent = [], ws_closed = False, m_objSha1 = sha1_wiped []\<rparr>,
       [], CBinary, []) =
    Some (\<lparr>uiStatus = WSS_SHAKEHANDS, bLinker = False, ws_sent = [], ws_closed = False, m_objSha1 = sha1_wiped []\<rparr>,
       [], bin', [([0x61, 0x62], [1, 1])])"
proof -
  let ?f = "(1, 1, [1, 2, 3, 4], [0x61, 0x62]) :: ws_frame"
  have "ws_packet ?f = [0x81, 0x82, 1, 2, 3, 4, 0x60, 0x60]" by code_simp
  moreover have "list_all ws_frame_ok [?f]" by (simp add: ws_frame_ok_def)
  ultimately show ?thesis
    using websocket_delivery [of "\<lparr>uiStatus = WSS_SHAKEHANDS, bLinker = False, ws_sent = [], ws_closed = False,
      m_objSha1 = sha1_wiped []\<rparr>" "[?f]" "[[0x81], [0x82, 1, 2, 3, 4, 0x60], [0x60]]" "\<lambda>b. b" CBinary]
    by (simp add: ws_shown_def del: tcp_reads.simps)
qed

text \<open>A frame that declares almost \<open>2^64\<close> bytes passes the length check, which wraps around,
  and the unmasking writes past the buffer: one frame crashes the server.\<close>

theorem websocket_length_overrun:
  assumes "uiStatus s = WSS_SHAKEHANDS" "fin = 0 \<or> fin = 1" "code < 16" "length key = 4"
    "2 ^ 64 - 14 \<le> unat n" "length rest < 2 ^ 63"
  shows "ws_parsePack s ((push_bit 7 fin OR code) # 0xff # be_bytes 8 (n :: u64) @ key @ rest) b = None"
proof -
  obtain k0 k1 k2 k3 where k: "key = [k0, k1, k2, k3]" using assms(4) list4E [of key] by blast
  have "length (be_bytes 8 n) = 8" by simp
  then obtain a0 a1 a2 a3 a4 a5 a6 a7 where ab: "be_bytes 8 n = [a0, a1, a2, a3, a4, a5, a6, a7]"
    unfolding length_Suc_conv numeral_eq_Suc pred_numeral_simps arith_simps by blast
  have l: "unat (ntohl64 (le_word [a0, a1, a2, a3, a4, a5, a6, a7])) = unat n"
    unfolding ab [symmetric] by (simp add: ntohl64_le_word be_word_be_bytes_id)
  let ?buf = "(push_bit 7 fin OR code) # 0xff # be_bytes 8 n @ key @ rest"
  obtain fr where fr: "ws_parseHead WebSockFram0 ?buf = (fr, 14)" "uiDataLens fr = unat n"
    using ws_len_flags [of 127] l
    by (simp add: ws_parseHead_def Let_def ws_frame_lens ws_flags_first [OF assms(2,3)] k WebSockFram0_def ab mem_read_def)
  have "unat n < 2 ^ 64" using unsigned_less [of n] by simp
  then have "(unat n + 14) mod 2 ^ 64 = unat n + 14 - 2 ^ 64" "unat n + 14 - 2 ^ 64 \<le> 14"
    using assms(5) by (simp_all add: le_mod_geq)
  then have "size_add (unat n) 14 \<le> 14" by (simp only: size_add_def)
  moreover have "unat n > length (drop 14 ?buf)" using assms(5,6) by (simp add: ab k)
  ultimately show ?thesis using fr assms(1,5)
    by (simp add: ws_parsePack_def parseData_def ab k)
qed

theorem websocket_length_overrun_witness:
  "ws_parsePack \<lparr>uiStatus = WSS_SHAKEHANDS, bLinker = False, ws_sent = [], ws_closed = False, m_objSha1 = sha1_wiped []\<rparr>
     ((push_bit 7 1 OR 2) # 0xff # be_bytes 8 (0xFFFFFFFFFFFFFFFF :: u64) @ [0, 0, 0, 0] @ []) CBinary = None"
  by (rule websocket_length_overrun) simp_all

text \<open>The handshake looks for the end of the request with \<^verbatim>\<open>strstr\<close>: when the first read event
  brings only a part of the request, it reads past the end of the buffer.\<close>

theorem websocket_partial_request:
  assumes "uiStatus s = WSS_INIT" "0 \<notin> set buf" "find_sub WebSock_ShakeHands_EndFlag buf = None"
  shows "ws_parsePack s buf b = None"
proof -
  have "strstr buf WebSock_ShakeHands_EndFlag = None" using assms(2,3) by (simp add: strstr_no_zero)
  then show ?thesis using assms(1) by (simp add: ws_parsePack_def shakeHands_def)
qed

theorem websocket_partial_request_witness:
  "ws_parsePack \<lparr>uiStatus = WSS_INIT, bLinker = False, ws_sent = [], ws_closed = False, m_objSha1 = sha1_wiped []\<rparr>
     [0x47, 0x45, 0x54] CBinary = None"
  by (rule websocket_partial_request) (simp_all add: WebSock_ShakeHands_EndFlag_def)

end
