(* ===== verification/UEncrypt.thy ===== *)
theory UEncrypt
  imports Base64 "HOL-Library.Monad_Syntax"
begin

text \<open>
  \<^verbatim>\<open>HBase/UEncrypt.cpp\<close>: the encoding of URLs.  A failed assertion is \<open>None\<close>.
\<close>

definition toHex :: "u8 \<Rightarrow> u8" where
  "toHex x = (if x > 9 then x + 55 else x + 48)"

definition fromHex :: "u8 \<Rightarrow> u8 option" where
  "fromHex x =
     (if 65 \<le> x \<and> x \<le> 90 then Some (x - 65 + 10)
      else if 97 \<le> x \<and> x \<le> 122 then Some (x - 97 + 10)
      else if 48 \<le> x \<and> x \<le> 57 then Some (x - 48)
      else None)"

definition u_plain :: "u8 \<Rightarrow> bool" where
  "u_plain c \<longleftrightarrow> isalnum c \<or> c = 0x2d \<or> c = 0x5f \<or> c = 0x2e \<or> c = 0x7e"

definition u_char :: "u8 \<Rightarrow> bytes" where
  "u_char c =
     (if u_plain c then [c]
      else if c = 0x20 then [0x2b]
      else [0x25, toHex (drop_bit 4 c), toHex (c mod 16)])"

definition H_UEncode :: "bytes \<Rightarrow> bytes" where
  "H_UEncode pszVal = concat (map u_char pszVal)"

fun H_UDecode :: "bytes \<Rightarrow> bytes option" where
  "H_UDecode [] = Some []"
| "H_UDecode (c # xs) =
     (if c = 0x2b then map_option ((#) 0x20) (H_UDecode xs)
      else if c = 0x25 then
        (case xs of
           h # l # xs \<Rightarrow> do {
             cHigh \<leftarrow> fromHex h;
             cLow \<leftarrow> fromHex l;
             map_option ((#) (cHigh * 16 + cLow)) (H_UDecode xs)
           }
         | _ \<Rightarrow> None)
      else map_option ((#) c) (H_UDecode xs))"

lemma hex_nibbles: "\<exists>h l. fromHex (toHex (drop_bit 4 c)) = Some h \<and> fromHex (toHex (c mod 16)) = Some l \<and>
    h * 16 + l = c"
proof -
  have "list_all (\<lambda>i. let c = word_of_nat i in
      (case (fromHex (toHex (drop_bit 4 c)), fromHex (toHex (c mod 16))) of
         (Some h, Some l) \<Rightarrow> h * 16 + l = c | _ \<Rightarrow> False)) [0..<256]" by code_simp
  then have "\<forall>i < 256. case (fromHex (toHex (drop_bit 4 (word_of_nat i))), fromHex (toHex (word_of_nat i mod 16))) of
         (Some h, Some l) \<Rightarrow> h * 16 + l = word_of_nat i | _ \<Rightarrow> False"
    unfolding list_all_iff set_upt Let_def by simp
  from this [rule_format, of "unat c"] show ?thesis
    using unat_u8_less [of c] by (auto split: option.splits)
qed

lemma u_decode_char: "H_UDecode (u_char c @ xs) = map_option ((#) c) (H_UDecode xs)"
proof -
  consider "u_plain c" | "\<not> u_plain c" "c = 0x20" | "\<not> u_plain c" "c \<noteq> 0x20" by blast
  then show ?thesis
  proof cases
    case 1
    then have "c \<noteq> 0x2b" "c \<noteq> 0x25" by (auto simp: u_plain_def isalnum_def)
    with 1 show ?thesis by (simp add: u_char_def)
  next
    case 2
    then show ?thesis by (simp add: u_char_def)
  next
    case 3
    then show ?thesis using hex_nibbles [of c] by (auto simp: u_char_def)
  qed
qed

text \<open>The characters that the encoding uses.\<close>

definition u_safe :: "u8 \<Rightarrow> bool" where
  "u_safe c \<longleftrightarrow> isalnum c \<or> c \<in> {0x2d, 0x5f, 0x2e, 0x7e, 0x2b, 0x25}"

lemma u_char_safe: "x \<in> set (u_char c) \<Longrightarrow> u_safe x"
proof -
  have "list_all (\<lambda>i. isalnum (toHex (word_of_nat i))) [0..<16]" by code_simp
  then have "\<forall>i < 16. isalnum (toHex (word_of_nat i))" unfolding list_all_iff set_upt by simp
  then have t: "isalnum (toHex v)" if "unat v < 16" for v using that by (auto dest: spec [of _ "unat v"])
  have "unat (drop_bit 4 c) < 16" using unat_u8_less [of c] by (simp add: drop_bit_eq_div unat_div)
  moreover have "unat (c mod 16) < 16" by (simp add: unat_mod)
  ultimately show "x \<in> set (u_char c) \<Longrightarrow> u_safe x"
    using t by (auto simp: u_char_def u_safe_def u_plain_def split: if_splits)
qed

end
