(* ===== verification/Codec_Props.thy ===== *)
theory Codec_Props
  imports CRC UEncrypt
begin

text \<open>The properties of the encodings and of the checksums.\<close>

text \<open>C34. Base64 decoding inverts encoding for every byte string, and the code has four
  characters for every group of three bytes.\<close>

theorem base64_roundtrip:
  "H_B64Decode (H_B64Encode xs) = xs \<and> length (H_B64Encode xs) = 4 * ((length xs + 2) div 3)"
proof -
  have "(5 + n) div 3 = Suc (Suc (Suc n) div 3)" for n :: nat by presburger
  then have "length (H_B64Encode xs) = 4 * ((length xs + 2) div 3)"
    by (induction xs rule: H_B64Encode.induct) (simp_all add: b64_split_def)
  with b64_decode_encode show ?thesis by blast
qed

text \<open>URL decoding inverts encoding for every byte string, no assertion fails on the way, and
  the code consists of characters that are safe in a URL.\<close>

theorem url_roundtrip:
  "H_UDecode (H_UEncode xs) = Some xs \<and> list_all u_safe (H_UEncode xs)"
proof -
  have "H_UDecode (H_UEncode xs) = Some xs"
    by (induction xs) (simp_all add: H_UEncode_def u_decode_char)
  moreover have "list_all u_safe (H_UEncode xs)"
    by (auto simp: H_UEncode_def list_all_iff intro: u_char_safe)
  ultimately show ?thesis by blast
qed

text \<open>C35. The table-driven checksums compute what the division by their polynomials, bit by bit,
  computes.\<close>

theorem crc_reference: "H_CRC16 xs = crc16_ref xs \<and> H_CRC32 xs = crc32_ref xs"
  by (simp add: crc16_eq_ref crc32_eq_ref)

text \<open>Both checksums detect every change of a single byte, at any position of any message.\<close>

theorem crc_detects_byte:
  "(H_CRC16 (xs @ a # ys) = H_CRC16 (xs @ b # ys)) = (a = b) \<and>
   (H_CRC32 (xs @ a # ys) = H_CRC32 (xs @ b # ys)) = (a = b)"
  by (simp add: H_CRC16_def H_CRC32_def fold_crc16_inj fold_crc32_inj crc16_step_inj crc32_step_inj xor_right_inj)

end
