(* ===== verification/Recv_Task.thy ===== *)
theory Recv_Task
  imports Fifo
begin

text \<open>
  \<^verbatim>\<open>HBase/RecvTask.h\<close>: a thread that runs the messages other threads give it.  The
  operations of \<^verbatim>\<open>CRecvTask\<close> are split at the points where another thread can come in
  between: \<open>run_step\<close> is one step of \<^verbatim>\<open>Run\<close>, \<open>add_test\<close> and \<open>add_push\<close> are the
  two halves of \<^verbatim>\<open>addTask\<close> (the test of \<^verbatim>\<open>m_lCanAdd\<close> is made without the lock),
  \<open>join_steps\<close> those of \<^verbatim>\<open>Join\<close>.  The relation \<open>rt_step\<close> interleaves them in
  any order.

  The condition variable wakes the sleeping thread when it is signalled, or for no reason.
\<close>

datatype run_state = RS_RUN | RS_STOP
datatype add_state = CANADD | CANTADD

text \<open>
  Where the thread is: before \<^verbatim>\<open>Run\<close>, at the test of the loop with \<^verbatim>\<open>pMsg\<close>, running
  a message, about to lock the queue, waiting (signalled or not), in the second loop (with the
  lock), after the end.
\<close>

datatype 'a run_pc = Enter | Test "'a option" | Exec 'a | Fetch | Sleep bool | Drain | Gone
datatype join_pc = Not_called | Set_exit | Polling | Joined

text \<open>\<open>r_pend\<close> are the messages of the threads between the two halves of \<^verbatim>\<open>addTask\<close>;
  \<open>r_added\<close> and \<open>r_ran\<close> record what entered the queue and what was run.\<close>

record 'a recv_task =
  r_lExit :: run_state
  r_lCanAdd :: add_state
  r_lCount :: int
  r_uiWait :: u32
  r_vcTask :: "'a list"
  r_pc :: "'a run_pc"
  r_join :: join_pc
  r_pend :: "'a list"
  r_added :: "'a list"
  r_ran :: "'a list"

definition CRecvTask :: "'a recv_task" where
  "CRecvTask = \<lparr>r_lExit = RS_RUN, r_lCanAdd = CANADD, r_lCount = 0, r_uiWait = 0, r_vcTask = [],
     r_pc = Enter, r_join = Not_called, r_pend = [], r_added = [], r_ran = []\<rparr>"

section \<open>The operations\<close>

fun recv_pop :: "'a list \<Rightarrow> 'a option \<times> 'a list" where
  "recv_pop [] = (None, [])"
| "recv_pop (x # xs) = (Some x, xs)"

definition recv_push :: "'a list \<Rightarrow> 'a \<Rightarrow> bool \<times> 'a list" where
  "recv_push q x = (True, q @ [x])"

text \<open>\<open>None\<close>: the thread waits for the signal, or it has ended.\<close>

definition run_step :: "'a recv_task \<Rightarrow> 'a recv_task option" where
  "run_step s = (case r_pc s of
     Enter \<Rightarrow> Some (s\<lparr>r_lCount := r_lCount s + 1, r_pc := Test None\<rparr>)
   | Test pMsg \<Rightarrow>
       Some (if r_lExit s = RS_RUN
             then s\<lparr>r_pc := (case pMsg of None \<Rightarrow> Fetch | Some x \<Rightarrow> Exec x)\<rparr>
             else s\<lparr>r_pc := Drain\<rparr>)
   | Exec x \<Rightarrow> Some (s\<lparr>r_ran := r_ran s @ [x], r_pc := Fetch\<rparr>)
   | Fetch \<Rightarrow>
       Some (case recv_pop (r_vcTask s) of
               (Some x, q) \<Rightarrow> s\<lparr>r_vcTask := q, r_pc := Test (Some x)\<rparr>
             | (None, q) \<Rightarrow> s\<lparr>r_uiWait := r_uiWait s + 1, r_pc := Sleep False\<rparr>)
   | Sleep True \<Rightarrow> Some (s\<lparr>r_uiWait := r_uiWait s - 1, r_pc := Test None\<rparr>)
   | Sleep False \<Rightarrow> None
   | Drain \<Rightarrow>
       Some (case recv_pop (r_vcTask s) of
               (Some x, q) \<Rightarrow> s\<lparr>r_vcTask := q, r_ran := r_ran s @ [x]\<rparr>
             | (None, q) \<Rightarrow> s\<lparr>r_lCount := r_lCount s - 1, r_pc := Gone\<rparr>)
   | Gone \<Rightarrow> None)"

definition cond_signal :: "'a recv_task \<Rightarrow> 'a recv_task" where
  "cond_signal s = (case r_pc s of Sleep b \<Rightarrow> s\<lparr>r_pc := Sleep True\<rparr> | _ \<Rightarrow> s)"

definition add_test :: "'a \<Rightarrow> 'a recv_task \<Rightarrow> 'a recv_task" where
  "add_test x s = (if r_lCanAdd s \<noteq> CANADD then s else s\<lparr>r_pend := r_pend s @ [x]\<rparr>)"

text \<open>The \<open>n\<close>-th of the waiting threads gets the lock, which the second loop holds.\<close>

definition add_push :: "nat \<Rightarrow> 'a recv_task \<Rightarrow> 'a recv_task option" where
  "add_push n s =
     (if r_pc s = Drain \<or> length (r_pend s) \<le> n then None
      else let x = r_pend s ! n;
               s = s\<lparr>r_pend := take n (r_pend s) @ drop (Suc n) (r_pend s),
                     r_vcTask := snd (recv_push (r_vcTask s) x), r_added := r_added s @ [x]\<rparr>
           in Some (if r_uiWait s > 0 then cond_signal s else s))"

text \<open>\<open>join_call\<close> is the test and the first store, \<open>join_exit\<close> the second,
  \<open>join_poll\<close> a round of the loop.\<close>

definition join_call :: "'a recv_task \<Rightarrow> 'a recv_task" where
  "join_call s = (if r_lExit s \<noteq> RS_RUN then s else s\<lparr>r_lCanAdd := CANTADD, r_join := Set_exit\<rparr>)"

definition join_exit :: "'a recv_task \<Rightarrow> 'a recv_task" where
  "join_exit s = s\<lparr>r_lExit := RS_STOP, r_join := Polling\<rparr>"

definition join_poll :: "'a recv_task \<Rightarrow> 'a recv_task" where
  "join_poll s = (let s = cond_signal s in if r_lCount s = 0 then s\<lparr>r_join := Joined\<rparr> else s)"

inductive rt_step :: "'a recv_task \<Rightarrow> 'a recv_task \<Rightarrow> bool" where
  run: "run_step s = Some s' \<Longrightarrow> rt_step s s'"
| wake: "r_pc s = Sleep False \<Longrightarrow> rt_step s (s\<lparr>r_pc := Sleep True\<rparr>)"
| test: "rt_step s (add_test x s)"
| push: "add_push n s = Some s' \<Longrightarrow> rt_step s s'"
| call: "r_join s = Not_called \<Longrightarrow> rt_step s (join_call s)"
| exit: "r_join s = Set_exit \<Longrightarrow> rt_step s (join_exit s)"
| poll: "r_join s = Polling \<Longrightarrow> rt_step s (join_poll s)"

inductive rt_reach :: "'a recv_task \<Rightarrow> bool" where
  init: "rt_reach CRecvTask"
| step: "rt_reach s \<Longrightarrow> rt_step s s' \<Longrightarrow> rt_reach s'"

section \<open>The queue is a queue\<close>

interpretation rq: fifo recv_push recv_pop "\<lambda>q. q" "\<lambda>q. True"
  by unfold_locales (auto simp: recv_push_def)

section \<open>What becomes of a message\<close>

text \<open>The message in the hands of the thread.\<close>

definition held :: "'a recv_task \<Rightarrow> 'a list" where
  "held s = (case r_pc s of Test (Some x) \<Rightarrow> [x] | Exec x \<Rightarrow> [x] | _ \<Rightarrow> [])"

definition stopping :: "'a run_pc \<Rightarrow> bool" where
  "stopping p \<longleftrightarrow> p = Drain \<or> p = Gone"

text \<open>Every message that entered the queue is run, held or still in the queue, in this order,
  but at most one, and that only after the thread has seen \<^verbatim>\<open>RS_STOP\<close>.\<close>

definition all_but_one :: "'a list \<Rightarrow> 'a list \<Rightarrow> 'a list \<Rightarrow> bool" where
  "all_but_one added run rest \<longleftrightarrow>
     (\<exists>l r1 r2. run = r1 @ r2 \<and> added = r1 @ l @ r2 @ rest \<and> length l \<le> 1)"

lemma all_but_one_none: "all_but_one (r @ q) r q"
  unfolding all_but_one_def by (rule exI [of _ "[]"], rule exI [of _ r], rule exI [of _ "[]"]) simp

lemma all_but_one_lost: "all_but_one (r @ x # q) r q"
  unfolding all_but_one_def by (rule exI [of _ "[x]"], rule exI [of _ r], rule exI [of _ "[]"]) simp

lemma all_but_one_add: "all_but_one a r q \<Longrightarrow> all_but_one (a @ [x]) r (q @ [x])"
  unfolding all_but_one_def by fastforce

lemma all_but_one_run: "all_but_one a r (x # q) \<Longrightarrow> all_but_one a (r @ [x]) q"
  unfolding all_but_one_def by (metis append.assoc append_Cons append_Nil)

definition rt_order :: "'a recv_task \<Rightarrow> bool" where
  "rt_order s \<longleftrightarrow>
     (if stopping (r_pc s) then all_but_one (r_added s) (r_ran s) (r_vcTask s)
      else r_added s = r_ran s @ held s @ r_vcTask s)"

lemmas all_but_one_intros = all_but_one_none all_but_one_lost all_but_one_add all_but_one_run

definition rt_ok :: "'a recv_task \<Rightarrow> bool" where
  "rt_ok s \<longleftrightarrow>
     r_uiWait s = (case r_pc s of Sleep _ \<Rightarrow> 1 | _ \<Rightarrow> 0) \<and>
     r_lCount s = (if r_pc s = Enter \<or> r_pc s = Gone then 0 else 1) \<and>
     (r_pc s = Sleep False \<longrightarrow> r_vcTask s = []) \<and>
     (stopping (r_pc s) \<longrightarrow> r_lExit s = RS_STOP) \<and>
     (r_lExit s = RS_STOP \<longleftrightarrow> r_join s = Polling \<or> r_join s = Joined) \<and>
     (r_lCanAdd s = CANADD \<longleftrightarrow> r_join s = Not_called) \<and> rt_order s"

lemmas rt_defs = rt_ok_def rt_order_def held_def stopping_def

lemma rt_ok_init: "rt_ok CRecvTask"
  by (simp add: rt_defs CRecvTask_def)

lemma cond_signal_simps [simp]:
  "r_lExit (cond_signal s) = r_lExit s" "r_lCanAdd (cond_signal s) = r_lCanAdd s"
  "r_lCount (cond_signal s) = r_lCount s" "r_uiWait (cond_signal s) = r_uiWait s"
  "r_vcTask (cond_signal s) = r_vcTask s" "r_join (cond_signal s) = r_join s"
  "r_pend (cond_signal s) = r_pend s" "r_added (cond_signal s) = r_added s" "r_ran (cond_signal s) = r_ran s"
  "held (cond_signal s) = held s" "stopping (r_pc (cond_signal s)) = stopping (r_pc s)"
  "r_pc (cond_signal s) = (case r_pc s of Sleep _ \<Rightarrow> Sleep True | p \<Rightarrow> p)"
  by (auto simp: cond_signal_def held_def stopping_def split: run_pc.split)

lemma rt_ok_signal: "rt_ok s \<Longrightarrow> rt_ok (cond_signal s)"
  by (auto simp: rt_ok_def rt_order_def stopping_def split: run_pc.splits)

lemma rt_ok_run_test:
  assumes "rt_ok s" "run_step s = Some s'" "r_pc s = Test m"
  shows "rt_ok s'"
proof (cases "r_lExit s")
  case RS_RUN
  then show ?thesis using assms by (cases m) (auto simp: rt_defs run_step_def)
next
  case RS_STOP
  show ?thesis
  proof (cases m)
    case None
    then show ?thesis using assms RS_STOP by (auto simp: rt_defs run_step_def all_but_one_none)
  next
    case (Some x)
    then show ?thesis using assms RS_STOP by (auto simp: rt_defs run_step_def all_but_one_lost)
  qed
qed

lemma rt_ok_run:
  assumes "rt_ok s" "run_step s = Some s'"
  shows "rt_ok s'"
proof (cases "r_pc s")
  case (Test m)
  then show ?thesis using rt_ok_run_test [OF assms] by simp
next
  case (Sleep b)
  then show ?thesis using assms by (cases b) (auto simp: rt_defs run_step_def)
next
  case Fetch
  then show ?thesis using assms by (cases "r_vcTask s") (auto simp: rt_defs run_step_def)
next
  case Drain
  then show ?thesis using assms by (cases "r_vcTask s") (auto simp: rt_defs run_step_def all_but_one_run)
qed (use assms in \<open>auto simp: rt_defs run_step_def\<close>)

lemma rt_ok_add_test: "rt_ok s \<Longrightarrow> rt_ok (add_test x s)"
  by (auto simp: rt_ok_def rt_order_def held_def add_test_def)

text \<open>A message enters the queue: the thread, if it sleeps, is woken.\<close>

lemma rt_ok_pushed:
  assumes "rt_ok s" "r_pc s \<noteq> Drain"
  shows "rt_ok (cond_signal (s\<lparr>r_pend := p, r_vcTask := r_vcTask s @ [x], r_added := r_added s @ [x]\<rparr>))"
  using assms by (cases "r_pc s") (auto simp: rt_defs cond_signal_def all_but_one_add)

lemma rt_ok_add:
  assumes "rt_ok s" "add_push n s = Some s'"
  shows "rt_ok s'"
proof -
  let ?s = "s\<lparr>r_pend := take n (r_pend s) @ drop (Suc n) (r_pend s),
     r_vcTask := r_vcTask s @ [r_pend s ! n], r_added := r_added s @ [r_pend s ! n]\<rparr>"
  have pc: "r_pc s \<noteq> Drain" and s': "s' = (if r_uiWait s > 0 then cond_signal ?s else ?s)"
    using assms(2) by (auto simp: add_push_def recv_push_def Let_def split: if_splits)
  have "cond_signal ?s = ?s" if "\<not> r_uiWait s > 0"
    using assms(1) that by (auto simp: rt_ok_def cond_signal_def split: run_pc.splits)
  with s' have "s' = cond_signal ?s" by simp
  with rt_ok_pushed [OF assms(1) pc] show ?thesis by simp
qed

lemma rt_ok_joined: "rt_ok s \<Longrightarrow> r_join s = Polling \<or> r_join s = Joined \<Longrightarrow> rt_ok (s\<lparr>r_join := Joined\<rparr>)"
  by (auto simp: rt_ok_def rt_order_def held_def)

lemma rt_ok_join:
  assumes "rt_ok s"
  shows "r_join s = Not_called \<Longrightarrow> rt_ok (join_call s)" and "r_join s = Set_exit \<Longrightarrow> rt_ok (join_exit s)"
    and "r_join s = Polling \<or> r_join s = Joined \<Longrightarrow> rt_ok (join_poll s)"
proof -
  show "rt_ok (join_call s)" if "r_join s = Not_called" using assms that by (auto simp: rt_ok_def rt_order_def held_def stopping_def join_call_def)
  show "rt_ok (join_exit s)" if "r_join s = Set_exit" using assms that by (auto simp: rt_ok_def rt_order_def held_def join_exit_def)
  show "rt_ok (join_poll s)" if "r_join s = Polling \<or> r_join s = Joined"
    using rt_ok_signal [OF assms] that by (simp add: join_poll_def Let_def rt_ok_joined)
qed

lemma rt_ok_wake: "rt_ok s \<Longrightarrow> r_pc s = Sleep False \<Longrightarrow> rt_ok (s\<lparr>r_pc := Sleep True\<rparr>)"
  by (simp add: rt_defs)

theorem rt_ok_reach: "rt_reach s \<Longrightarrow> rt_ok s"
proof (induction rule: rt_reach.induct)
  case init
  show ?case by (rule rt_ok_init)
next
  case (step s s')
  from step(2) step.IH show ?case
    by cases (auto intro: rt_ok_run rt_ok_wake rt_ok_add rt_ok_add_test rt_ok_join)
qed

section \<open>The end of the thread\<close>

text \<open>\<open>n\<close> steps of the thread alone, woken by \<^verbatim>\<open>Join\<close> when it sleeps.\<close>

fun run_on :: "nat \<Rightarrow> 'a recv_task \<Rightarrow> 'a recv_task" where
  "run_on 0 s = s"
| "run_on (Suc n) s = (case run_step (join_poll s) of None \<Rightarrow> join_poll s | Some s' \<Rightarrow> run_on n s')"

definition run_left :: "'a recv_task \<Rightarrow> nat" where
  "run_left s = (case r_pc s of Gone \<Rightarrow> 0 | Drain \<Rightarrow> 1 | Test m \<Rightarrow> 2 | Sleep b \<Rightarrow> 3 | Enter \<Rightarrow> 3
     | Fetch \<Rightarrow> 4 | Exec x \<Rightarrow> 5) + (if r_pc s = Gone then 0 else length (r_vcTask s))"

lemma run_step_left:
  assumes "r_lExit s = RS_STOP" "run_step s = Some s'"
  shows "run_left s' < run_left s \<and> r_lExit s' = RS_STOP \<and> r_join s' = r_join s"
proof (cases "r_pc s")
  case (Sleep b)
  then show ?thesis using assms by (cases b) (auto simp: run_step_def run_left_def)
next
  case Fetch
  then show ?thesis using assms by (cases "r_vcTask s") (auto simp: run_step_def run_left_def)
next
  case Drain
  then show ?thesis using assms by (cases "r_vcTask s") (auto simp: run_step_def run_left_def)
qed (use assms in \<open>auto simp: run_step_def run_left_def\<close>)

lemma join_poll_left:
  "run_left (join_poll s) = run_left s" "r_lExit (join_poll s) = r_lExit s"
  "r_pc (join_poll s) \<noteq> Sleep False" "r_pc (join_poll s) = Gone \<longleftrightarrow> r_pc s = Gone"
  by (auto simp: join_poll_def Let_def run_left_def split: run_pc.split)

lemma run_step_none: "run_step s = None \<longleftrightarrow> r_pc s = Sleep False \<or> r_pc s = Gone"
  by (auto simp: run_step_def split: run_pc.split bool.split)

lemma run_on_end:
  "r_lExit s = RS_STOP \<Longrightarrow> run_left s < n \<Longrightarrow> r_pc (run_on n s) = Gone"
proof (induction n arbitrary: s)
  case 0
  then show ?case by simp
next
  case (Suc n)
  show ?case
  proof (cases "run_step (join_poll s)")
    case None
    then have "r_pc (join_poll s) = Gone" using join_poll_left(3) by (auto simp: run_step_none)
    with None show ?thesis by simp
  next
    case (Some s')
    from run_step_left [OF _ this] Suc.prems have "run_left s' < n" "r_lExit s' = RS_STOP"
      by (auto simp: join_poll_left)
    with Suc.IH Some show ?thesis by simp
  qed
qed

lemma rt_ok_poll: "rt_ok s \<Longrightarrow> r_lExit s = RS_STOP \<Longrightarrow> rt_ok (join_poll s)"
  by (rule rt_ok_join(3)) (simp_all add: rt_ok_def)

lemma rt_ok_run_on: "rt_ok s \<Longrightarrow> r_lExit s = RS_STOP \<Longrightarrow> rt_ok (run_on n s)"
proof (induction n arbitrary: s)
  case 0
  then show ?case by simp
next
  case (Suc n)
  note p = rt_ok_poll [OF Suc.prems]
  show ?case
  proof (cases "run_step (join_poll s)")
    case None
    with p show ?thesis by simp
  next
    case (Some s')
    with run_step_left [OF _ this] rt_ok_run [OF p this] Suc show ?thesis by (simp add: join_poll_left)
  qed
qed

section \<open>Schedules\<close>

text \<open>An interleaving as data, to follow one.\<close>

datatype 'a rt_act = RunThread | AddTest 'a | AddPush nat | JoinCall | JoinExit | JoinPoll

fun rt_do :: "'a rt_act \<Rightarrow> 'a recv_task \<Rightarrow> 'a recv_task option" where
  "rt_do RunThread s = run_step s"
| "rt_do (AddTest x) s = Some (add_test x s)"
| "rt_do (AddPush n) s = add_push n s"
| "rt_do JoinCall s = (if r_join s = Not_called then Some (join_call s) else None)"
| "rt_do JoinExit s = (if r_join s = Set_exit then Some (join_exit s) else None)"
| "rt_do JoinPoll s = (if r_join s = Polling then Some (join_poll s) else None)"

fun rt_sched :: "'a rt_act list \<Rightarrow> 'a recv_task \<Rightarrow> 'a recv_task option" where
  "rt_sched [] s = Some s"
| "rt_sched (a # as) s = (case rt_do a s of None \<Rightarrow> None | Some s' \<Rightarrow> rt_sched as s')"

lemma rt_do_step: "rt_do a s = Some s' \<Longrightarrow> rt_step s s'"
  by (cases a) (auto intro: rt_step.intros split: if_splits)

lemma rt_sched_reach: "rt_reach s \<Longrightarrow> rt_sched as s = Some s' \<Longrightarrow> rt_reach s'"
proof (induction "as" arbitrary: s)
  case Nil
  then show ?case by simp
next
  case (Cons a acts)
  then obtain s1 where 1: "rt_do a s = Some s1" "rt_sched acts s1 = Some s'" by (auto split: option.splits)
  from rt_reach.step [OF Cons.prems(1) rt_do_step [OF 1(1)]] 1(2) show ?case by (rule Cons.IH)
qed

end
