(* ===== verification/Snow_Flake.thy ===== *)
theory Snow_Flake
  imports Prelude "HOL-Library.Monad_Syntax"
begin

text \<open>
  \<^verbatim>\<open>HBase/SnowFlake.cpp\<close>: 64-bit identifiers from the time in milliseconds, the number of
  the data centre, the number of the machine and a sequence number.

  The clock is the list of its readings, a \<^verbatim>\<open>timeval\<close> each; an operation takes those it
  reads off the front.  A failed assertion and a loop that reads on for ever, when no reading
  is left, are \<open>None\<close>.
\<close>

definition Epoch :: u64 where "Epoch = 1358902800000"
definition WorkerIdBits :: nat where "WorkerIdBits = 5"
definition DatacenterIdBits :: nat where "DatacenterIdBits = 5"
definition MaxWorkerId :: int where "MaxWorkerId = 31"
definition MaxDatacenterId :: int where "MaxDatacenterId = 31"
definition SequenceBits :: nat where "SequenceBits = 12"
definition WorkerIdShift :: nat where "WorkerIdShift = SequenceBits"
definition DatacenterIdShift :: nat where "DatacenterIdShift = SequenceBits + WorkerIdBits"
definition TimestampLeftShift :: nat where "TimestampLeftShift = SequenceBits + WorkerIdBits + DatacenterIdBits"
definition SequenceMask :: u64 where "SequenceMask = 0xFFF"

lemmas sf_defs = WorkerIdBits_def DatacenterIdBits_def SequenceBits_def WorkerIdShift_def DatacenterIdShift_def
  TimestampLeftShift_def

type_synonym timeval = "u64 \<times> u64"

record snowflake =
  m_uiWorkid :: u32
  m_uiCenterid :: u32
  m_lSequence :: u64
  m_ulLastTime :: u64

definition sf_ms :: "timeval \<Rightarrow> u64" where
  "sf_ms t = (case t of (tv_sec, tv_usec) \<Rightarrow> tv_usec div 1000 + tv_sec * 1000)"

fun getCurMS :: "timeval list \<Rightarrow> (u64 \<times> timeval list) option" where
  "getCurMS [] = None"
| "getCurMS (t # ts) = Some (sf_ms t, ts)"

text \<open>The constructor does not set \<^verbatim>\<open>m_uiCenterid\<close>: \<open>junk\<close> is what the memory holds.\<close>

definition CSnowFlake :: "u32 \<Rightarrow> timeval list \<Rightarrow> (snowflake \<times> timeval list) option" where
  "CSnowFlake junk ts = do {
     (ms, ts) \<leftarrow> getCurMS ts;
     Some (\<lparr>m_uiWorkid = 0, m_uiCenterid = junk, m_lSequence = 0, m_ulLastTime = ms\<rparr>, ts)
   }"

definition setWorkid :: "int \<Rightarrow> snowflake \<Rightarrow> snowflake option" where
  "setWorkid uiID s =
     (if uiID \<le> MaxWorkerId \<and> uiID \<ge> 0 then Some (s\<lparr>m_uiWorkid := word_of_int uiID\<rparr>) else None)"

definition setCenterid :: "int \<Rightarrow> snowflake \<Rightarrow> snowflake option" where
  "setCenterid uiID s =
     (if uiID \<le> MaxDatacenterId \<and> uiID \<ge> 0 then Some (s\<lparr>m_uiCenterid := word_of_int uiID\<rparr>) else None)"

fun tilNextMillis :: "u64 \<Rightarrow> timeval list \<Rightarrow> (u64 \<times> timeval list) option" where
  "tilNextMillis lst [] = None"
| "tilNextMillis lst (t # ts) = (if sf_ms t \<le> lst then tilNextMillis lst ts else Some (sf_ms t, ts))"

text \<open>\<^verbatim>\<open>m_uiCenterid << DatacenterIdShift\<close> is an \<^verbatim>\<open>int\<close>, which is extended with its sign.\<close>

definition getID :: "snowflake \<Rightarrow> timeval list \<Rightarrow> (u64 \<times> snowflake \<times> timeval list) option" where
  "getID s ts = do {
     (uiCurTime, ts) \<leftarrow> getCurMS ts;
     if \<not> uiCurTime \<ge> m_ulLastTime s then None
     else do {
       (uiCurTime, s, ts) \<leftarrow>
         (if uiCurTime = m_ulLastTime s then
            let s = s\<lparr>m_lSequence := (m_lSequence s + 1) AND SequenceMask\<rparr>
            in if 0 = m_lSequence s
               then map_option (\<lambda>(t, ts). (t, s, ts)) (tilNextMillis (m_ulLastTime s) ts)
               else Some (uiCurTime, s, ts)
          else Some (uiCurTime, s\<lparr>m_lSequence := 0\<rparr>, ts));
       let s = s\<lparr>m_ulLastTime := uiCurTime\<rparr>;
       Some (push_bit TimestampLeftShift (uiCurTime - Epoch) OR
               scast (push_bit DatacenterIdShift (m_uiCenterid s)) OR
               scast (push_bit WorkerIdShift (m_uiWorkid s)) OR
               m_lSequence s, s, ts)
     }
   }"

text \<open>\<open>n\<close> calls.\<close>

fun getIDs :: "nat \<Rightarrow> snowflake \<Rightarrow> timeval list \<Rightarrow> (u64 list \<times> snowflake \<times> timeval list) option" where
  "getIDs 0 s ts = Some ([], s, ts)"
| "getIDs (Suc n) s ts = do {
     (i, s, ts) \<leftarrow> getID s ts;
     (is, s, ts) \<leftarrow> getIDs n s ts;
     Some (i # is, s, ts)
   }"

section \<open>The value of an identifier\<close>

definition sf_node :: "snowflake \<Rightarrow> nat" where
  "sf_node s = unat (m_uiCenterid s) * 32 + unat (m_uiWorkid s)"

text \<open>A configured generator, and readings between 2013 and 2152, for which the shift of the time
  loses nothing.\<close>

definition sf_ok :: "snowflake \<Rightarrow> bool" where
  "sf_ok s \<longleftrightarrow> unat (m_uiCenterid s) < 32 \<and> unat (m_uiWorkid s) < 32 \<and> unat (m_lSequence s) < 4096"

definition sf_time_ok :: "u64 \<Rightarrow> bool" where
  "sf_time_ok t \<longleftrightarrow> unat Epoch \<le> unat t \<and> unat t < unat Epoch + 2 ^ 42"

lemma unat_Epoch: "unat Epoch = 1358902800000"
  by (simp add: Epoch_def)

lemma nat_or_disjoint:
  fixes a b :: nat
  assumes "b < 2 ^ n" "2 ^ n dvd a"
  shows "a OR b = a + b"
proof -
  have "a AND b = 0"
  proof (rule bit_eqI)
    fix m
    have "take_bit n b = b" using assms(1) by (rule take_bit_nat_eq_self)
    then have b: "bit b m \<Longrightarrow> m < n" by (metis bit_take_bit_iff)
    obtain q where "a = push_bit n q" using assms(2) by (auto simp: push_bit_eq_mult mult.commute)
    then have "bit a m \<Longrightarrow> n \<le> m" by (simp add: bit_push_bit_iff)
    with b show "bit (a AND b) m = bit 0 m" by (auto simp: bit_and_iff)
  qed
  then show ?thesis by (simp add: disjunctive_add_eq_or)
qed

text \<open>The fields of an identifier do not overlap.\<close>

lemma sf_fields:
  assumes "t < 2 ^ 42" "c < 32" "w < 32" "q < (4096 :: nat)"
  shows "push_bit 22 t OR push_bit 17 c OR push_bit 12 w OR q = ((t * 32 + c) * 32 + w) * 4096 + q"
proof -
  have "push_bit 22 t OR push_bit 17 c = (t * 32 + c) * 2 ^ 17"
    using assms(2) by (subst nat_or_disjoint [of _ 22]) (simp_all add: push_bit_eq_mult)
  moreover have "(t * 32 + c) * 2 ^ 17 OR push_bit 12 w = ((t * 32 + c) * 32 + w) * 2 ^ 12"
    using assms(3) by (subst nat_or_disjoint [of _ 17]) (simp_all add: push_bit_eq_mult)
  moreover have "((t * 32 + c) * 32 + w) * 2 ^ 12 OR q = ((t * 32 + c) * 32 + w) * 2 ^ 12 + q"
    using assms(4) by (subst nat_or_disjoint [of _ 12]) simp_all
  ultimately show ?thesis by (simp flip: or.assoc)
qed

lemma unat_push_small: "unat w * 2 ^ n < 2 ^ LENGTH('a) \<Longrightarrow> unat (push_bit n w :: 'a::len word) = unat w * 2 ^ n"
  by (simp only: unsigned_push_bit_eq) (simp add: push_bit_eq_mult take_bit_nat_eq_self)

lemma unat_scast_small:
  assumes "unat (w :: u32) < 2 ^ 31"
  shows "unat (scast w :: u64) = unat w"
proof -
  have "scast w = (ucast w :: u64)"
  proof (rule bit_word_eqI)
    fix n
    have "take_bit 31 w = w"
      by (metis assms take_bit_nat_eq_self unsigned_take_bit_eq unsigned_word_eqI)
    then have b: "bit w m \<Longrightarrow> m < 31" for m by (metis bit_take_bit_iff)
    show "bit (scast w :: u64) n = bit (ucast w :: u64) n"
      using b [of 31] by (auto simp: bit_simps min_def dest: b)
  qed
  moreover have "unat (ucast w :: u64) = unat w"
    using assms by (simp add: unsigned_ucast_eq take_bit_nat_eq_self)
  ultimately show ?thesis by simp
qed

lemma sf_id_value:
  assumes "sf_ok s" "sf_time_ok t"
  shows "unat (push_bit TimestampLeftShift (t - Epoch) OR scast (push_bit DatacenterIdShift (m_uiCenterid s)) OR
      scast (push_bit WorkerIdShift (m_uiWorkid s)) OR m_lSequence s) =
    ((unat t - unat Epoch) * 1024 + sf_node s) * 4096 + unat (m_lSequence s)"
proof -
  have d: "unat (t - Epoch) = unat t - unat Epoch"
    using assms(2) by (simp add: sf_time_ok_def unat_sub_if')
  have l: "unat (t - Epoch) < 2 ^ 42" using assms(2) unfolding d sf_time_ok_def by arith
  have ok: "unat (m_uiCenterid s) < 32" "unat (m_uiWorkid s) < 32" "unat (m_lSequence s) < 4096"
    using assms(1) by (simp_all add: sf_ok_def)
  have "unat (push_bit 22 (t - Epoch)) = push_bit 22 (unat (t - Epoch))"
    using l by (subst unat_push_small) (simp_all add: push_bit_eq_mult)
  moreover have c: "unat (push_bit 17 (m_uiCenterid s)) = unat (m_uiCenterid s) * 2 ^ 17"
    "unat (push_bit 12 (m_uiWorkid s)) = unat (m_uiWorkid s) * 2 ^ 12"
    using ok by (subst unat_push_small; simp)+
  moreover have "unat (scast (push_bit 17 (m_uiCenterid s)) :: u64) = push_bit 17 (unat (m_uiCenterid s))"
    "unat (scast (push_bit 12 (m_uiWorkid s)) :: u64) = push_bit 12 (unat (m_uiWorkid s))"
    using ok c by (subst unat_scast_small; simp add: push_bit_eq_mult)+
  ultimately show ?thesis
    using sf_fields [OF l ok] d
    by (simp add: sf_defs unsigned_or_eq sf_node_def)
qed

section \<open>A series of identifiers\<close>

text \<open>The position of a generator: later positions have greater time and sequence number.\<close>

definition sf_pos :: "snowflake \<Rightarrow> nat" where
  "sf_pos s = unat (m_ulLastTime s) * 4096 + unat (m_lSequence s)"

lemma tilNextMillis_later: "tilNextMillis m ts = Some (t, ts') \<Longrightarrow> m < t \<and> set ts' \<subseteq> set ts \<and> t \<in> sf_ms ` set ts"
proof (induction ts)
  case (Cons a ts)
  then show ?case by (cases "sf_ms a \<le> m") auto
qed simp

lemma seq_mask: "unat ((q + 1) AND SequenceMask :: u64) = (unat q + 1) mod 4096"
proof -
  have "SequenceMask = mask 12" by (simp add: SequenceMask_def mask_eq_exp_minus_1)
  then have "(q + 1) AND SequenceMask = take_bit 12 (q + 1)" by (simp add: take_bit_eq_mask)
  then have "unat ((q + 1) AND SequenceMask) = unat (q + 1) mod 4096"
    by (simp only: unsigned_take_bit_eq) (simp add: take_bit_eq_mod)
  also have "unat (q + 1) = (unat q + 1) mod 2 ^ 64" by (simp add: unat_word_ariths)
  also have "(unat q + 1) mod 2 ^ 64 mod 4096 = (unat q + 1) mod 4096" by (simp add: mod_mod_cancel)
  finally show ?thesis .
qed

lemma getID_step:
  assumes "getID s ts = Some (i, s', ts')" "sf_ok s" "list_all (\<lambda>t. sf_time_ok (sf_ms t)) ts"
  shows "sf_ok s'" "sf_node s' = sf_node s" "sf_pos s < sf_pos s'" "sf_time_ok (m_ulLastTime s')"
    "unat i = ((unat (m_ulLastTime s') - unat Epoch) * 1024 + sf_node s') * 4096 + unat (m_lSequence s')"
    "list_all (\<lambda>t. sf_time_ok (sf_ms t)) ts'"
proof -
  obtain r rest where ts: "ts = r # rest" using assms(1) by (cases ts) (auto simp: getID_def)
  have le: "m_ulLastTime s \<le> sf_ms r" using assms(1) by (auto simp: getID_def ts split: if_splits)
  have q: "unat (m_lSequence s) < 4096" using assms(2) by (simp add: sf_ok_def)
  define u where "u = (m_lSequence s + 1) AND SequenceMask"
  have u: "unat u = (unat (m_lSequence s) + 1) mod 4096" by (simp add: u_def seq_mask)
  consider (same) "sf_ms r = m_ulLastTime s" "u \<noteq> 0" "s' = s\<lparr>m_lSequence := u, m_ulLastTime := sf_ms r\<rparr>" "ts' = rest"
    | (full) t where "sf_ms r = m_ulLastTime s" "u = 0" "tilNextMillis (m_ulLastTime s) rest = Some (t, ts')"
        "s' = s\<lparr>m_lSequence := u, m_ulLastTime := t\<rparr>"
    | (later) "m_ulLastTime s < sf_ms r" "s' = s\<lparr>m_lSequence := 0, m_ulLastTime := sf_ms r\<rparr>" "ts' = rest"
  proof (cases "sf_ms r = m_ulLastTime s")
    case True
    show thesis
    proof (cases "u = 0")
      case True
      with \<open>sf_ms r = m_ulLastTime s\<close> show thesis using assms(1)
        by (cases "tilNextMillis (m_ulLastTime s) rest") (auto simp: getID_def ts Let_def u_def full)
    next
      case False
      with \<open>sf_ms r = m_ulLastTime s\<close> show thesis using assms(1)
        by (intro same) (auto simp: getID_def ts Let_def u_def)
    qed
  next
    case False
    with le have lt: "m_ulLastTime s < sf_ms r" by simp
    have "s' = s\<lparr>m_lSequence := 0, m_ulLastTime := sf_ms r\<rparr> \<and> ts' = rest"
      using assms(1) False le by (simp add: getID_def ts Let_def)
    with lt show thesis by (auto intro: later)
  qed
  then have *: "sf_ok s' \<and> sf_node s' = sf_node s \<and> sf_pos s < sf_pos s' \<and> sf_time_ok (m_ulLastTime s') \<and>
      list_all (\<lambda>t. sf_time_ok (sf_ms t)) ts'"
  proof cases
    case same
    then have "unat u \<noteq> 0" by (simp add: unat_eq_zero)
    with u q have "unat u = unat (m_lSequence s) + 1" by (simp add: mod_if split: if_splits)
    then show ?thesis using same assms(2,3) ts by (auto simp: sf_ok_def sf_node_def sf_pos_def u)
  next
    case full
    from tilNextMillis_later [OF full(3)] have t: "unat (m_ulLastTime s) < unat t" "sf_time_ok t"
      "set ts' \<subseteq> set rest"
      using assms(3) ts by (auto simp: list_all_iff word_less_nat_alt)
    then show ?thesis using full assms(2,3) ts q by (auto simp: sf_ok_def sf_node_def sf_pos_def list_all_iff)
  next
    case later
    then have "unat (m_ulLastTime s) < unat (sf_ms r)" by (simp add: word_less_nat_alt)
    then show ?thesis using later assms(2,3) ts q by (auto simp: sf_ok_def sf_node_def sf_pos_def)
  qed
  then show "sf_ok s'" "sf_node s' = sf_node s" "sf_pos s < sf_pos s'" "sf_time_ok (m_ulLastTime s')"
    "list_all (\<lambda>t. sf_time_ok (sf_ms t)) ts'" by blast+
  have "i = push_bit TimestampLeftShift (m_ulLastTime s' - Epoch) OR scast (push_bit DatacenterIdShift (m_uiCenterid s')) OR
      scast (push_bit WorkerIdShift (m_uiWorkid s')) OR m_lSequence s'"
    using assms(1) by (auto simp: getID_def Let_def bind_eq_Some_conv split: if_splits)
  with sf_id_value [of s' "m_ulLastTime s'"] *
  show "unat i = ((unat (m_ulLastTime s') - unat Epoch) * 1024 + sf_node s') * 4096 + unat (m_lSequence s')" by simp
qed

lemma sf_node_inj:
  assumes "sf_ok s" "sf_ok r" "(m_uiCenterid s, m_uiWorkid s) \<noteq> (m_uiCenterid r, m_uiWorkid r)"
  shows "sf_node s \<noteq> sf_node r"
proof
  assume e: "sf_node s = sf_node r"
  have "unat (m_uiWorkid s) = sf_node s mod 32" "unat (m_uiWorkid r) = sf_node r mod 32"
    "unat (m_uiCenterid s) = sf_node s div 32" "unat (m_uiCenterid r) = sf_node r div 32"
    using assms(1,2) by (simp_all add: sf_ok_def sf_node_def)
  with e assms(3) show False by (auto simp: word_unat_eq_iff)
qed

lemma sf_node_of_id:
  assumes "n < 1024" "q < (4096 :: nat)"
  shows "((k * 1024 + n) * 4096 + q) div 4096 mod 1024 = n"
proof -
  have "((k * 1024 + n) * 4096 + q) div 4096 = k * 1024 + n" using assms(2) by (simp del: distrib_right add_mult_distrib add_mult_distrib2)
  then show ?thesis using assms(1) by simp
qed

lemma getIDs_range:
  assumes "getIDs n s ts = Some (is, s', ts')" "sf_ok s" "list_all (\<lambda>t. sf_time_ok (sf_ms t)) ts"
  shows "sorted_wrt (<) (map unat is) \<and>
    list_all (\<lambda>i. unat i div 4096 mod 1024 = sf_node s) is \<and>
    (\<forall>i \<in> set is. \<exists>k q. unat (m_ulLastTime s) \<le> k + unat Epoch \<and> q < 4096 \<and>
       unat i = (k * 1024 + sf_node s) * 4096 + q \<and> sf_pos s < (k + unat Epoch) * 4096 + q)"
  using assms
proof (induction n arbitrary: s ts "is")
  case 0
  then show ?case by simp
next
  case (Suc n)
  then obtain i s1 ts1 ids where 1: "getID s ts = Some (i, s1, ts1)"
    and r: "getIDs n s1 ts1 = Some (ids, s', ts')" and "is": "is = i # ids"
    by (auto simp: bind_eq_Some_conv)
  note st = getID_step [OF 1 Suc.prems(2,3)]
  note IH = Suc.IH [OF r st(1,6)]
  have ok: "unat (m_lSequence s1) < 4096" "unat Epoch \<le> unat (m_ulLastTime s1)"
    using st(1,4) by (simp_all add: sf_ok_def sf_time_ok_def)
  have n: "sf_node s1 < 1024" using st(1) by (simp add: sf_ok_def sf_node_def)
  have "unat i < unat j" if "j \<in> set ids" for j
  proof -
    from IH that obtain k q where k: "unat (m_ulLastTime s1) \<le> k + unat Epoch" "q < 4096"
      "unat j = (k * 1024 + sf_node s1) * 4096 + q" "sf_pos s1 < (k + unat Epoch) * 4096 + q" by blast
    show ?thesis
    proof (cases "unat (m_ulLastTime s1) = k + unat Epoch")
      case True
      then show ?thesis using k(3,4) st(5) by (simp add: sf_pos_def)
    next
      case False
      with k(1) have "unat (m_ulLastTime s1) - unat Epoch + 1 \<le> k" using ok(2) by arith
      then have "(unat (m_ulLastTime s1) - unat Epoch + 1) * 1024 \<le> k * 1024" by (rule mult_le_mono1)
      then show ?thesis using k(3) st(5) ok(1) by simp
    qed
  qed
  moreover have "unat i div 4096 mod 1024 = sf_node s"
    unfolding st(5) using sf_node_of_id [OF n ok(1)] st(2) by simp
  moreover have "unat (m_ulLastTime s) \<le> unat (m_ulLastTime s1)"
    using st(3) ok(1) by (simp add: sf_pos_def)
  moreover have "\<exists>k q. unat (m_ulLastTime s) \<le> k + unat Epoch \<and> q < 4096 \<and>
       unat i = (k * 1024 + sf_node s) * 4096 + q \<and> sf_pos s < (k + unat Epoch) * 4096 + q"
    using st(2,3,5) ok calculation(3)
    by (intro exI [of _ "unat (m_ulLastTime s1) - unat Epoch"] exI [of _ "unat (m_lSequence s1)"])
       (simp add: sf_pos_def)
  moreover have "\<exists>k q. unat (m_ulLastTime s) \<le> k + unat Epoch \<and> q < 4096 \<and>
       unat j = (k * 1024 + sf_node s) * 4096 + q \<and> sf_pos s < (k + unat Epoch) * 4096 + q" if "j \<in> set ids" for j
  proof -
    from IH that obtain k q where k: "unat (m_ulLastTime s1) \<le> k + unat Epoch" "q < 4096"
      "unat j = (k * 1024 + sf_node s1) * 4096 + q" "sf_pos s1 < (k + unat Epoch) * 4096 + q" by blast
    show ?thesis
      by (rule exI [of _ k], rule exI [of _ q], intro conjI order.trans [OF calculation(3) k(1)] k(2)
            less_trans [OF st(3) k(4)]) (use k(3) st(2) in simp)
  qed
  ultimately show ?case using IH st(2)
    by (simp add: "is")
qed

end
