(* ===== verification/Dispatch.thy ===== *)
theory Dispatch
  imports Fifo
begin

text \<open>
  The tasks, their channels and the pool of workers: \<^verbatim>\<open>HBase/Chan.cpp\<close>,
  \<^verbatim>\<open>HBase/Worker.cpp\<close>, \<^verbatim>\<open>HBase/Worker.h\<close>, \<^verbatim>\<open>HBase/WorkerDisp.cpp\<close> and
  \<^verbatim>\<open>HBase/WorkerDisp.h\<close>.

  A task has a name, a channel of messages and a count \<open>ref\<close> of the workers it was given to.
  A \<^verbatim>\<open>Send\<close> puts a message in the channel and then the name of the task in the queue of the
  dispatcher; the dispatcher takes names off that queue and gives the task to a free worker, or puts the name
  back when the task is already with one.  A run of a task takes one message off its channel, as the scripts
  of \<^verbatim>\<open>Bin\<close> do.

  Each operation is cut where another thread can come in between.  Until it is stopped a worker
  runs every task it was given in order (theory \<open>Recv_Task\<close>), so its queue is a list here.
\<close>

datatype worker_status = WS_FREE | WS_BUSY

text \<open>In \<^verbatim>\<open>CWorker::runTask\<close>: before the run, after it, after \<^verbatim>\<open>subRef\<close>.\<close>

datatype worker_phase = W_Run | W_Ran | W_Subbed

record 'n worker =
  w_status :: worker_status
  w_tasks :: "'n list"
  w_now :: "('n \<times> worker_phase) option"

text \<open>In the loop of \<^verbatim>\<open>CWorkerDisp::Run\<close>: at its start, with a name, in
  \<^verbatim>\<open>getFreeWorker\<close> looking at a worker, with that worker found, set busy, with \<open>ref\<close>
  counted.\<close>

datatype 'n disp_pc = D_Loop | D_Task 'n | D_Find 'n nat | D_Found 'n nat | D_Busy 'n nat | D_Ref 'n nat

text \<open>\<open>d_pend\<close> are the threads in \<^verbatim>\<open>Send\<close> before \<^verbatim>\<open>Notify\<close>;
  \<open>d_sent\<close> and \<open>d_recvd\<close> record what went through each channel.\<close>

record ('n, 'm) disp =
  d_mapTask :: "'n list"
  d_quTask :: "'n list"
  d_ref :: "'n \<Rightarrow> u32"
  d_chan :: "'n \<Rightarrow> 'm list"
  d_worker :: "'n worker list"
  d_pc :: "'n disp_pc"
  d_pend :: "'n list"
  d_sent :: "'n \<Rightarrow> 'm list"
  d_recvd :: "'n \<Rightarrow> 'm list"

definition CWorker :: "'n worker" where
  "CWorker = \<lparr>w_status = WS_FREE, w_tasks = [], w_now = None\<rparr>"

text \<open>\<^verbatim>\<open>regTask\<close> for the names, \<^verbatim>\<open>setThreadNum\<close> with \<open>n\<close> workers, at least one.\<close>

definition disp_init :: "'n list \<Rightarrow> nat \<Rightarrow> ('n, 'm) disp" where
  "disp_init names n =
     \<lparr>d_mapTask = names, d_quTask = [], d_ref = (\<lambda>_. 0), d_chan = (\<lambda>_. []), d_worker = replicate n CWorker,
      d_pc = D_Loop, d_pend = [], d_sent = (\<lambda>_. []), d_recvd = (\<lambda>_. [])\<rparr>"

section \<open>The operations\<close>

definition chan_Send :: "'n \<Rightarrow> 'm \<Rightarrow> ('n, 'm) disp \<Rightarrow> ('n, 'm) disp" where
  "chan_Send t m s = s\<lparr>d_chan := (d_chan s)(t := d_chan s t @ [m]), d_pend := d_pend s @ [t],
     d_sent := (d_sent s)(t := d_sent s t @ [m])\<rparr>"

definition disp_Notify :: "nat \<Rightarrow> ('n, 'm) disp \<Rightarrow> ('n, 'm) disp option" where
  "disp_Notify i s =
     (if i < length (d_pend s)
      then Some (s\<lparr>d_quTask := d_quTask s @ [d_pend s ! i], d_pend := take i (d_pend s) @ drop (Suc i) (d_pend s)\<rparr>)
      else None)"

definition chan_Recv :: "'n \<Rightarrow> ('n, 'm) disp \<Rightarrow> 'm option \<times> ('n, 'm) disp" where
  "chan_Recv t s = (case d_chan s t of
     [] \<Rightarrow> (None, s)
   | m # q \<Rightarrow> (Some m, s\<lparr>d_chan := (d_chan s)(t := q), d_recvd := (d_recvd s)(t := d_recvd s t @ [m])\<rparr>))"

definition getTask :: "'n \<Rightarrow> ('n, 'm) disp \<Rightarrow> 'n option" where
  "getTask t s = (if t \<in> set (d_mapTask s) then Some t else None)"

text \<open>\<open>None\<close>: the queue is empty, the loop sleeps a while and looks again.\<close>

definition disp_step :: "('n, 'm) disp \<Rightarrow> ('n, 'm) disp option" where
  "disp_step s = (case d_pc s of
     D_Loop \<Rightarrow>
       (case d_quTask s of
          [] \<Rightarrow> None
        | t # q \<Rightarrow> Some (s\<lparr>d_quTask := q, d_pc := (case getTask t s of None \<Rightarrow> D_Loop | Some t \<Rightarrow> D_Task t)\<rparr>))
   | D_Task t \<Rightarrow>
       Some (if d_ref s t \<noteq> 0 then s\<lparr>d_quTask := d_quTask s @ [t], d_pc := D_Loop\<rparr> else s\<lparr>d_pc := D_Find t 0\<rparr>)
   | D_Find t i \<Rightarrow>
       Some (if length (d_worker s) \<le> i then s\<lparr>d_pc := D_Find t 0\<rparr>
             else if w_status (d_worker s ! i) = WS_FREE then s\<lparr>d_pc := D_Found t i\<rparr>
             else s\<lparr>d_pc := D_Find t (Suc i)\<rparr>)
   | D_Found t i \<Rightarrow>
       Some (s\<lparr>d_worker := (d_worker s)[i := (d_worker s ! i)\<lparr>w_status := WS_BUSY\<rparr>], d_pc := D_Busy t i\<rparr>)
   | D_Busy t i \<Rightarrow> Some (s\<lparr>d_ref := (d_ref s)(t := d_ref s t + 1), d_pc := D_Ref t i\<rparr>)
   | D_Ref t i \<Rightarrow>
       (let w = d_worker s ! i
        in Some (s\<lparr>d_worker := (d_worker s)[i := w\<lparr>w_tasks := w_tasks w @ [t]\<rparr>], d_pc := D_Loop\<rparr>)))"

text \<open>\<open>None\<close>: the worker sleeps.\<close>

definition worker_step :: "nat \<Rightarrow> ('n, 'm) disp \<Rightarrow> ('n, 'm) disp option" where
  "worker_step i s =
     (if length (d_worker s) \<le> i then None
      else let w = d_worker s ! i; put = (\<lambda>w s. s\<lparr>d_worker := (d_worker s)[i := w]\<rparr>)
      in case w_now w of
           None \<Rightarrow> (case w_tasks w of [] \<Rightarrow> None | t # q \<Rightarrow> Some (put (w\<lparr>w_tasks := q, w_now := Some (t, W_Run)\<rparr>) s))
         | Some (t, W_Run) \<Rightarrow> Some (put (w\<lparr>w_now := Some (t, W_Ran)\<rparr>) (snd (chan_Recv t s)))
         | Some (t, W_Ran) \<Rightarrow> Some (put (w\<lparr>w_now := Some (t, W_Subbed)\<rparr>) (s\<lparr>d_ref := (d_ref s)(t := d_ref s t - 1)\<rparr>))
         | Some (t, W_Subbed) \<Rightarrow> Some (put (w\<lparr>w_status := WS_FREE, w_now := None\<rparr>) s))"

text \<open>The steps of the framework, and those of its users.\<close>

inductive d_work :: "('n, 'm) disp \<Rightarrow> ('n, 'm) disp \<Rightarrow> bool" where
  disp: "disp_step s = Some s' \<Longrightarrow> d_work s s'"
| worker: "worker_step i s = Some s' \<Longrightarrow> d_work s s'"
| notify: "disp_Notify i s = Some s' \<Longrightarrow> d_work s s'"

inductive d_reach :: "('n, 'm) disp \<Rightarrow> bool" where
  init: "0 < n \<Longrightarrow> d_reach (disp_init names n)"
| work: "d_reach s \<Longrightarrow> d_work s s' \<Longrightarrow> d_reach s'"
| send: "d_reach s \<Longrightarrow> t \<in> set (d_mapTask s) \<Longrightarrow> d_reach (chan_Send t m s)"

section \<open>Counting\<close>

text \<open>What a worker and the dispatcher contribute to \<open>ref\<close>, and to the runs a task is due.\<close>

definition w_ref :: "'n \<Rightarrow> 'n worker \<Rightarrow> nat" where
  "w_ref t w = count_list (w_tasks w) t +
     (case w_now w of Some (u, p) \<Rightarrow> if u = t \<and> p \<noteq> W_Subbed then 1 else 0 | None \<Rightarrow> 0)"

definition w_due :: "'n \<Rightarrow> 'n worker \<Rightarrow> nat" where
  "w_due t w = count_list (w_tasks w) t +
     (case w_now w of Some (u, p) \<Rightarrow> if u = t \<and> p = W_Run then 1 else 0 | None \<Rightarrow> 0)"

fun pc_task :: "'n disp_pc \<Rightarrow> 'n option" where
  "pc_task D_Loop = None"
| "pc_task (D_Task t) = Some t"
| "pc_task (D_Find t i) = Some t"
| "pc_task (D_Found t i) = Some t"
| "pc_task (D_Busy t i) = Some t"
| "pc_task (D_Ref t i) = Some t"

definition d_refs :: "'n \<Rightarrow> ('n, 'm) disp \<Rightarrow> nat" where
  "d_refs t s = sum_list (map (w_ref t) (d_worker s)) + (case d_pc s of D_Ref u i \<Rightarrow> if u = t then 1 else 0 | _ \<Rightarrow> 0)"

definition d_due :: "'n \<Rightarrow> ('n, 'm) disp \<Rightarrow> nat" where
  "d_due t s = count_list (d_pend s) t + count_list (d_quTask s) t + (if pc_task (d_pc s) = Some t then 1 else 0) +
     sum_list (map (w_due t) (d_worker s))"

lemma sum_list_map_update:
  fixes f :: "'a \<Rightarrow> nat"
  shows "i < length ws \<Longrightarrow> sum_list (map f (ws[i := w])) + f (ws ! i) = sum_list (map f ws) + f w"
  by (induction ws arbitrary: i) (auto split: nat.split)

lemma count_list_append_one [simp]: "count_list (xs @ [x]) t = count_list xs t + (if x = t then 1 else 0)"
  by simp

lemma count_list_remove_nth:
  "i < length xs \<Longrightarrow> count_list (take i xs @ drop (Suc i) xs) t + (if xs ! i = t then 1 else 0) = count_list xs t"
proof -
  assume "i < length xs"
  then have "count_list xs t = count_list (take i xs @ xs ! i # drop (Suc i) xs) t"
    by (simp only: id_take_nth_drop [symmetric])
  then show ?thesis by simp
qed

section \<open>The invariants\<close>

definition w_jobs :: "'n worker \<Rightarrow> nat" where
  "w_jobs w = length (w_tasks w) + (case w_now w of None \<Rightarrow> 0 | Some _ \<Rightarrow> 1)"

text \<open>The worker the dispatcher has set busy and not yet given its task.\<close>

fun pc_sel :: "'n disp_pc \<Rightarrow> nat option" where
  "pc_sel (D_Busy t i) = Some i"
| "pc_sel (D_Ref t i) = Some i"
| "pc_sel p = None"

fun pc_found :: "'n disp_pc \<Rightarrow> nat option" where
  "pc_found (D_Found t i) = Some i"
| "pc_found p = None"

text \<open>A task that was found not to be with a worker.\<close>

fun pc_new :: "'n disp_pc \<Rightarrow> 'n option" where
  "pc_new (D_Find t i) = Some t"
| "pc_new (D_Found t i) = Some t"
| "pc_new (D_Busy t i) = Some t"
| "pc_new p = None"

text \<open>A worker has one task at most, and is busy exactly when it has one or is about to.\<close>

definition worker_ok :: "'n disp_pc \<Rightarrow> nat \<Rightarrow> 'n worker \<Rightarrow> bool" where
  "worker_ok pc i w \<longleftrightarrow> w_jobs w + (if pc_sel pc = Some i then 1 else 0) = (if w_status w = WS_BUSY then 1 else 0) \<and>
     (pc_found pc = Some i \<longrightarrow> w_status w = WS_FREE)"

definition pool_ok :: "('n, 'm) disp \<Rightarrow> bool" where
  "pool_ok s \<longleftrightarrow> d_worker s \<noteq> [] \<and>
     (\<forall>i. (pc_sel (d_pc s) = Some i \<or> pc_found (d_pc s) = Some i \<longrightarrow> i < length (d_worker s)) \<and>
          (i < length (d_worker s) \<longrightarrow> worker_ok (d_pc s) i (d_worker s ! i)))"

definition names_ok :: "('n, 'm) disp \<Rightarrow> bool" where
  "names_ok s \<longleftrightarrow> set (d_quTask s) \<union> set (d_pend s) \<union> set_option (pc_task (d_pc s)) \<subseteq> set (d_mapTask s)"

text \<open>A task is with one worker at most.\<close>

definition ref_ok :: "('n, 'm) disp \<Rightarrow> bool" where
  "ref_ok s \<longleftrightarrow> (\<forall>t. unat (d_ref s t) = d_refs t s \<and> d_refs t s + (if pc_new (d_pc s) = Some t then 1 else 0) \<le> 1)"

text \<open>For every message in a channel the task has a run to come.\<close>

definition due_ok :: "('n, 'm) disp \<Rightarrow> bool" where
  "due_ok s \<longleftrightarrow> (\<forall>t. length (d_chan s t) \<le> d_due t s \<and> d_sent s t = d_recvd s t @ d_chan s t)"

definition disp_ok :: "('n, 'm) disp \<Rightarrow> bool" where
  "disp_ok s \<longleftrightarrow> pool_ok s \<and> names_ok s \<and> ref_ok s \<and> due_ok s"

lemma disp_ok_init: "0 < n \<Longrightarrow> disp_ok (disp_init names n)"
  by (auto simp: disp_ok_def pool_ok_def names_ok_def ref_ok_def due_ok_def disp_init_def worker_ok_def CWorker_def
      w_jobs_def d_refs_def w_ref_def sum_list_replicate)

lemma disp_ok_send:
  assumes "disp_ok s" "t \<in> set (d_mapTask s)"
  shows "disp_ok (chan_Send t m s)"
proof -
  let ?s = "chan_Send t m s"
  have "pool_ok ?s" using assms(1) by (simp add: disp_ok_def pool_ok_def chan_Send_def)
  moreover have "names_ok ?s" using assms by (simp add: disp_ok_def names_ok_def chan_Send_def)
  moreover have "ref_ok ?s" using assms(1) by (simp add: disp_ok_def ref_ok_def d_refs_def chan_Send_def)
  moreover have "due_ok ?s" using assms(1) by (simp add: disp_ok_def due_ok_def d_due_def chan_Send_def)
  ultimately show ?thesis by (simp add: disp_ok_def)
qed

lemma disp_ok_notify:
  assumes "disp_ok s" "disp_Notify i s = Some s'"
  shows "disp_ok s'"
proof -
  have i: "i < length (d_pend s)" and s': "s' = s\<lparr>d_quTask := d_quTask s @ [d_pend s ! i],
      d_pend := take i (d_pend s) @ drop (Suc i) (d_pend s)\<rparr>"
    using assms(2) by (auto simp: disp_Notify_def split: if_splits)
  have "pool_ok s'" using assms(1) by (simp add: disp_ok_def pool_ok_def s')
  moreover have "names_ok s'" using assms(1) i
    by (auto simp: disp_ok_def names_ok_def s' dest: in_set_takeD in_set_dropD)
  moreover have "ref_ok s'" using assms(1) by (simp add: disp_ok_def ref_ok_def d_refs_def s')
  moreover have "d_due t s' = d_due t s" for t
    using count_list_remove_nth [OF i, of t] by (cases "d_pend s ! i = t") (simp_all add: d_due_def s')
  then have "due_ok s'" using assms(1) by (simp add: disp_ok_def due_ok_def s')
  ultimately show ?thesis by (simp add: disp_ok_def)
qed

text \<open>A step that changes no worker, and one that changes the \<open>i\<close>-th.\<close>

lemma pool_ok_same:
  assumes "pool_ok s" "d_worker s' = d_worker s" "pc_sel (d_pc s') = pc_sel (d_pc s)" "pc_found (d_pc s') = None"
  shows "pool_ok s'"
  using assms by (auto simp: pool_ok_def worker_ok_def)

lemma pool_ok_change:
  assumes "pool_ok s" "d_worker s' = (d_worker s)[i := w]" "i < length (d_worker s)" "worker_ok (d_pc s') i w"
    and "\<And>j. pc_sel (d_pc s') = Some j \<or> pc_found (d_pc s') = Some j \<Longrightarrow> j < length (d_worker s)"
    and "\<And>j w. j \<noteq> i \<Longrightarrow> worker_ok (d_pc s) j w \<Longrightarrow> worker_ok (d_pc s') j w"
  shows "pool_ok s'"
  unfolding pool_ok_def
proof (intro conjI allI impI)
  show "d_worker s' \<noteq> []" using assms(1,2) by (simp add: pool_ok_def)
  fix j
  show "j < length (d_worker s')" if "pc_sel (d_pc s') = Some j \<or> pc_found (d_pc s') = Some j"
    using assms(2) assms(5) [OF that] by simp
  show "worker_ok (d_pc s') j (d_worker s' ! j)" if "j < length (d_worker s')"
    using that assms(1,2,4,6) by (cases "j = i") (simp_all add: pool_ok_def)
qed

lemma pool_okD:
  assumes "pool_ok s"
  shows "pc_sel (d_pc s) = Some i \<or> pc_found (d_pc s) = Some i \<Longrightarrow> i < length (d_worker s)"
    and "i < length (d_worker s) \<Longrightarrow> worker_ok (d_pc s) i (d_worker s ! i)"
  using assms by (auto simp: pool_ok_def)

lemma disp_step_cases:
  assumes "disp_step s = Some s'"
  obtains (unknown) t q where "d_pc s = D_Loop" "d_quTask s = t # q" "t \<notin> set (d_mapTask s)" "s' = s\<lparr>d_quTask := q\<rparr>"
  | (name) t q where "d_pc s = D_Loop" "d_quTask s = t # q" "t \<in> set (d_mapTask s)"
      "s' = s\<lparr>d_quTask := q, d_pc := D_Task t\<rparr>"
  | (again) t where "d_pc s = D_Task t" "d_ref s t \<noteq> 0" "s' = s\<lparr>d_quTask := d_quTask s @ [t], d_pc := D_Loop\<rparr>"
  | (fresh) t where "d_pc s = D_Task t" "d_ref s t = 0" "s' = s\<lparr>d_pc := D_Find t 0\<rparr>"
  | (look) t i j where "d_pc s = D_Find t i" "s' = s\<lparr>d_pc := D_Find t j\<rparr>"
      "length (d_worker s) \<le> i \<or> w_status (d_worker s ! i) \<noteq> WS_FREE"
  | (found) t i where "d_pc s = D_Find t i" "i < length (d_worker s)" "w_status (d_worker s ! i) = WS_FREE"
      "s' = s\<lparr>d_pc := D_Found t i\<rparr>"
  | (busy) t i where "d_pc s = D_Found t i"
      "s' = s\<lparr>d_worker := (d_worker s)[i := (d_worker s ! i)\<lparr>w_status := WS_BUSY\<rparr>], d_pc := D_Busy t i\<rparr>"
  | (addref) t i where "d_pc s = D_Busy t i" "s' = s\<lparr>d_ref := (d_ref s)(t := d_ref s t + 1), d_pc := D_Ref t i\<rparr>"
  | (give) t i where "d_pc s = D_Ref t i"
      "s' = s\<lparr>d_worker := (d_worker s)[i := (d_worker s ! i)\<lparr>w_tasks := w_tasks (d_worker s ! i) @ [t]\<rparr>], d_pc := D_Loop\<rparr>"
proof (cases "d_pc s")
  case D_Loop
  then obtain t q where q: "d_quTask s = t # q" using assms by (cases "d_quTask s") (auto simp: disp_step_def)
  show thesis
  proof (cases "t \<in> set (d_mapTask s)")
    case True
    with assms D_Loop q show thesis by (intro name) (auto simp: disp_step_def getTask_def)
  next
    case False
    have "s\<lparr>d_quTask := q, d_pc := D_Loop\<rparr> = s\<lparr>d_quTask := q\<rparr>" using D_Loop by simp
    with False assms D_Loop q show thesis by (intro unknown) (auto simp: disp_step_def getTask_def)
  qed
next
  case (D_Task t)
  with assms show thesis by (cases "d_ref s t = 0") (auto simp: disp_step_def intro: again fresh)
next
  case (D_Find t i)
  show thesis
  proof (cases "i < length (d_worker s) \<and> w_status (d_worker s ! i) = WS_FREE")
    case True
    with assms D_Find show thesis by (intro found) (auto simp: disp_step_def)
  next
    case False
    with assms D_Find show thesis
      by (cases "i < length (d_worker s)") (auto simp: disp_step_def intro: look)
  qed
next
  case (D_Found t i)
  with assms show thesis by (intro busy) (auto simp: disp_step_def)
next
  case (D_Busy t i)
  with assms show thesis by (intro addref) (auto simp: disp_step_def)
next
  case (D_Ref t i)
  with assms show thesis by (intro give) (auto simp: disp_step_def Let_def)
qed

lemma pool_ok_disp:
  assumes "pool_ok s" "disp_step s = Some s'"
  shows "pool_ok s'"
  using assms(2)
proof (cases rule: disp_step_cases)
  case (found t i)
  with assms(1) show ?thesis by (auto simp: pool_ok_def worker_ok_def)
next
  case (busy t i)
  from pool_okD [OF assms(1), of i] busy(1) have i: "i < length (d_worker s)" "worker_ok (d_pc s) i (d_worker s ! i)"
    by auto
  show ?thesis
    by (rule pool_ok_change [OF assms(1), of s' i "(d_worker s ! i)\<lparr>w_status := WS_BUSY\<rparr>"])
       (use i in \<open>auto simp: busy worker_ok_def w_jobs_def\<close>)
next
  case (give t i)
  from pool_okD [OF assms(1), of i] give(1) have i: "i < length (d_worker s)" "worker_ok (d_pc s) i (d_worker s ! i)"
    by auto
  show ?thesis
    by (rule pool_ok_change [OF assms(1), of s' i "(d_worker s ! i)\<lparr>w_tasks := w_tasks (d_worker s ! i) @ [t]\<rparr>"])
       (use i in \<open>auto simp: give worker_ok_def w_jobs_def\<close>)
qed (auto intro: pool_ok_same [OF assms(1)])

lemma worker_step_cases:
  assumes "worker_step i s = Some s'"
  obtains (taken) t q where "w_now (d_worker s ! i) = None" "w_tasks (d_worker s ! i) = t # q"
      "s' = s\<lparr>d_worker := (d_worker s)[i := (d_worker s ! i)\<lparr>w_tasks := q, w_now := Some (t, W_Run)\<rparr>]\<rparr>"
  | (run) t where "w_now (d_worker s ! i) = Some (t, W_Run)"
      "s' = (snd (chan_Recv t s))\<lparr>d_worker := (d_worker s)[i := (d_worker s ! i)\<lparr>w_now := Some (t, W_Ran)\<rparr>]\<rparr>"
  | (sub) t where "w_now (d_worker s ! i) = Some (t, W_Ran)"
      "s' = s\<lparr>d_worker := (d_worker s)[i := (d_worker s ! i)\<lparr>w_now := Some (t, W_Subbed)\<rparr>],
              d_ref := (d_ref s)(t := d_ref s t - 1)\<rparr>"
  | (free) t where "w_now (d_worker s ! i) = Some (t, W_Subbed)"
      "s' = s\<lparr>d_worker := (d_worker s)[i := (d_worker s ! i)\<lparr>w_status := WS_FREE, w_now := None\<rparr>]\<rparr>"
proof (cases "w_now (d_worker s ! i)")
  case None
  then obtain t q where "w_tasks (d_worker s ! i) = t # q"
    using assms by (cases "w_tasks (d_worker s ! i)") (auto simp: worker_step_def split: if_splits)
  with None assms show thesis by (intro taken) (auto simp: worker_step_def Let_def split: if_splits)
next
  case (Some tp)
  obtain t p where tp: "tp = (t, p)" by (cases tp)
  have r: "d_worker (snd (chan_Recv t s)) = d_worker s" by (simp add: chan_Recv_def split: list.split)
  show thesis
  proof (cases p)
    case W_Run
    with Some tp assms r show thesis by (intro run) (auto simp: worker_step_def Let_def split: if_splits)
  next
    case W_Ran
    with Some tp assms show thesis by (intro sub) (auto simp: worker_step_def Let_def split: if_splits)
  next
    case W_Subbed
    with Some tp assms show thesis by (intro free) (auto simp: worker_step_def Let_def split: if_splits)
  qed
qed

lemma worker_step_lt: "worker_step i s = Some s' \<Longrightarrow> i < length (d_worker s)"
  by (simp add: worker_step_def split: if_splits)

lemma chan_Recv_simps [simp]:
  "d_pc (snd (chan_Recv t s)) = d_pc s" "d_mapTask (snd (chan_Recv t s)) = d_mapTask s"
  "d_quTask (snd (chan_Recv t s)) = d_quTask s" "d_pend (snd (chan_Recv t s)) = d_pend s"
  "d_ref (snd (chan_Recv t s)) = d_ref s" "d_sent (snd (chan_Recv t s)) = d_sent s"
  "d_worker (snd (chan_Recv t s)) = d_worker s"
  by (simp_all add: chan_Recv_def split: list.split)

lemma pool_ok_worker:
  assumes "pool_ok s" "worker_step i s = Some s'"
  shows "pool_ok s'"
proof -
  note i = worker_step_lt [OF assms(2)]
  have ok: "worker_ok (d_pc s) i (d_worker s ! i)" using pool_okD(2) [OF assms(1) i] .
  from assms(2) have "\<exists>w. d_worker s' = (d_worker s)[i := w] \<and> d_pc s' = d_pc s \<and> worker_ok (d_pc s) i w"
    by (cases rule: worker_step_cases) (use ok in \<open>auto simp: worker_ok_def w_jobs_def split: if_splits\<close>)
  then show ?thesis using pool_okD(1) [OF assms(1)]
    by (auto intro: pool_ok_change [OF assms(1) _ i])
qed

text \<open>The sums over the workers when one of them changes.\<close>

lemmas w_sums = sum_list_map_update [of _ "d_worker _" "w_ref _"] sum_list_map_update [of _ "d_worker _" "w_due _"]

lemma w_ref_elem: "i < length ws \<Longrightarrow> w_ref t (ws ! i) \<le> sum_list (map (w_ref t) ws)"
  using elem_le_sum_list [of i "map (w_ref t) ws"] by simp

lemma names_ok_disp:
  assumes "names_ok s" "disp_step s = Some s'"
  shows "names_ok s' \<and> d_mapTask s' = d_mapTask s"
  using assms(2) by (cases rule: disp_step_cases) (use assms(1) in \<open>auto simp: names_ok_def\<close>)

lemma names_ok_worker:
  assumes "names_ok s" "worker_step i s = Some s'"
  shows "names_ok s' \<and> d_mapTask s' = d_mapTask s"
  using assms(2) by (cases rule: worker_step_cases) (use assms(1) in \<open>auto simp: names_ok_def\<close>)

lemma w_sums_busy:
  "i < length ws \<Longrightarrow> sum_list (map (w_ref t) (ws[i := (ws ! i)\<lparr>w_status := b\<rparr>])) = sum_list (map (w_ref t) ws)"
  "i < length ws \<Longrightarrow> sum_list (map (w_due t) (ws[i := (ws ! i)\<lparr>w_status := b\<rparr>])) = sum_list (map (w_due t) ws)"
  using sum_list_map_update [of i ws "w_ref t" "(ws ! i)\<lparr>w_status := b\<rparr>"]
    sum_list_map_update [of i ws "w_due t" "(ws ! i)\<lparr>w_status := b\<rparr>"]
  by (simp_all add: w_ref_def w_due_def)

lemma w_sums_give:
  assumes "i < length ws"
  shows "sum_list (map (w_ref t) (ws[i := (ws ! i)\<lparr>w_tasks := w_tasks (ws ! i) @ [u]\<rparr>])) =
      sum_list (map (w_ref t) ws) + (if u = t then 1 else 0)"
    and "sum_list (map (w_due t) (ws[i := (ws ! i)\<lparr>w_tasks := w_tasks (ws ! i) @ [u]\<rparr>])) =
      sum_list (map (w_due t) ws) + (if u = t then 1 else 0)"
  using sum_list_map_update [OF assms, of "w_ref t" "(ws ! i)\<lparr>w_tasks := w_tasks (ws ! i) @ [u]\<rparr>"]
    sum_list_map_update [OF assms, of "w_due t" "(ws ! i)\<lparr>w_tasks := w_tasks (ws ! i) @ [u]\<rparr>"]
  by (simp_all add: w_ref_def w_due_def)

lemma ref_ok_disp:
  assumes "ref_ok s" "pool_ok s" "disp_step s = Some s'"
  shows "ref_ok s'"
  using assms(3)
proof (cases rule: disp_step_cases)
  case (fresh t)
  then have "d_refs t s = 0" using assms(1) by (metis ref_ok_def unat_0)
  with fresh assms(1) show ?thesis by (auto simp: ref_ok_def d_refs_def)
next
  case (busy t i)
  then have "i < length (d_worker s)" using pool_okD(1) [OF assms(2), of i] by simp
  with busy assms(1) show ?thesis by (auto simp: ref_ok_def d_refs_def w_sums_busy)
next
  case (addref t i)
  then have 0: "d_refs t s = 0" "unat (d_ref s t) = 0"
    using assms(1) [unfolded ref_ok_def, THEN spec, of t] by simp_all
  then have "d_ref s t = 0" by (simp add: unat_eq_zero)
  with addref 0 assms(1) show ?thesis by (auto simp: ref_ok_def d_refs_def)
next
  case (give t i)
  then have "i < length (d_worker s)" using pool_okD(1) [OF assms(2), of i] by simp
  with give assms(1) show ?thesis by (auto simp: ref_ok_def d_refs_def w_sums_give)
qed (use assms(1) in \<open>auto simp: ref_ok_def d_refs_def\<close>)

lemma due_ok_same:
  assumes "due_ok s" "\<And>u. d_due u s' = d_due u s" "d_chan s' = d_chan s" "d_sent s' = d_sent s" "d_recvd s' = d_recvd s"
  shows "due_ok s'"
  using assms by (simp add: due_ok_def)

lemma due_ok_disp:
  assumes "due_ok s" "pool_ok s" "names_ok s" "disp_step s = Some s'"
  shows "due_ok s'"
  using assms(4)
proof (cases rule: disp_step_cases)
  case (unknown t q)
  with assms(3) show ?thesis by (simp add: names_ok_def)
next
  case (name t q)
  have "d_due u s' = d_due u s" for u using name by (cases "u = t") (simp_all add: d_due_def)
  with name show ?thesis by (intro due_ok_same [OF assms(1)]) simp_all
next
  case (again t)
  have "d_due u s' = d_due u s" for u using again by (cases "u = t") (simp_all add: d_due_def)
  with again show ?thesis by (intro due_ok_same [OF assms(1)]) simp_all
next
  case (busy t i)
  then have "i < length (d_worker s)" using pool_okD(1) [OF assms(2), of i] by simp
  with busy show ?thesis by (intro due_ok_same [OF assms(1)]) (simp_all add: d_due_def w_sums_busy)
next
  case (give t i)
  then have "i < length (d_worker s)" using pool_okD(1) [OF assms(2), of i] by simp
  then have "d_due u s' = d_due u s" for u using give by (cases "u = t") (simp_all add: d_due_def w_sums_give)
  with give show ?thesis by (intro due_ok_same [OF assms(1)]) simp_all
qed (auto intro!: due_ok_same [OF assms(1)] simp: d_due_def)

lemma ref_ok_worker:
  assumes "ref_ok s" "worker_step i s = Some s'"
  shows "ref_ok s'"
proof -
  note up = sum_list_map_update [OF worker_step_lt [OF assms(2)], of "w_ref _"]
  from assms(2) show ?thesis
  proof (cases rule: worker_step_cases)
    case (taken t q)
    have "d_refs u s' = d_refs u s" for u
      using up [of u "(d_worker s ! i)\<lparr>w_tasks := q, w_now := Some (t, W_Run)\<rparr>"] taken
      by (cases "u = t") (simp_all add: d_refs_def w_ref_def)
    with taken assms(1) show ?thesis by (simp add: ref_ok_def)
  next
    case (run t)
    have "d_refs u s' = d_refs u s" for u
      using up [of u "(d_worker s ! i)\<lparr>w_now := Some (t, W_Ran)\<rparr>"] run by (simp add: d_refs_def w_ref_def)
    with run assms(1) show ?thesis by (simp add: ref_ok_def)
  next
    case (sub t)
    have *: "d_refs u s' + (if u = t then 1 else 0) = d_refs u s" for u
      using up [of u "(d_worker s ! i)\<lparr>w_now := Some (t, W_Subbed)\<rparr>"] sub
      by (cases "u = t") (simp_all add: d_refs_def w_ref_def)
    have r: "unat (d_ref s t) = d_refs t s" using assms(1) by (simp add: ref_ok_def)
    have "d_ref s t \<noteq> 0" using * [of t] r by auto
    then have "unat (d_ref s t - 1) = d_refs t s'" using * [of t] r by (simp add: unat_minus_one)
    moreover have "unat (d_ref s' u) = d_refs u s'" if "u \<noteq> t" for u
      using * [of u] that assms(1) sub by (simp add: ref_ok_def)
    moreover have "d_refs u s' + (if pc_new (d_pc s') = Some u then 1 else 0) \<le> 1" for u
    proof -
      have "d_refs u s' \<le> d_refs u s" using * [of u] by simp
      moreover have "d_refs u s + (if pc_new (d_pc s') = Some u then 1 else 0) \<le> 1"
        using assms(1) sub by (simp add: ref_ok_def)
      ultimately show ?thesis by linarith
    qed
    moreover have "d_ref s' t = d_ref s t - 1" using sub by simp
    ultimately show ?thesis unfolding ref_ok_def by metis
  next
    case (free t)
    have "d_refs u s' = d_refs u s" for u
      using up [of u "(d_worker s ! i)\<lparr>w_status := WS_FREE, w_now := None\<rparr>"] free by (simp add: d_refs_def w_ref_def)
    with free assms(1) show ?thesis by (simp add: ref_ok_def)
  qed
qed

lemma due_ok_worker:
  assumes "due_ok s" "worker_step i s = Some s'"
  shows "due_ok s'"
proof -
  note up = sum_list_map_update [OF worker_step_lt [OF assms(2)], of "w_due _"]
  from assms(2) show ?thesis
  proof (cases rule: worker_step_cases)
    case (taken t q)
    have "d_due u s' = d_due u s" for u
      using up [of u "(d_worker s ! i)\<lparr>w_tasks := q, w_now := Some (t, W_Run)\<rparr>"] taken
      by (cases "u = t") (simp_all add: d_due_def w_due_def)
    with taken assms(1) show ?thesis by (simp add: due_ok_def)
  next
    case (run t)
    have d: "d_due u s' + (if u = t then 1 else 0) = d_due u s" for u
      using up [of u "(d_worker s ! i)\<lparr>w_now := Some (t, W_Ran)\<rparr>"] run
      by (cases "u = t") (simp_all add: d_due_def w_due_def)
    have "length (d_chan s' u) \<le> d_due u s' \<and> d_sent s' u = d_recvd s' u @ d_chan s' u" for u
      using assms(1) [unfolded due_ok_def, THEN spec, of u] d [of u] run
      by (cases "d_chan s t"; cases "u = t") (simp_all add: chan_Recv_def)
    then show ?thesis by (simp add: due_ok_def)
  next
    case (sub t)
    have "d_due u s' = d_due u s" for u
      using up [of u "(d_worker s ! i)\<lparr>w_now := Some (t, W_Subbed)\<rparr>"] sub by (simp add: d_due_def w_due_def)
    with sub assms(1) show ?thesis by (simp add: due_ok_def)
  next
    case (free t)
    have "d_due u s' = d_due u s" for u
      using up [of u "(d_worker s ! i)\<lparr>w_status := WS_FREE, w_now := None\<rparr>"] free by (simp add: d_due_def w_due_def)
    with free assms(1) show ?thesis by (simp add: due_ok_def)
  qed
qed

lemma disp_okD: "disp_ok s \<Longrightarrow> pool_ok s" "disp_ok s \<Longrightarrow> names_ok s" "disp_ok s \<Longrightarrow> ref_ok s" "disp_ok s \<Longrightarrow> due_ok s"
  by (simp_all add: disp_ok_def)

lemma disp_ok_disp:
  assumes "disp_ok s" "disp_step s = Some s'"
  shows "disp_ok s'"
proof -
  note d = disp_okD [OF assms(1)]
  show ?thesis using pool_ok_disp [OF d(1) assms(2)] names_ok_disp [OF d(2) assms(2)] ref_ok_disp [OF d(3,1) assms(2)]
      due_ok_disp [OF d(4,1,2) assms(2)] by (simp add: disp_ok_def)
qed

lemma disp_ok_worker:
  assumes "disp_ok s" "worker_step i s = Some s'"
  shows "disp_ok s'"
proof -
  note d = disp_okD [OF assms(1)]
  show ?thesis using pool_ok_worker [OF d(1) assms(2)] names_ok_worker [OF d(2) assms(2)] ref_ok_worker [OF d(3) assms(2)]
      due_ok_worker [OF d(4) assms(2)] by (simp add: disp_ok_def)
qed

lemma disp_ok_work:
  assumes "d_work s s'" "disp_ok s"
  shows "disp_ok s'"
  using assms(1)
proof cases
  case disp
  show ?thesis by (rule disp_ok_disp [OF assms(2) disp])
next
  case (worker i)
  show ?thesis by (rule disp_ok_worker [OF assms(2) worker])
next
  case (notify i)
  show ?thesis by (rule disp_ok_notify [OF assms(2) notify])
qed

lemma disp_ok_reach: "d_reach s \<Longrightarrow> disp_ok s"
proof (induction rule: d_reach.induct)
  case (init n names)
  then show ?case by (rule disp_ok_init)
next
  case (work s s')
  show ?case by (rule disp_ok_work [OF work(2) work.IH])
next
  case (send s t m)
  show ?case by (rule disp_ok_send [OF send.IH send(2)])
qed

section \<open>Progress\<close>

definition quiet :: "('n, 'm) disp \<Rightarrow> bool" where
  "quiet s \<longleftrightarrow> d_pend s = [] \<and> d_quTask s = [] \<and> d_pc s = D_Loop \<and> list_all (\<lambda>w. w_jobs w = 0) (d_worker s)"

fun pc_left :: "nat \<Rightarrow> 'n disp_pc \<Rightarrow> nat" where
  "pc_left n D_Loop = 0"
| "pc_left n (D_Task t) = 10"
| "pc_left n (D_Find t i) = (if i < n then 8 else 9)"
| "pc_left n (D_Found t i) = 7"
| "pc_left n (D_Busy t i) = 6"
| "pc_left n (D_Ref t i) = 5"

definition w_left :: "'n worker \<Rightarrow> nat" where
  "w_left w = 4 * length (w_tasks w) +
     (case w_now w of None \<Rightarrow> 0 | Some (t, W_Run) \<Rightarrow> 3 | Some (t, W_Ran) \<Rightarrow> 2 | Some (t, W_Subbed) \<Rightarrow> 1)"

definition d_left :: "('n, 'm) disp \<Rightarrow> nat" where
  "d_left s = 12 * length (d_pend s) + 11 * length (d_quTask s) + pc_left (length (d_worker s)) (d_pc s) +
     sum_list (map w_left (d_worker s))"

lemma quiet_due: "quiet s \<Longrightarrow> d_due t s = 0"
  by (auto simp: quiet_def d_due_def w_due_def w_jobs_def list_all_iff split: option.splits)

lemma worker_progress:
  assumes "i < length (d_worker s)" "w_jobs (d_worker s ! i) \<noteq> 0"
  shows "\<exists>s'. worker_step i s = Some s' \<and> d_left s' < d_left s"
proof -
  have "worker_step i s \<noteq> None"
    using assms by (auto simp: worker_step_def w_jobs_def Let_def split: option.splits list.splits worker_phase.splits)
  then obtain s' where s': "worker_step i s = Some s'" by blast
  note up = sum_list_map_update [OF assms(1), of w_left]
  from s' have "d_left s' < d_left s"
  proof (cases rule: worker_step_cases)
    case (taken t q)
    then show ?thesis
      using up [of "(d_worker s ! i)\<lparr>w_tasks := q, w_now := Some (t, W_Run)\<rparr>"] by (simp add: d_left_def w_left_def)
  next
    case (run t)
    then show ?thesis
      using up [of "(d_worker s ! i)\<lparr>w_now := Some (t, W_Ran)\<rparr>"] by (simp add: d_left_def w_left_def)
  next
    case (sub t)
    then show ?thesis
      using up [of "(d_worker s ! i)\<lparr>w_now := Some (t, W_Subbed)\<rparr>"] by (simp add: d_left_def w_left_def)
  next
    case (free t)
    then show ?thesis
      using up [of "(d_worker s ! i)\<lparr>w_status := WS_FREE, w_now := None\<rparr>"] by (simp add: d_left_def w_left_def)
  qed
  with s' show ?thesis by blast
qed

lemma disp_progress:
  assumes "disp_ok s" "list_all (\<lambda>w. w_jobs w = 0) (d_worker s)" "d_pc s \<noteq> D_Loop \<or> d_quTask s \<noteq> []"
  shows "\<exists>s'. disp_step s = Some s' \<and> d_left s' < d_left s"
proof -
  note ok = disp_okD [OF assms(1)]
  have "disp_step s \<noteq> None" using assms(3)
    by (auto simp: disp_step_def Let_def split: disp_pc.splits list.splits)
  then obtain s' where s': "disp_step s = Some s'" by blast
  from s' have "d_left s' < d_left s"
  proof (cases rule: disp_step_cases)
    case (again t)
    have "sum_list (map (w_ref t) (d_worker s)) = 0"
      using assms(2) by (auto simp: list_all_iff w_jobs_def w_ref_def split: option.splits)
    with again have "d_refs t s = 0" by (simp add: d_refs_def)
    then have "unat (d_ref s t) = 0" using ok(3) by (simp add: ref_ok_def)
    with again show ?thesis by (simp add: unat_eq_zero)
  next
    case (look t i j)
    have "w_status (d_worker s ! i) = WS_FREE" if "i < length (d_worker s)"
    proof -
      have "w_jobs (d_worker s ! i) = 0" using assms(2) that by (simp add: list_all_length)
      with pool_okD(2) [OF ok(1) that] look(1) show ?thesis
        by (cases "w_status (d_worker s ! i)") (simp_all add: worker_ok_def)
    qed
    with look(3) have i: "length (d_worker s) \<le> i" by force
    moreover have "d_worker s \<noteq> []" using ok(1) by (simp add: pool_ok_def)
    moreover from i s' look(1) have "s' = s\<lparr>d_pc := D_Find t 0\<rparr>" by (simp add: disp_step_def)
    ultimately show ?thesis using look(1) by (simp add: d_left_def)
  next
    case (busy t i)
    then have i: "i < length (d_worker s)" using pool_okD(1) [OF ok(1), of i] by simp
    from sum_list_map_update [OF this, of w_left "(d_worker s ! i)\<lparr>w_status := WS_BUSY\<rparr>"] busy
    show ?thesis by (simp add: d_left_def w_left_def)
  next
    case (give t i)
    then have i: "i < length (d_worker s)" using pool_okD(1) [OF ok(1), of i] by simp
    from sum_list_map_update [OF this, of w_left "(d_worker s ! i)\<lparr>w_tasks := w_tasks (d_worker s ! i) @ [t]\<rparr>"] give
    show ?thesis by (simp add: d_left_def w_left_def)
  qed (auto simp: d_left_def)
  with s' show ?thesis by blast
qed

lemma d_progress:
  assumes "disp_ok s" "\<not> quiet s"
  shows "\<exists>s'. d_work s s' \<and> d_left s' < d_left s"
proof (cases "list_all (\<lambda>w. w_jobs w = 0) (d_worker s)")
  case False
  then obtain i where "i < length (d_worker s)" "w_jobs (d_worker s ! i) \<noteq> 0" by (auto simp: list_all_length)
  from worker_progress [OF this] show ?thesis by (blast intro: d_work.worker)
next
  case idle: True
  show ?thesis
  proof (cases "d_pend s")
    case (Cons t ts)
    then have "disp_Notify 0 s = Some (s\<lparr>d_quTask := d_quTask s @ [t], d_pend := ts\<rparr>)" by (simp add: disp_Notify_def)
    then have "d_work s (s\<lparr>d_quTask := d_quTask s @ [t], d_pend := ts\<rparr>)" by (rule d_work.notify)
    with Cons show ?thesis by (intro exI conjI) (auto simp: d_left_def)
  next
    case Nil
    with idle assms(2) have "d_pc s \<noteq> D_Loop \<or> d_quTask s \<noteq> []" by (auto simp: quiet_def)
    from disp_progress [OF assms(1) idle this] show ?thesis by (blast intro: d_work.disp)
  qed
qed

lemma d_work_sent: "d_work s s' \<Longrightarrow> d_sent s' = d_sent s"
  by (erule d_work.cases)
     (auto elim!: disp_step_cases worker_step_cases simp: disp_Notify_def split: if_splits)

lemma d_settles:
  "disp_ok s \<Longrightarrow> \<exists>s'. d_work\<^sup>*\<^sup>* s s' \<and> quiet s' \<and> disp_ok s' \<and> d_sent s' = d_sent s"
proof (induction "d_left s" arbitrary: s rule: less_induct)
  case less
  show ?case
  proof (cases "quiet s")
    case True
    with less.prems show ?thesis by blast
  next
    case False
    from d_progress [OF less.prems False] obtain s1 where 1: "d_work s s1" "d_left s1 < d_left s" by blast
    from less.hyps [OF 1(2) disp_ok_work [OF 1(1) less.prems]] obtain s' where
      "d_work\<^sup>*\<^sup>* s1 s'" "quiet s'" "disp_ok s'" "d_sent s' = d_sent s1" by blast
    with 1(1) d_work_sent [OF 1(1)] show ?thesis by (metis converse_rtranclp_into_rtranclp)
  qed
qed

section \<open>The end\<close>

text \<open>\<^verbatim>\<open>runSurpTask\<close>, after the workers have been stopped: a name for every message left in
  a channel, then a run for every name.\<close>

definition surp_fill :: "('n, 'm) disp \<Rightarrow> ('n, 'm) disp" where
  "surp_fill s =
     s\<lparr>d_quTask := d_quTask s @ concat (map (\<lambda>t. replicate (length (d_chan s t)) t) (d_mapTask s))\<rparr>"

fun surp_loop :: "'n list \<Rightarrow> ('n, 'm) disp \<Rightarrow> ('n, 'm) disp" where
  "surp_loop [] s = s"
| "surp_loop (t # q) s = surp_loop q (case getTask t s of None \<Rightarrow> s | Some t \<Rightarrow> snd (chan_Recv t s))"

definition runSurpTask :: "('n, 'm) disp \<Rightarrow> ('n, 'm) disp" where
  "runSurpTask s = (let s = surp_fill s in surp_loop (d_quTask s) (s\<lparr>d_quTask := []\<rparr>))"

lemma surp_loop:
  assumes "\<forall>t. d_sent s t = d_recvd s t @ d_chan s t"
  shows "(\<forall>t. d_sent (surp_loop q s) t = d_recvd (surp_loop q s) t @ d_chan (surp_loop q s) t) \<and>
    d_sent (surp_loop q s) = d_sent s \<and>
    (\<forall>t \<in> set (d_mapTask s). length (d_chan (surp_loop q s) t) = length (d_chan s t) - count_list q t)"
  using assms
proof (induction q arbitrary: s)
  case Nil
  then show ?case by simp
next
  case (Cons u q)
  show ?case
  proof (cases "u \<in> set (d_mapTask s)")
    case True
    let ?s = "snd (chan_Recv u s)"
    have "\<forall>t. d_sent ?s t = d_recvd ?s t @ d_chan ?s t" "\<forall>t. length (d_chan ?s t) = length (d_chan s t) - (if u = t then 1 else 0)"
      using Cons.prems by (auto simp: chan_Recv_def split: list.split)
    with Cons.IH [of ?s] True show ?thesis by (auto simp: getTask_def)
  next
    case False
    with Cons.IH [of s] Cons.prems show ?thesis by (auto simp: getTask_def)
  qed
qed

lemma count_list_replicate_same: "count_list (replicate n x) x = n"
  by (induction n) auto

lemma count_list_concat_ge:
  "t \<in> set ts \<Longrightarrow> length (f t) \<le> count_list (concat (map (\<lambda>t. replicate (length (f t)) t) ts)) t"
  by (induction ts) (auto simp: count_list_replicate_same)

lemma runSurpTask_all:
  assumes "due_ok s" "t \<in> set (d_mapTask s)"
  shows "d_chan (runSurpTask s) t = [] \<and> d_recvd (runSurpTask s) t = d_sent s t"
proof -
  let ?s = "surp_fill s\<lparr>d_quTask := []\<rparr>" and ?q = "d_quTask (surp_fill s)"
  have d: "\<forall>t. d_sent ?s t = d_recvd ?s t @ d_chan ?s t" using assms(1) by (simp add: due_ok_def surp_fill_def)
  have "length (d_chan ?s t) \<le> count_list ?q t"
    using count_list_concat_ge [OF assms(2), of "d_chan s"] by (simp add: surp_fill_def)
  moreover have "t \<in> set (d_mapTask ?s)" using assms(2) by (simp add: surp_fill_def)
  ultimately have "length (d_chan (surp_loop ?q ?s) t) = 0" using surp_loop [OF d, of ?q] by (metis diff_is_0_eq)
  then have "d_chan (surp_loop ?q ?s) t = []" by simp
  moreover have "d_recvd (surp_loop ?q ?s) t @ d_chan (surp_loop ?q ?s) t = d_sent ?s t"
    using surp_loop [OF d, of ?q] by metis
  ultimately show ?thesis by (simp add: runSurpTask_def surp_fill_def Let_def)
qed

end
