(* ===== verification/Runtime_Props.thy ===== *)
theory Runtime_Props
  imports Prelude Recv_Task Snow_Flake Dispatch
begin

text \<open>The properties of the threads and queues of the framework.\<close>

text \<open>C14. Whatever the interleaving of the thread of a \<^verbatim>\<open>CRecvTask\<close>, of the threads that add
  messages and of \<^verbatim>\<open>Join\<close>: every message that entered the queue is run, in the order of
  entry, or is in the hands of the thread, or still in the queue, at most one of them excepted; that one
  is lost only once the thread has seen the request to stop.  The thread never sleeps unsignalled over a
  message, and it counts itself exactly while it runs.\<close>

theorem recv_task_order:
  assumes "rt_reach s"
  shows "(\<exists>l r1 r2. r_ran s = r1 @ r2 \<and> r_added s = r1 @ l @ r2 @ held s @ r_vcTask s \<and>
      length l \<le> (if stopping (r_pc s) then 1 else 0)) \<and>
    (r_pc s \<noteq> Sleep False \<or> r_vcTask s = []) \<and>
    r_lCount s = (if r_pc s = Enter \<or> r_pc s = Gone then 0 else 1)"
proof (intro conjI)
  note ok = rt_ok_reach [OF assms]
  show "\<exists>l r1 r2. r_ran s = r1 @ r2 \<and> r_added s = r1 @ l @ r2 @ held s @ r_vcTask s \<and>
      length l \<le> (if stopping (r_pc s) then 1 else 0)"
  proof (cases "stopping (r_pc s)")
    case True
    then have "held s = []" by (auto simp: stopping_def held_def)
    with ok True show ?thesis by (auto simp: rt_ok_def rt_order_def all_but_one_def)
  next
    case False
    with ok have "r_added s = r_ran s @ held s @ r_vcTask s" by (simp add: rt_ok_def rt_order_def)
    with False show ?thesis by (intro exI [of _ "[]"] exI [of _ "r_ran s"]) simp
  qed
  show "r_pc s \<noteq> Sleep False \<or> r_vcTask s = []" using ok by (auto simp: rt_ok_def)
  show "r_lCount s = (if r_pc s = Enter \<or> r_pc s = Gone then 0 else 1)" using ok by (simp add: rt_ok_def)
qed

text \<open>C30. \<^verbatim>\<open>Join\<close> ends: from every state in which it polls, the thread left to itself has ended after
  at most six steps and one for each message in the queue, whatever it was doing, and the next poll returns.\<close>

theorem recv_task_join_ends:
  assumes "rt_reach s" "r_join s = Polling" "length (r_vcTask s) + 6 \<le> n"
  shows "r_pc (run_on n s) = Gone \<and> r_join (join_poll (run_on n s)) = Joined"
proof (intro conjI)
  note ok = rt_ok_reach [OF assms(1)]
  then have x: "r_lExit s = RS_STOP" using assms(2) by (simp add: rt_ok_def)
  have "run_left s < n" using assms(3) by (auto simp: run_left_def split: run_pc.split)
  from run_on_end [OF x this] show gone: "r_pc (run_on n s) = Gone" .
  have "r_lCount (run_on n s) = 0" using rt_ok_run_on [OF ok x, of n] gone by (simp add: rt_ok_def)
  then show "r_join (join_poll (run_on n s)) = Joined" by (simp add: join_poll_def Let_def)
qed

definition lost_schedule :: "nat rt_act list" where
  "lost_schedule = [RunThread, AddTest 1, AddPush 0, RunThread, RunThread, AddTest 2, AddTest 3, AddPush 0,
     JoinCall, JoinExit, RunThread, RunThread, RunThread, AddPush 0, JoinPoll]"

text \<open>Messages can be lost when the thread is stopped.  In this interleaving the thread takes the first
  message, \<^verbatim>\<open>Join\<close> stops it, and the loop ends without running it; the third passes the test of
  \<^verbatim>\<open>m_lCanAdd\<close> in time and enters the queue after the thread has ended.\<close>

theorem recv_task_loses:
  "\<exists>s. rt_reach s \<and> r_join s = Joined \<and> r_pc s = Gone \<and> r_added s = [1 :: nat, 2, 3] \<and> r_ran s = [2] \<and> r_vcTask s = [3]"
proof -
  have "\<exists>s. rt_sched lost_schedule CRecvTask = Some s \<and> r_join s = Joined \<and> r_pc s = Gone \<and>
      r_added s = [1, 2, 3] \<and> r_ran s = [2] \<and> r_vcTask s = [3]"
    by (simp add: lost_schedule_def CRecvTask_def run_step_def add_test_def add_push_def recv_push_def cond_signal_def
        join_call_def join_exit_def join_poll_def)
  then show ?thesis using rt_sched_reach [OF rt_reach.init] by blast
qed

theorem recv_task_order_witness:
  "\<exists>s :: nat recv_task. rt_reach s \<and> r_vcTask s = [3] \<and>
     (\<exists>l r1 r2. r_ran s = r1 @ r2 \<and> r_added s = r1 @ l @ r2 @ held s @ r_vcTask s \<and> length l \<le> 1)"
proof -
  have "\<exists>s. rt_sched lost_schedule CRecvTask = Some s \<and> stopping (r_pc s) \<and> r_vcTask s = [3]"
    by (simp add: lost_schedule_def CRecvTask_def run_step_def add_test_def add_push_def recv_push_def cond_signal_def
        join_call_def join_exit_def join_poll_def stopping_def)
  then obtain s :: "nat recv_task" where s: "rt_reach s" "stopping (r_pc s)" "r_vcTask s = [3]"
    using rt_sched_reach [OF rt_reach.init] by blast
  have "\<exists>l r1 r2. r_ran s = r1 @ r2 \<and> r_added s = r1 @ l @ r2 @ held s @ r_vcTask s \<and> length l \<le> 1"
    using recv_task_order [OF s(1)] s(2) by simp
  with s show ?thesis by blast
qed

theorem recv_task_join_ends_witness:
  "\<exists>s :: nat recv_task. r_vcTask s = [2] \<and> r_join s = Polling \<and> r_pc (run_on 7 s) = Gone \<and>
     r_join (join_poll (run_on 7 s)) = Joined"
proof -
  have "\<exists>s. rt_sched (take 10 lost_schedule) CRecvTask = Some s \<and> r_join s = Polling \<and> r_vcTask s = [2]"
    by (simp add: lost_schedule_def CRecvTask_def run_step_def add_test_def add_push_def recv_push_def cond_signal_def
        join_call_def join_exit_def join_poll_def)
  then obtain s :: "nat recv_task" where s: "rt_reach s" "r_join s = Polling" "r_vcTask s = [2]"
    using rt_sched_reach [OF rt_reach.init] by blast
  from recv_task_join_ends [OF s(1,2), of 7] s show ?thesis by auto
qed

text \<open>C33. Identifiers are unique: those one generator makes are strictly increasing, and no two
  generators with different centre or machine numbers make the same, whatever their clocks read (from the
  epoch on and for the 139 years the 42 bits of the time last).\<close>

theorem snowflake_unique:
  assumes "getIDs n s ts = Some (is, s', ts')" "sf_ok s" "list_all (\<lambda>t. sf_time_ok (sf_ms t)) ts"
    and "getIDs m r us = Some (js, r', us')" "sf_ok r" "list_all (\<lambda>t. sf_time_ok (sf_ms t)) us"
    and "(m_uiCenterid s, m_uiWorkid s) \<noteq> (m_uiCenterid r, m_uiWorkid r)"
  shows "sorted_wrt (\<lambda>i j. unat i < unat j) is \<and> set is \<inter> set js = {}"
proof -
  note 1 = getIDs_range [OF assms(1-3)] and 2 = getIDs_range [OF assms(4-6)]
  have "sf_node s \<noteq> sf_node r" using assms(2,5,7) by (rule sf_node_inj)
  with 1 2 have "set is \<inter> set js = {}" by (auto simp: list_all_iff)
  with 1 show ?thesis by (simp add: sorted_wrt_map)
qed

definition sf_example :: "u32 \<Rightarrow> snowflake" where
  "sf_example w = \<lparr>m_uiWorkid = w, m_uiCenterid = 2, m_lSequence = 0, m_ulLastTime = 1358902800000\<rparr>"

theorem snowflake_unique_witness:
  "map_option fst (getIDs 2 (sf_example 3) [(1358902801, 0), (1358902801, 0)]) = Some [4194578432, 4194578433] \<and>
   map_option fst (getIDs 1 (sf_example 4) [(1358902801, 0)]) = Some [4194582528] \<and>
   sorted_wrt (\<lambda>i j. unat i < unat j) [4194578432, 4194578433 :: u64] \<and>
   set [4194578432, 4194578433] \<inter> set [4194582528 :: u64] = {}"
proof -
  have a: "map_option fst (getIDs 2 (sf_example 3) [(1358902801, 0), (1358902801, 0)]) = Some [4194578432, 4194578433]"
    by code_simp
  have b: "map_option fst (getIDs 1 (sf_example 4) [(1358902801, 0)]) = Some [4194582528]"
    by code_simp
  from a obtain s' ts' where
    1: "getIDs 2 (sf_example 3) [(1358902801, 0), (1358902801, 0)] = Some ([4194578432, 4194578433], s', ts')"
    by (auto simp del: getIDs.simps)
  from b obtain r' us' where 2: "getIDs 1 (sf_example 4) [(1358902801, 0)] = Some ([4194582528], r', us')"
    by (auto simp del: getIDs.simps)
  have ok: "sf_ok (sf_example 3)" "sf_ok (sf_example 4)" by (simp_all add: sf_ok_def sf_example_def)
  have t: "list_all (\<lambda>t. sf_time_ok (sf_ms t)) [(1358902801, 0), (1358902801, 0)]"
    "list_all (\<lambda>t. sf_time_ok (sf_ms t)) [(1358902801, 0)]"
    by (simp_all add: sf_time_ok_def sf_ms_def Epoch_def)
  have n: "(m_uiCenterid (sf_example 3), m_uiWorkid (sf_example 3)) \<noteq> (m_uiCenterid (sf_example 4), m_uiWorkid (sf_example 4))"
    by (simp add: sf_example_def)
  from snowflake_unique [OF 1 ok(1) t(1) 2 ok(2) t(2) n] a b show ?thesis by blast
qed

text \<open>C5. In every interleaving of senders, dispatcher and workers: a task is run by one worker at a time
  and counted as such; what a task has received from its channel is the beginning of what was sent to it, in
  order; and when nobody has anything to do any more (no thread in \<^verbatim>\<open>Send\<close>, no name in
  the queue, no worker with a task), no message has been forgotten in a channel.\<close>

theorem dispatch_safe:
  assumes "d_reach s"
  shows "length (filter (\<lambda>w. w_now w = Some (t, W_Run)) (d_worker s)) \<le> unat (d_ref s t) \<and> unat (d_ref s t) \<le> 1 \<and>
    d_sent s t = d_recvd s t @ d_chan s t \<and> (\<not> quiet s \<or> d_recvd s t = d_sent s t)"
proof (intro conjI)
  note ok = disp_okD [OF disp_ok_reach [OF assms]]
  have r: "unat (d_ref s t) = d_refs t s" "d_refs t s \<le> 1"
    using ok(3) [unfolded ref_ok_def, THEN spec, of t] by simp_all
  then show "unat (d_ref s t) \<le> 1" by simp
  have "length (filter (\<lambda>w. w_now w = Some (t, W_Run)) ws) \<le> sum_list (map (w_ref t) ws)" for ws
    by (induction ws) (auto simp: w_ref_def)
  then have "length (filter (\<lambda>w. w_now w = Some (t, W_Run)) (d_worker s)) \<le> d_refs t s"
    unfolding d_refs_def by (rule trans_le_add1)
  then show "length (filter (\<lambda>w. w_now w = Some (t, W_Run)) (d_worker s)) \<le> unat (d_ref s t)" using r by simp
  have d: "length (d_chan s t) \<le> d_due t s" "d_sent s t = d_recvd s t @ d_chan s t"
    using ok(4) by (simp_all add: due_ok_def)
  then show "d_sent s t = d_recvd s t @ d_chan s t" by simp
  show "\<not> quiet s \<or> d_recvd s t = d_sent s t" using d quiet_due [of s t] by auto
qed

text \<open>C20. The pool never blocks: from every state that can be reached, once nothing more is sent, the steps of
  dispatcher, workers and notifiers lead to a state in which every message was received by its task and everybody
  is idle.\<close>

theorem dispatch_delivers:
  assumes "d_reach s"
  shows "\<exists>s'. d_work\<^sup>*\<^sup>* s s' \<and> quiet s' \<and> d_recvd s' = d_sent s"
proof -
  from d_settles [OF disp_ok_reach [OF assms]] obtain s' where
    s': "d_work\<^sup>*\<^sup>* s s'" "quiet s'" "disp_ok s'" "d_sent s' = d_sent s" by blast
  have "d_recvd s' t = d_sent s t" for t
  proof -
    have "length (d_chan s' t) \<le> d_due t s'" "d_sent s' t = d_recvd s' t @ d_chan s' t"
      using disp_okD(4) [OF s'(3)] by (simp_all add: due_ok_def)
    with quiet_due [OF s'(2), of t] s'(4) show ?thesis by simp
  qed
  with s' show ?thesis by blast
qed

text \<open>C32. Stopping the pool in any state loses no message of a registered task: \<^verbatim>\<open>runSurpTask\<close>
  has every message that was sent and not received received, in order, also when a worker dropped its task at the
  end of its thread.\<close>

theorem dispatch_stop:
  assumes "d_reach s" "t \<in> set (d_mapTask s)"
  shows "d_chan (runSurpTask s) t = [] \<and> d_recvd (runSurpTask s) t = d_sent s t"
  using runSurpTask_all [OF disp_okD(4) [OF disp_ok_reach [OF assms(1)]] assms(2)] .

definition disp_example :: "(nat, nat) disp" where
  "disp_example = chan_Send 1 8 (chan_Send 1 7 (disp_init [1, 2] 2))"

lemma disp_example_reach: "d_reach disp_example"
  unfolding disp_example_def by (intro d_reach.send d_reach.init) (simp_all add: disp_init_def chan_Send_def)

theorem dispatch_safe_witness:
  "d_sent disp_example 1 = [7, 8] \<and> d_recvd disp_example 1 @ d_chan disp_example 1 = [7, 8]"
  using dispatch_safe [OF disp_example_reach, of 1] by (simp add: disp_example_def disp_init_def chan_Send_def)

theorem dispatch_delivers_witness:
  "\<exists>s'. d_work\<^sup>*\<^sup>* disp_example s' \<and> quiet s' \<and> d_recvd s' 1 = [7, 8]"
proof -
  from dispatch_delivers [OF disp_example_reach] obtain s' where
    "d_work\<^sup>*\<^sup>* disp_example s'" "quiet s'" "d_recvd s' = d_sent disp_example" by blast
  then show ?thesis by (intro exI [of _ s']) (simp add: disp_example_def disp_init_def chan_Send_def)
qed

theorem dispatch_stop_witness:
  "d_chan disp_example 1 = [7, 8] \<and> d_chan (runSurpTask disp_example) 1 = [] \<and> d_recvd (runSurpTask disp_example) 1 = [7, 8]"
  using dispatch_stop [OF disp_example_reach, of 1] by (simp add: disp_example_def disp_init_def chan_Send_def)

end
