(* ===== verification/Sender.thy ===== *)
theory Sender
  imports Funcs
begin

text \<open>
  \<^verbatim>\<open>HBase/Sender.cpp\<close> and \<^verbatim>\<open>HBase/Sender.h\<close>: the thread that writes to the sockets.
  Its operations make a message for its queue (a \<^verbatim>\<open>CRecvTask\<close>, theory \<open>Recv_Task\<close>);
  \<open>sender_runTask\<close> processes one.  What it writes is a list of \<open>sock_out\<close>; the address of a
  datagram is the pair of host and port that \<^verbatim>\<open>CNETAddr::setAddr\<close> is given.
\<close>

type_synonym sock = int

definition H_INVALID_SOCK :: sock where "H_INVALID_SOCK = -1"
definition H_IPLENS :: nat where "H_IPLENS = 32"

record sender_sock =
  ss_uiSession :: u32
  ss_sock :: sock

definition H_SenderSock :: sender_sock where
  "H_SenderSock = \<lparr>ss_uiSession = 0, ss_sock = H_INVALID_SOCK\<rparr>"

datatype sender_cmd = AddScok | DelSock | SendTo | BroadCast | USendTo | UBroadCast

record h_sender =
  s_usCmd :: sender_cmd
  s_usCount :: u16
  s_iBufLens :: nat
  s_stSock :: sender_sock
  s_pSock :: "sender_sock list option"
  s_pBuffer :: "bytes option"

text \<open>A new message: the command is 0, which is \<^verbatim>\<open>AddScok\<close>.\<close>

definition H_Sender :: h_sender where
  "H_Sender = \<lparr>s_usCmd = AddScok, s_usCount = 0, s_iBufLens = 0, s_stSock = H_SenderSock, s_pSock = None, s_pBuffer = None\<rparr>"

datatype sock_out = SockWrite sock bytes | UdpWrite sock bytes u16 bytes | UdpAll sock u16 bytes

type_synonym sender_map = "sock \<Rightarrow> sender_sock option"

section \<open>The operations of the other threads\<close>

definition sender_Send :: "sock \<Rightarrow> u32 \<Rightarrow> bytes \<Rightarrow> h_sender" where
  "sender_Send fd ses buf = H_Sender\<lparr>s_usCmd := SendTo, s_stSock := \<lparr>ss_uiSession = ses, ss_sock = fd\<rparr>,
     s_pBuffer := Some buf, s_iBufLens := length buf\<rparr>"

text \<open>The Lua table is a list of pairs; an empty one is no message.\<close>

definition createSenderSock :: "(sock \<times> u32) list \<Rightarrow> sender_sock list option" where
  "createSenderSock tbl = (if tbl = [] then None else Some (map (\<lambda>(fd, ses). \<lparr>ss_uiSession = ses, ss_sock = fd\<rparr>) tbl))"

definition sender_broadCast :: "sender_sock list \<Rightarrow> int \<Rightarrow> bytes \<Rightarrow> h_sender" where
  "sender_broadCast socks iCount buf = H_Sender\<lparr>s_usCmd := BroadCast, s_pSock := Some socks,
     s_usCount := word_of_int iCount, s_pBuffer := Some buf, s_iBufLens := length buf\<rparr>"

definition lbroadCast :: "(sock \<times> u32) list \<Rightarrow> bytes \<Rightarrow> h_sender option" where
  "lbroadCast tbl buf = (case createSenderSock tbl of
     None \<Rightarrow> None
   | Some socks \<Rightarrow> Some (sender_broadCast socks (int (length tbl)) buf))"

text \<open>
  \<^verbatim>\<open>H_Host\<close> in memory: two bytes for the port, \<^verbatim>\<open>H_IPLENS\<close> for the host, cleared before
  the copy.  A longer host overruns the structure: \<open>None\<close>.
\<close>

definition host_bytes :: "bytes \<Rightarrow> u16 \<Rightarrow> bytes" where
  "host_bytes host port = le_bytes 2 port @ mem_write (replicate H_IPLENS 0) 0 host"

definition sender_sendU :: "sock \<Rightarrow> bytes \<Rightarrow> u16 \<Rightarrow> bytes \<Rightarrow> h_sender option" where
  "sender_sendU fd host port buf =
     (if length host \<le> H_IPLENS
      then Some (H_Sender\<lparr>s_usCmd := USendTo, s_stSock := H_SenderSock\<lparr>ss_sock := fd\<rparr>,
        s_pBuffer := Some (host_bytes host port @ buf), s_iBufLens := length buf + (2 + H_IPLENS)\<rparr>)
      else None)"

definition sender_broadCastU :: "sock \<Rightarrow> u16 \<Rightarrow> bytes \<Rightarrow> h_sender" where
  "sender_broadCastU fd port buf = H_Sender\<lparr>s_usCmd := UBroadCast, s_stSock := H_SenderSock\<lparr>ss_sock := fd\<rparr>,
     s_pBuffer := Some buf, s_iBufLens := length buf, s_usCount := port\<rparr>"

definition sender_addSock :: "sock \<Rightarrow> u32 \<Rightarrow> h_sender" where
  "sender_addSock fd ses = H_Sender\<lparr>s_usCmd := AddScok, s_stSock := \<lparr>ss_uiSession = ses, ss_sock = fd\<rparr>\<rparr>"

definition sender_delSock :: "sock \<Rightarrow> h_sender" where
  "sender_delSock fd = H_Sender\<lparr>s_usCmd := DelSock, s_stSock := H_SenderSock\<lparr>ss_sock := fd\<rparr>\<rparr>"

section \<open>The thread\<close>

definition sendToSock :: "sender_map \<Rightarrow> sender_sock \<Rightarrow> bytes \<Rightarrow> sock_out list" where
  "sendToSock m k buf = (case m (ss_sock k) of
     Some e \<Rightarrow> if ss_uiSession k = ss_uiSession e then [SockWrite (ss_sock k) buf] else []
   | None \<Rightarrow> [])"

text \<open>A loop of \<open>n\<close> rounds over the array; \<open>None\<close>: it reads after its end.\<close>

fun sender_each :: "sender_map \<Rightarrow> sender_sock list \<Rightarrow> nat \<Rightarrow> bytes \<Rightarrow> sock_out list option" where
  "sender_each m ks 0 buf = Some []"
| "sender_each m [] (Suc n) buf = None"
| "sender_each m (k # ks) (Suc n) buf = map_option (\<lambda>r. sendToSock m k buf @ r) (sender_each m ks n buf)"

text \<open>\<open>None\<close>: an access outside of a buffer.\<close>

definition sender_runTask :: "h_sender \<Rightarrow> sender_map \<Rightarrow> (sock_out list \<times> sender_map) option" where
  "sender_runTask p m = (case s_usCmd p of
     AddScok \<Rightarrow> Some ([], m(ss_sock (s_stSock p) \<mapsto> s_stSock p))
   | DelSock \<Rightarrow> Some ([], m(ss_sock (s_stSock p) := None))
   | SendTo \<Rightarrow> (case s_pBuffer p of None \<Rightarrow> None
       | Some buf \<Rightarrow> Some (sendToSock m (s_stSock p) (take (s_iBufLens p) buf), m))
   | BroadCast \<Rightarrow> (case s_pSock p of
         None \<Rightarrow> Some ([], m)
       | Some ks \<Rightarrow> (case s_pBuffer p of None \<Rightarrow> None
           | Some buf \<Rightarrow> map_option (\<lambda>r. (r, m)) (sender_each m ks (unat (s_usCount p)) (take (s_iBufLens p) buf))))
   | USendTo \<Rightarrow> (case s_pBuffer p of None \<Rightarrow> None
       | Some buf \<Rightarrow> map_option (\<lambda>host.
             ([UdpWrite (ss_sock (s_stSock p)) host (le_word (take 2 buf))
                 (take (s_iBufLens p - (2 + H_IPLENS)) (drop (2 + H_IPLENS) buf))], m))
           (c_string (drop 2 buf)))
   | UBroadCast \<Rightarrow> (case s_pBuffer p of None \<Rightarrow> None
       | Some buf \<Rightarrow> Some ([UdpAll (ss_sock (s_stSock p)) (s_usCount p) (take (s_iBufLens p) buf)], m)))"

text \<open>The messages of the queue, one after the other.\<close>

fun sender_run :: "h_sender list \<Rightarrow> sender_map \<Rightarrow> (sock_out list \<times> sender_map) option" where
  "sender_run [] m = Some ([], m)"
| "sender_run (p # ps) m = (case sender_runTask p m of
     None \<Rightarrow> None
   | Some (r, m1) \<Rightarrow> map_option (\<lambda>(rs, m2). (r @ rs, m2)) (sender_run ps m1))"

section \<open>The table\<close>

text \<open>
  What the table holds for a socket after some messages, without the table: the last message that adds or removes the
  socket decides.
\<close>

fun reg_of :: "h_sender list \<Rightarrow> sock \<Rightarrow> u32 option" where
  "reg_of [] fd = None"
| "reg_of (p # ps) fd =
     (if list_ex (\<lambda>q. s_usCmd q \<in> {AddScok, DelSock} \<and> ss_sock (s_stSock q) = fd) ps then reg_of ps fd
      else if ss_sock (s_stSock p) = fd \<and> s_usCmd p = AddScok then Some (ss_uiSession (s_stSock p))
      else None)"

text \<open>The step of \<open>reg_of\<close> at the other end.\<close>

definition reg_step :: "h_sender \<Rightarrow> (sock \<Rightarrow> u32 option) \<Rightarrow> sock \<Rightarrow> u32 option" where
  "reg_step p r fd = (if ss_sock (s_stSock p) = fd \<and> s_usCmd p = AddScok then Some (ss_uiSession (s_stSock p))
     else if ss_sock (s_stSock p) = fd \<and> s_usCmd p = DelSock then None else r fd)"

lemma reg_of_snoc: "reg_of (ps @ [p]) = reg_step p (reg_of ps)"
proof
  fix fd
  show "reg_of (ps @ [p]) fd = reg_step p (reg_of ps) fd"
  proof (induction ps)
    case Nil
    then show ?case by (simp add: reg_step_def)
  next
    case (Cons q ps)
    then show ?case by (auto simp: reg_step_def)
  qed
qed

definition map_reg :: "sender_map \<Rightarrow> sock \<Rightarrow> u32 option" where
  "map_reg m fd = map_option ss_uiSession (m fd)"

lemma sender_runTask_reg:
  assumes "sender_runTask p m = Some (r, m')"
  shows "map_reg m' = reg_step p (map_reg m)"
proof
  fix fd
  show "map_reg m' fd = reg_step p (map_reg m) fd"
    using assms by (auto simp: sender_runTask_def map_reg_def reg_step_def split: sender_cmd.splits option.splits)
qed

lemma sender_run_append:
  "sender_run (ps @ qs) m = (case sender_run ps m of None \<Rightarrow> None
     | Some (r, m1) \<Rightarrow> map_option (\<lambda>(rs, m2). (r @ rs, m2)) (sender_run qs m1))"
proof (induction ps arbitrary: m)
  case Nil
  then show ?case by (cases "sender_run qs m") auto
next
  case (Cons p ps)
  show ?case
  proof (cases "sender_runTask p m")
    case None
    then show ?thesis by simp
  next
    case (Some rm)
    obtain r m1 where rm: "rm = (r, m1)" by (cases rm)
    show ?thesis
    proof (cases "sender_run ps m1")
      case None
      with Some rm Cons.IH [of m1] show ?thesis by simp
    next
      case (Some rm2)
      obtain r2 m2 where "rm2 = (r2, m2)" by (cases rm2)
      with Some rm \<open>sender_runTask p m = Some rm\<close> Cons.IH [of m1] show ?thesis
        by (cases "sender_run qs m2") auto
    qed
  qed
qed

section \<open>What the callers asked for\<close>

text \<open>The operations as data, the message of each, and what they mean: \<open>r\<close> is the session each socket
  is registered with.\<close>

datatype request = RAdd sock u32 | RDel sock | RSend sock u32 bytes | RCast "(sock \<times> u32) list" bytes
  | RUdp sock bytes u16 bytes | RUdpAll sock u16 bytes

fun request_msgs :: "request \<Rightarrow> h_sender list option" where
  "request_msgs (RAdd fd ses) = Some [sender_addSock fd ses]"
| "request_msgs (RDel fd) = Some [sender_delSock fd]"
| "request_msgs (RSend fd ses buf) = Some [sender_Send fd ses buf]"
| "request_msgs (RCast tbl buf) = Some (case lbroadCast tbl buf of None \<Rightarrow> [] | Some p \<Rightarrow> [p])"
| "request_msgs (RUdp fd host port buf) = map_option (\<lambda>p. [p]) (sender_sendU fd host port buf)"
| "request_msgs (RUdpAll fd port buf) = Some [sender_broadCastU fd port buf]"

fun requests_msgs :: "request list \<Rightarrow> h_sender list option" where
  "requests_msgs [] = Some []"
| "requests_msgs (q # qs) = (case request_msgs q of None \<Rightarrow> None | Some ps \<Rightarrow> map_option ((@) ps) (requests_msgs qs))"

definition write_if :: "(sock \<Rightarrow> u32 option) \<Rightarrow> bytes \<Rightarrow> sock \<times> u32 \<Rightarrow> sock_out list" where
  "write_if r buf k = (if r (fst k) = Some (snd k) then [SockWrite (fst k) buf] else [])"

fun request_spec :: "request list \<Rightarrow> (sock \<Rightarrow> u32 option) \<Rightarrow> sock_out list" where
  "request_spec [] r = []"
| "request_spec (RAdd fd ses # qs) r = request_spec qs (r(fd := Some ses))"
| "request_spec (RDel fd # qs) r = request_spec qs (r(fd := None))"
| "request_spec (RSend fd ses buf # qs) r = write_if r buf (fd, ses) @ request_spec qs r"
| "request_spec (RCast tbl buf # qs) r =
     concat (map (write_if r buf) (take (length tbl mod 2 ^ 16) tbl)) @ request_spec qs r"
| "request_spec (RUdp fd host port buf # qs) r = UdpWrite fd host port buf # request_spec qs r"
| "request_spec (RUdpAll fd port buf # qs) r = UdpAll fd port buf # request_spec qs r"

text \<open>Hosts that are C strings shorter than the buffer.\<close>

fun request_ok :: "request \<Rightarrow> bool" where
  "request_ok (RUdp fd host port buf) = (length host < H_IPLENS \<and> 0 \<notin> set host)"
| "request_ok _ = True"

lemma sendToSock_reg: "sendToSock m \<lparr>ss_uiSession = ses, ss_sock = fd\<rparr> buf = write_if (map_reg m) buf (fd, ses)"
  by (auto simp: sendToSock_def write_if_def map_reg_def split: option.split)

lemma sender_each_reg:
  "n \<le> length tbl \<Longrightarrow>
   sender_each m (map (\<lambda>(fd, ses). \<lparr>ss_uiSession = ses, ss_sock = fd\<rparr>) tbl) n buf =
   Some (concat (map (write_if (map_reg m) buf) (take n tbl)))"
proof (induction n arbitrary: tbl)
  case 0
  then show ?case by simp
next
  case (Suc n)
  then obtain k ks where "tbl = k # ks" by (cases tbl) auto
  with Suc show ?case by (cases k) (simp add: sendToSock_reg)
qed

lemma c_string_host:
  assumes "length host < H_IPLENS" "0 \<notin> set host"
  shows "c_string (mem_write (replicate H_IPLENS 0) 0 host @ buf) = Some host"
proof -
  have "mem_write (replicate H_IPLENS (0 :: u8)) 0 host @ buf =
      host @ 0 # replicate (H_IPLENS - length host - 1) 0 @ buf"
    using assms(1) by (cases "H_IPLENS - length host") (auto simp: mem_write_def)
  moreover have "takeWhile (\<lambda>b. b \<noteq> 0) (host @ 0 # zs) = host" for zs
    using assms(2) by (subst takeWhile_append2) auto
  ultimately show ?thesis by (simp add: c_string_def)
qed

lemma sender_run_reg:
  assumes "list_all request_ok qs"
  shows "\<exists>ps m'. requests_msgs qs = Some ps \<and> sender_run ps m = Some (request_spec qs (map_reg m), m')"
  using assms
proof (induction qs arbitrary: m)
  case Nil
  then show ?case by simp
next
  case (Cons q qs)
  have IH: "\<exists>ps m'. requests_msgs qs = Some ps \<and> sender_run ps m = Some (request_spec qs (map_reg m), m')" for m
    using Cons by simp
  show ?case
  proof (cases q)
    case (RAdd fd ses)
    have "map_reg (m(fd \<mapsto> \<lparr>ss_uiSession = ses, ss_sock = fd\<rparr>)) = (map_reg m)(fd := Some ses)"
      by (auto simp: map_reg_def fun_eq_iff)
    with IH [of "m(fd \<mapsto> \<lparr>ss_uiSession = ses, ss_sock = fd\<rparr>)"] RAdd show ?thesis
      by (auto simp: sender_addSock_def sender_runTask_def H_Sender_def)
  next
    case (RDel fd)
    have "map_reg (m(fd := None)) = (map_reg m)(fd := None)" by (auto simp: map_reg_def fun_eq_iff)
    with IH [of "m(fd := None)"] RDel show ?thesis
      by (auto simp: sender_delSock_def sender_runTask_def H_Sender_def)
  next
    case (RSend fd ses buf)
    with IH [of m] show ?thesis
      by (auto simp: sender_Send_def sender_runTask_def H_Sender_def sendToSock_reg)
  next
    case (RCast tbl buf)
    have "unat (word_of_int (int (length tbl)) :: u16) = length tbl mod 2 ^ 16" by (simp add: unat_of_nat)
    with IH [of m] RCast sender_each_reg [of "length tbl mod 2 ^ 16" tbl m buf] show ?thesis
      by (auto simp: lbroadCast_def createSenderSock_def sender_broadCast_def sender_runTask_def H_Sender_def)
  next
    case (RUdp fd host port buf)
    then have h: "length host < H_IPLENS" "0 \<notin> set host" using Cons.prems by simp_all
    have l: "length (mem_write (replicate H_IPLENS 0) 0 host) = H_IPLENS" using h(1) by simp
    have "le_word (le_bytes 2 port) = port" by (rule le_word_le_bytes_id) simp
    with IH [of m] RUdp c_string_host [OF h, of buf] h(1) l show ?thesis
      by (auto simp: sender_sendU_def sender_runTask_def H_Sender_def host_bytes_def H_SenderSock_def)
  next
    case (RUdpAll fd port buf)
    with IH [of m] show ?thesis
      by (auto simp: sender_broadCastU_def sender_runTask_def H_Sender_def H_SenderSock_def)
  qed
qed

end
