(* ===== verification/Net_Base.thy ===== *)
theory Net_Base
  imports Funcs Sender "HOL-Library.AList" "HOL-Library.Multiset"
begin

text \<open>
  \<^verbatim>\<open>HBase/NetBase.cpp\<close>, \<^verbatim>\<open>HBase/NetBase.h\<close>, \<^verbatim>\<open>HBase/NetWorker.cpp\<close>: the thread
  that owns the connections.  It runs the callbacks of libevent one at a time, among them \<open>orderReadCB\<close> for the
  orders of the other threads.

  The maps are association lists in the order of their iteration.  What libevent and the system answer is an argument
  \<open>env\<close>; what the thread asks of others is recorded in \<open>n_out\<close>: messages to the sender
  and the linker, calls of the interface, closed sockets.
\<close>

section \<open>State\<close>

record session =
  se_bLinker :: bool
  se_usSockType :: u16
  se_uiSession :: u32
  se_uiStatus :: u32
  se_sock :: sock

record tcp_link =
  tl_usSockType :: u16
  tl_usPort :: u16
  tl_uiID :: u32
  tl_sock :: sock
  tl_acHost :: bytes

datatype ready_stop = RSTOP_NONE | RSTOP_RUN | RSTOP_RAN

datatype net_call = ToSender h_sender | ToLinker u32 bytes u16 | OnTcpLinked sock u32 u16 | OnTcpClose sock u32 u16
  | OnStop | CloseSock sock | LoopBreak

record net =
  n_uiReadyStop :: ready_stop
  n_uiSession :: u32
  n_mapSession :: "(sock \<times> session) list"
  n_mapListener :: "(u32 \<times> u16) list"
  n_mapTcpLink :: "(u32 \<times> tcp_link) list"
  n_mapUdp :: "sock list"
  n_out :: "net_call list"

definition CNetWorker :: net where
  "CNetWorker = \<lparr>n_uiReadyStop = RSTOP_NONE, n_uiSession = 0, n_mapSession = [], n_mapListener = [],
     n_mapTcpLink = [], n_mapUdp = [], n_out = []\<rparr>"

datatype order_cmd = ORDER_RSTOP | ORDER_STOP | ORDER_CLOSESOCK | ORDER_CLOSEBYTYPE | ORDER_ADDLISTENER
  | ORDER_DELLISTENER | ORDER_ADDLINK | ORDER_ADDLINKEV | ORDER_DELLINK | ORDER_ADDUDP | ORDER_DELUDP

record h_order =
  o_usCmd :: order_cmd
  o_usSockType :: u16
  o_usPort :: u16
  o_uiSession :: u32
  o_sock :: sock
  o_acHost :: bytes

text \<open>\<^verbatim>\<open>bufferevent_socket_new\<close>, \<^verbatim>\<open>setAddr\<close>, \<^verbatim>\<open>evconnlistener_new_bind\<close> and
  \<^verbatim>\<open>event_new\<close> succeed.\<close>

record net_env =
  bev_ok :: bool
  addr_ok :: bool
  listen_ok :: bool
  event_ok :: bool

definition emit :: "net_call \<Rightarrow> net \<Rightarrow> net" where
  "emit c n = n\<lparr>n_out := n_out n @ [c]\<rparr>"

section \<open>Sessions\<close>

definition getSession :: "sock \<Rightarrow> net \<Rightarrow> session option" where
  "getSession fd n = map_of (n_mapSession n) fd"

text \<open>The loop of \<^verbatim>\<open>onClose\<close> over the links, which stops at the first with the socket.\<close>

fun unlink :: "sock \<Rightarrow> (u32 \<times> tcp_link) list \<Rightarrow> (u32 \<times> tcp_link) list" where
  "unlink fd [] = []"
| "unlink fd ((i, l) # ls) =
     (if tl_sock l = fd then (i, l\<lparr>tl_sock := H_INVALID_SOCK\<rparr>) # ls else (i, l) # unlink fd ls)"

definition net_onClose :: "session \<Rightarrow> net \<Rightarrow> net" where
  "net_onClose s n =
     (let n = emit (ToSender (sender_delSock (se_sock s))) n;
          n = (if se_bLinker s then n\<lparr>n_mapTcpLink := unlink (se_sock s) (n_mapTcpLink n)\<rparr> else n)
      in emit (OnTcpClose (se_sock s) (se_uiSession s) (se_usSockType s)) n)"

definition net_onLinked :: "session \<Rightarrow> net \<Rightarrow> net" where
  "net_onLinked s n =
     (let n = emit (ToSender (sender_addSock (se_sock s) (se_uiSession s))) n
      in emit (OnTcpLinked (se_sock s) (se_uiSession s) (se_usSockType s)) n)"

definition freeSession :: "session \<Rightarrow> net \<Rightarrow> net" where
  "freeSession s n = emit (CloseSock (se_sock s)) n"

definition delSession :: "sock \<Rightarrow> net \<Rightarrow> net" where
  "delSession fd n = (case getSession fd n of
     None \<Rightarrow> n
   | Some s \<Rightarrow>
       let n = freeSession s (net_onClose s n)
       in n\<lparr>n_mapSession := AList.delete fd (n_mapSession n)\<rparr>)"

definition addSession :: "sock \<Rightarrow> session \<Rightarrow> net \<Rightarrow> net" where
  "addSession fd s n = net_onLinked s (n\<lparr>n_mapSession := AList.update fd s (n_mapSession n)\<rparr>)"

definition removByType :: "u16 \<Rightarrow> net \<Rightarrow> net" where
  "removByType ty n =
     fold (\<lambda>s. delSession (se_sock s)) (filter (\<lambda>s. ty = se_usSockType s) (map snd (n_mapSession n))) n"

text \<open>The result is whether there is a session.\<close>

definition addTcpEv :: "net_env \<Rightarrow> sock \<Rightarrow> u16 \<Rightarrow> net \<Rightarrow> bool \<times> net" where
  "addTcpEv env fd ty n =
     (if \<not> bev_ok env then (False, emit (CloseSock fd) n)
      else let n = n\<lparr>n_uiSession := n_uiSession n + 1\<rparr>;
               s = \<lparr>se_bLinker = False, se_usSockType = ty, se_uiSession = n_uiSession n, se_uiStatus = 0, se_sock = fd\<rparr>
           in (True, addSession fd s n))"

section \<open>Callbacks\<close>

definition tcpEventCB :: "sock \<Rightarrow> net \<Rightarrow> net" where
  "tcpEventCB fd n = delSession fd n"

text \<open>\<open>ty\<close> is the type of the listener.\<close>

definition acceptCB :: "net_env \<Rightarrow> sock \<Rightarrow> u16 \<Rightarrow> net \<Rightarrow> net" where
  "acceptCB env fd ty n =
     (if n_uiReadyStop n \<noteq> RSTOP_NONE then emit (CloseSock fd) n else snd (addTcpEv env fd ty n))"

definition monitorCB :: "tcp_link \<Rightarrow> net \<Rightarrow> net" where
  "monitorCB l n =
     (if tl_sock l = H_INVALID_SOCK then emit (ToLinker (tl_uiID l) (tl_acHost l) (tl_usPort l)) n else n)"

text \<open>Through the pointer that \<^verbatim>\<open>addTcpEv\<close> returned.\<close>

definition set_linker :: "sock \<Rightarrow> net \<Rightarrow> net" where
  "set_linker fd n = (case getSession fd n of
     None \<Rightarrow> n
   | Some s \<Rightarrow> n\<lparr>n_mapSession := AList.update fd (s\<lparr>se_bLinker := True\<rparr>) (n_mapSession n)\<rparr>)"

text \<open>\<^verbatim>\<open>CNetWorker::onOrder\<close>.  \<open>None\<close>: the null pointer is written through.\<close>

definition onOrder :: "net_env \<Rightarrow> h_order \<Rightarrow> net \<Rightarrow> net option" where
  "onOrder env p n = (case o_usCmd p of
     ORDER_ADDLISTENER \<Rightarrow>
       Some (if \<not> addr_ok env \<or> \<not> listen_ok env then n
             else n\<lparr>n_mapListener := AList.update (o_uiSession p) (o_usSockType p) (n_mapListener n)\<rparr>)
   | ORDER_DELLISTENER \<Rightarrow> Some (n\<lparr>n_mapListener := AList.delete (o_uiSession p) (n_mapListener n)\<rparr>)
   | ORDER_ADDLINK \<Rightarrow>
       (let l = \<lparr>tl_usSockType = o_usSockType p, tl_usPort = o_usPort p, tl_uiID = o_uiSession p,
                 tl_sock = H_INVALID_SOCK, tl_acHost = o_acHost p\<rparr>;
            n = n\<lparr>n_mapTcpLink := AList.update (tl_uiID l) l (n_mapTcpLink n)\<rparr>
        in Some (emit (ToLinker (tl_uiID l) (tl_acHost l) (tl_usPort l)) n))
   | ORDER_ADDLINKEV \<Rightarrow> (case map_of (n_mapTcpLink n) (o_uiSession p) of
         None \<Rightarrow> Some n
       | Some l \<Rightarrow>
           let l = l\<lparr>tl_sock := o_sock p\<rparr>;
               n = n\<lparr>n_mapTcpLink := AList.update (o_uiSession p) l (n_mapTcpLink n)\<rparr>;
               (pSession, n) = addTcpEv env (tl_sock l) (tl_usSockType l) n
           in if pSession then Some (set_linker (tl_sock l) n) else None)
   | ORDER_DELLINK \<Rightarrow> (case map_of (n_mapTcpLink n) (o_uiSession p) of
         None \<Rightarrow> Some n
       | Some l \<Rightarrow>
           let n = (if tl_sock l \<noteq> H_INVALID_SOCK then delSession (tl_sock l) n else n)
           in Some (n\<lparr>n_mapTcpLink := AList.delete (o_uiSession p) (n_mapTcpLink n)\<rparr>))
   | ORDER_ADDUDP \<Rightarrow>
       Some (if \<not> event_ok env then n else n\<lparr>n_mapUdp := List.insert (o_sock p) (n_mapUdp n)\<rparr>)
   | ORDER_DELUDP \<Rightarrow>
       Some (if o_sock p \<in> set (n_mapUdp n)
             then emit (CloseSock (o_sock p)) (n\<lparr>n_mapUdp := removeAll (o_sock p) (n_mapUdp n)\<rparr>) else n)
   | _ \<Rightarrow> Some n)"

text \<open>One order in \<^verbatim>\<open>orderReadCB\<close>, then all that were read.\<close>

definition net_order :: "net_env \<Rightarrow> h_order \<Rightarrow> net \<Rightarrow> net option" where
  "net_order env p n = (case o_usCmd p of
     ORDER_RSTOP \<Rightarrow>
       Some (if n_uiReadyStop n = RSTOP_NONE
             then (emit OnStop (n\<lparr>n_uiReadyStop := RSTOP_RUN\<rparr>))\<lparr>n_uiReadyStop := RSTOP_RAN\<rparr> else n)
   | ORDER_STOP \<Rightarrow> Some (emit LoopBreak n)
   | ORDER_CLOSESOCK \<Rightarrow> Some (case getSession (o_sock p) n of
         None \<Rightarrow> n
       | Some s \<Rightarrow> if o_uiSession p \<noteq> se_uiSession s then n else delSession (se_sock s) n)
   | ORDER_CLOSEBYTYPE \<Rightarrow> Some (removByType (o_usSockType p) n)
   | _ \<Rightarrow> onOrder env p n)"

fun orderReadCB :: "(net_env \<times> h_order) list \<Rightarrow> net \<Rightarrow> net option" where
  "orderReadCB [] n = Some n"
| "orderReadCB ((env, p) # ps) n = (case net_order env p n of None \<Rightarrow> None | Some n \<Rightarrow> orderReadCB ps n)"

section \<open>The orders of the other threads\<close>

text \<open>The fields an operation does not set are what the stack holds: \<open>junk\<close>.\<close>

definition order_readyStop :: "h_order \<Rightarrow> h_order" where
  "order_readyStop junk = junk\<lparr>o_usCmd := ORDER_RSTOP\<rparr>"

definition order_closeSock :: "sock \<Rightarrow> u32 \<Rightarrow> h_order \<Rightarrow> h_order" where
  "order_closeSock fd ses junk = junk\<lparr>o_usCmd := ORDER_CLOSESOCK, o_sock := fd, o_uiSession := ses\<rparr>"

definition order_closeByType :: "u16 \<Rightarrow> h_order \<Rightarrow> h_order" where
  "order_closeByType ty junk = junk\<lparr>o_usCmd := ORDER_CLOSEBYTYPE, o_usSockType := ty\<rparr>"

text \<open>\<open>None\<close>: the host and its terminator do not fit.  The second component of the result is the
  next \<^verbatim>\<open>m_uiID\<close>; the identifier is the old one.\<close>

definition order_addListener :: "u16 \<Rightarrow> bytes \<Rightarrow> u16 \<Rightarrow> u32 \<Rightarrow> h_order \<Rightarrow> (h_order \<times> u32) option" where
  "order_addListener ty host port uiID junk =
     (if length host < H_IPLENS
      then Some (junk\<lparr>o_usCmd := ORDER_ADDLISTENER, o_usSockType := ty, o_usPort := port, o_acHost := host,
        o_uiSession := uiID\<rparr>, uiID + 1) else None)"

definition order_delListener :: "u32 \<Rightarrow> h_order \<Rightarrow> h_order" where
  "order_delListener i junk = junk\<lparr>o_usCmd := ORDER_DELLISTENER, o_uiSession := i\<rparr>"

definition order_addTcpLink :: "u16 \<Rightarrow> bytes \<Rightarrow> u16 \<Rightarrow> u32 \<Rightarrow> h_order \<Rightarrow> (h_order \<times> u32) option" where
  "order_addTcpLink ty host port uiID junk =
     (if length host < H_IPLENS
      then Some (junk\<lparr>o_usCmd := ORDER_ADDLINK, o_usSockType := ty, o_usPort := port, o_acHost := host,
        o_uiSession := uiID\<rparr>, uiID + 1) else None)"

definition order_delTcpLink :: "u32 \<Rightarrow> h_order \<Rightarrow> h_order" where
  "order_delTcpLink i junk = junk\<lparr>o_usCmd := ORDER_DELLINK, o_uiSession := i\<rparr>"

definition order_delUdp :: "sock \<Rightarrow> h_order \<Rightarrow> h_order" where
  "order_delUdp fd junk = junk\<lparr>o_usCmd := ORDER_DELUDP, o_sock := fd\<rparr>"

definition order_addLinkEv :: "sock \<Rightarrow> u32 \<Rightarrow> h_order \<Rightarrow> h_order" where
  "order_addLinkEv fd i junk = junk\<lparr>o_usCmd := ORDER_ADDLINKEV, o_sock := fd, o_uiSession := i\<rparr>"

section \<open>Runs\<close>

text \<open>
  The system never hands out a descriptor that is open: an accepted or linked socket is none of the table.  The
  event callback of a connection comes while it is in the table.
\<close>

definition new_sock :: "sock \<Rightarrow> net \<Rightarrow> bool" where
  "new_sock fd n \<longleftrightarrow> 0 \<le> fd \<and> getSession fd n = None"

inductive net_step :: "net \<Rightarrow> net \<Rightarrow> bool" where
  accept: "map_of (n_mapListener n) i = Some ty \<Longrightarrow> new_sock fd n \<Longrightarrow> net_step n (acceptCB env fd ty n)"
| event: "getSession fd n \<noteq> None \<Longrightarrow> net_step n (tcpEventCB fd n)"
| monitor: "map_of (n_mapTcpLink n) i = Some l \<Longrightarrow> net_step n (monitorCB l n)"
| order: "o_usCmd p \<noteq> ORDER_ADDLINKEV \<or> new_sock (o_sock p) n \<Longrightarrow> net_order env p n = Some n' \<Longrightarrow> net_step n n'"

inductive net_reach :: "net \<Rightarrow> bool" where
  init: "net_reach CNetWorker"
| step: "net_reach n \<Longrightarrow> net_step n n' \<Longrightarrow> net_reach n'"

section \<open>What was asked of the others\<close>

fun sent_of :: "net_call list \<Rightarrow> h_sender list" where
  "sent_of [] = []"
| "sent_of (ToSender p # cs) = p # sent_of cs"
| "sent_of (c # cs) = sent_of cs"

fun linked_of :: "net_call list \<Rightarrow> u32 list" where
  "linked_of [] = []"
| "linked_of (OnTcpLinked fd ses ty # cs) = ses # linked_of cs"
| "linked_of (c # cs) = linked_of cs"

fun closed_of :: "net_call list \<Rightarrow> u32 list" where
  "closed_of [] = []"
| "closed_of (OnTcpClose fd ses ty # cs) = ses # closed_of cs"
| "closed_of (c # cs) = closed_of cs"

lemma sent_of_append [simp]: "sent_of (cs @ ds) = sent_of cs @ sent_of ds"
  by (induction cs rule: sent_of.induct) auto

lemma linked_of_append [simp]: "linked_of (cs @ ds) = linked_of cs @ linked_of ds"
  by (induction cs rule: linked_of.induct) auto

lemma closed_of_append [simp]: "closed_of (cs @ ds) = closed_of cs @ closed_of ds"
  by (induction cs rule: closed_of.induct) auto

text \<open>A socket is added to the sender only while it is not registered.\<close>

definition fresh_adds :: "h_sender list \<Rightarrow> bool" where
  "fresh_adds ps \<longleftrightarrow>
     (\<forall>i < length ps. s_usCmd (ps ! i) = AddScok \<longrightarrow> reg_of (take i ps) (ss_sock (s_stSock (ps ! i))) = None)"

lemma fresh_adds_nil [simp]: "fresh_adds []"
  by (simp add: fresh_adds_def)

lemma fresh_adds_snoc:
  "fresh_adds (ps @ [p]) \<longleftrightarrow> fresh_adds ps \<and> (s_usCmd p = AddScok \<longrightarrow> reg_of ps (ss_sock (s_stSock p)) = None)"
  by (auto simp: fresh_adds_def nth_append less_Suc_eq)

section \<open>Invariants\<close>

abbreviation sent :: "net \<Rightarrow> h_sender list" where "sent n \<equiv> sent_of (n_out n)"

definition sess_ok :: "net \<Rightarrow> bool" where
  "sess_ok n \<longleftrightarrow> distinct (map fst (n_mapSession n)) \<and> (\<forall>fd s. getSession fd n = Some s \<longrightarrow> se_sock s = fd \<and> 0 \<le> fd)"

text \<open>The sender's table, once it has caught up, is the table of the sessions.\<close>

definition send_ok :: "net \<Rightarrow> bool" where
  "send_ok n \<longleftrightarrow> reg_of (sent n) = (\<lambda>fd. map_option se_uiSession (getSession fd n)) \<and> fresh_adds (sent n)"

text \<open>The identifiers of sessions are 1, 2, 3 and so on; the open ones are those linked and not closed.\<close>

definition id_ok :: "net \<Rightarrow> bool" where
  "id_ok n \<longleftrightarrow> linked_of (n_out n) = map of_nat [1..<Suc (length (linked_of (n_out n)))] \<and>
     n_uiSession n = of_nat (length (linked_of (n_out n))) \<and>
     mset (linked_of (n_out n)) = mset (closed_of (n_out n)) + mset (map (\<lambda>(fd, s). se_uiSession s) (n_mapSession n))"

text \<open>A link that has a socket has a session that knows it is linked; no two links share a socket.\<close>

definition getLink :: "u32 \<Rightarrow> net \<Rightarrow> tcp_link option" where
  "getLink i n = map_of (n_mapTcpLink n) i"

definition link_ok :: "net \<Rightarrow> bool" where
  "link_ok n \<longleftrightarrow> distinct (map fst (n_mapTcpLink n)) \<and>
     (\<forall>i l. getLink i n = Some l \<and> tl_sock l \<noteq> H_INVALID_SOCK \<longrightarrow>
        (\<exists>s. getSession (tl_sock l) n = Some s \<and> se_bLinker s)) \<and>
     (\<forall>i j l k. getLink i n = Some l \<and> getLink j n = Some k \<and> tl_sock l = tl_sock k \<and>
        tl_sock l \<noteq> H_INVALID_SOCK \<longrightarrow> i = j)"

lemma link_okD:
  assumes "link_ok n"
  shows "distinct (map fst (n_mapTcpLink n))"
    and "getLink i n = Some l \<Longrightarrow> tl_sock l \<noteq> H_INVALID_SOCK \<Longrightarrow> \<exists>s. getSession (tl_sock l) n = Some s \<and> se_bLinker s"
    and "getLink i n = Some l \<Longrightarrow> getLink j n = Some k \<Longrightarrow> tl_sock l = tl_sock k \<Longrightarrow> tl_sock l \<noteq> H_INVALID_SOCK \<Longrightarrow> i = j"
  using assms unfolding link_ok_def by blast+

lemma link_okI:
  assumes "distinct (map fst (n_mapTcpLink n))"
    and "\<And>i l. getLink i n = Some l \<Longrightarrow> tl_sock l \<noteq> H_INVALID_SOCK \<Longrightarrow> \<exists>s. getSession (tl_sock l) n = Some s \<and> se_bLinker s"
    and "\<And>i j l k. getLink i n = Some l \<Longrightarrow> getLink j n = Some k \<Longrightarrow> tl_sock l = tl_sock k \<Longrightarrow>
      tl_sock l \<noteq> H_INVALID_SOCK \<Longrightarrow> i = j"
  shows "link_ok n"
  using assms unfolding link_ok_def by blast

definition core_ok :: "net \<Rightarrow> bool" where
  "core_ok n \<longleftrightarrow> sess_ok n \<and> send_ok n \<and> id_ok n"

lemmas core_defs = core_ok_def sess_ok_def send_ok_def id_ok_def getSession_def

lemma core_ok_init: "core_ok CNetWorker \<and> link_ok CNetWorker"
  by (simp add: core_defs link_ok_def getLink_def CNetWorker_def fun_eq_iff)

text \<open>What does not touch the sessions.\<close>

lemma core_ok_same:
  assumes "core_ok n" "n_mapSession n' = n_mapSession n" "n_uiSession n' = n_uiSession n" "sent n' = sent n"
    "linked_of (n_out n') = linked_of (n_out n)" "closed_of (n_out n') = closed_of (n_out n)"
  shows "core_ok n'"
  using assms by (simp add: core_defs)

lemma link_ok_same:
  assumes "link_ok n" "n_mapSession n' = n_mapSession n" "n_mapTcpLink n' = n_mapTcpLink n"
  shows "link_ok n'"
proof -
  have "getLink i n' = getLink i n" "getSession fd n' = getSession fd n" for i fd
    using assms(2,3) by (simp_all add: getLink_def getSession_def)
  then show ?thesis using assms(1) by (simp only: link_ok_def assms(3)) blast
qed

lemma sender_add_del_simps [simp]:
  "s_usCmd (sender_addSock fd ses) = AddScok" "ss_sock (s_stSock (sender_addSock fd ses)) = fd"
  "s_usCmd (sender_delSock fd) = DelSock" "ss_sock (s_stSock (sender_delSock fd)) = fd"
  by (simp_all add: sender_addSock_def sender_delSock_def)

lemma emit_simps [simp]:
  "n_mapSession (emit c n) = n_mapSession n" "n_uiSession (emit c n) = n_uiSession n"
  "n_mapTcpLink (emit c n) = n_mapTcpLink n" "n_out (emit c n) = n_out n @ [c]"
  "n_mapListener (emit c n) = n_mapListener n" "n_mapUdp (emit c n) = n_mapUdp n"
  "n_uiReadyStop (emit c n) = n_uiReadyStop n"
  by (simp_all add: emit_def)

lemma delSession_simps:
  assumes "getSession fd n = Some s"
  shows "n_mapSession (delSession fd n) = AList.delete fd (n_mapSession n)"
    "n_uiSession (delSession fd n) = n_uiSession n"
    "n_out (delSession fd n) = n_out n @ [ToSender (sender_delSock (se_sock s)),
        OnTcpClose (se_sock s) (se_uiSession s) (se_usSockType s), CloseSock (se_sock s)]"
    "n_mapTcpLink (delSession fd n) = (if se_bLinker s then unlink (se_sock s) (n_mapTcpLink n) else n_mapTcpLink n)"
  using assms by (simp_all add: delSession_def net_onClose_def freeSession_def Let_def)

lemma mset_delete_key:
  "distinct (map fst m) \<Longrightarrow> map_of m k = Some v \<Longrightarrow>
   mset (map (\<lambda>(k, v). f v) m) = mset (map (\<lambda>(k, v). f v) (AList.delete k m)) + {#f v#}"
  by (induction m) (auto split: if_splits simp: AList.delete_id image_iff)

lemma getSession_del: "getSession fd (n\<lparr>n_mapSession := AList.delete k (n_mapSession n)\<rparr>) =
    (if fd = k then None else getSession fd n)"
  by (simp add: getSession_def AList.delete_conv')

lemma reg_step_del: "reg_step (sender_delSock fd) r = r(fd := None)"
  by (auto simp: reg_step_def sender_delSock_def H_Sender_def fun_eq_iff)

lemma reg_step_add: "reg_step (sender_addSock fd ses) r = r(fd := Some ses)"
  by (auto simp: reg_step_def sender_addSock_def H_Sender_def fun_eq_iff)

lemma core_ok_del:
  assumes "core_ok n"
  shows "core_ok (delSession fd n)"
proof (cases "getSession fd n")
  case None
  with assms show ?thesis by (simp add: delSession_def)
next
  case (Some s)
  note d = delSession_simps [OF Some]
  have ok: "sess_ok n" "send_ok n" "id_ok n" using assms by (simp_all add: core_ok_def)
  then have s: "se_sock s = fd" "distinct (map fst (n_mapSession n))" using Some by (simp_all add: sess_ok_def)
  have g: "getSession k (delSession fd n) = (if k = fd then None else getSession k n)" for k
    by (simp add: getSession_def d AList.delete_conv')
  have "sess_ok (delSession fd n)" using ok(1) by (auto simp: sess_ok_def g d AList.distinct_delete split: if_splits)
  moreover have "send_ok (delSession fd n)" using ok(2)
    by (auto simp: send_ok_def g d reg_of_snoc reg_step_del s fresh_adds_snoc fun_eq_iff)
  moreover have "id_ok (delSession fd n)"
    using ok(3) mset_delete_key [OF s(2) Some [unfolded getSession_def], of se_uiSession] by (simp add: id_ok_def d)
  ultimately show ?thesis by (simp add: core_ok_def)
qed

lemma map_of_unlink:
  assumes "distinct (map fst L)"
    "\<And>i j l k. map_of L i = Some l \<Longrightarrow> map_of L j = Some k \<Longrightarrow> tl_sock l = fd \<Longrightarrow> tl_sock k = fd \<Longrightarrow> i = j"
  shows "map_of (unlink fd L) i =
    map_option (\<lambda>l. if tl_sock l = fd then l\<lparr>tl_sock := H_INVALID_SOCK\<rparr> else l) (map_of L i)"
  using assms
proof (induction L)
  case Nil
  then show ?case by simp
next
  case (Cons a L)
  obtain k l where a: "a = (k, l)" by (cases a)
  have k: "map_of L k = None" using Cons.prems(1) by (simp add: a map_of_eq_None_iff)
  show ?case
  proof (cases "tl_sock l = fd")
    case True
    have "tl_sock m \<noteq> fd" if "map_of L j = Some m" for j m
    proof
      assume "tl_sock m = fd"
      moreover have "j \<noteq> k" using that k by auto
      ultimately show False using Cons.prems(2) [of k l j m] that True by (simp add: a)
    qed
    then have "map_option (\<lambda>l. if tl_sock l = fd then l\<lparr>tl_sock := H_INVALID_SOCK\<rparr> else l) (map_of L i) = map_of L i"
      by (cases "map_of L i") auto
    with True show ?thesis by (simp add: a)
  next
    case False
    have "i' = j'" if "map_of L i' = Some l'" "map_of L j' = Some k'" "tl_sock l' = fd" "tl_sock k' = fd" for i' j' l' k'
    proof -
      have "i' \<noteq> k" "j' \<noteq> k" using that(1,2) k by auto
      with Cons.prems(2) [of i' l' j' k'] that show ?thesis by (simp add: a)
    qed
    with Cons.IH Cons.prems(1) False show ?thesis by (simp add: a)
  qed
qed

lemma unlink_keys: "map fst (unlink fd L) = map fst L"
  by (induction fd L rule: unlink.induct) auto

lemma getLink_del:
  assumes "link_ok n" "sess_ok n" "getSession fd n = Some s"
  shows "getLink i (delSession fd n) =
    map_option (\<lambda>l. if tl_sock l = fd then l\<lparr>tl_sock := H_INVALID_SOCK\<rparr> else l) (getLink i n)"
proof -
  have s: "se_sock s = fd" "0 \<le> fd" using assms(2,3) by (simp_all add: sess_ok_def)
  then have inv: "fd \<noteq> H_INVALID_SOCK" by (simp add: H_INVALID_SOCK_def)
  show ?thesis
  proof (cases "se_bLinker s")
    case True
    then have "getLink i (delSession fd n) = map_of (unlink fd (n_mapTcpLink n)) i"
      using s by (simp add: getLink_def delSession_simps [OF assms(3)])
    also have "\<dots> = map_option (\<lambda>l. if tl_sock l = fd then l\<lparr>tl_sock := H_INVALID_SOCK\<rparr> else l) (map_of (n_mapTcpLink n) i)"
      using link_okD(3) [OF assms(1)] inv link_okD(1) [OF assms(1)]
      by (intro map_of_unlink) (auto simp: getLink_def)
    finally show ?thesis by (simp add: getLink_def)
  next
    case False
    have "tl_sock l \<noteq> fd" if "getLink i n = Some l" for l
      using link_okD(2) [OF assms(1) that] inv assms(3) False by auto
    then have "map_option (\<lambda>l. if tl_sock l = fd then l\<lparr>tl_sock := H_INVALID_SOCK\<rparr> else l) (getLink i n) = getLink i n"
      by (cases "getLink i n") auto
    with False show ?thesis by (simp add: getLink_def delSession_simps [OF assms(3)])
  qed
qed

lemma link_ok_del:
  assumes "link_ok n" "sess_ok n"
  shows "link_ok (delSession fd n)"
proof (cases "getSession fd n")
  case None
  with assms show ?thesis by (simp add: delSession_def)
next
  case (Some s)
  have l: "getLink i n = Some m \<and> tl_sock m \<noteq> fd"
    if "getLink i (delSession fd n) = Some m" "tl_sock m \<noteq> H_INVALID_SOCK" for i m
  proof -
    from that(1) getLink_del [OF assms Some, of i] obtain k where
      k: "getLink i n = Some k" "m = (if tl_sock k = fd then k\<lparr>tl_sock := H_INVALID_SOCK\<rparr> else k)" by auto
    then have "tl_sock k \<noteq> fd" using that(2) by auto
    with k show ?thesis by simp
  qed
  have g: "getSession k (delSession fd n) = (if k = fd then None else getSession k n)" for k
    by (simp add: getSession_def delSession_simps [OF Some] AList.delete_conv')
  show ?thesis
  proof (rule link_okI)
    show "distinct (map fst (n_mapTcpLink (delSession fd n)))"
      using link_okD(1) [OF assms(1)] by (simp add: delSession_simps [OF Some] unlink_keys)
    show "\<exists>s. getSession (tl_sock m) (delSession fd n) = Some s \<and> se_bLinker s"
      if "getLink i (delSession fd n) = Some m" "tl_sock m \<noteq> H_INVALID_SOCK" for i m
    proof -
      from l [OF that] have m: "getLink i n = Some m" "tl_sock m \<noteq> fd" by simp_all
      with link_okD(2) [OF assms(1) m(1) that(2)] show ?thesis by (simp add: g)
    qed
    show "i = j" if "getLink i (delSession fd n) = Some m" "getLink j (delSession fd n) = Some k"
      "tl_sock m = tl_sock k" "tl_sock m \<noteq> H_INVALID_SOCK" for i j m k
    proof -
      have "tl_sock k \<noteq> H_INVALID_SOCK" using that(3,4) by simp
      from l [OF that(1,4)] l [OF that(2) this] have "getLink i n = Some m" "getLink j n = Some k" by simp_all
      from link_okD(3) [OF assms(1) this that(3,4)] show ?thesis .
    qed
  qed
qed

lemma addTcpEv_simps:
  assumes "bev_ok env"
  shows "fst (addTcpEv env fd ty n)"
    "n_mapSession (snd (addTcpEv env fd ty n)) = AList.update fd
      \<lparr>se_bLinker = False, se_usSockType = ty, se_uiSession = n_uiSession n + 1, se_uiStatus = 0, se_sock = fd\<rparr> (n_mapSession n)"
    "n_uiSession (snd (addTcpEv env fd ty n)) = n_uiSession n + 1"
    "n_out (snd (addTcpEv env fd ty n)) = n_out n @ [ToSender (sender_addSock fd (n_uiSession n + 1)),
        OnTcpLinked fd (n_uiSession n + 1) ty]"
    "n_mapTcpLink (snd (addTcpEv env fd ty n)) = n_mapTcpLink n"
  using assms by (simp_all add: addTcpEv_def addSession_def net_onLinked_def Let_def)

lemma addTcpEv_getSession:
  "bev_ok env \<Longrightarrow> getSession k (snd (addTcpEv env fd ty n)) =
    (if k = fd then Some \<lparr>se_bLinker = False, se_usSockType = ty, se_uiSession = n_uiSession n + 1, se_uiStatus = 0,
       se_sock = fd\<rparr> else getSession k n)"
  by (simp add: getSession_def addTcpEv_simps AList.update_conv')

lemma addTcpEv_fail: "\<not> bev_ok env \<Longrightarrow> addTcpEv env fd ty n = (False, emit (CloseSock fd) n)"
  by (simp add: addTcpEv_def)

lemma update_new: "k \<notin> fst ` set m \<Longrightarrow> AList.update k v m = m @ [(k, v)]"
  by (induction m) auto

lemma core_ok_add:
  assumes "core_ok n" "new_sock fd n"
  shows "core_ok (snd (addTcpEv env fd ty n))"
proof (cases "bev_ok env")
  case False
  with assms(1) show ?thesis by (auto intro: core_ok_same simp: addTcpEv_fail)
next
  case True
  note d = addTcpEv_simps [OF True, of fd ty n]
  have ok: "sess_ok n" "send_ok n" "id_ok n" using assms(1) by (simp_all add: core_ok_def)
  have f: "0 \<le> fd" "getSession fd n = None" using assms(2) by (simp_all add: new_sock_def)
  let ?n = "snd (addTcpEv env fd ty n)"
  have g: "getSession k ?n = (if k = fd then Some \<lparr>se_bLinker = False, se_usSockType = ty,
      se_uiSession = n_uiSession n + 1, se_uiStatus = 0, se_sock = fd\<rparr> else getSession k n)" for k
    by (simp add: getSession_def d AList.update_conv')
  have "sess_ok ?n" using ok(1) f by (auto simp: sess_ok_def g d(2) AList.distinct_update split: if_splits)
  moreover have "send_ok ?n" using ok(2) f
    by (auto simp: send_ok_def g d(4) reg_of_snoc reg_step_add fresh_adds_snoc fun_eq_iff)
  moreover have "fd \<notin> fst ` set (n_mapSession n)" using f(2) by (simp add: getSession_def map_of_eq_None_iff)
  then have "id_ok ?n" using ok(3) by (simp add: id_ok_def d update_new)
  ultimately show ?thesis by (simp add: core_ok_def)
qed

lemma set_linker_simps [simp]:
  "n_uiSession (set_linker fd n) = n_uiSession n" "n_out (set_linker fd n) = n_out n"
  "n_mapTcpLink (set_linker fd n) = n_mapTcpLink n"
  "getSession k (set_linker fd n) =
    (if k = fd then map_option (\<lambda>s. s\<lparr>se_bLinker := True\<rparr>) (getSession fd n) else getSession k n)"
  by (auto simp: set_linker_def getSession_def AList.update_conv' split: option.split)

lemma map_update_same:
  "map_of m k = Some v \<Longrightarrow> f w = f v \<Longrightarrow> distinct (map fst m) \<Longrightarrow>
   map (\<lambda>(k, v). f v) (AList.update k w m) = map (\<lambda>(k, v). f v) m"
  by (induction m) auto

lemma core_ok_set_linker:
  assumes "core_ok n"
  shows "core_ok (set_linker fd n)"
proof (cases "getSession fd n")
  case None
  with assms show ?thesis by (simp add: set_linker_def)
next
  case (Some s)
  have ok: "sess_ok n" "send_ok n" "id_ok n" using assms by (simp_all add: core_ok_def)
  then have d: "distinct (map fst (n_mapSession n))" by (simp add: sess_ok_def)
  have m: "n_mapSession (set_linker fd n) = AList.update fd (s\<lparr>se_bLinker := True\<rparr>) (n_mapSession n)"
    using Some by (simp add: set_linker_def)
  have "sess_ok (set_linker fd n)" using ok(1) d Some
    by (auto simp: sess_ok_def m AList.distinct_update split: if_splits)
  moreover have "send_ok (set_linker fd n)" using ok(2) Some by (auto simp: send_ok_def fun_eq_iff)
  moreover have "id_ok (set_linker fd n)"
    using ok(3) map_update_same [OF Some [unfolded getSession_def], of se_uiSession "s\<lparr>se_bLinker := True\<rparr>"] d
    by (simp add: id_ok_def m)
  ultimately show ?thesis by (simp add: core_ok_def)
qed

lemma link_ok_add:
  assumes "link_ok n" "new_sock fd n"
  shows "link_ok (snd (addTcpEv env fd ty n))"
proof (cases "bev_ok env")
  case False
  with assms(1) show ?thesis by (auto intro: link_ok_same simp: addTcpEv_fail)
next
  case True
  note d = addTcpEv_simps [OF True, of fd ty n]
  have l: "getLink i (snd (addTcpEv env fd ty n)) = getLink i n" for i by (simp add: getLink_def d)
  have g: "getSession k (snd (addTcpEv env fd ty n)) = getSession k n" if "getSession k n \<noteq> None" for k
    using that assms(2) by (auto simp: getSession_def d AList.update_conv' new_sock_def)
  show ?thesis
  proof (rule link_okI)
    show "distinct (map fst (n_mapTcpLink (snd (addTcpEv env fd ty n))))" using link_okD(1) [OF assms(1)] by (simp add: d)
  next
    fix i m
    assume "getLink i (snd (addTcpEv env fd ty n)) = Some m" "tl_sock m \<noteq> H_INVALID_SOCK"
    with link_okD(2) [OF assms(1), of i m] l obtain s where "getSession (tl_sock m) n = Some s" "se_bLinker s" by auto
    with g show "\<exists>s. getSession (tl_sock m) (snd (addTcpEv env fd ty n)) = Some s \<and> se_bLinker s" by auto
  next
    fix i j m k
    assume "getLink i (snd (addTcpEv env fd ty n)) = Some m" "getLink j (snd (addTcpEv env fd ty n)) = Some k"
      "tl_sock m = tl_sock k" "tl_sock m \<noteq> H_INVALID_SOCK"
    with link_okD(3) [OF assms(1), of i m j k] l show "i = j" by simp
  qed
qed

lemma fold_del:
  "core_ok n \<and> link_ok n \<Longrightarrow> core_ok (fold (\<lambda>s. delSession (se_sock s)) ss n) \<and> link_ok (fold (\<lambda>s. delSession (se_sock s)) ss n)"
proof (induction ss arbitrary: n)
  case Nil
  then show ?case by simp
next
  case (Cons s ss)
  then have "sess_ok n" by (simp add: core_ok_def)
  with Cons core_ok_del link_ok_del show ?case by simp
qed

section \<open>Every callback keeps the invariants\<close>

lemma link_ok_addlink:
  assumes "link_ok n" "n_mapSession n' = n_mapSession n" "n_mapTcpLink n' = AList.update i l (n_mapTcpLink n)"
    "tl_sock l = H_INVALID_SOCK"
  shows "link_ok n'"
proof -
  have g: "getLink j n' = (if j = i then Some l else getLink j n)" "getSession fd n' = getSession fd n" for j fd
    using assms(2,3) by (simp_all add: getLink_def getSession_def AList.update_conv')
  show ?thesis
  proof (rule link_okI)
    show "distinct (map fst (n_mapTcpLink n'))" using link_okD(1) [OF assms(1)] assms(3) by (simp add: AList.distinct_update)
  next
    fix j m
    assume "getLink j n' = Some m" "tl_sock m \<noteq> H_INVALID_SOCK"
    with link_okD(2) [OF assms(1), of j m] assms(4) show "\<exists>s. getSession (tl_sock m) n' = Some s \<and> se_bLinker s"
      by (auto simp: g split: if_splits)
  next
    fix j h m k
    assume "getLink j n' = Some m" "getLink h n' = Some k" "tl_sock m = tl_sock k" "tl_sock m \<noteq> H_INVALID_SOCK"
    with link_okD(3) [OF assms(1), of j m h k] assms(4) show "j = h" by (auto simp: g split: if_splits)
  qed
qed

lemma link_ok_dellink:
  assumes "link_ok n" "n_mapSession n' = n_mapSession n" "n_mapTcpLink n' = AList.delete i (n_mapTcpLink n)"
  shows "link_ok n'"
proof -
  have g: "getLink j n' = (if j = i then None else getLink j n)" "getSession fd n' = getSession fd n" for j fd
    using assms(2,3) by (simp_all add: getLink_def getSession_def AList.delete_conv')
  show ?thesis
  proof (rule link_okI)
    show "distinct (map fst (n_mapTcpLink n'))" using link_okD(1) [OF assms(1)] assms(3) by (simp add: AList.distinct_delete)
  next
    fix j m
    assume "getLink j n' = Some m" "tl_sock m \<noteq> H_INVALID_SOCK"
    with link_okD(2) [OF assms(1), of j m] show "\<exists>s. getSession (tl_sock m) n' = Some s \<and> se_bLinker s"
      by (auto simp: g split: if_splits)
  next
    fix j h m k
    assume "getLink j n' = Some m" "getLink h n' = Some k" "tl_sock m = tl_sock k" "tl_sock m \<noteq> H_INVALID_SOCK"
    with link_okD(3) [OF assms(1), of j m h k] show "j = h" by (auto simp: g split: if_splits)
  qed
qed

text \<open>The socket of a link becomes that of a new session.\<close>

lemma link_ok_linkev:
  assumes "link_ok n" "new_sock fd n" "bev_ok env" "getLink i n = Some l"
  shows "link_ok (set_linker fd (snd (addTcpEv env fd ty
    (n\<lparr>n_mapTcpLink := AList.update i (l\<lparr>tl_sock := fd\<rparr>) (n_mapTcpLink n)\<rparr>))))" (is "link_ok ?n")
proof -
  note d = addTcpEv_simps [OF assms(3)]
  have fd: "getSession fd n = None" using assms(2) by (simp add: new_sock_def)
  have L: "getLink j ?n = (if j = i then Some (l\<lparr>tl_sock := fd\<rparr>) else getLink j n)" for j
    by (simp add: getLink_def d AList.update_conv')
  have g: "getSession k ?n = getSession k n" if "k \<noteq> fd" for k
    using that by (simp add: addTcpEv_getSession [OF assms(3)]) (simp add: getSession_def)
  have gfd: "\<exists>s. getSession fd ?n = Some s \<and> se_bLinker s"
    by (simp add: addTcpEv_getSession [OF assms(3)])
  have old: "tl_sock m \<noteq> fd" if "getLink j n = Some m" "tl_sock m \<noteq> H_INVALID_SOCK" for j m
    using link_okD(2) [OF assms(1) that] fd by auto
  show ?thesis
  proof (rule link_okI)
    show "distinct (map fst (n_mapTcpLink ?n))"
      using link_okD(1) [OF assms(1)] by (simp add: d AList.distinct_update)
  next
    fix j m
    assume m: "getLink j ?n = Some m" "tl_sock m \<noteq> H_INVALID_SOCK"
    show "\<exists>s. getSession (tl_sock m) ?n = Some s \<and> se_bLinker s"
    proof (cases "j = i")
      case True
      with m(1) have "tl_sock m = fd" by (auto simp: L)
      with gfd show ?thesis by (simp only:)
    next
      case False
      with m have "getLink j n = Some m" by (simp add: L)
      from link_okD(2) [OF assms(1) this m(2)] old [OF this m(2)] g show ?thesis by simp
    qed
  next
    fix j h m k
    assume *: "getLink j ?n = Some m" "getLink h ?n = Some k" "tl_sock m = tl_sock k" "tl_sock m \<noteq> H_INVALID_SOCK"
    then show "j = h"
      using old [of j m] old [of h k] link_okD(3) [OF assms(1), of j m h k]
      by (cases "j = i"; cases "h = i") (auto simp: L)
  qed
qed

definition net_ok :: "net \<Rightarrow> bool" where
  "net_ok n \<longleftrightarrow> core_ok n \<and> link_ok n"

lemma net_ok_same:
  assumes "net_ok n" "n_mapSession n' = n_mapSession n" "n_mapTcpLink n' = n_mapTcpLink n" "n_uiSession n' = n_uiSession n"
    "sent n' = sent n" "linked_of (n_out n') = linked_of (n_out n)" "closed_of (n_out n') = closed_of (n_out n)"
  shows "net_ok n'"
  using assms core_ok_same [of n n'] link_ok_same [of n n'] by (simp add: net_ok_def)

lemma net_ok_del: "net_ok n \<Longrightarrow> net_ok (delSession fd n)"
  using core_ok_del link_ok_del by (simp add: net_ok_def core_ok_def)

lemma net_ok_add: "net_ok n \<Longrightarrow> new_sock fd n \<Longrightarrow> net_ok (snd (addTcpEv env fd ty n))"
  using core_ok_add link_ok_add by (simp add: net_ok_def)

lemma onOrder_linkev:
  assumes "o_usCmd p = ORDER_ADDLINKEV" "getLink (o_uiSession p) n = Some l"
  shows "onOrder env p n = (if bev_ok env
    then Some (set_linker (o_sock p) (snd (addTcpEv env (o_sock p) (tl_usSockType l)
      (n\<lparr>n_mapTcpLink := AList.update (o_uiSession p) (l\<lparr>tl_sock := o_sock p\<rparr>) (n_mapTcpLink n)\<rparr>))))
    else None)"
proof -
  have "map_of (n_mapTcpLink n) (o_uiSession p) = Some l" using assms(2) by (simp only: getLink_def)
  then show ?thesis
    by (simp add: onOrder_def assms(1) Let_def case_prod_beta addTcpEv_simps(1) addTcpEv_fail)
qed

lemma net_ok_addlink:
  assumes "net_ok n" "o_usCmd p = ORDER_ADDLINK" "onOrder env p n = Some n'"
  shows "net_ok n'"
proof -
  let ?l = "\<lparr>tl_usSockType = o_usSockType p, tl_usPort = o_usPort p, tl_uiID = o_uiSession p,
                 tl_sock = H_INVALID_SOCK, tl_acHost = o_acHost p\<rparr>"
  have n': "n' = emit (ToLinker (o_uiSession p) (o_acHost p) (o_usPort p))
      (n\<lparr>n_mapTcpLink := AList.update (o_uiSession p) ?l (n_mapTcpLink n)\<rparr>)"
    using assms(2,3) by (simp add: onOrder_def Let_def)
  have ok: "core_ok n" "link_ok n" using assms(1) by (simp_all add: net_ok_def)
  have "core_ok n'" by (rule core_ok_same [OF ok(1)]) (simp_all add: n')
  moreover have "link_ok n'" by (rule link_ok_addlink [OF ok(2), of _ "o_uiSession p" ?l]) (simp_all add: n')
  ultimately show ?thesis by (simp add: net_ok_def)
qed

lemma net_ok_linkev:
  assumes "net_ok n" "o_usCmd p = ORDER_ADDLINKEV" "new_sock (o_sock p) n" "onOrder env p n = Some n'"
  shows "net_ok n'"
proof (cases "getLink (o_uiSession p) n")
  case None
  then have "n' = n" using assms(2,4) by (simp add: onOrder_def getLink_def)
  with assms(1) show ?thesis by simp
next
  case (Some l)
  let ?n = "n\<lparr>n_mapTcpLink := AList.update (o_uiSession p) (l\<lparr>tl_sock := o_sock p\<rparr>) (n_mapTcpLink n)\<rparr>"
  have bev: "bev_ok env" and n': "n' = set_linker (o_sock p) (snd (addTcpEv env (o_sock p) (tl_usSockType l) ?n))"
    using assms(4) unfolding onOrder_linkev [OF assms(2) Some] by (simp_all split: if_splits)
  have ok: "core_ok n" "link_ok n" using assms(1) by (simp_all add: net_ok_def)
  have "core_ok ?n" by (rule core_ok_same [OF ok(1)]) simp_all
  moreover have "new_sock (o_sock p) ?n" using assms(3) by (simp add: new_sock_def getSession_def)
  ultimately have "core_ok n'" unfolding n' by (intro core_ok_set_linker core_ok_add)
  moreover have "link_ok n'" unfolding n' by (rule link_ok_linkev [OF ok(2) assms(3) bev Some])
  ultimately show ?thesis by (simp add: net_ok_def)
qed

lemma net_ok_dellink:
  assumes "net_ok n" "o_usCmd p = ORDER_DELLINK" "onOrder env p n = Some n'"
  shows "net_ok n'"
proof (cases "getLink (o_uiSession p) n")
  case None
  then have "n' = n" using assms(2,3) by (simp add: onOrder_def getLink_def)
  with assms(1) show ?thesis by simp
next
  case (Some l)
  define m where "m = (if tl_sock l \<noteq> H_INVALID_SOCK then delSession (tl_sock l) n else n)"
  have l: "map_of (n_mapTcpLink n) (o_uiSession p) = Some l" using Some by (simp only: getLink_def)
  have n': "n' = m\<lparr>n_mapTcpLink := AList.delete (o_uiSession p) (n_mapTcpLink m)\<rparr>"
    using assms(2,3) l by (simp add: onOrder_def Let_def m_def)
  have "net_ok m" using assms(1) net_ok_del by (simp add: m_def)
  then have ok: "core_ok m" "link_ok m" by (simp_all add: net_ok_def)
  have "core_ok n'" by (rule core_ok_same [OF ok(1)]) (simp_all add: n')
  moreover have "link_ok n'" by (rule link_ok_dellink [OF ok(2), of _ "o_uiSession p"]) (simp_all add: n')
  ultimately show ?thesis by (simp add: net_ok_def)
qed

lemma onOrder_other:
  assumes "o_usCmd p \<notin> {ORDER_ADDLINK, ORDER_ADDLINKEV, ORDER_DELLINK}" "onOrder env p n = Some n'"
  shows "n_mapSession n' = n_mapSession n \<and> n_mapTcpLink n' = n_mapTcpLink n \<and> n_uiSession n' = n_uiSession n \<and>
    sent n' = sent n \<and> linked_of (n_out n') = linked_of (n_out n) \<and> closed_of (n_out n') = closed_of (n_out n)"
  using assms by (cases "o_usCmd p") (simp_all add: onOrder_def split: if_splits, (drule sym, simp)+)

lemma net_ok_onOrder:
  assumes "net_ok n" "o_usCmd p \<noteq> ORDER_ADDLINKEV \<or> new_sock (o_sock p) n" "onOrder env p n = Some n'"
  shows "net_ok n'"
proof (cases "o_usCmd p \<in> {ORDER_ADDLINK, ORDER_ADDLINKEV, ORDER_DELLINK}")
  case True
  then show ?thesis
    using assms net_ok_addlink [OF assms(1) _ assms(3)] net_ok_linkev [OF assms(1) _ _ assms(3)]
      net_ok_dellink [OF assms(1) _ assms(3)] by blast
next
  case False
  from onOrder_other [OF this assms(3)] show ?thesis by (auto intro: net_ok_same [OF assms(1)])
qed

lemma net_ok_order:
  assumes "net_ok n" "o_usCmd p \<noteq> ORDER_ADDLINKEV \<or> new_sock (o_sock p) n" "net_order env p n = Some n'"
  shows "net_ok n'"
proof (cases "o_usCmd p")
  case ORDER_RSTOP
  then show ?thesis using assms(1,3) by (auto intro: net_ok_same simp: net_order_def split: if_splits)
next
  case ORDER_STOP
  then show ?thesis using assms(1,3) by (auto intro: net_ok_same simp: net_order_def)
next
  case ORDER_CLOSESOCK
  then show ?thesis using assms(1,3) net_ok_del by (auto simp: net_order_def split: option.splits if_splits)
next
  case ORDER_CLOSEBYTYPE
  then show ?thesis using assms(1,3) fold_del [of n] by (auto simp: net_order_def removByType_def net_ok_def)
qed (use assms net_ok_onOrder [of n p env n'] in \<open>simp_all add: net_order_def\<close>)

lemma net_ok_step:
  assumes "net_step n n'" "net_ok n"
  shows "net_ok n'"
  using assms(1)
proof cases
  case (accept i ty fd env)
  then show ?thesis using assms(2) net_ok_add [of n fd env ty]
    by (auto intro: net_ok_same simp: acceptCB_def)
next
  case (event fd)
  then show ?thesis using net_ok_del [OF assms(2)] by (simp add: tcpEventCB_def)
next
  case (monitor i l)
  then show ?thesis using assms(2) by (auto intro: net_ok_same simp: monitorCB_def)
next
  case (order p env)
  from net_ok_order [OF assms(2) order] show ?thesis .
qed

lemma net_ok_reach: "net_reach n \<Longrightarrow> net_ok n"
proof (induction rule: net_reach.induct)
  case init
  show ?case using core_ok_init by (simp add: net_ok_def)
next
  case (step n n')
  from net_ok_step [OF step(2) step.IH] show ?case .
qed

end
