(* ===== verification/Net_System.thy ===== *)
theory Net_System
  imports Net_Base
begin

text \<open>
  The network thread and the sender thread together.  The network thread puts its messages in the queue of the
  sender while it runs a callback, the other threads put theirs in at any time, and the sender takes them out in
  order (theory \<open>Recv_Task\<close>), at its own pace: \<open>y_done\<close> of the queue are processed.
\<close>

record sys =
  y_net :: net
  y_queue :: "h_sender list"
  y_done :: nat
  y_map :: sender_map

definition sys_init :: sys where
  "sys_init = \<lparr>y_net = CNetWorker, y_queue = [], y_done = 0, y_map = (\<lambda>_. None)\<rparr>"

definition sys_net :: "net \<Rightarrow> sys \<Rightarrow> sys" where
  "sys_net n y = y\<lparr>y_net := n, y_queue := y_queue y @ drop (length (sent (y_net y))) (sent n)\<rparr>"

definition sys_post :: "h_sender \<Rightarrow> sys \<Rightarrow> sys" where
  "sys_post p y = y\<lparr>y_queue := y_queue y @ [p]\<rparr>"

definition sys_run :: "sys \<Rightarrow> (sock_out list \<times> sys) option" where
  "sys_run y =
     (if y_done y < length (y_queue y)
      then map_option (\<lambda>(r, m). (r, y\<lparr>y_done := Suc (y_done y), y_map := m\<rparr>))
             (sender_runTask (y_queue y ! y_done y) (y_map y))
      else None)"

inductive sys_step :: "sys \<Rightarrow> sys \<Rightarrow> bool" where
  net: "net_step (y_net y) n \<Longrightarrow> sys_step y (sys_net n y)"
| post: "s_usCmd p \<noteq> AddScok \<Longrightarrow> s_usCmd p \<noteq> DelSock \<Longrightarrow> sys_step y (sys_post p y)"
| run: "sys_run y = Some (r, y') \<Longrightarrow> sys_step y y'"

inductive sys_reach :: "sys \<Rightarrow> bool" where
  init: "sys_reach sys_init"
| step: "sys_reach y \<Longrightarrow> sys_step y y' \<Longrightarrow> sys_reach y'"

section \<open>The network thread only adds to what it asked\<close>

definition grows :: "net \<Rightarrow> net \<Rightarrow> bool" where
  "grows n n' \<longleftrightarrow> (\<exists>cs. n_out n' = n_out n @ cs)"

lemma grows_refl [simp]: "n_out n' = n_out n \<Longrightarrow> grows n n'"
  by (simp add: grows_def)

lemma grows_trans: "grows n m \<Longrightarrow> grows m k \<Longrightarrow> grows n k"
  by (auto simp: grows_def)

lemma grows_upd [simp]: "grows (n\<lparr>n_mapTcpLink := L\<rparr>) m = grows n m" "grows n (m\<lparr>n_mapTcpLink := L\<rparr>) = grows n m"
  "grows n (set_linker fd m) = grows n m"
  by (simp_all add: grows_def)

lemma grows_emit [simp]: "n_out n' = n_out n \<Longrightarrow> grows n (emit c n')"
  by (simp add: grows_def)

lemma grows_del: "grows n (delSession fd n)"
  by (cases "getSession fd n") (simp_all add: grows_def delSession_simps, simp add: delSession_def)

lemma grows_add: "grows n (snd (addTcpEv env fd ty n))"
  by (cases "bev_ok env") (simp_all add: grows_def addTcpEv_simps addTcpEv_fail)

lemma grows_fold: "grows n (fold (\<lambda>s. delSession (se_sock s)) ss n)"
  by (induction ss arbitrary: n) (auto intro: grows_trans grows_del)

lemma grows_order:
  assumes "net_order env p n = Some n'"
  shows "grows n n'"
proof (cases "o_usCmd p")
  case ORDER_CLOSESOCK
  then show ?thesis using assms grows_del by (auto simp: net_order_def split: option.splits if_splits)
next
  case ORDER_CLOSEBYTYPE
  then show ?thesis using assms grows_fold by (auto simp: net_order_def removByType_def)
next
  case ORDER_ADDLINKEV
  show ?thesis
  proof (cases "getLink (o_uiSession p) n")
    case None
    then show ?thesis using ORDER_ADDLINKEV assms by (simp add: net_order_def onOrder_def getLink_def)
  next
    case (Some l)
    have "onOrder env p n = Some n'" using ORDER_ADDLINKEV assms by (simp add: net_order_def)
    then show ?thesis unfolding onOrder_linkev [OF ORDER_ADDLINKEV Some]
      using grows_add [of "n\<lparr>n_mapTcpLink := _\<rparr>"] by (auto split: if_splits)
  qed
next
  case ORDER_DELLINK
  then show ?thesis using assms grows_del
    by (auto simp: net_order_def onOrder_def Let_def split: option.splits if_splits)
next
  case ORDER_RSTOP
  then show ?thesis using assms by (auto simp: net_order_def grows_def split: if_splits)
next
  case ORDER_ADDLINK
  then show ?thesis using assms by (auto simp: net_order_def onOrder_def grows_def Let_def)
qed (use assms in \<open>auto simp: net_order_def onOrder_def grows_def split: if_splits\<close>)

lemma grows_step:
  assumes "net_step n n'"
  shows "grows n n'"
  using assms
proof cases
  case (accept i ty fd env)
  then show ?thesis using grows_add by (auto simp: acceptCB_def)
next
  case (event fd)
  then show ?thesis using grows_del by (simp add: tcpEventCB_def)
next
  case (monitor i l)
  then show ?thesis by (simp add: monitorCB_def)
next
  case (order p env)
  then show ?thesis using grows_order by blast
qed

lemma grows_sent: "grows n n' \<Longrightarrow> sent n' = sent n @ drop (length (sent n)) (sent n')"
  by (auto simp: grows_def)

section \<open>The queue and the table\<close>

lemma reg_of_append_cong: "reg_of ps = reg_of qs \<Longrightarrow> reg_of (ps @ cs) = reg_of (qs @ cs)"
  by (induction cs rule: rev_induct) (simp_all add: reg_of_snoc flip: append_assoc)

lemma fresh_adds_append_cong:
  "fresh_adds (ps @ cs) \<Longrightarrow> reg_of ps = reg_of qs \<Longrightarrow> fresh_adds qs \<Longrightarrow> fresh_adds (qs @ cs)"
  by (induction cs rule: rev_induct)
     (auto simp: fresh_adds_snoc reg_of_append_cong [of ps qs] simp flip: append_assoc)

definition sys_ok :: "sys \<Rightarrow> bool" where
  "sys_ok y \<longleftrightarrow> net_ok (y_net y) \<and> reg_of (y_queue y) = reg_of (sent (y_net y)) \<and> fresh_adds (y_queue y) \<and>
     y_done y \<le> length (y_queue y) \<and> map_reg (y_map y) = reg_of (take (y_done y) (y_queue y))"

lemma sys_ok_init: "sys_ok sys_init"
  using core_ok_init by (simp add: sys_ok_def sys_init_def net_ok_def) (simp add: CNetWorker_def map_reg_def fun_eq_iff)

lemma reg_of_other: "s_usCmd p \<noteq> AddScok \<Longrightarrow> s_usCmd p \<noteq> DelSock \<Longrightarrow> reg_of (ps @ [p]) = reg_of ps"
  by (simp add: reg_of_snoc reg_step_def fun_eq_iff)

lemma sys_ok_step:
  assumes "sys_step y y'" "sys_ok y"
  shows "sys_ok y'"
  using assms(1)
proof cases
  case (net n)
  let ?cs = "drop (length (sent (y_net y))) (sent n)"
  have s: "sent n = sent (y_net y) @ ?cs" using grows_sent [OF grows_step [OF net(2)]] .
  have ok: "net_ok n" using net_ok_step [OF net(2)] assms(2) by (simp add: sys_ok_def)
  then have "fresh_adds (sent (y_net y) @ ?cs)" using s by (simp add: net_ok_def core_ok_def send_ok_def)
  moreover have "reg_of (sent (y_net y)) = reg_of (y_queue y)" "fresh_adds (y_queue y)" using assms(2) by (simp_all add: sys_ok_def)
  ultimately have "fresh_adds (y_queue y @ ?cs)" "reg_of (y_queue y @ ?cs) = reg_of (sent n)"
    using fresh_adds_append_cong reg_of_append_cong s by metis+
  then show ?thesis using assms(2) ok by (simp add: net sys_net_def sys_ok_def)
next
  case (post p)
  then show ?thesis using assms(2) by (simp add: sys_post_def sys_ok_def reg_of_other fresh_adds_snoc)
next
  case (run r)
  then obtain m where m: "y_done y < length (y_queue y)" "sender_runTask (y_queue y ! y_done y) (y_map y) = Some (r, m)"
    "y' = y\<lparr>y_done := Suc (y_done y), y_map := m\<rparr>"
    by (auto simp: sys_run_def split: if_splits)
  from sender_runTask_reg [OF m(2)] have "map_reg m = reg_of (take (Suc (y_done y)) (y_queue y))"
    using assms(2) m(1) by (simp add: sys_ok_def reg_of_snoc take_Suc_conv_app_nth)
  then show ?thesis using assms(2) m by (simp add: sys_ok_def)
qed

lemma sys_ok_reach: "sys_reach y \<Longrightarrow> sys_ok y"
proof (induction rule: sys_reach.induct)
  case init
  show ?case by (rule sys_ok_init)
next
  case (step y y')
  from sys_ok_step [OF step(2) step.IH] show ?case .
qed

text \<open>A registration stays until the socket is removed.\<close>

lemma reg_of_stays:
  assumes "fresh_adds (ps @ qs)" "reg_of ps fd = Some u"
    "list_all (\<lambda>p. \<not> (s_usCmd p = DelSock \<and> ss_sock (s_stSock p) = fd)) qs"
  shows "reg_of (ps @ qs) fd = Some u"
  using assms(1,3)
proof (induction qs rule: rev_induct)
  case Nil
  with assms(2) show ?case by simp
next
  case (snoc q qs)
  then have IH: "reg_of (ps @ qs) fd = Some u"
    using fresh_adds_snoc [of "ps @ qs" q] by simp
  have "s_usCmd q = AddScok \<longrightarrow> reg_of (ps @ qs) (ss_sock (s_stSock q)) = None"
    using snoc.prems(1) fresh_adds_snoc [of "ps @ qs" q] by simp
  with IH snoc.prems(2) show ?case
    by (auto simp: reg_step_def reg_of_snoc simp flip: append_assoc)
qed

end
