(* ===== verification/Link_Props.thy ===== *)
theory Link_Props
  imports Net_System
begin

text \<open>The properties of the network thread and of the sender thread, alone and together.\<close>

text \<open>C17. The sender writes what its callers asked for: whatever the series of requests, the messages they make
  and the table of the sender give exactly the writes of the specification.  Data for a socket is written when the last
  request that added or removed the socket added it with the same session; of a broadcast the first \<open>n\<close> modulo
  65536 receivers are served; a datagram goes to the host and port it was given.\<close>

theorem sender_refines:
  assumes "list_all request_ok qs"
  shows "\<exists>ps m. requests_msgs qs = Some ps \<and> sender_run ps (\<lambda>_. None) = Some (request_spec qs (\<lambda>_. None), m)"
proof -
  have "map_reg (\<lambda>_. None) = (\<lambda>_. None)" by (simp add: map_reg_def fun_eq_iff)
  with sender_run_reg [OF assms, of "\<lambda>_. None"] show ?thesis by simp
qed

theorem sender_refines_witness:
  "\<exists>ps m. requests_msgs [RAdd 5 1, RSend 5 1 [7], RSend 5 2 [8], RUdp 9 [49] 80 [3], RDel 5, RSend 5 1 [7]] = Some ps \<and>
     sender_run ps (\<lambda>_. None) = Some ([SockWrite 5 [7], UdpWrite 9 [49] 80 [3]], m)"
  using sender_refines [of "[RAdd 5 1, RSend 5 1 [7], RSend 5 2 [8], RUdp 9 [49] 80 [3], RDel 5, RSend 5 1 [7]]"]
  by (simp add: write_if_def H_IPLENS_def del: requests_msgs.simps)

lemma distinct_ids: "k < 2 ^ 32 \<Longrightarrow> distinct (map of_nat [1..<Suc k] :: u32 list)"
proof -
  assume k: "k < 2 ^ 32"
  have "inj_on (of_nat :: nat \<Rightarrow> u32) {1..<Suc k}"
  proof (rule inj_onI)
    fix a b
    assume *: "a \<in> {1..<Suc k}" "b \<in> {1..<Suc k}" "(of_nat a :: u32) = of_nat b"
    then have "take_bit 32 a = take_bit 32 b" by (simp add: word_of_nat_eq_iff)
    with * k show "a = b" by (simp add: take_bit_nat_eq_self)
  qed
  then show ?thesis by (simp only: distinct_map distinct_upt set_upt)
qed

text \<open>C6. In every state of the network thread: a session is found under its socket; the sender's table, once it has
  processed what it was sent, holds exactly the open sessions; every session that was reported linked was reported
  closed once or is open; the numbers of sessions are distinct up to the 2^32-nd; and a link that has a socket has an open
  session marked as linked.\<close>

theorem net_sessions:
  assumes "net_reach n"
  shows "reg_of (sent n) = (\<lambda>fd. map_option se_uiSession (getSession fd n)) \<and>
    list_all (\<lambda>(fd, s). se_sock s = fd) (n_mapSession n) \<and>
    mset (linked_of (n_out n)) = mset (closed_of (n_out n)) + mset (map (\<lambda>(fd, s). se_uiSession s) (n_mapSession n)) \<and>
    (2 ^ 32 \<le> length (linked_of (n_out n)) \<or> distinct (linked_of (n_out n))) \<and>
    list_all (\<lambda>(i, l). tl_sock l = H_INVALID_SOCK \<or>
      (case getSession (tl_sock l) n of None \<Rightarrow> False | Some s \<Rightarrow> se_bLinker s)) (n_mapTcpLink n)"
proof (intro conjI)
  have ok: "sess_ok n" "send_ok n" "id_ok n" "link_ok n"
    using net_ok_reach [OF assms] by (simp_all add: net_ok_def core_ok_def)
  show "reg_of (sent n) = (\<lambda>fd. map_option se_uiSession (getSession fd n))" using ok(2) by (simp add: send_ok_def)
  show "list_all (\<lambda>(fd, s). se_sock s = fd) (n_mapSession n)"
    using ok(1) by (auto simp: sess_ok_def list_all_iff getSession_def)
  show "mset (linked_of (n_out n)) = mset (closed_of (n_out n)) + mset (map (\<lambda>(fd, s). se_uiSession s) (n_mapSession n))"
    using ok(3) by (simp add: id_ok_def)
  show "2 ^ 32 \<le> length (linked_of (n_out n)) \<or> distinct (linked_of (n_out n))"
    using ok(3) distinct_ids [of "length (linked_of (n_out n))"] unfolding id_ok_def by (metis not_le)
  have "case getSession (tl_sock l) n of None \<Rightarrow> False | Some s \<Rightarrow> se_bLinker s"
    if "(i, l) \<in> set (n_mapTcpLink n)" "tl_sock l \<noteq> H_INVALID_SOCK" for i l
  proof -
    have "getLink i n = Some l" using that(1) link_okD(1) [OF ok(4)] by (simp add: getLink_def)
    from link_okD(2) [OF ok(4) this that(2)] show ?thesis by auto
  qed
  then show "list_all (\<lambda>(i, l). tl_sock l = H_INVALID_SOCK \<or>
      (case getSession (tl_sock l) n of None \<Rightarrow> False | Some s \<Rightarrow> se_bLinker s)) (n_mapTcpLink n)"
    by (auto simp: list_all_iff)
qed

text \<open>Closing by socket and session number closes that session and no other: an order whose number is not that of the
  connection the socket belongs to by now changes nothing.\<close>

theorem net_closesock:
  assumes "net_reach n"
  shows "net_order env (order_closeSock fd ses junk) n =
    Some (if map_option se_uiSession (getSession fd n) = Some ses then delSession fd n else n) \<and>
    getSession k (delSession fd n) = (if k = fd then None else getSession k n)"
proof
  have ok: "sess_ok n" using net_ok_reach [OF assms] by (simp add: net_ok_def core_ok_def)
  then have "getSession fd n = Some s \<Longrightarrow> se_sock s = fd" for s by (simp add: sess_ok_def)
  then show "net_order env (order_closeSock fd ses junk) n =
    Some (if map_option se_uiSession (getSession fd n) = Some ses then delSession fd n else n)"
    by (auto simp: net_order_def order_closeSock_def split: option.split)
  show "getSession k (delSession fd n) = (if k = fd then None else getSession k n)"
  proof (cases "getSession fd n")
    case None
    then show ?thesis by (simp add: delSession_def)
  next
    case (Some s)
    then show ?thesis by (simp add: getSession_def delSession_simps AList.delete_conv')
  qed
qed

text \<open>Of all orders only one can crash the thread: the socket of a link for which libevent makes no event; the
  null pointer is written through.  The socket of a link that has been deleted meanwhile is neither closed nor entered
  anywhere.\<close>

theorem order_linkev_errors:
  "(net_order env p n = None) = (o_usCmd p = ORDER_ADDLINKEV \<and> getLink (o_uiSession p) n \<noteq> None \<and> \<not> bev_ok env) \<and>
   net_order env (order_addLinkEv fd i junk) n = (case getLink i n of
      None \<Rightarrow> Some n
    | Some l \<Rightarrow> if bev_ok env
        then Some (set_linker fd (snd (addTcpEv env fd (tl_usSockType l)
          (n\<lparr>n_mapTcpLink := AList.update i (l\<lparr>tl_sock := fd\<rparr>) (n_mapTcpLink n)\<rparr>))))
        else None)"
proof
  have ev: "net_order env q n = (case getLink (o_uiSession q) n of
      None \<Rightarrow> Some n
    | Some l \<Rightarrow> if bev_ok env
        then Some (set_linker (o_sock q) (snd (addTcpEv env (o_sock q) (tl_usSockType l)
          (n\<lparr>n_mapTcpLink := AList.update (o_uiSession q) (l\<lparr>tl_sock := o_sock q\<rparr>) (n_mapTcpLink n)\<rparr>))))
        else None)" if "o_usCmd q = ORDER_ADDLINKEV" for q
  proof (cases "getLink (o_uiSession q) n")
    case None
    with that show ?thesis by (simp add: net_order_def onOrder_def getLink_def)
  next
    case (Some l)
    with that show ?thesis by (simp add: net_order_def onOrder_linkev [OF that Some])
  qed
  show "(net_order env p n = None) = (o_usCmd p = ORDER_ADDLINKEV \<and> getLink (o_uiSession p) n \<noteq> None \<and> \<not> bev_ok env)"
  proof (cases "o_usCmd p = ORDER_ADDLINKEV")
    case True
    then show ?thesis unfolding ev [OF True] by (simp split: option.split)
  next
    case False
    then show ?thesis
      by (cases "o_usCmd p") (simp_all add: net_order_def onOrder_def Let_def split: option.split)
  qed
  show "net_order env (order_addLinkEv fd i junk) n = (case getLink i n of
      None \<Rightarrow> Some n
    | Some l \<Rightarrow> if bev_ok env
        then Some (set_linker fd (snd (addTcpEv env fd (tl_usSockType l)
          (n\<lparr>n_mapTcpLink := AList.update i (l\<lparr>tl_sock := fd\<rparr>) (n_mapTcpLink n)\<rparr>))))
        else None)"
    (is ?ev)
  proof -
    have f: "o_usCmd (order_addLinkEv fd i junk) = ORDER_ADDLINKEV" "o_uiSession (order_addLinkEv fd i junk) = i"
      "o_sock (order_addLinkEv fd i junk) = fd" by (simp_all add: order_addLinkEv_def)
    show ?ev unfolding ev [OF f(1)] f ..
  qed
qed

text \<open>C12. The network thread and the sender together: when the sender is about to write to a socket for a session, and no
  order to remove the socket is waiting in its queue, the socket is that of an open connection with this session's
  number.\<close>

theorem sys_right_connection:
  assumes "sys_reach y" "y_done y < length (y_queue y)" "y_queue y ! y_done y = sender_Send fd ses buf"
    and "sender_runTask (sender_Send fd ses buf) (y_map y) = Some ([SockWrite fd buf], m)"
    and "list_all (\<lambda>p. \<not> (s_usCmd p = DelSock \<and> ss_sock (s_stSock p) = fd)) (drop (y_done y) (y_queue y))"
  shows "map_option se_uiSession (getSession fd (y_net y)) = Some ses"
proof -
  note ok = sys_ok_reach [OF assms(1), unfolded sys_ok_def]
  have "map_reg (y_map y) fd = Some ses"
    using assms(4) by (auto simp: sender_runTask_def sender_Send_def sendToSock_reg write_if_def split: if_splits)
  then have r: "reg_of (take (y_done y) (y_queue y)) fd = Some ses" using ok by simp
  have "fresh_adds (take (y_done y) (y_queue y) @ drop (y_done y) (y_queue y))" using ok by simp
  from reg_of_stays [OF this r assms(5)] have "reg_of (y_queue y) fd = Some ses" by simp
  moreover have "send_ok (y_net y)" using ok by (simp add: net_ok_def core_ok_def)
  ultimately show ?thesis using ok by (simp add: send_ok_def)
qed

text \<open>A listener, a connection on socket 5, its registration with the sender, data for it; then the connection is
  closed and the next one gets the same socket.\<close>

definition ev_good :: net_env where
  "ev_good = \<lparr>bev_ok = True, addr_ok = True, listen_ok = True, event_ok = True\<rparr>"

definition junk_order :: h_order where
  "junk_order = \<lparr>o_usCmd = ORDER_STOP, o_usSockType = 0, o_usPort = 0, o_uiSession = 0, o_sock = 0, o_acHost = []\<rparr>"

definition net_listening :: net where
  "net_listening = CNetWorker\<lparr>n_mapListener := [(0, 7)]\<rparr>"

definition race_session :: "u32 \<Rightarrow> session" where
  "race_session k = \<lparr>se_bLinker = False, se_usSockType = 7, se_uiSession = k, se_uiStatus = 0, se_sock = 5\<rparr>"

definition net_linked :: net where
  "net_linked = net_listening\<lparr>n_uiSession := 1, n_mapSession := [(5, race_session 1)],
     n_out := [ToSender (sender_addSock 5 1), OnTcpLinked 5 1 7]\<rparr>"

definition net_closed :: net where
  "net_closed = net_linked\<lparr>n_mapSession := [], n_out := [ToSender (sender_addSock 5 1), OnTcpLinked 5 1 7,
     ToSender (sender_delSock 5), OnTcpClose 5 1 7, CloseSock 5]\<rparr>"

definition net_again :: net where
  "net_again = net_closed\<lparr>n_uiSession := 2, n_mapSession := [(5, race_session 2)],
     n_out := [ToSender (sender_addSock 5 1), OnTcpLinked 5 1 7, ToSender (sender_delSock 5), OnTcpClose 5 1 7,
       CloseSock 5, ToSender (sender_addSock 5 2), OnTcpLinked 5 2 7]\<rparr>"

definition race_map :: sender_map where
  "race_map = (\<lambda>_. None)(5 \<mapsto> \<lparr>ss_uiSession = 1, ss_sock = 5\<rparr>)"

definition race_sent :: sys where
  "race_sent = \<lparr>y_net = net_linked, y_queue = [sender_addSock 5 1, sender_Send 5 1 [42]], y_done = 1, y_map = race_map\<rparr>"

definition race_reused :: sys where
  "race_reused = \<lparr>y_net = net_again,
     y_queue = [sender_addSock 5 1, sender_Send 5 1 [42], sender_delSock 5, sender_addSock 5 2],
     y_done = 1, y_map = race_map\<rparr>"

lemma net_listening_step: "net_step CNetWorker net_listening"
proof -
  let ?p = "junk_order\<lparr>o_usCmd := ORDER_ADDLISTENER, o_usSockType := 7\<rparr>"
  have "net_order ev_good ?p CNetWorker = Some net_listening"
    by (simp add: net_order_def onOrder_def junk_order_def ev_good_def CNetWorker_def net_listening_def)
  moreover have "o_usCmd ?p \<noteq> ORDER_ADDLINKEV \<or> new_sock (o_sock ?p) CNetWorker" by simp
  ultimately show ?thesis by (intro net_step.order)
qed

lemmas net_defs = net_again_def net_closed_def net_linked_def net_listening_def CNetWorker_def race_session_def

lemmas link_defs = acceptCB_def addTcpEv_def addSession_def net_onLinked_def emit_def ev_good_def Let_def getSession_def

lemma net_linked_step: "net_step net_listening net_linked"
proof -
  have "acceptCB ev_good 5 7 net_listening = net_linked" by (simp add: net_defs link_defs)
  moreover have "net_step net_listening (acceptCB ev_good 5 7 net_listening)"
    by (rule net_step.accept [of _ 0]) (simp_all add: net_defs new_sock_def getSession_def)
  ultimately show ?thesis by simp
qed

lemma net_closed_step: "net_step net_linked net_closed"
proof -
  have "tcpEventCB 5 net_linked = net_closed"
    by (simp add: net_defs link_defs tcpEventCB_def delSession_def net_onClose_def freeSession_def)
  moreover have "net_step net_linked (tcpEventCB 5 net_linked)"
    by (rule net_step.event) (simp add: net_defs getSession_def)
  ultimately show ?thesis by simp
qed

lemma net_again_step: "net_step net_closed net_again"
proof -
  have "acceptCB ev_good 5 7 net_closed = net_again" by (simp add: net_defs link_defs)
  moreover have "net_step net_closed (acceptCB ev_good 5 7 net_closed)"
    by (rule net_step.accept [of _ 0]) (simp_all add: net_defs new_sock_def getSession_def)
  ultimately show ?thesis by simp
qed

lemma net_sents:
  "sent CNetWorker = []" "sent net_listening = []" "sent net_linked = [sender_addSock 5 1]"
  "sent net_closed = [sender_addSock 5 1, sender_delSock 5]"
  "sent net_again = [sender_addSock 5 1, sender_delSock 5, sender_addSock 5 2]"
  by (simp_all add: net_defs)

lemma race_sent_reach: "sys_reach race_sent"
proof -
  note reach_net = sys_reach.step [OF _ sys_step.net]
  let ?s = "\<lparr>y_net = net_linked, y_queue = [sender_addSock 5 1], y_done = 0, y_map = (\<lambda>_. None)\<rparr>"
  let ?t = "\<lparr>y_net = net_linked, y_queue = [sender_addSock 5 1], y_done = 1, y_map = race_map\<rparr>"
  have "sys_reach (sys_net net_listening sys_init)"
    using net_listening_step by (intro reach_net [OF sys_reach.init]) (simp add: sys_init_def)
  then have "sys_reach (sys_net net_linked (sys_net net_listening sys_init))"
    by (rule reach_net) (simp add: sys_net_def net_linked_step)
  moreover have "sys_net net_linked (sys_net net_listening sys_init) = ?s"
    by (simp add: sys_net_def sys_init_def net_sents)
  ultimately have "sys_reach ?s" by simp
  moreover have "sys_run ?s = Some ([], ?t)"
    by (simp add: sys_run_def sender_runTask_def race_map_def) (simp add: sender_addSock_def)
  ultimately have "sys_reach ?t" by (blast intro: sys_reach.step sys_step.run)
  then have "sys_reach (sys_post (sender_Send 5 1 [42]) ?t)"
    by (rule sys_reach.step) (rule sys_step.post; simp add: sender_Send_def)
  then show ?thesis by (simp add: sys_post_def race_sent_def)
qed

lemma race_reused_reach: "sys_reach race_reused"
proof -
  note reach_net = sys_reach.step [OF _ sys_step.net]
  have "sys_reach (sys_net net_closed race_sent)"
    using net_closed_step by (intro reach_net [OF race_sent_reach]) (simp add: race_sent_def)
  then have "sys_reach (sys_net net_again (sys_net net_closed race_sent))"
    by (rule reach_net) (simp add: sys_net_def net_again_step)
  moreover have "sys_net net_again (sys_net net_closed race_sent) = race_reused"
    by (simp add: sys_net_def race_sent_def race_reused_def net_sents)
  ultimately show ?thesis by simp
qed

lemma race_write:
  "sender_runTask (sender_Send 5 1 [42]) race_map = Some ([SockWrite 5 [42]], race_map)"
  by (simp add: sender_runTask_def sender_Send_def sendToSock_def race_map_def H_Sender_def)

lemma race_session_5:
  "map_option se_uiSession (getSession 5 net_linked) = Some 1" "map_option se_uiSession (getSession 5 net_again) = Some 2"
  by (simp_all add: net_defs getSession_def)

text \<open>C40. Without that condition data reaches the wrong connection.  There is a state that can be reached in which the
  sender is about to write, for session 1, to socket 5, while socket 5 is that of session 2: the first connection was
  closed, the system gave its descriptor to the next one, and the removal is still in the sender's queue behind the data.\<close>

theorem sys_wrong_connection:
  "\<exists>y m. sys_reach y \<and> y_queue y ! y_done y = sender_Send 5 1 [42] \<and>
     sender_runTask (y_queue y ! y_done y) (y_map y) = Some ([SockWrite 5 [42]], m) \<and>
     map_option se_uiSession (getSession 5 (y_net y)) = Some 2"
  using race_reused_reach race_write race_session_5(2)
  by (intro exI [of _ race_reused] exI [of _ race_map]) (simp add: race_reused_def)

lemma sys_net_reach: "sys_reach y \<Longrightarrow> net_reach (y_net y)"
proof (induction rule: sys_reach.induct)
  case init
  show ?case using net_reach.init by (simp add: sys_init_def)
next
  case (step y y')
  from step(2) show ?case
    by cases (use step.IH in \<open>auto intro: net_reach.step simp: sys_net_def sys_post_def sys_run_def split: if_splits\<close>)
qed

theorem sys_right_connection_witness:
  "map_option se_uiSession (getSession 5 (y_net race_sent)) = Some 1"
  by (rule sys_right_connection [OF race_sent_reach, of 5 1 "[42]" race_map])
     (simp_all add: race_sent_def race_write, simp add: sender_Send_def)

theorem net_sessions_witness:
  "reg_of (sent net_again) 5 = Some 2 \<and> linked_of (n_out net_again) = [1, 2] \<and> closed_of (n_out net_again) = [1] \<and>
   mset (linked_of (n_out net_again)) = mset (closed_of (n_out net_again)) + {#2#}"
proof -
  have "net_reach net_again" using sys_net_reach [OF race_reused_reach] by (simp add: race_reused_def)
  note t = net_sessions [OF this]
  have m: "map (\<lambda>(fd, s). se_uiSession s) (n_mapSession net_again) = [2]" "linked_of (n_out net_again) = [1, 2]"
    "closed_of (n_out net_again) = [1]"
    by (simp_all add: net_defs)
  have "reg_of (sent net_again) 5 = map_option se_uiSession (getSession 5 net_again)" using t by (simp only:)
  moreover have "mset (linked_of (n_out net_again)) = mset (closed_of (n_out net_again)) + mset [2]"
    using t m(1) by metis
  ultimately show ?thesis using m(2,3) race_session_5(2) by simp
qed

theorem net_closesock_witness:
  "net_order ev_good (order_closeSock 5 1 junk_order) net_again = Some net_again \<and>
   getSession 5 (delSession 5 net_again) = None"
proof -
  have "net_reach net_again" using sys_net_reach [OF race_reused_reach] by (simp add: race_reused_def)
  from net_closesock [OF this, of ev_good 5 1 junk_order 5] race_session_5(2) show ?thesis by simp
qed

end
