(* ===== verification/Object_Pool.thy ===== *)
theory Object_Pool
  imports Prelude
begin

text \<open>
  \<^verbatim>\<open>HBase/ObjectPool.h\<close>: objects that are handed out and taken back.  Objects are their addresses, 0 is
  \<^verbatim>\<open>NULL\<close>; the address that \<^verbatim>\<open>new\<close> gives is an argument of the operations that call it, and that it is
  not the address of an object that still exists is what they rely on.
\<close>

record obj_pool =
  m_lCount :: int
  m_mapUsed :: "nat set"
  m_quFree :: "nat list"

definition CObjPool :: obj_pool where
  "CObjPool = \<lparr>m_lCount = 0, m_mapUsed = {}, m_quFree = []\<rparr>"

text \<open>The constructor with a number takes its length from the list of new objects.\<close>

definition CObjPool_init :: "nat list \<Rightarrow> obj_pool" where
  "CObjPool_init news = CObjPool\<lparr>m_quFree := news\<rparr>"

definition Malloc :: "nat \<Rightarrow> obj_pool \<Rightarrow> nat \<times> obj_pool" where
  "Malloc new s =
     (let (pTmp, s) = (case m_quFree s of
            [] \<Rightarrow> (new, s)
          | front # rest \<Rightarrow> (front, s\<lparr>m_quFree := rest\<rparr>))
      in (pTmp, s\<lparr>m_mapUsed := insert pTmp (m_mapUsed s), m_lCount := m_lCount s + 1\<rparr>))"

definition Free :: "nat \<Rightarrow> obj_pool \<Rightarrow> obj_pool" where
  "Free pObj s =
     (if pObj = 0 then s
      else if pObj \<in> m_mapUsed s
      then s\<lparr>m_mapUsed := m_mapUsed s - {pObj}, m_quFree := m_quFree s @ [pObj], m_lCount := m_lCount s - 1\<rparr>
      else s)"

text \<open>The objects that exist.\<close>

definition pool_objects :: "obj_pool \<Rightarrow> nat set" where
  "pool_objects s = m_mapUsed s \<union> set (m_quFree s)"

datatype pool_op = P_Malloc nat | P_Free nat

definition pool_step :: "pool_op \<Rightarrow> obj_pool \<Rightarrow> obj_pool" where
  "pool_step p s = (case p of P_Malloc new \<Rightarrow> snd (Malloc new s) | P_Free pObj \<Rightarrow> Free pObj s)"

text \<open>The runs in which \<^verbatim>\<open>new\<close> keeps its promise, with the greatest number of objects in use so far.\<close>

inductive pool_run :: "obj_pool \<Rightarrow> nat \<Rightarrow> obj_pool \<Rightarrow> bool" for s0 where
  start: "pool_run s0 0 s0"
| malloc: "pool_run s0 peak s \<Longrightarrow> new \<noteq> 0 \<Longrightarrow> new \<notin> pool_objects s \<Longrightarrow> s' = pool_step (P_Malloc new) s \<Longrightarrow>
    pool_run s0 (max peak (card (m_mapUsed s'))) s'"
| free: "pool_run s0 peak s \<Longrightarrow> s' = pool_step (P_Free pObj) s \<Longrightarrow> pool_run s0 peak s'"

definition pool_inv :: "obj_pool \<Rightarrow> bool" where
  "pool_inv s \<longleftrightarrow> finite (m_mapUsed s) \<and> distinct (m_quFree s) \<and> m_mapUsed s \<inter> set (m_quFree s) = {} \<and>
     0 \<notin> pool_objects s \<and> m_lCount s = int (card (m_mapUsed s))"

lemma pool_inv_init: "distinct news \<Longrightarrow> 0 \<notin> set news \<Longrightarrow> pool_inv (CObjPool_init news)"
  by (simp add: pool_inv_def CObjPool_init_def CObjPool_def pool_objects_def)

text \<open>\<^verbatim>\<open>Malloc\<close> allocates when no object is free, and then only.\<close>

lemma Malloc_inv:
  assumes "pool_inv s" "new \<noteq> 0" "new \<notin> pool_objects s" "Malloc new s = (p, s')"
  shows "pool_inv s'" "p \<notin> m_mapUsed s" "p \<noteq> 0" "m_mapUsed s' = insert p (m_mapUsed s)"
    "pool_objects s' = (if m_quFree s = [] then insert new (pool_objects s) else pool_objects s)"
proof -
  show "m_mapUsed s' = insert p (m_mapUsed s)" using assms(4) by (auto simp: Malloc_def Let_def split: list.splits)
  show n: "p \<notin> m_mapUsed s" "p \<noteq> 0"
    using assms by (auto simp: Malloc_def Let_def pool_inv_def pool_objects_def split: list.splits)
  show "pool_inv s'" "pool_objects s' = (if m_quFree s = [] then insert new (pool_objects s) else pool_objects s)"
    using assms n by (auto simp: Malloc_def Let_def pool_inv_def pool_objects_def split: list.splits)
qed

lemma Free_inv:
  assumes "pool_inv s"
  shows "pool_inv (Free p s) \<and> pool_objects (Free p s) = pool_objects s \<and> m_mapUsed (Free p s) \<subseteq> m_mapUsed s"
proof (cases "p \<noteq> 0 \<and> p \<in> m_mapUsed s")
  case True
  then have "0 < card (m_mapUsed s)" using assms by (auto simp: pool_inv_def card_gt_0_iff)
  then have "int (card (m_mapUsed s - {p})) = int (card (m_mapUsed s)) - 1" using True by simp
  then show ?thesis using True assms by (auto simp: Free_def pool_inv_def pool_objects_def)
next
  case False
  then show ?thesis using assms by (auto simp: Free_def)
qed

lemma pool_run_inv:
  assumes "pool_run s0 peak s" "pool_inv s0" "m_mapUsed s0 = {}"
  shows "pool_inv s \<and> card (m_mapUsed s) \<le> peak \<and> card (pool_objects s) = max (length (m_quFree s0)) peak"
  using assms(1)
proof induction
  case start
  then show ?case using assms(2,3) by (simp add: pool_inv_def pool_objects_def distinct_card)
next
  case (malloc peak s new s')
  then have inv: "pool_inv s" and peak: "card (m_mapUsed s) \<le> peak" and tot: "card (pool_objects s) = max (length (m_quFree s0)) peak"
    by simp_all
  obtain p where p: "Malloc new s = (p, s')" using malloc.hyps(4) by (cases "Malloc new s") (simp add: pool_step_def)
  note m = Malloc_inv [OF inv malloc.hyps(2,3) p]
  have fin: "finite (m_mapUsed s)" "finite (pool_objects s)" using inv by (simp_all add: pool_inv_def pool_objects_def)
  have used: "card (m_mapUsed s') = Suc (card (m_mapUsed s))" using m(2,4) fin by simp
  show ?case
  proof (cases "m_quFree s = []")
    case True
    then have "pool_objects s = m_mapUsed s" by (simp add: pool_objects_def)
    moreover have "card (pool_objects s') = Suc (card (pool_objects s))" using m(5) True malloc.hyps(3) fin by simp
    ultimately show ?thesis using m(1) used tot peak by simp
  next
    case False
    have sub: "m_mapUsed s' \<subseteq> pool_objects s" using m(4,5) False by (auto simp: pool_objects_def)
    have "card (m_mapUsed s') \<le> card (pool_objects s)" by (rule card_mono [OF fin(2) sub])
    then show ?thesis using m(1,5) False used tot peak by simp
  qed
next
  case (free peak s s' p)
  then have inv: "pool_inv s" by simp
  note f = Free_inv [OF inv, of p]
  have "card (m_mapUsed (Free p s)) \<le> card (m_mapUsed s)" using f inv by (intro card_mono) (simp_all add: pool_inv_def)
  then show ?case using free f by (simp add: pool_step_def)
qed

end
