(* ===== verification/Net_Parser.thy ===== *)
theory Net_Parser
  imports Prelude "HOL-Library.Monad_Syntax"
begin

text \<open>
  \<^verbatim>\<open>HBase/NetParser.cpp\<close> over \<^verbatim>\<open>HBase/RWLock.cpp\<close>: the registry of packet parsers by name and by type.
  An operation that waits for a lock gives \<open>None\<close>; the others are whole steps, and leave the locks as their
  code does.
\<close>

section \<open>The lock, as \<^verbatim>\<open>pthread_rwlock\<close>\<close>

record rw_lock =
  lk_readers :: nat
  lk_writer :: bool

definition rLock :: "rw_lock \<Rightarrow> rw_lock option" where
  "rLock l = (if lk_writer l then None else Some (l\<lparr>lk_readers := lk_readers l + 1\<rparr>))"

definition wLock :: "rw_lock \<Rightarrow> rw_lock option" where
  "wLock l = (if lk_writer l \<or> lk_readers l \<noteq> 0 then None else Some (l\<lparr>lk_writer := True\<rparr>))"

definition unLock :: "rw_lock \<Rightarrow> rw_lock" where
  "unLock l = (if lk_writer l then l\<lparr>lk_writer := False\<rparr> else l\<lparr>lk_readers := lk_readers l - 1\<rparr>)"

section \<open>The registry\<close>

text \<open>A parser is its name and its address.\<close>

record net_parsers =
  m_mapName :: "string \<rightharpoonup> string \<times> nat"
  m_mapType :: "u16 \<rightharpoonup> string \<times> nat"
  m_objNameLck :: rw_lock
  m_objTypeLck :: rw_lock

definition CNetParser :: net_parsers where
  "CNetParser = \<lparr>m_mapName = Map.empty, m_mapType = Map.empty,
     m_objNameLck = \<lparr>lk_readers = 0, lk_writer = False\<rparr>, m_objTypeLck = \<lparr>lk_readers = 0, lk_writer = False\<rparr>\<rparr>"

text \<open>\<^verbatim>\<open>insert\<close> keeps what is there.  A parser without a name is an assertion that fails, here \<open>None\<close> too.\<close>

definition addParser :: "string \<times> nat \<Rightarrow> net_parsers \<Rightarrow> net_parsers option" where
  "addParser pParser s =
     (if fst pParser = [] then None
      else do {
        l \<leftarrow> wLock (m_objNameLck s);
        let m = (if m_mapName s (fst pParser) = None then (m_mapName s)(fst pParser \<mapsto> pParser) else m_mapName s);
        Some (s\<lparr>m_mapName := m, m_objNameLck := unLock l\<rparr>)
      })"

definition setParser :: "u16 \<Rightarrow> string \<Rightarrow> net_parsers \<Rightarrow> net_parsers option" where
  "setParser usType pszName s = do {
     n \<leftarrow> rLock (m_objNameLck s);
     s \<leftarrow> (case m_mapName s pszName of
             Some p \<Rightarrow> do {
               t \<leftarrow> wLock (m_objTypeLck s);
               Some (s\<lparr>m_mapType := (m_mapType s)(usType \<mapsto> p), m_objTypeLck := unLock t\<rparr>)
             }
           | None \<Rightarrow> Some s);
     Some (s\<lparr>m_objNameLck := unLock n\<rparr>)
   }"

definition getParser :: "u16 \<Rightarrow> net_parsers \<Rightarrow> ((string \<times> nat) option \<times> net_parsers) option" where
  "getParser usType s = do {
     t \<leftarrow> rLock (m_objTypeLck s);
     Some (m_mapType s usType, s\<lparr>m_objTypeLck := unLock t\<rparr>)
   }"

text \<open>The return of a name it found leaves the lock locked.\<close>

definition getParserNam :: "u16 \<Rightarrow> net_parsers \<Rightarrow> (string \<times> net_parsers) option" where
  "getParserNam usType s = do {
     t \<leftarrow> rLock (m_objTypeLck s);
     case m_mapType s usType of
       Some p \<Rightarrow> Some (fst p, s\<lparr>m_objTypeLck := t\<rparr>)
     | None \<Rightarrow> Some ([], s\<lparr>m_objTypeLck := unLock t\<rparr>)
   }"

datatype parser_op = AddParser "string \<times> nat" | SetParser u16 string | GetParser u16 | GetParserNam u16

definition parser_step :: "parser_op \<Rightarrow> net_parsers \<Rightarrow> net_parsers option" where
  "parser_step p s = (case p of
       AddParser pParser \<Rightarrow> addParser pParser s
     | SetParser usType pszName \<Rightarrow> setParser usType pszName s
     | GetParser usType \<Rightarrow> map_option snd (getParser usType s)
     | GetParserNam usType \<Rightarrow> map_option snd (getParserNam usType s))"

fun parser_run :: "parser_op list \<Rightarrow> net_parsers \<Rightarrow> net_parsers option" where
  "parser_run [] s = Some s"
| "parser_run (p # ps) s = do { s \<leftarrow> parser_step p s; parser_run ps s }"

section \<open>What the operations do to the locks\<close>

definition locks_idle :: "net_parsers \<Rightarrow> bool" where
  "locks_idle s \<longleftrightarrow> m_objNameLck s = \<lparr>lk_readers = 0, lk_writer = False\<rparr> \<and> \<not> lk_writer (m_objTypeLck s)"

lemmas lock_defs = rLock_def wLock_def unLock_def
lemmas parser_defs = addParser_def setParser_def getParser_def getParserNam_def

lemma parser_step_locks:
  assumes "locks_idle s" "parser_step p s = Some s'"
  shows "locks_idle s' \<and> lk_readers (m_objTypeLck s) \<le> lk_readers (m_objTypeLck s') \<and>
    (lk_readers (m_objTypeLck s) \<noteq> 0 \<longrightarrow> m_mapType s' = m_mapType s)"
  using assms
  by (cases p) (auto simp: parser_step_def parser_defs lock_defs locks_idle_def Let_def split: if_splits option.splits Option.bind_splits)

lemma parser_run_locks:
  "locks_idle s \<Longrightarrow> parser_run ps s = Some s' \<Longrightarrow> locks_idle s' \<and> lk_readers (m_objTypeLck s) \<le> lk_readers (m_objTypeLck s') \<and>
    (lk_readers (m_objTypeLck s) \<noteq> 0 \<longrightarrow> m_mapType s' = m_mapType s)"
proof (induction ps arbitrary: s)
  case (Cons p ps)
  then obtain s1 where s1: "parser_step p s = Some s1" "parser_run ps s1 = Some s'" by (auto split: Option.bind_splits)
  note a = parser_step_locks [OF Cons.prems(1) s1(1)]
  then show ?case using Cons.IH [OF _ s1(2)] by auto
qed simp

lemma locks_idle_start: "locks_idle CNetParser"
  by (simp add: locks_idle_def CNetParser_def)

lemma setParser_waits: "locks_idle s \<Longrightarrow> lk_readers (m_objTypeLck s) \<noteq> 0 \<Longrightarrow> m_mapName s n \<noteq> None \<Longrightarrow> setParser t n s = None"
  by (auto simp: setParser_def lock_defs locks_idle_def)

lemma getParserNam_keeps: "locks_idle s \<Longrightarrow> m_mapType s t = Some p \<Longrightarrow>
  \<exists>s'. getParserNam t s = Some (fst p, s') \<and> locks_idle s' \<and> lk_readers (m_objTypeLck s') \<noteq> 0 \<and> m_mapType s' = m_mapType s"
  by (simp add: getParserNam_def lock_defs locks_idle_def)

text \<open>Without that operation no lock is held between the operations, and none has to wait.\<close>

definition locks_free :: "net_parsers \<Rightarrow> bool" where
  "locks_free s \<longleftrightarrow> locks_idle s \<and> lk_readers (m_objTypeLck s) = 0"

fun op_harmless :: "parser_op \<Rightarrow> bool" where
  "op_harmless (AddParser p) \<longleftrightarrow> fst p \<noteq> []"
| "op_harmless (GetParserNam t) \<longleftrightarrow> False"
| "op_harmless _ \<longleftrightarrow> True"

lemma parser_step_free:
  assumes "locks_free s" "op_harmless p"
  shows "\<exists>s'. parser_step p s = Some s' \<and> locks_free s'"
proof (cases p)
  case (SetParser t n)
  then show ?thesis using assms
    by (cases "m_mapName s n") (simp_all add: parser_step_def parser_defs lock_defs locks_idle_def locks_free_def)
qed (use assms in \<open>auto simp: parser_step_def parser_defs lock_defs locks_idle_def locks_free_def Let_def\<close>)

lemma parser_run_free: "locks_free s \<Longrightarrow> list_all op_harmless ps \<Longrightarrow> \<exists>s'. parser_run ps s = Some s' \<and> locks_free s'"
proof (induction ps arbitrary: s)
  case (Cons p ps)
  obtain s1 where "parser_step p s = Some s1" "locks_free s1" using parser_step_free [OF Cons.prems(1)] Cons.prems(2) by auto
  then show ?case using Cons.IH Cons.prems(2) by simp
qed simp

text \<open>The parser of a type is the one of the last \<^verbatim>\<open>setParser\<close> whose name was registered, and the parser of a
  name the first that was added.\<close>

definition spec_step :: "parser_op \<Rightarrow> (string \<rightharpoonup> string \<times> nat) \<times> (u16 \<rightharpoonup> string \<times> nat) \<Rightarrow> (string \<rightharpoonup> string \<times> nat) \<times> (u16 \<rightharpoonup> string \<times> nat)" where
  "spec_step p m = (case p of
       AddParser q \<Rightarrow> ([fst q \<mapsto> q] ++ fst m, snd m)
     | SetParser t n \<Rightarrow> (fst m, if n \<in> dom (fst m) then (snd m)(t := fst m n) else snd m)
     | _ \<Rightarrow> m)"

lemma parser_step_spec:
  assumes "parser_step p s = Some s'"
  shows "(m_mapName s', m_mapType s') = spec_step p (m_mapName s, m_mapType s)"
  using assms
  by (cases p) (auto simp: parser_step_def parser_defs spec_step_def Let_def map_add_def fun_eq_iff
      split: if_splits option.splits Option.bind_splits)

lemma parser_run_spec: "parser_run ps s = Some s' \<Longrightarrow> (m_mapName s', m_mapType s') = fold spec_step ps (m_mapName s, m_mapType s)"
proof (induction ps arbitrary: s)
  case (Cons p ps)
  then obtain s1 where "parser_step p s = Some s1" "parser_run ps s1 = Some s'" by (auto split: Option.bind_splits)
  then show ?case using Cons.IH parser_step_spec by simp
qed simp

end
