(* ===== verification/Registry_Props.thy ===== *)
theory Registry_Props
  imports Object_Pool Net_Parser
begin

text \<open>The properties of the object pool and of the parser registry.\<close>

text \<open>C29. A pool never hands out an object that is in use, whatever is freed in between, twice or without having
  been handed out; it counts right; and it allocates as little as possible: the objects that exist are as many
  as were made at the start, or as were in use at the same time if that is more.\<close>

theorem pool_exact:
  assumes "distinct news" "0 \<notin> set news" "pool_run (CObjPool_init news) peak s" "new \<noteq> 0" "new \<notin> pool_objects s"
  shows "fst (Malloc new s) \<notin> m_mapUsed s \<and> fst (Malloc new s) \<noteq> 0 \<and> m_lCount s = int (card (m_mapUsed s)) \<and>
    card (pool_objects s) = max (length news) peak"
proof -
  have "pool_inv s \<and> card (m_mapUsed s) \<le> peak \<and> card (pool_objects s) = max (length (m_quFree (CObjPool_init news))) peak"
    by (rule pool_run_inv [OF assms(3) pool_inv_init [OF assms(1,2)]]) (simp add: CObjPool_init_def CObjPool_def)
  then show ?thesis
    using Malloc_inv(2,3) [OF _ assms(4,5) prod.collapse [symmetric]] by (simp add: pool_inv_def CObjPool_init_def)
qed

theorem pool_exact_witness:
  "let s = pool_step (P_Malloc 9) (CObjPool_init [5]) in
   fst (Malloc 9 s) \<notin> m_mapUsed s \<and> fst (Malloc 9 s) \<noteq> 0 \<and> m_lCount s = int (card (m_mapUsed s)) \<and>
   card (pool_objects s) = max (length [5 :: nat]) (max 0 (card (m_mapUsed s)))"
  unfolding Let_def
proof (rule pool_exact)
  show "pool_run (CObjPool_init [5]) (max 0 (card (m_mapUsed (pool_step (P_Malloc 9) (CObjPool_init [5])))))
      (pool_step (P_Malloc 9) (CObjPool_init [5]))"
    by (rule pool_run.malloc [OF pool_run.start _ _ refl]) (simp_all add: CObjPool_init_def CObjPool_def pool_objects_def)
qed (simp_all add: CObjPool_init_def CObjPool_def pool_objects_def pool_step_def Malloc_def)

text \<open>C28. Runs of the registry without \<^verbatim>\<open>getParserNam\<close> never wait, and look up what was registered: the
  first parser of a name, under the type of the last \<^verbatim>\<open>setParser\<close> that found its name.  But
  \<^verbatim>\<open>getParserNam\<close> returns a name it finds without releasing the read lock: from then on the types are what
  they were, in every continuation, and every \<^verbatim>\<open>setParser\<close> of a registered name waits for ever.\<close>

theorem parser_lock_kept:
  assumes "list_all op_harmless ps"
  shows "\<exists>s. parser_run ps CNetParser = Some s \<and> (m_mapName s, m_mapType s) = fold spec_step ps (Map.empty, Map.empty) \<and>
    (\<forall>t. map_option fst (getParser t s) = Some (m_mapType s t)) \<and>
    (\<forall>t p s1 name. m_mapType s t = Some p \<and> getParserNam t s = Some (name, s1) \<longrightarrow>
       name = fst p \<and>
       (\<forall>qs s2. parser_run qs s1 = Some s2 \<longrightarrow> m_mapType s2 = m_mapType s \<and>
          (\<forall>t' n. m_mapName s2 n \<noteq> None \<longrightarrow> setParser t' n s2 = None)))"
proof -
  have start: "locks_free CNetParser" using locks_idle_start by (simp add: locks_free_def CNetParser_def)
  obtain s where s: "parser_run ps CNetParser = Some s" "locks_free s" using parser_run_free [OF start assms] by blast
  have idle: "locks_idle s" using s(2) by (simp add: locks_free_def)
  have spec: "(m_mapName s, m_mapType s) = fold spec_step ps (Map.empty, Map.empty)"
    using parser_run_spec [OF s(1)] by (simp add: CNetParser_def)
  have get: "map_option fst (getParser t s) = Some (m_mapType s t)" for t
    using idle by (simp add: getParser_def lock_defs locks_idle_def)
  have kept: "name = fst p \<and> m_mapType s2 = m_mapType s \<and> (\<forall>t' n. m_mapName s2 n \<noteq> None \<longrightarrow> setParser t' n s2 = None)"
    if h: "m_mapType s t = Some p" "getParserNam t s = Some (name, s1)" "parser_run qs s1 = Some s2" for t p name s1 qs s2
  proof -
    have k: "name = fst p" "locks_idle s1" "lk_readers (m_objTypeLck s1) \<noteq> 0" "m_mapType s1 = m_mapType s"
      using getParserNam_keeps [OF idle h(1)] h(2) by auto
    note r = parser_run_locks [OF k(2) h(3)]
    have "lk_readers (m_objTypeLck s2) \<noteq> 0" using r k(3) by linarith
    then show ?thesis using k r setParser_waits by auto
  qed
  have "name = fst p" if h: "m_mapType s t = Some p" "getParserNam t s = Some (name, s1)" for t p name s1
    using kept [OF h, of "[]" s1] by simp
  then show ?thesis using s(1) spec get kept by blast
qed

theorem parser_lock_kept_witness:
  "\<exists>s. parser_run [AddParser (''tcp1'', 1), SetParser 3 ''tcp1''] CNetParser = Some s \<and> m_mapType s 3 = Some (''tcp1'', 1) \<and>
     (\<forall>s1 name. getParserNam 3 s = Some (name, s1) \<longrightarrow> name = ''tcp1'' \<and> (m_mapName s1 ''tcp1'' \<noteq> None \<longrightarrow> setParser 4 ''tcp1'' s1 = None))"
proof -
  let ?ps = "[AddParser (''tcp1'', 1), SetParser 3 ''tcp1'']"
  have h: "list_all op_harmless ?ps" by simp
  obtain s where s: "parser_run ?ps CNetParser = Some s" "(m_mapName s, m_mapType s) = fold spec_step ?ps (Map.empty, Map.empty)"
    "\<And>t p s1 name. m_mapType s t = Some p \<Longrightarrow> getParserNam t s = Some (name, s1) \<Longrightarrow> name = fst p \<and>
       (\<forall>qs s2. parser_run qs s1 = Some s2 \<longrightarrow> m_mapType s2 = m_mapType s \<and>
          (\<forall>t' n. m_mapName s2 n \<noteq> None \<longrightarrow> setParser t' n s2 = None))"
    using parser_lock_kept [OF h] by blast
  have t: "m_mapType s 3 = Some (''tcp1'', 1)" using s(2) by (simp add: spec_step_def map_add_def)
  have "name = ''tcp1'' \<and> (m_mapName s1 ''tcp1'' \<noteq> None \<longrightarrow> setParser 4 ''tcp1'' s1 = None)" if g: "getParserNam 3 s = Some (name, s1)" for s1 name
  proof -
    note k = s(3) [OF t g]
    have "parser_run [] s1 = Some s1" by simp
    then show ?thesis using k by (metis fst_conv)
  qed
  then show ?thesis using s(1) t by blast
qed

end
