(* ===== verification/Spec2Isabelle.thy ===== *)
theory Spec2Isabelle
  imports Cir_Props NN_Props Digest_Props RSA_Props KeyGen_Props Envelope_Props HRSA_Props Binary_Props Net_Props
    WebSock_Props Codec_Props Runtime_Props Link_Props Registry_Props
begin

text \<open>
  A verification library for Humble, a server framework in C and C++ whose logic is scripted in Lua.

  \<^bold>\<open>The program.\<close>  A network thread (\<^verbatim>\<open>HBase/NetBase.cpp\<close>, \<^verbatim>\<open>NetWorker.cpp\<close>) accepts and opens connections, keeps a
  session for each, and takes orders from the other threads.  What a connection delivers is collected in its
  buffer; \<^verbatim>\<open>CLNetDisp::onTcpRead\<close> (\<^verbatim>\<open>Humble/LNetDisp.cpp\<close>) cuts it into packets with the parser of the session
  (\<^verbatim>\<open>Tcp1\<close>, \<^verbatim>\<open>Tcp2\<close>, \<^verbatim>\<open>mqtt\<close>, \<^verbatim>\<open>WebSock\<close>, found in the registry \<^verbatim>\<open>NetParser\<close>) and hands each packet, as a \<^verbatim>\<open>CBinary\<close>
  cursor, to a script.  Scripts run as tasks with a channel of messages each (\<^verbatim>\<open>Chan\<close>), on a pool of workers
  (\<^verbatim>\<open>WorkerDisp\<close>, \<^verbatim>\<open>Worker\<close>), and answer through the sender thread (\<^verbatim>\<open>Sender\<close>).  Queues between threads are circular
  queues (\<^verbatim>\<open>CirQueue\<close>) or the queue of \<^verbatim>\<open>CRecvTask\<close>.  Beside this there are codecs (\<^verbatim>\<open>Base64\<close>, \<^verbatim>\<open>CRC\<close>, \<^verbatim>\<open>SHA1\<close>,
  \<^verbatim>\<open>UEncrypt\<close>), identifiers (\<^verbatim>\<open>SnowFlake\<close>), and the cryptography of \<^verbatim>\<open>HBase/RSAEuro\<close>, which the scripts use through
  \<^verbatim>\<open>HRSA\<close> and \<^verbatim>\<open>RSAKey\<close>.

  \<^bold>\<open>Conventions\<close> (theory \<open>Prelude\<close>).  The platform is that of the makefiles: little endian, \<^verbatim>\<open>unsigned int\<close> of 32 bits.
  Machine integers are words of their width (\<open>u8\<close>, \<open>u16\<close>, \<open>u32\<close>), sizes and indices natural numbers, except where they wrap
  in the source: there the wrap is written out.  Arrays and strings are lists of bytes.  What a function reads that it has not
  written (the bytes behind a buffer, a local variable before its first assignment) is an argument.  The result
  \<open>Inl status\<close> or an \<open>int\<close> status is an error code, \<open>None\<close> of a definition by \<open>partial_function\<close> or over one is a
  loop that does not end.  There is no fuel: a theorem that something returns has \<open>Some\<close> in its conclusion.

  \<^bold>\<open>Multi-precision arithmetic\<close> (\<^verbatim>\<open>RSAEuro/nn.c\<close>).  \<open>NN\<close> has every function, digit by digit, with the names of the source; a
  number is a list of digits and \<open>nn_val\<close> its value.  \<open>NN_Arith\<close>, \<open>NN_Div\<close> and \<open>NN_Mod\<close> show the value of each result: the
  carries and borrows, the two-digit estimates and corrections of the division, the windows of the modular power, the
  inverse and the gcd.  The loops of the division, of the inverse and of the gcd are partial functions; the lemmas show that
  they end.  \<open>NN_Props\<close>: the division, the power and the inverse.

  \<^bold>\<open>Digests\<close> (\<^verbatim>\<open>md2c.c\<close>, \<^verbatim>\<open>md4c.c\<close>, \<^verbatim>\<open>md5c.c\<close>, \<^verbatim>\<open>shsc.c\<close>, \<^verbatim>\<open>HBase/SHA1.cpp\<close>).  \<open>Digest_Stream\<close> has the contract of an update operation,
  the locale \<open>stream_digest\<close>; \<open>MD45\<close>, \<open>MD2\<close>, \<open>SHS\<close>, \<open>SHA1\<close> have the transformations and contexts and interpret it.  The bit
  counters wrap at 64 bits, and so the theorems hold for messages of every length that fits the pieces.
  \<open>R_Random\<close> (\<^verbatim>\<open>r_random.c\<close>) is the random object: one stream, however it is cut into requests; time and clock are inputs.
  \<open>Digest_Props\<close>: a digest of pieces is that of the padded whole.

  \<^bold>\<open>RSA\<close> (\<^verbatim>\<open>rsa.c\<close>, \<^verbatim>\<open>prime.c\<close>, \<^verbatim>\<open>r_keygen.c\<close>, \<^verbatim>\<open>HBase/HRSA.cpp\<close>, \<^verbatim>\<open>HBase/RSAKey.cpp\<close>).  \<open>RSA\<close> has the raw operations with the Chinese remainder
  step and the PKCS blocks; \<open>Fermat\<close> the number theory, \<open>Prime_Certificate\<close> and \<open>Example_Keys\<close> keys for the witnesses.
  \<open>rsa_key_pair\<close> says that two key structures belong together, \<open>rsa_key\<close> what the operations need of that.
  \<open>Prime\<close>: the trial division by the table, the Fermat test and the search, which always ends.  \<open>KeyGen\<close>: \<open>pem_keys\<close> is all of
  \<^verbatim>\<open>R_GeneratePEMKeys\<close> after the two primes; the loops that wait for primes are a partial function, since their end depends on
  the random object, and \<open>R_GeneratePEMKeys_pair\<close> shows that keys it returns belong together when the numbers that passed the
  test are primes.  \<open>DH\<close> (\<^verbatim>\<open>r_dh.c\<close>): parameters and agreement.  \<open>HRSA\<close>: messages of any length in blocks.
  \<open>RSA_Props\<close>, \<open>KeyGen_Props\<close>, \<open>HRSA_Props\<close>: round trips, agreement, generation.

  \<^bold>\<open>Envelopes\<close> (\<^verbatim>\<open>desc.c\<close>, \<^verbatim>\<open>r_encode.c\<close>, \<^verbatim>\<open>r_enhanc.c\<close>).  \<open>DES\<close>: key schedule and block function, whose variables have a width that
  is a parameter, 32 bits or, with \<^verbatim>\<open>unsigned long\<close> on LP64, 64; \<open>DES_Eval\<close> evaluates the second case.  \<open>DES_Modes\<close>: the
  chained modes over the locale \<open>block_cipher\<close>.  \<open>PEM\<close>: the printable encoding.  \<open>Signature\<close>: digest selection, digest information,
  signing and verifying.  \<open>Envelope\<close>: sealing and opening; \<open>env_step\<close> is the abstract view, the cipher on whole blocks and the
  bytes that are pending.  \<open>PEM_Blocks\<close>: whole messages in printable form.  \<open>Envelope_Props\<close>: everything that is sealed is
  opened, in whatever pieces, and what happens outside the buffers.

  \<^bold>\<open>Queues and pools\<close>.  \<open>Fifo\<close> is the contract of a queue (locales \<open>fifo\<close>, \<open>bounded_fifo\<close>); \<open>Cir_Queue\<close> (\<^verbatim>\<open>CirQueue.h\<close>) and
  \<open>Recv_Task\<close> interpret it.  \<open>Object_Pool\<close> (\<^verbatim>\<open>ObjectPool.h\<close>): addresses that \<^verbatim>\<open>new\<close> gives are arguments, and that they are
  not those of existing objects is the hypothesis.  \<open>Net_Parser\<close> (\<^verbatim>\<open>NetParser.cpp\<close>, \<^verbatim>\<open>RWLock.cpp\<close>): the registry refines two maps
  until a lock is kept.

  \<^bold>\<open>Buffers, packets and codecs\<close>.  \<open>Funcs\<close>, \<open>Binary\<close>, \<open>Binary_Fields\<close>: string functions, the cursor, and messages as sequences of fields.
  \<open>Net_Read\<close>: the read loop and the locale \<open>packet_parser\<close>, in which delivery is shown once: however the bytes are cut into
  reads, the handler sees what the parser makes of the whole stream.  \<open>Tcp_Parsers\<close> (with locales for length prefixes),
  \<open>Mqtt\<close> and \<open>WebSock\<close> interpret it.  \<open>SHA1\<close>, \<open>Base64\<close>, \<open>CRC\<close>, \<open>UEncrypt\<close>: round trips and reference definitions.

  \<^bold>\<open>Threads\<close>.  \<open>Recv_Task\<close>: a thread with its queue, one step of any thread at a time, cut wherever another can come in; the
  invariants are over all reachable states.  \<open>Dispatch\<close>: tasks, channels and workers, as a step relation with program counters.
  \<open>Sender\<close>: the sender thread refines the series of its requests.  \<open>Net_Base\<close>: sessions, orders and callbacks of the network
  thread.  \<open>Net_System\<close>: network and sender thread together, with the reuse of socket descriptors.  \<open>Snow_Flake\<close>: identifiers,
  with the clock as the list of its readings.  \<open>Runtime_Props\<close> and \<open>Link_Props\<close>: ordering, delivery, and the right connection.

  \<^bold>\<open>Bounds.\<close>  Keys have up to 1024 bits, as in the source, so numbers have up to 33 digits.  A block for the printable encoding has
  less than \<open>2^30\<close> bytes, where the index \<^verbatim>\<open>4*i/3\<close> does not wrap.  Signed messages have less than \<open>2^32 - 63\<close> bytes, the
  range of an \<^verbatim>\<open>unsigned int\<close> length.  Random padding ends when the stream has enough nonzero bytes, which is a hypothesis on the
  random object, discharged in the witnesses by evaluating its output.

  \<^bold>\<open>Not modelled.\<close>  Third-party code in the tree (Lua and its libraries, zlib, pugixml, jsoncpp, pbc, uchardet, rijndael, jwsmtp, the headers
  of MySQL, curl and libevent) and its wrappers; the Lua bindings, which only convert arguments; files, logs, mail, HTTP, opening
  sockets and the event loop, which are calls of the operating system or of libevent; saving keys to files; memory management, apart
  from the object pool; the clearing of local variables.  The clocks, the random seed and the order of the threads are
  inputs.
\<close>

end
